(* ===== verification/Prelude.thy ===== *)
theory Prelude
  imports Main "HOL-Library.Word"
begin

unbundle bit_operations_syntax

text \<open>
  Shared vocabulary of the development: the machine integer types of the C++ code, the result
  type of fallible code, the development's collections of simplification rules, and the generic
  lemmas on words, lists and folds that the component theories use.

  \<^item> \<open>uint8\<close>, \<open>uint32\<close>, \<open>uint64\<close> are the fixed-width unsigned integers of \<open>stdint.h\<close>; arithmetic
    on them wraps around as in C++. A C++ \<open>size_t\<close> that counts bytes or elements in memory is a
    \<open>nat\<close>, and a C++ \<open>int\<close> is an \<open>int\<close> where the code stays within its range.
  \<^item> A fallible operation returns \<open>('e, 'a) result\<close>, that is \<open>'e + 'a\<close>, with \<open>Inl\<close> for the error.
  \<^item> \<open>word_val\<close> collects the rules that turn word operations into arithmetic on \<open>nat\<close>;
    \<open>limb_simps\<close> the rules on arrays of limbs; \<open>bb_defs\<close> the definitions of the byte buffer.
\<close>

type_synonym uint8 = "8 word"
type_synonym uint16 = "16 word"
type_synonym uint32 = "32 word"
type_synonym uint64 = "64 word"

type_synonym ('e, 'a) result = "'e + 'a"

text \<open>Sequencing of fallible code: the first error ends the computation.\<close>

definition bindE :: "('e, 'a) result \<Rightarrow> ('a \<Rightarrow> ('e, 'b) result) \<Rightarrow> ('e, 'b) result" where
  "bindE m f = (case m of Inl e \<Rightarrow> Inl e | Inr x \<Rightarrow> f x)"

lemma bindE_simps [simp]: "bindE (Inl e) f = Inl e" "bindE (Inr x) f = f x"
  by (simp_all add: bindE_def)

lemma bindE_cong [fundef_cong]:
  "m = m' \<Longrightarrow> (\<And>x. m' = Inr x \<Longrightarrow> f x = g x) \<Longrightarrow> bindE m f = bindE m' g"
  by (auto simp: bindE_def split: sum.splits)

lemma bindE_eq_Inr: "bindE m f = Inr y \<longleftrightarrow> (\<exists>x. m = Inr x \<and> f x = Inr y)"
  by (cases m) auto

named_theorems word_val \<open>word operations as arithmetic on nat\<close>
named_theorems limb_simps \<open>arrays of limbs\<close>
named_theorems bb_defs \<open>operations of the byte buffer\<close>

section \<open>Words\<close>

lemma unat_bound: "unat (w :: 'a::len word) < 2 ^ LENGTH('a)"
  by (rule unsigned_less)

lemma unat_ucast_32_64 [word_val]: "unat (ucast (w :: uint32) :: uint64) = unat w"
  using unat_bound [of w] by (simp add: unsigned_ucast_eq take_bit_nat_eq_self_iff)

lemma unat_ucast_8_64 [word_val]: "unat (ucast (w :: uint8) :: uint64) = unat w"
  using unat_bound [of w] by (simp add: unsigned_ucast_eq take_bit_nat_eq_self_iff)

lemma unat_ucast_8_32 [word_val]: "unat (ucast (w :: uint8) :: uint32) = unat w"
  using unat_bound [of w] by (simp add: unsigned_ucast_eq take_bit_nat_eq_self_iff)

lemma unat_low32 [word_val]: "unat (ucast (n :: uint64) :: uint32) = unat n mod 2 ^ 32"
  by (simp add: unsigned_ucast_eq take_bit_eq_mod)

lemma unat_low8 [word_val]: "unat (ucast (n :: uint32) :: uint8) = unat n mod 2 ^ 8"
  by (simp add: unsigned_ucast_eq take_bit_eq_mod)

lemma unat_drop_bit [word_val]: "unat (drop_bit k (n :: 'a::len word)) = unat n div 2 ^ k"
  by (simp add: unat_drop_bit_eq flip: drop_bit_eq_div)

lemma uint32_bound: "unat (w :: uint32) < 4294967296"
  using unat_bound [of w] by simp

lemma uint8_bound: "unat (w :: uint8) < 256"
  using unat_bound [of w] by simp

lemma unat_power2_64: "k < 64 \<Longrightarrow> unat (2 ^ k :: uint64) = 2 ^ k"
proof -
  assume "k < 64"
  then have "take_bit 64 ((2::nat) ^ k) = 2 ^ k"
    by (simp only: take_bit_nat_eq_self_iff) (intro power_strict_increasing, auto)
  moreover have "(2 ^ k :: uint64) = of_nat (2 ^ k)" by simp
  ultimately show ?thesis by (simp only: unsigned_of_nat) simp
qed

lemma div_low: "x < d \<Longrightarrow> (x + d * q) div d = q" for x d q :: nat
  by simp

lemma mod_low: "x < d \<Longrightarrow> (x + d * q) mod d = x" for x d q :: nat
  by simp

section \<open>Folds over index ranges\<close>

text \<open>A counting loop is \<open>foldl\<close> over \<open>[0..<n]\<close>; an invariant of the loop is proved once.\<close>

lemma foldl_upt_Suc: "foldl f s [0..<Suc n] = f (foldl f s [0..<n]) n"
  by simp

lemma foldl_upt_invariant:
  assumes "P 0 s"
    and "\<And>i t. i < n \<Longrightarrow> P i t \<Longrightarrow> P (Suc i) (f t i)"
  shows "P n (foldl f s [0..<n])"
  using assms(2)
proof (induction n)
  case 0
  then show ?case using assms(1) by simp
next
  case (Suc n)
  then have "P n (foldl f s [0..<n])" by simp
  then show ?case using Suc.prems by simp
qed

end
