(* ===== verification/Arith_Uint256.thy ===== *)
theory Arith_Uint256
  imports Prelude
begin

text \<open>
  The 256-bit unsigned integers of \<open>libs/common/arith_uint256.h\<close> and \<open>arith_uint256.cpp\<close>.

  A \<open>base_uint\<close> is the member array \<open>pn\<close> of 32-bit limbs, least significant first; the only
  instantiation of the template in the program is \<open>base_uint<256>\<close>, so \<open>WIDTH\<close> is 8. Each loop of
  the source over \<open>0 .. WIDTH-1\<close> is a \<open>foldl\<close> over the index range whose body updates the array at
  the index the source writes; each descending loop is a recursion on the index. The functions
  return the updated object, as the operators return \<open>*this\<close>.

  \<open>val\<close> is the abstraction to \<open>nat\<close>. The lemmas show that every operator computes the arithmetic
  or bitwise operation it is named after modulo \<open>2 ^ 256\<close>, that the shift-subtract division
  computes the quotient (and throws exactly on a zero divisor).
\<close>

unbundle bit_operations_syntax

section \<open>Definitions\<close>

type_synonym base_uint = "uint32 list"

datatype uint_error = DivisionByZero

definition WIDTH :: nat where
  "WIDTH = 8"

definition base_uint_zero :: base_uint where
  "base_uint_zero = replicate WIDTH 0"

definition base_uint_of_u64 :: "uint64 \<Rightarrow> base_uint" where
  "base_uint_of_u64 b = [ucast b, ucast (drop_bit 32 b)] @ replicate (WIDTH - 2) 0"

definition is_zero :: "base_uint \<Rightarrow> bool" where
  "is_zero pn = list_all (\<lambda>i. pn ! i = 0) [0..<WIDTH]"

definition op_not :: "base_uint \<Rightarrow> base_uint" where
  "op_not pn = foldl (\<lambda>ret i. ret[i := NOT (pn ! i)]) base_uint_zero [0..<WIDTH]"

function preinc_loop :: "nat \<Rightarrow> base_uint \<Rightarrow> base_uint" where
  "preinc_loop i pn =
     (if i < WIDTH
      then let pn' = pn[i := pn ! i + 1]
           in if pn' ! i = 0 then preinc_loop (Suc i) pn' else pn'
      else pn)"
  by pat_completeness auto
termination
  by (relation "measure (\<lambda>(i, pn). WIDTH - i)") auto

definition op_preinc :: "base_uint \<Rightarrow> base_uint" where
  "op_preinc pn = preinc_loop 0 pn"

function predec_loop :: "nat \<Rightarrow> base_uint \<Rightarrow> base_uint" where
  "predec_loop i pn =
     (if i < WIDTH
      then let pn' = pn[i := pn ! i - 1]
           in if pn' ! i = - 1 then predec_loop (Suc i) pn' else pn'
      else pn)"
  by pat_completeness auto
termination
  by (relation "measure (\<lambda>(i, pn). WIDTH - i)") auto

definition op_predec :: "base_uint \<Rightarrow> base_uint" where
  "op_predec pn = predec_loop 0 pn"

definition op_postinc :: "base_uint \<Rightarrow> base_uint \<times> base_uint" where
  "op_postinc pn = (pn, op_preinc pn)"

definition op_postdec :: "base_uint \<Rightarrow> base_uint \<times> base_uint" where
  "op_postdec pn = (pn, op_predec pn)"

definition op_neg :: "base_uint \<Rightarrow> base_uint" where
  "op_neg pn =
     (let ret = foldl (\<lambda>ret i. ret[i := NOT (pn ! i)]) base_uint_zero [0..<WIDTH]
      in snd (op_postinc ret))"

definition op_xor_assign :: "base_uint \<Rightarrow> base_uint \<Rightarrow> base_uint" where
  "op_xor_assign pn b = foldl (\<lambda>pn i. pn[i := pn ! i XOR b ! i]) pn [0..<WIDTH]"

definition op_and_assign :: "base_uint \<Rightarrow> base_uint \<Rightarrow> base_uint" where
  "op_and_assign pn b = foldl (\<lambda>pn i. pn[i := pn ! i AND b ! i]) pn [0..<WIDTH]"

definition op_or_assign :: "base_uint \<Rightarrow> base_uint \<Rightarrow> base_uint" where
  "op_or_assign pn b = foldl (\<lambda>pn i. pn[i := pn ! i OR b ! i]) pn [0..<WIDTH]"

definition op_xor_assign_u64 :: "base_uint \<Rightarrow> uint64 \<Rightarrow> base_uint" where
  "op_xor_assign_u64 pn b =
     (let pn = pn[0 := pn ! 0 XOR ucast b] in pn[1 := pn ! 1 XOR ucast (drop_bit 32 b)])"

definition op_or_assign_u64 :: "base_uint \<Rightarrow> uint64 \<Rightarrow> base_uint" where
  "op_or_assign_u64 pn b =
     (let pn = pn[0 := pn ! 0 OR ucast b] in pn[1 := pn ! 1 OR ucast (drop_bit 32 b)])"

definition add_body :: "base_uint \<Rightarrow> uint64 \<times> base_uint \<Rightarrow> nat \<Rightarrow> uint64 \<times> base_uint" where
  "add_body b s i =
     (let (carry, pn) = s;
          n = carry + ucast (pn ! i) + ucast (b ! i)
      in (drop_bit 32 n, pn[i := ucast (n AND 0xffffffff)]))"

definition op_add_assign :: "base_uint \<Rightarrow> base_uint \<Rightarrow> base_uint" where
  "op_add_assign pn b = snd (foldl (add_body b) (0, pn) [0..<WIDTH])"

definition op_sub_assign :: "base_uint \<Rightarrow> base_uint \<Rightarrow> base_uint" where
  "op_sub_assign pn b = op_add_assign pn (op_neg b)"

definition op_add_assign_u64 :: "base_uint \<Rightarrow> uint64 \<Rightarrow> base_uint" where
  "op_add_assign_u64 pn b64 = op_add_assign pn (base_uint_of_u64 b64)"

definition op_sub_assign_u64 :: "base_uint \<Rightarrow> uint64 \<Rightarrow> base_uint" where
  "op_sub_assign_u64 pn b64 = op_add_assign pn (op_neg (base_uint_of_u64 b64))"

definition shl_body :: "base_uint \<Rightarrow> nat \<Rightarrow> nat \<Rightarrow> base_uint \<Rightarrow> nat \<Rightarrow> base_uint" where
  "shl_body a k shift pn i =
     (let pn = (if i + k + 1 < WIDTH \<and> shift \<noteq> 0
                then pn[i + k + 1 := pn ! (i + k + 1) OR drop_bit (32 - shift) (a ! i)] else pn)
      in if i + k < WIDTH then pn[i + k := pn ! (i + k) OR push_bit shift (a ! i)] else pn)"

definition op_shl_assign :: "base_uint \<Rightarrow> nat \<Rightarrow> base_uint" where
  "op_shl_assign a shift =
     foldl (shl_body a (shift div 32) (shift mod 32)) (replicate WIDTH 0) [0..<WIDTH]"

definition shr_body :: "base_uint \<Rightarrow> nat \<Rightarrow> nat \<Rightarrow> base_uint \<Rightarrow> nat \<Rightarrow> base_uint" where
  "shr_body a k shift pn i =
     (let pn = (if int i - int k - 1 \<ge> 0 \<and> shift \<noteq> 0
                then pn[i - k - 1 := pn ! (i - k - 1) OR push_bit (32 - shift) (a ! i)] else pn)
      in if int i - int k \<ge> 0 then pn[i - k := pn ! (i - k) OR drop_bit shift (a ! i)] else pn)"

definition op_shr_assign :: "base_uint \<Rightarrow> nat \<Rightarrow> base_uint" where
  "op_shr_assign a shift =
     foldl (shr_body a (shift div 32) (shift mod 32)) (replicate WIDTH 0) [0..<WIDTH]"

definition mul32_body :: "uint32 \<Rightarrow> uint64 \<times> base_uint \<Rightarrow> nat \<Rightarrow> uint64 \<times> base_uint" where
  "mul32_body b32 s i =
     (let (carry, pn) = s;
          n = carry + ucast b32 * ucast (pn ! i)
      in (drop_bit 32 n, pn[i := ucast (n AND 0xffffffff)]))"

definition op_mul_assign_u32 :: "base_uint \<Rightarrow> uint32 \<Rightarrow> base_uint" where
  "op_mul_assign_u32 pn b32 = snd (foldl (mul32_body b32) (0, pn) [0..<WIDTH])"

definition mul_inner ::
  "base_uint \<Rightarrow> base_uint \<Rightarrow> nat \<Rightarrow> uint64 \<times> base_uint \<Rightarrow> nat \<Rightarrow> uint64 \<times> base_uint" where
  "mul_inner a b j s i =
     (let (carry, pn) = s;
          n = carry + ucast (pn ! (i + j)) + ucast (a ! j) * ucast (b ! i)
      in (drop_bit 32 n, pn[i + j := ucast (n AND 0xffffffff)]))"

definition mul_outer :: "base_uint \<Rightarrow> base_uint \<Rightarrow> base_uint \<Rightarrow> nat \<Rightarrow> base_uint" where
  "mul_outer a b pn j = snd (foldl (mul_inner a b j) (0, pn) [0..<WIDTH - j])"

definition op_mul_assign :: "base_uint \<Rightarrow> base_uint \<Rightarrow> base_uint" where
  "op_mul_assign a b = foldl (mul_outer a b) (base_uint_of_u64 0) [0..<WIDTH]"

fun compareTo_loop :: "base_uint \<Rightarrow> base_uint \<Rightarrow> nat \<Rightarrow> int" where
  "compareTo_loop pn b 0 = 0"
| "compareTo_loop pn b (Suc i) =
     (if pn ! i < b ! i then - 1 else if pn ! i > b ! i then 1 else compareTo_loop pn b i)"

definition compareTo :: "base_uint \<Rightarrow> base_uint \<Rightarrow> int" where
  "compareTo pn b = compareTo_loop pn b WIDTH"

definition equalTo :: "base_uint \<Rightarrow> uint64 \<Rightarrow> bool" where
  "equalTo pn b =
     (if \<not> list_all (\<lambda>i. pn ! i = 0) (rev [2..<WIDTH]) then False
      else if ucast (pn ! 1) \<noteq> drop_bit 32 b then False
      else if ucast (pn ! 0) \<noteq> b AND 0xffffffff then False
      else True)"

fun top_bit :: "uint32 \<Rightarrow> nat \<Rightarrow> nat" where
  "top_bit p 0 = 1"
| "top_bit p (Suc nbits) =
     (if p AND push_bit (Suc nbits) 1 \<noteq> 0 then Suc nbits + 1 else top_bit p nbits)"

fun bits_loop :: "base_uint \<Rightarrow> nat \<Rightarrow> nat" where
  "bits_loop pn 0 = 0"
| "bits_loop pn (Suc pos) =
     (if pn ! pos \<noteq> 0 then 32 * pos + top_bit (pn ! pos) 31 else bits_loop pn pos)"

definition bits :: "base_uint \<Rightarrow> nat" where
  "bits pn = bits_loop pn WIDTH"

definition getLow64 :: "base_uint \<Rightarrow> uint64" where
  "getLow64 pn = ucast (pn ! 0) OR push_bit 32 (ucast (pn ! 1))"

function div_loop :: "int \<Rightarrow> base_uint \<Rightarrow> base_uint \<Rightarrow> base_uint \<Rightarrow> base_uint \<times> base_uint" where
  "div_loop shift num dv pn =
     (if shift \<ge> 0
      then let (num, pn) =
                 (if compareTo num dv \<ge> 0
                  then (op_sub_assign num dv,
                        pn[nat shift div 32 :=
                             pn ! (nat shift div 32) OR push_bit (nat shift mod 32) 1])
                  else (num, pn))
           in div_loop (shift - 1) num (op_shr_assign dv 1) pn
      else (pn, num))"
  by pat_completeness auto
termination
  by (relation "measure (\<lambda>(shift, num, dv, pn). nat (shift + 1))") auto

definition op_div_assign :: "base_uint \<Rightarrow> base_uint \<Rightarrow> (uint_error, base_uint) result" where
  "op_div_assign num b =
     (let num_bits = bits num; div_bits = bits b; q = base_uint_of_u64 0
      in if div_bits = 0 then Inl DivisionByZero
         else if div_bits > num_bits then Inr q
         else let shift = num_bits - div_bits
              in Inr (fst (div_loop (int shift) num (op_shl_assign b shift) q)))"

definition op_plus :: "base_uint \<Rightarrow> base_uint \<Rightarrow> base_uint" where
  "op_plus a b = op_add_assign a b"

definition op_minus :: "base_uint \<Rightarrow> base_uint \<Rightarrow> base_uint" where
  "op_minus a b = op_sub_assign a b"

definition op_divide :: "base_uint \<Rightarrow> base_uint \<Rightarrow> (uint_error, base_uint) result" where
  "op_divide a b = op_div_assign a b"

definition op_gt :: "base_uint \<Rightarrow> base_uint \<Rightarrow> bool" where
  "op_gt a b = (compareTo a b > 0)"

definition op_lt :: "base_uint \<Rightarrow> base_uint \<Rightarrow> bool" where
  "op_lt a b = (compareTo a b < 0)"

definition op_ge :: "base_uint \<Rightarrow> base_uint \<Rightarrow> bool" where
  "op_ge a b = (compareTo a b \<ge> 0)"

text \<open>The abstraction to natural numbers, and the shape of a \<open>base_uint<256>\<close>.\<close>

primrec val :: "uint32 list \<Rightarrow> nat" where
  "val [] = 0"
| "val (p # ps) = unat p + 2 ^ 32 * val ps"

abbreviation wf256 :: "base_uint \<Rightarrow> bool" where
  "wf256 a \<equiv> length a = WIDTH"


declare preinc_loop.simps [simp del] predec_loop.simps [simp del] div_loop.simps [simp del]

section \<open>The value of an array of limbs\<close>

lemma val_append [limb_simps]: "val (ps @ qs) = val ps + 2 ^ (32 * length ps) * val qs"
  by (induction ps) (auto simp: power_add algebra_simps)

lemma val_replicate_0 [limb_simps]: "val (replicate n 0) = 0"
  by (induction n) auto

lemma val_less: "val ps < 2 ^ (32 * length ps)"
proof (induction ps)
  case Nil
  then show ?case by simp
next
  case (Cons p ps)
  have "unat p + 2 ^ 32 * val ps < 2 ^ 32 + 2 ^ 32 * val ps"
    using unat_bound [of p] by simp
  also have "\<dots> = 2 ^ 32 * Suc (val ps)" by simp
  also have "\<dots> \<le> 2 ^ 32 * 2 ^ (32 * length ps)"
    using Cons by (intro mult_le_mono2) simp
  finally show ?case by (simp add: power_add)
qed

lemma val_less_256: "wf256 a \<Longrightarrow> val a < 2 ^ 256"
  using val_less [of a] by (simp add: WIDTH_def)

lemma val_update:
  "i < length ps \<Longrightarrow>
     val (ps[i := x]) + 2 ^ (32 * i) * unat (ps ! i) = val ps + 2 ^ (32 * i) * unat x"
proof (induction ps arbitrary: i)
  case Nil
  then show ?case by simp
next
  case (Cons p ps)
  show ?case
  proof (cases i)
    case 0
    then show ?thesis by simp
  next
    case (Suc j)
    with Cons.prems have "j < length ps" by simp
    then have "2 ^ 32 * (val (ps[j := x]) + 2 ^ (32 * j) * unat (ps ! j))
             = 2 ^ 32 * (val ps + 2 ^ (32 * j) * unat x)"
      by (simp only: Cons.IH)
    then show ?thesis using Suc by (simp add: power_add algebra_simps)
  qed
qed

lemma val_take_Suc: "i < length ps \<Longrightarrow>
    val (take (Suc i) ps) = val (take i ps) + 2 ^ (32 * i) * unat (ps ! i)"
  by (simp add: take_Suc_conv_app_nth val_append)

lemma val_inj: "length a = length b \<Longrightarrow> val a = val b \<Longrightarrow> a = b"
proof (induction a b rule: list_induct2)
  case Nil
  then show ?case by simp
next
  case (Cons x xs y ys)
  have "(unat x + 2 ^ 32 * val xs) mod 2 ^ 32 = unat x"
    and "(unat y + 2 ^ 32 * val ys) mod 2 ^ 32 = unat y"
    using unat_bound [of x] unat_bound [of y] by simp_all
  then have "unat x = unat y" using Cons.prems by (metis val.simps(2))
  moreover from this have "val xs = val ys" using Cons.prems by simp
  ultimately show ?case using Cons.IH by (simp add: word_unat_eq_iff)
qed

lemma val_eq_0_iff: "val ps = 0 \<longleftrightarrow> (\<forall>p \<in> set ps. p = 0)"
  by (induction ps) (auto simp: unsigned_eq_0_iff)

lemma bit_val: "bit (val ps) n \<longleftrightarrow> n div 32 < length ps \<and> bit (ps ! (n div 32)) (n mod 32)"
proof (induction ps arbitrary: n)
  case Nil
  then show ?case by simp
next
  case (Cons p ps)
  have split: "val (p # ps) = or (unat p) (push_bit 32 (val ps))"
  proof -
    have "\<not> (bit (unat p) k \<and> bit (push_bit 32 (val ps)) k)" for k
      by (auto simp: bit_simps bit_unsigned_iff dest: bit_imp_le_length)
    then have "unat p + push_bit 32 (val ps) = or (unat p) (push_bit 32 (val ps))"
      by (intro disjunctive_add) auto
    then show ?thesis by (simp add: push_bit_eq_mult mult.commute)
  qed
  show ?case
  proof (cases "n < 32")
    case True
    then show ?thesis by (simp only: split) (simp add: bit_simps)
  next
    case False
    then have "n div 32 = Suc ((n - 32) div 32)" and "n mod 32 = (n - 32) mod 32"
      by (simp_all add: le_div_geq le_mod_geq)
    with False show ?thesis
      by (simp only: split) (auto simp: bit_simps Cons.IH dest: bit_imp_le_length)
  qed
qed

lemma val_eqI:
  assumes "wf256 a"
    and "\<And>i. i < 256 \<Longrightarrow> bit (a ! (i div 32)) (i mod 32) = bit m i"
    and "m < 2 ^ 256"
  shows "val a = m"
proof (rule bit_eqI)
  fix i
  show "bit (val a) i = bit m i"
  proof (cases "i < 256")
    case True
    then have "i div 32 < length a" using assms(1) by (simp add: WIDTH_def)
    then show ?thesis using True assms(2) by (simp add: bit_val)
  next
    case False
    then have "\<not> bit m i"
      using assms(3) by (metis bit_take_bit_iff take_bit_nat_eq_self_iff)
    moreover have "\<not> i div 32 < length a" using False assms(1) by (simp add: WIDTH_def)
    ultimately show ?thesis by (simp add: bit_val)
  qed
qed


section \<open>Constants, increment and negation\<close>

lemma wf256_simps [simp, limb_simps]:
  "length base_uint_zero = WIDTH" "length (base_uint_of_u64 b) = WIDTH"
  by (simp_all add: base_uint_zero_def base_uint_of_u64_def WIDTH_def)

lemma val_zero [simp]: "val base_uint_zero = 0"
  by (simp add: base_uint_zero_def limb_simps)

lemma val_of_u64 [simp]: "val (base_uint_of_u64 b) = unat b"
proof -
  have "unat b div 2 ^ 32 < 2 ^ 32"
    using unat_bound [of b] by (simp add: less_mult_imp_div_less)
  then have "unat b mod 2 ^ 32 + 2 ^ 32 * (unat b div 2 ^ 32 mod 2 ^ 32) = unat b"
    by simp
  then show ?thesis
    by (simp add: base_uint_of_u64_def limb_simps word_val)
qed

lemma is_zero_iff: "wf256 a \<Longrightarrow> is_zero a \<longleftrightarrow> val a = 0"
  by (fastforce simp: is_zero_def val_eq_0_iff list_all_iff in_set_conv_nth)

lemma foldl_pointwise:
  assumes "length pn = n"
  shows "foldl (\<lambda>pn i. pn[i := f i (pn ! i)]) pn [0..<n] = map (\<lambda>i. f i (pn ! i)) [0..<n]"
proof -
  let ?P = "\<lambda>k qs. length qs = n \<and> (\<forall>i < n. qs ! i = (if i < k then f i (pn ! i) else pn ! i))"
  have "?P n (foldl (\<lambda>pn i. pn[i := f i (pn ! i)]) pn [0..<n])"
    by (rule foldl_upt_invariant) (use assms in \<open>auto simp: nth_list_update\<close>)
  then show ?thesis by (auto intro!: nth_equalityI)
qed

lemma op_not_eq: "op_not a = map (\<lambda>i. NOT (a ! i)) [0..<WIDTH]"
  unfolding op_not_def
  using foldl_pointwise [of base_uint_zero WIDTH "\<lambda>i _. NOT (a ! i)"] by simp

lemma wf256_op_not [simp]: "wf256 (op_not a)"
  by (simp add: op_not_eq)

lemma unat_not_add: "unat (NOT p) + unat p = 2 ^ 32 - 1" for p :: uint32
proof -
  have "(unat p + unat (NOT p)) mod 2 ^ 32 = unat (p + NOT p)"
    by (simp only: unat_word_ariths) simp
  also have "\<dots> = 2 ^ 32 - 1" by (simp only: word_add_not) (simp add: unsigned_minus_1_eq_mask mask_eq_exp_minus_1)
  finally have m: "(unat p + unat (NOT p)) mod 2 ^ 32 = 2 ^ 32 - 1" .
  show ?thesis
  proof (cases "unat p + unat (NOT p) < 2 ^ 32")
    case True
    then show ?thesis using m by simp
  next
    case False
    moreover have "unat p + unat (NOT p) - 2 ^ 32 < 2 ^ 32 - 1"
      using unat_bound [of p] unat_bound [of "NOT p"] False by simp
    ultimately show ?thesis using m by (simp add: le_mod_geq)
  qed
qed

lemma val_not_add: "val (map NOT ps) + val ps + 1 = 2 ^ (32 * length ps)"
proof (induction ps)
  case Nil
  then show ?case by simp
next
  case (Cons p ps)
  have "val (map NOT (p # ps)) + val (p # ps) + 1
      = (unat (NOT p) + unat p + 1) + 2 ^ 32 * (val (map NOT ps) + val ps)"
    by (simp add: algebra_simps)
  also have "\<dots> = 2 ^ 32 * (val (map NOT ps) + val ps + 1)"
    using unat_not_add [of p] by (simp add: algebra_simps)
  also have "\<dots> = 2 ^ (32 * length (p # ps))"
    by (simp only: Cons) (simp add: power_add)
  finally show ?case .
qed

theorem val_op_not: "wf256 a \<Longrightarrow> val (op_not a) = 2 ^ 256 - 1 - val a"
proof -
  assume wf: "wf256 a"
  have "op_not a = map NOT a"
    using wf by (auto simp: op_not_eq intro: nth_equalityI)
  then show ?thesis using val_not_add [of a] wf by (simp add: WIDTH_def)
qed

lemma preinc_loop_val:
  assumes "wf256 pn" "i \<le> WIDTH" "\<forall>j < i. pn ! j = 0"
  shows "wf256 (preinc_loop i pn) \<and>
     val (preinc_loop i pn) = (val pn + 2 ^ (32 * i)) mod 2 ^ 256"
  using assms
proof (induction i pn rule: preinc_loop.induct)
  case (1 i pn)
  let ?pn = "pn[i := pn ! i + 1]"
  show ?case
  proof (cases "i < WIDTH")
    case False
    with 1 have "i = WIDTH" by simp
    with 1 have "pn = replicate WIDTH 0" by (auto intro: nth_equalityI)
    with \<open>i = WIDTH\<close> show ?thesis
      by (simp add: preinc_loop.simps val_replicate_0 WIDTH_def)
  next
    case True
    then have upd: "val ?pn + 2 ^ (32 * i) * unat (pn ! i)
                  = val pn + 2 ^ (32 * i) * unat (pn ! i + 1)"
      using 1 by (intro val_update) simp
    show ?thesis
    proof (cases "pn ! i + 1 = 0")
      case carry: True
      then have "unat (pn ! i) = 2 ^ 32 - 1"
        using unat_not_add [of 0] by (simp add: eq_neg_iff_add_eq_0 [symmetric])
      with carry upd have "val ?pn + 2 ^ (32 * Suc i) = val pn + 2 ^ (32 * i)"
        by (simp add: algebra_simps power_add)
      moreover have "\<forall>j < Suc i. ?pn ! j = 0"
        using carry "1.prems" True by (auto simp: nth_list_update less_Suc_eq)
      ultimately show ?thesis
        using "1.IH" [OF True refl] carry True "1.prems"
        by (simp add: preinc_loop.simps [of i pn])
    next
      case no_carry: False
      then have "unat (pn ! i + 1) = unat (pn ! i) + 1"
        by (metis Suc_eq_plus1 unatSuc add.commute)
      with upd have v: "val ?pn = val pn + 2 ^ (32 * i)"
        by (simp add: algebra_simps)
      moreover have "val ?pn < 2 ^ 256" using "1.prems" by (intro val_less_256) simp
      ultimately show ?thesis
        using no_carry True "1.prems" by (simp add: preinc_loop.simps [of i pn])
    qed
  qed
qed

lemma op_preinc_correct:
  "wf256 a \<Longrightarrow> wf256 (op_preinc a) \<and> val (op_preinc a) = (val a + 1) mod 2 ^ 256"
  using preinc_loop_val [of a 0] by (simp add: op_preinc_def)


theorem op_neg_correct:
  "wf256 a \<Longrightarrow> wf256 (op_neg a) \<and> val (op_neg a) = (2 ^ 256 - val a) mod 2 ^ 256"
proof -
  assume wf: "wf256 a"
  have "op_neg a = op_preinc (op_not a)"
    by (simp add: op_neg_def op_not_def op_postinc_def)
  moreover have "2 ^ 256 - 1 - val a + 1 = 2 ^ 256 - val a"
    using val_less_256 [OF wf] by simp
  ultimately show ?thesis
    using op_preinc_correct [of "op_not a"] val_op_not [OF wf] by simp
qed

lemma predec_loop_val:
  assumes "wf256 pn" "i \<le> WIDTH" "\<forall>j < i. pn ! j = - 1"
  shows "wf256 (predec_loop i pn) \<and>
     val (predec_loop i pn) = (val pn + 2 ^ 256 - 2 ^ (32 * i)) mod 2 ^ 256"
  using assms
proof (induction i pn rule: predec_loop.induct)
  case (1 i pn)
  let ?pn = "pn[i := pn ! i - 1]"
  have top: "(2::nat) ^ (32 * i) \<le> 2 ^ 256"
    using "1.prems" by (intro power_increasing) (auto simp: WIDTH_def)
  show ?case
  proof (cases "i < WIDTH")
    case False
    with 1 have "i = WIDTH" by simp
    then show ?thesis
      using "1.prems" val_less_256 [of pn] by (simp add: predec_loop.simps WIDTH_def)
  next
    case True
    then have upd: "val ?pn + 2 ^ (32 * i) * unat (pn ! i)
                  = val pn + 2 ^ (32 * i) * unat (pn ! i - 1)"
      using 1 by (intro val_update) simp
    show ?thesis
    proof (cases "pn ! i = 0")
      case borrow: True
      have "unat (- 1 :: uint32) = 2 ^ 32 - 1" using unat_not_add [of 0] by simp
      with borrow upd have "val ?pn + 2 ^ (32 * i) = val pn + 2 ^ (32 * Suc i)"
        by (simp add: algebra_simps power_add)
      moreover have "(2::nat) ^ (32 * Suc i) \<le> 2 ^ 256"
        using True by (intro power_increasing) (auto simp: WIDTH_def)
      ultimately have "val ?pn + 2 ^ 256 - 2 ^ (32 * Suc i) = val pn + 2 ^ 256 - 2 ^ (32 * i)"
        using top by linarith
      moreover have "\<forall>j < Suc i. ?pn ! j = - 1"
        using borrow "1.prems" True by (auto simp: nth_list_update less_Suc_eq)
      ultimately show ?thesis
        using "1.IH" [OF True refl] borrow True "1.prems"
        by (simp add: predec_loop.simps [of i pn])
    next
      case no_borrow: False
      then have "unat (pn ! i) = Suc (unat (pn ! i - 1))"
        using unat_minus_one [OF no_borrow] by (simp add: unat_gt_0)
      with upd have "val ?pn + 2 ^ (32 * i) = val pn" by (simp add: algebra_simps)
      then have "val pn + 2 ^ 256 - 2 ^ (32 * i) = val ?pn + 2 ^ 256" by linarith
      moreover have "val ?pn < 2 ^ 256" using "1.prems" by (intro val_less_256) simp
      moreover have "pn ! i - 1 \<noteq> - 1" using no_borrow by simp
      ultimately show ?thesis
        using True "1.prems" by (simp add: predec_loop.simps [of i pn])
    qed
  qed
qed

lemma op_predec_correct:
  "wf256 a \<Longrightarrow> wf256 (op_predec a) \<and> val (op_predec a) = (val a + 2 ^ 256 - 1) mod 2 ^ 256"
  using predec_loop_val [of a 0] by (simp add: op_predec_def)

section \<open>Addition, subtraction and multiplication\<close>

lemma unat_mask32: "unat (n AND 0xffffffff :: uint64) = unat n mod 2 ^ 32"
proof -
  have "(0xffffffff :: uint64) = mask 32" by (simp add: mask_eq_exp_minus_1)
  then have "n AND 0xffffffff = take_bit 32 n" by (simp only: take_bit_eq_mask)
  then have "unat (n AND 0xffffffff) = take_bit 32 (unat n)" by (simp only: unsigned_take_bit_eq)
  then show ?thesis by (simp only: take_bit_eq_mod)
qed

lemma unat_limb [word_val]: "unat (ucast (n AND 0xffffffff :: uint64) :: uint32) = unat n mod 2 ^ 32"
  by (simp only: unat_low32 unat_mask32) simp

text \<open>
  One step of a carry loop: writing the low half of \<open>n\<close> at index \<open>i\<close> and keeping the high half as
  the carry adds \<open>n\<close> at that index in place of what was there.
\<close>

lemma carry_step:
  assumes "i < length pn"
  shows "val (pn[i := ucast (n AND 0xffffffff :: uint64)])
           + 2 ^ (32 * Suc i) * unat (drop_bit 32 n) + 2 ^ (32 * i) * unat (pn ! i)
         = val pn + 2 ^ (32 * i) * unat n"
proof -
  have "unat n = unat n mod 2 ^ 32 + 2 ^ 32 * (unat n div 2 ^ 32)" by simp
  then have "2 ^ (32 * i) * unat n
      = 2 ^ (32 * i) * (unat n mod 2 ^ 32) + 2 ^ (32 * Suc i) * (unat n div 2 ^ 32)"
    by (simp add: power_add algebra_simps flip: distrib_left)
  then show ?thesis
    using val_update [OF assms, of "ucast (n AND 0xffffffff)", unfolded unat_limb]
    by (simp add: unat_drop_bit)
qed


lemma unat_add_no_overflow:
  "unat a + unat b < 2 ^ 64 \<Longrightarrow> unat (a + b :: uint64) = unat a + unat b"
  by (simp add: unat_word_ariths)

lemma unat_mult_32 [word_val]:
  "unat (ucast (x :: uint32) * ucast (y :: uint32) :: uint64) = unat x * unat y"
proof -
  have "unat x * unat y < 2 ^ 32 * 2 ^ 32"
    using unat_bound [of x] unat_bound [of y] by (intro mult_strict_mono) auto
  then show ?thesis by (simp add: unat_word_ariths unat_ucast_32_64)
qed

lemma mult_le_32: "unat (x :: uint32) * unat (y :: uint32) \<le> (2 ^ 32 - 1) * (2 ^ 32 - 1)"
  using unat_bound [of x] unat_bound [of y] by (intro mult_le_mono) auto

lemma add_loop_inv:
  assumes "wf256 pn" "wf256 b" "k \<le> WIDTH"
  shows "case foldl (add_body b) (0, pn) [0..<k] of (carry, qs) \<Rightarrow>
     wf256 qs \<and> unat carry \<le> 1 \<and>
     val qs + 2 ^ (32 * k) * unat carry = val pn + val (take k b)"
proof -
  let ?P = "\<lambda>k (carry :: uint64, qs). wf256 qs \<and> unat carry \<le> 1 \<and>
     val qs + 2 ^ (32 * k) * unat carry = val pn + val (take k b)"
  have "?P k (foldl (add_body b) (0, pn) [0..<k])"
  proof (rule foldl_upt_invariant)
    show "?P 0 (0, pn)" using assms by simp
  next
    fix i t assume i: "i < k" and inv: "?P i t"
    obtain carry qs where t: "t = (carry, qs)" by (cases t)
    define n :: uint64 where "n = carry + ucast (qs ! i) + ucast (b ! i)"
    have c: "unat carry \<le> 1" and wf: "wf256 qs" using inv t by auto
    have x: "unat (carry + ucast (qs ! i)) = unat carry + unat (qs ! i)"
      using c uint32_bound [of "qs ! i"]
      by (subst unat_add_no_overflow) (auto simp: unat_ucast_32_64)
    have n: "unat n = unat carry + unat (qs ! i) + unat (b ! i)"
      using c uint32_bound [of "qs ! i"] uint32_bound [of "b ! i"]
      unfolding n_def by (subst unat_add_no_overflow) (auto simp: unat_ucast_32_64 x)
    then have "unat (drop_bit 32 n) \<le> 1"
      using c uint32_bound [of "qs ! i"] uint32_bound [of "b ! i"]
      by (simp add: unat_drop_bit)
    moreover have "val (qs[i := ucast (n AND 0xffffffff)]) + 2 ^ (32 * Suc i) * unat (drop_bit 32 n)
        = val pn + val (take (Suc i) b)"
      using carry_step [of i qs n] val_take_Suc [of i b] inv t wf assms i
      by (simp add: n algebra_simps)
    ultimately show "?P (Suc i) (add_body b t i)"
      using wf by (simp add: t add_body_def Let_def n_def)
  qed
  then show ?thesis by simp
qed

lemma carry_loop_mod:
  assumes "wf256 qs" "val qs + 2 ^ 256 * c = m"
  shows "val qs = m mod 2 ^ 256"
  using assms val_less_256 [of qs] by auto

theorem op_add_assign_correct:
  assumes "wf256 a" "wf256 b"
  shows "wf256 (op_add_assign a b) \<and> val (op_add_assign a b) = (val a + val b) mod 2 ^ 256"
proof -
  obtain c qs where f: "foldl (add_body b) (0, a) [0..<WIDTH] = (c, qs)" by fastforce
  then have inv: "wf256 qs" "val qs + 2 ^ 256 * unat c = val a + val b"
    using add_loop_inv [OF assms, of WIDTH] assms by (simp_all add: WIDTH_def)
  from carry_loop_mod [OF inv] inv f show ?thesis by (simp add: op_add_assign_def)
qed

theorem op_sub_assign_correct:
  assumes "wf256 a" "wf256 b"
  shows "wf256 (op_sub_assign a b) \<and>
     val (op_sub_assign a b) = (val a + (2 ^ 256 - val b)) mod 2 ^ 256"
  using assms op_neg_correct [of b] op_add_assign_correct [of a "op_neg b"]
  by (simp add: op_sub_assign_def mod_add_right_eq)

lemma op_sub_assign_exact:
  assumes "wf256 a" "wf256 b" "val b \<le> val a"
  shows "val (op_sub_assign a b) = val a - val b"
proof -
  have "val a + (2 ^ 256 - val b) = val a - val b + 2 ^ 256"
    using assms val_less_256 [of b] by simp
  moreover have "val a - val b < 2 ^ 256" using assms val_less_256 [of a] by simp
  ultimately show ?thesis
    using op_sub_assign_correct [of a b] assms by (simp only: mod_add_self2 mod_less)
qed

lemma mul32_loop_inv:
  assumes "wf256 pn" "k \<le> WIDTH"
  shows "case foldl (mul32_body b) (0, pn) [0..<k] of (carry, qs) \<Rightarrow>
     wf256 qs \<and> unat carry < 2 ^ 32 \<and> (\<forall>j. k \<le> j \<longrightarrow> j < WIDTH \<longrightarrow> qs ! j = pn ! j) \<and>
     val (take k qs) + 2 ^ (32 * k) * unat carry = val (take k pn) * unat b"
proof -
  let ?P = "\<lambda>k (carry :: uint64, qs). wf256 qs \<and> unat carry < 2 ^ 32 \<and>
     (\<forall>j. k \<le> j \<longrightarrow> j < WIDTH \<longrightarrow> qs ! j = pn ! j) \<and>
     val (take k qs) + 2 ^ (32 * k) * unat carry = val (take k pn) * unat b"
  have "?P k (foldl (mul32_body b) (0, pn) [0..<k])"
  proof (rule foldl_upt_invariant)
    show "?P 0 (0, pn)" using assms by simp
  next
    fix i t assume i: "i < k" and inv: "?P i t"
    obtain carry qs where t: "t = (carry, qs)" by (cases t)
    define n :: uint64 where "n = carry + ucast b * ucast (qs ! i)"
    have c: "unat carry < 2 ^ 32" and wf: "wf256 qs" and q: "qs ! i = pn ! i"
      using inv t i assms by auto
    have n: "unat n = unat carry + unat b * unat (qs ! i)"
      using c mult_le_32 [of b "qs ! i"]
      unfolding n_def by (subst unat_add_no_overflow) (auto simp: unat_mult_32)
    then have "unat n < 2 ^ 32 * 2 ^ 32"
      using c mult_le_32 [of b "qs ! i"] by simp
    then have "unat (drop_bit 32 n) < 2 ^ 32"
      by (simp only: unat_drop_bit less_mult_imp_div_less)
    moreover have "val (take (Suc i) (qs[i := ucast (n AND 0xffffffff)]))
        + 2 ^ (32 * Suc i) * unat (drop_bit 32 n) = val (take (Suc i) pn) * unat b"
    proof -
      have "take i (qs[i := ucast (n AND 0xffffffff)]) = take i qs" by simp
      moreover have "unat n mod 2 ^ 32 + 2 ^ 32 * (unat n div 2 ^ 32) = unat n" by simp
      then have "2 ^ (32 * i) * (unat n mod 2 ^ 32) + 2 ^ (32 * Suc i) * (unat n div 2 ^ 32)
          = 2 ^ (32 * i) * unat n"
        by (simp add: power_add algebra_simps flip: distrib_left)
      ultimately show ?thesis
        using inv t wf assms i
        by (simp add: val_take_Suc unat_limb unat_drop_bit n q algebra_simps)
    qed
    ultimately show "?P (Suc i) (mul32_body b t i)"
      using wf inv t by (simp add: mul32_body_def Let_def n_def)
  qed
  then show ?thesis by simp
qed

theorem op_mul_assign_u32_correct:
  assumes "wf256 a"
  shows "wf256 (op_mul_assign_u32 a b) \<and> val (op_mul_assign_u32 a b) = (val a * unat b) mod 2 ^ 256"
proof -
  obtain c qs where f: "foldl (mul32_body b) (0, a) [0..<WIDTH] = (c, qs)" by fastforce
  then have inv: "wf256 qs" "val qs + 2 ^ 256 * unat c = val a * unat b"
    using mul32_loop_inv [OF assms, of WIDTH b] assms by (auto simp: WIDTH_def)
  from carry_loop_mod [OF inv] inv f show ?thesis by (simp add: op_mul_assign_u32_def)
qed


lemma mul_inner_inv:
  assumes "wf256 pn" "wf256 a" "wf256 b" "j < WIDTH" "k \<le> WIDTH - j"
  shows "case foldl (mul_inner a b j) (0, pn) [0..<k] of (carry, qs) \<Rightarrow>
     wf256 qs \<and> unat carry < 2 ^ 32 \<and>
     val qs + 2 ^ (32 * (k + j)) * unat carry
       = val pn + 2 ^ (32 * j) * (unat (a ! j) * val (take k b))"
proof -
  let ?P = "\<lambda>k (carry :: uint64, qs). wf256 qs \<and> unat carry < 2 ^ 32 \<and>
     val qs + 2 ^ (32 * (k + j)) * unat carry
       = val pn + 2 ^ (32 * j) * (unat (a ! j) * val (take k b))"
  have "?P k (foldl (mul_inner a b j) (0, pn) [0..<k])"
  proof (rule foldl_upt_invariant)
    show "?P 0 (0, pn)" using assms by simp
  next
    fix i t assume i: "i < k" and inv: "?P i t"
    obtain carry qs where t: "t = (carry, qs)" by (cases t)
    define n :: uint64 where "n = carry + ucast (qs ! (i + j)) + ucast (a ! j) * ucast (b ! i)"
    have c: "unat carry < 2 ^ 32" and wf: "wf256 qs" using inv t by auto
    have x: "unat (carry + ucast (qs ! (i + j))) = unat carry + unat (qs ! (i + j))"
      using c uint32_bound [of "qs ! (i + j)"]
      by (subst unat_add_no_overflow) (auto simp: unat_ucast_32_64)
    have n: "unat n = unat carry + unat (qs ! (i + j)) + unat (a ! j) * unat (b ! i)"
      using c uint32_bound [of "qs ! (i + j)"] mult_le_32 [of "a ! j" "b ! i"]
      unfolding n_def by (subst unat_add_no_overflow) (auto simp: unat_mult_32 x)
    have "unat (drop_bit 32 n) < 2 ^ 32"
      using unat_bound [of n] by (simp add: unat_drop_bit less_mult_imp_div_less)
    moreover have "val (qs[i + j := ucast (n AND 0xffffffff)])
        + 2 ^ (32 * (Suc i + j)) * unat (drop_bit 32 n)
        = val pn + 2 ^ (32 * j) * (unat (a ! j) * val (take (Suc i) b))"
      using carry_step [of "i + j" qs n] val_take_Suc [of i b] inv t wf assms i
      by (simp add: n power_add algebra_simps)
    ultimately show "?P (Suc i) (mul_inner a b j t i)"
      using wf by (simp add: t mul_inner_def Let_def n_def)
  qed
  then show ?thesis by simp
qed

lemma mul_outer_step:
  assumes "wf256 pn" "wf256 a" "wf256 b" "j < WIDTH"
  shows "wf256 (mul_outer a b pn j) \<and>
     val (mul_outer a b pn j) = (val pn + 2 ^ (32 * j) * (unat (a ! j) * val b)) mod 2 ^ 256"
proof -
  obtain c qs where f: "foldl (mul_inner a b j) (0, pn) [0..<WIDTH - j] = (c, qs)" by fastforce
  define lo hi where "lo = val (take (WIDTH - j) b)" and "hi = val (drop (WIDTH - j) b)"
  have vb: "val b = lo + 2 ^ (32 * (WIDTH - j)) * hi"
    using assms val_append [of "take (WIDTH - j) b" "drop (WIDTH - j) b"]
    by (simp add: lo_def hi_def)
  have e: "(2::nat) ^ (32 * j) * 2 ^ (32 * (WIDTH - j)) = 2 ^ 256"
  proof -
    have "32 * j + 32 * (WIDTH - j) = 256" using assms(4) by (simp add: WIDTH_def)
    then show ?thesis by (simp only: power_add [symmetric])
  qed
  have inv: "wf256 qs" "val qs + 2 ^ 256 * unat c = val pn + 2 ^ (32 * j) * (unat (a ! j) * lo)"
    using mul_inner_inv [OF assms, of "WIDTH - j"] f e
    by (auto simp: lo_def power_add mult.commute [of "2 ^ (32 * j)"] distrib_left)
  have "2 ^ (32 * j) * (unat (a ! j) * val b)
      = 2 ^ (32 * j) * (unat (a ! j) * lo) + 2 ^ 256 * (unat (a ! j) * hi)"
    by (simp only: vb e [symmetric]) (simp add: algebra_simps)
  then have "(val pn + 2 ^ (32 * j) * (unat (a ! j) * val b)) mod 2 ^ 256
      = (val pn + 2 ^ (32 * j) * (unat (a ! j) * lo)) mod 2 ^ 256"
    by (metis add.assoc mod_mult_self2)
  with carry_loop_mod [OF inv] inv f show ?thesis by (simp add: mul_outer_def)
qed

theorem op_mul_assign_correct:
  assumes "wf256 a" "wf256 b"
  shows "wf256 (op_mul_assign a b) \<and> val (op_mul_assign a b) = (val a * val b) mod 2 ^ 256"
proof -
  let ?P = "\<lambda>k pn. wf256 pn \<and> val pn = (val (take k a) * val b) mod 2 ^ 256"
  have "?P WIDTH (op_mul_assign a b)"
    unfolding op_mul_assign_def
  proof (rule foldl_upt_invariant [where P = ?P])
    show "?P 0 (base_uint_of_u64 0)" by simp
  next
    fix j pn assume j: "j < WIDTH" and inv: "?P j pn"
    have "val (take (Suc j) a) * val b = val (take j a) * val b + 2 ^ (32 * j) * (unat (a ! j) * val b)"
      using j assms by (simp add: val_take_Suc algebra_simps)
    then show "?P (Suc j) (mul_outer a b pn j)"
      using mul_outer_step [of pn a b j] inv j assms by (simp add: mod_add_left_eq)
  qed
  then show ?thesis using assms by simp
qed

section \<open>Bitwise operators and shifts\<close>

lemma val_pointwise:
  assumes "wf256 a" "wf256 b" "m < 2 ^ 256"
    and "\<And>i. bit m i = h (bit (val a) i) (bit (val b) i)"
    and "\<And>x y i. i < 32 \<Longrightarrow> bit (f x y :: uint32) i = h (bit x i) (bit y i)"
  shows "val (foldl (\<lambda>pn i. pn[i := f (pn ! i) (b ! i)]) a [0..<WIDTH]) = m"
proof -
  have "val (map (\<lambda>i. f (a ! i) (b ! i)) [0..<WIDTH]) = m"
  proof (rule val_eqI)
    fix i :: nat assume "i < 256"
    then have "i div 32 < WIDTH" by (simp add: WIDTH_def)
    then show "bit (map (\<lambda>i. f (a ! i) (b ! i)) [0..<WIDTH] ! (i div 32)) (i mod 32) = bit m i"
      using assms by (simp add: bit_val)
  qed (use assms in simp_all)
  then show ?thesis
    using foldl_pointwise [of a WIDTH "\<lambda>i x. f x (b ! i)"] assms(1) by simp
qed

lemma nat_bitop_less:
  fixes m n :: nat
  assumes "m < 2 ^ k" "n < 2 ^ k"
  shows "m XOR n < 2 ^ k" "m AND n < 2 ^ k" "m OR n < 2 ^ k"
proof -
  have "take_bit k m = m" "take_bit k n = n" using assms by (simp_all add: take_bit_nat_eq_self_iff)
  then have "take_bit k (m XOR n) = m XOR n" "take_bit k (m AND n) = m AND n"
    "take_bit k (m OR n) = m OR n"
    by simp_all
  then show "m XOR n < 2 ^ k" "m AND n < 2 ^ k" "m OR n < 2 ^ k"
    by (simp_all only: take_bit_nat_eq_self_iff)
qed

theorem bitwise_assign_correct:
  assumes "wf256 a" "wf256 b"
  shows "val (op_xor_assign a b) = val a XOR val b"
    and "val (op_and_assign a b) = val a AND val b"
    and "val (op_or_assign a b) = val a OR val b"
proof -
  note less = nat_bitop_less [OF val_less_256 [OF assms(1)] val_less_256 [OF assms(2)]]
  show "val (op_xor_assign a b) = val a XOR val b"
    unfolding op_xor_assign_def
    by (rule val_pointwise [where h = "(\<noteq>)"]) (use assms less in \<open>auto simp: bit_simps\<close>)
  show "val (op_and_assign a b) = val a AND val b"
    unfolding op_and_assign_def
    by (rule val_pointwise [where h = "(\<and>)"]) (use assms less in \<open>auto simp: bit_simps\<close>)
  show "val (op_or_assign a b) = val a OR val b"
    unfolding op_or_assign_def
    by (rule val_pointwise [where h = "(\<or>)"]) (use assms less in \<open>auto simp: bit_simps\<close>)
qed


definition shl_limb :: "base_uint \<Rightarrow> nat \<Rightarrow> nat \<Rightarrow> nat \<Rightarrow> nat \<Rightarrow> uint32" where
  "shl_limb a k s n m =
     (if k \<le> m \<and> m < k + n then push_bit s (a ! (m - k)) else 0) OR
     (if k + 1 \<le> m \<and> m < k + 1 + n \<and> s \<noteq> 0 then drop_bit (32 - s) (a ! (m - k - 1)) else 0)"

lemma shl_loop_inv:
  "let pn = foldl (shl_body a k s) (replicate WIDTH 0) [0..<n]
   in wf256 pn \<and> (\<forall>m < WIDTH. pn ! m = shl_limb a k s n m)"
proof -
  let ?P = "\<lambda>n pn. wf256 pn \<and> (\<forall>m < WIDTH. pn ! m = shl_limb a k s n m)"
  have "?P n (foldl (shl_body a k s) (replicate WIDTH 0) [0..<n])"
  proof (rule foldl_upt_invariant [where P = ?P])
    show "?P 0 (replicate WIDTH 0)" by (auto simp: shl_limb_def)
  next
    fix i pn assume "?P i pn"
    then show "?P (Suc i) (shl_body a k s pn i)"
      by (auto simp: shl_body_def Let_def nth_list_update shl_limb_def less_Suc_eq
          intro: or.commute) (simp add: Suc_le_eq)
  qed
  then show ?thesis by (simp add: Let_def)
qed

lemma bit_shl_limb:
  assumes "m < WIDTH" "j < 32" "s < 32"
  shows "bit (shl_limb a k s WIDTH m) j \<longleftrightarrow>
     32 * k + s \<le> 32 * m + j \<and>
     bit (a ! ((32 * m + j - (32 * k + s)) div 32)) ((32 * m + j - (32 * k + s)) mod 32)"
proof -
  consider "m < k" | "m = k" "j < s" | "k \<le> m" "s \<le> j" | "k < m" "j < s" by linarith
  then show ?thesis
  proof cases
    case 1
    then show ?thesis using assms by (simp add: shl_limb_def)
  next
    case 2
    then show ?thesis using assms by (simp add: shl_limb_def bit_simps)
  next
    case 3
    have e: "32 * m + j - (32 * k + s) = (j - s) + 32 * (m - k)" using 3 by (simp add: algebra_simps)
    have "(32 * m + j - (32 * k + s)) div 32 = m - k" "(32 * m + j - (32 * k + s)) mod 32 = j - s"
      using assms by (simp_all add: e)
    moreover have "\<not> bit (a ! (m - k - 1)) (32 - s + j)"
      using 3 assms bit_imp_le_length [of "a ! (m - k - 1)" "32 - s + j"] by auto
    ultimately show ?thesis
      using 3 assms by (auto simp: shl_limb_def bit_simps)
  next
    case 4
    have e: "32 * m + j - (32 * k + s) = (32 + j - s) + 32 * (m - k - 1)"
      using 4 assms by (simp add: algebra_simps)
    have "(32 * m + j - (32 * k + s)) div 32 = m - k - 1"
         "(32 * m + j - (32 * k + s)) mod 32 = 32 + j - s"
      using 4 assms by (simp_all only: e div_mult_self2 mod_mult_self2) simp_all
    then show ?thesis
      using 4 assms by (auto simp: shl_limb_def bit_simps)
  qed
qed

theorem op_shl_assign_correct:
  assumes "wf256 a"
  shows "wf256 (op_shl_assign a shift) \<and> val (op_shl_assign a shift) = (val a * 2 ^ shift) mod 2 ^ 256"
proof -
  define k s where "k = shift div 32" and "s = shift mod 32"
  have shift: "shift = 32 * k + s" and s: "s < 32" by (simp_all add: k_def s_def)
  let ?pn = "op_shl_assign a shift"
  have wf: "wf256 ?pn" and nth: "\<And>m. m < WIDTH \<Longrightarrow> ?pn ! m = shl_limb a k s WIDTH m"
    using shl_loop_inv [of a k s WIDTH] by (auto simp: op_shl_assign_def Let_def k_def s_def)
  have "val ?pn = take_bit 256 (push_bit shift (val a))"
  proof (rule val_eqI [OF wf])
    fix i :: nat assume i: "i < 256"
    then have m: "i div 32 < WIDTH" by (simp add: WIDTH_def)
    have "(i - shift) div 32 < WIDTH" using i by (simp add: WIDTH_def)
    then show "bit (?pn ! (i div 32)) (i mod 32) = bit (take_bit 256 (push_bit shift (val a))) i"
      using bit_shl_limb [OF m, of "i mod 32" s a k] s i assms
      by (simp add: nth [OF m] bit_simps bit_val flip: shift)
  qed (simp add: take_bit_eq_mod)
  then show ?thesis using wf by (simp add: take_bit_eq_mod push_bit_eq_mult)
qed

definition shr_limb :: "base_uint \<Rightarrow> nat \<Rightarrow> nat \<Rightarrow> nat \<Rightarrow> nat \<Rightarrow> uint32" where
  "shr_limb a k s n m =
     (if m + k < n then drop_bit s (a ! (m + k)) else 0) OR
     (if m + k + 1 < n \<and> s \<noteq> 0 then push_bit (32 - s) (a ! (m + k + 1)) else 0)"

lemma shr_loop_inv:
  "n \<le> WIDTH \<Longrightarrow> let pn = foldl (shr_body a k s) (replicate WIDTH 0) [0..<n]
   in wf256 pn \<and> (\<forall>m < WIDTH. pn ! m = shr_limb a k s n m)"
proof -
  assume n: "n \<le> WIDTH"
  let ?P = "\<lambda>n pn. wf256 pn \<and> (\<forall>m < WIDTH. pn ! m = shr_limb a k s n m)"
  have "?P n (foldl (shr_body a k s) (replicate WIDTH 0) [0..<n])"
  proof (rule foldl_upt_invariant [where P = ?P])
    show "?P 0 (replicate WIDTH 0)" by (auto simp: shr_limb_def)
  next
    fix i pn assume i: "i < n" and inv: "?P i pn"
    have "i - k < WIDTH" "i - k - 1 < WIDTH" using i n by linarith+
    moreover have "m + k = i \<longleftrightarrow> k \<le> i \<and> m = i - k" "m + k + 1 = i \<longleftrightarrow> k + 1 \<le> i \<and> m = i - k - 1" for m
      by linarith+
    ultimately show "?P (Suc i) (shr_body a k s pn i)"
      using inv
      by (auto simp: shr_body_def Let_def nth_list_update shr_limb_def less_Suc_eq
          intro: or.commute) (subgoal_tac "i = Suc k"; simp)
  qed
  then show ?thesis by (simp add: Let_def)
qed


lemma bit_shr_limb:
  assumes "m < WIDTH" "j < 32" "s < 32" "wf256 a"
  shows "bit (shr_limb a k s WIDTH m) j \<longleftrightarrow> bit (val a) (32 * m + j + (32 * k + s))"
proof (cases "j + s < 32")
  case True
  have e: "32 * m + j + (32 * k + s) = (j + s) + 32 * (m + k)" by (simp add: algebra_simps)
  have "(32 * m + j + (32 * k + s)) div 32 = m + k" "(32 * m + j + (32 * k + s)) mod 32 = j + s"
    using True by (simp_all only: e div_mult_self2 mod_mult_self2) simp_all
  then show ?thesis
    using True assms by (auto simp: shr_limb_def bit_simps bit_val add.commute)
next
  case False
  have e: "32 * m + j + (32 * k + s) = (j + s - 32) + 32 * (m + k + 1)"
    using False by (simp add: algebra_simps)
  have "(32 * m + j + (32 * k + s)) div 32 = m + k + 1"
       "(32 * m + j + (32 * k + s)) mod 32 = j + s - 32"
    using False assms by (simp_all only: e div_mult_self2 mod_mult_self2) simp_all
  moreover have "\<not> bit (a ! (m + k)) (s + j)"
    using False bit_imp_le_length [of "a ! (m + k)" "s + j"] by auto
  moreover have "j - (32 - s) = j + s - 32" using False assms by simp
  ultimately show ?thesis
    using False assms by (auto simp: shr_limb_def bit_simps bit_val)
qed

theorem op_shr_assign_correct:
  assumes "wf256 a"
  shows "wf256 (op_shr_assign a shift) \<and> val (op_shr_assign a shift) = val a div 2 ^ shift"
proof -
  define k s where "k = shift div 32" and "s = shift mod 32"
  have shift: "shift = 32 * k + s" and s: "s < 32" by (simp_all add: k_def s_def)
  let ?pn = "op_shr_assign a shift"
  have wf: "wf256 ?pn" and nth: "\<And>m. m < WIDTH \<Longrightarrow> ?pn ! m = shr_limb a k s WIDTH m"
    using shr_loop_inv [of WIDTH a k s] by (auto simp: op_shr_assign_def Let_def k_def s_def)
  have "val ?pn = drop_bit shift (val a)"
  proof (rule val_eqI [OF wf])
    fix i :: nat assume i: "i < 256"
    then have m: "i div 32 < WIDTH" by (simp add: WIDTH_def)
    have "32 * (i div 32) + i mod 32 + (32 * k + s) = shift + i" using shift by simp
    then show "bit (?pn ! (i div 32)) (i mod 32) = bit (drop_bit shift (val a)) i"
      using bit_shr_limb [OF m _ s assms, of "i mod 32" k]
      by (simp add: nth [OF m] bit_drop_bit_eq add.commute)
  next
    show "drop_bit shift (val a) < 2 ^ 256"
      unfolding drop_bit_eq_div by (rule le_less_trans [OF div_le_dividend val_less_256 [OF assms]])
  qed
  then show ?thesis using wf by (simp add: drop_bit_eq_div)
qed

section \<open>Comparison and bit length\<close>

lemma compareTo_loop_correct:
  assumes "n \<le> length a" "n \<le> length b"
  shows "compareTo_loop a b n =
     (if val (take n a) < val (take n b) then - 1 else if val (take n a) > val (take n b) then 1 else 0)"
  using assms
proof (induction n)
  case 0
  then show ?case by simp
next
  case (Suc n)
  let ?p = "(2::nat) ^ (32 * n)"
  have less: "val (take n a) < ?p" "val (take n b) < ?p"
    using val_less [of "take n a"] val_less [of "take n b"] Suc.prems by (simp_all add: min_absorb2)
  have step: "x + ?p * p < y + ?p * q" if "p < q" "x < ?p" for x y p q
  proof -
    have "x + ?p * p < ?p * Suc p" using that by simp
    also have "\<dots> \<le> ?p * q" using that by (intro mult_le_mono2) simp
    finally show ?thesis by simp
  qed
  note v = val_take_Suc [of n a] val_take_Suc [of n b]
  consider "unat (a ! n) < unat (b ! n)" | "unat (b ! n) < unat (a ! n)"
    | "unat (a ! n) = unat (b ! n)" by linarith
  then show ?case
  proof cases
    case 1
    then show ?thesis using step [OF 1 less(1)] v Suc by (simp add: word_less_nat_alt)
  next
    case 2
    from step [OF 2 less(2)] 2 show ?thesis
      using v Suc by (simp add: word_less_nat_alt not_less_iff_gr_or_eq)
  next
    case 3
    then show ?thesis using v Suc by (simp add: word_less_nat_alt)
  qed
qed

theorem compareTo_correct:
  assumes "wf256 a" "wf256 b"
  shows "compareTo a b = (if val a < val b then - 1 else if val a > val b then 1 else 0)"
  using compareTo_loop_correct [of WIDTH a b] assms by (simp add: compareTo_def)

lemma top_bit_correct:
  assumes "p \<noteq> 0" "unat p < 2 ^ Suc n" "n < 32"
  shows "2 ^ (top_bit p n - 1) \<le> unat p \<and> unat p < 2 ^ top_bit p n \<and> 0 < top_bit p n"
  using assms
proof (induction n)
  case 0
  then have "unat p \<noteq> 0" by (simp add: unsigned_eq_0_iff)
  with 0 show ?case by simp
next
  case (Suc n)
  have iff: "p AND push_bit (Suc n) 1 \<noteq> 0 \<longleftrightarrow> bit p (Suc n)"
    by (simp only: bit_iff_and_push_bit_not_eq_0)
  have "bit p (Suc n) \<longleftrightarrow> odd (unat p div 2 ^ Suc n)"
  proof -
    have "bit p (Suc n) \<longleftrightarrow> bit (unat p) (Suc n)" by (simp add: bit_unsigned_iff)
    then show ?thesis by (simp only: bit_iff_odd)
  qed
  also have "\<dots> \<longleftrightarrow> 2 ^ Suc n \<le> unat p"
  proof -
    have "unat p div 2 ^ Suc n < 2" using Suc.prems by (simp add: less_mult_imp_div_less)
    then have "odd (unat p div 2 ^ Suc n) \<longleftrightarrow> unat p div 2 ^ Suc n \<noteq> 0" by (cases "unat p div 2 ^ Suc n") auto
    then show ?thesis by (simp add: div_eq_0_iff not_less)
  qed
  finally show ?case
    using Suc iff by (cases "2 ^ Suc n \<le> unat p") auto
qed


lemma bits_loop_correct:
  assumes "n \<le> length a"
  shows "(val (take n a) = 0 \<longrightarrow> bits_loop a n = 0) \<and>
     (val (take n a) \<noteq> 0 \<longrightarrow> 0 < bits_loop a n \<and>
        2 ^ (bits_loop a n - 1) \<le> val (take n a) \<and> val (take n a) < 2 ^ bits_loop a n)"
  using assms
proof (induction n)
  case 0
  then show ?case by simp
next
  case (Suc n)
  have v: "val (take (Suc n) a) = val (take n a) + 2 ^ (32 * n) * unat (a ! n)"
    using Suc.prems by (simp add: val_take_Suc)
  show ?case
  proof (cases "a ! n = 0")
    case True
    then show ?thesis using Suc v by simp
  next
    case False
    define t where "t = top_bit (a ! n) 31"
    have t: "2 ^ (t - 1) \<le> unat (a ! n)" "unat (a ! n) < 2 ^ t" "0 < t"
      using top_bit_correct [OF False, of 31] unat_bound [of "a ! n"] by (auto simp: t_def)
    have lo: "val (take n a) < 2 ^ (32 * n)"
      using val_less [of "take n a"] Suc.prems by (simp add: min_absorb2)
    have "2 ^ (32 * n + t - 1) = (2::nat) ^ (32 * n) * 2 ^ (t - 1)"
      using t(3) by (simp add: power_add [symmetric])
    also have "\<dots> \<le> 2 ^ (32 * n) * unat (a ! n)" using t(1) by simp
    finally have ge: "2 ^ (32 * n + t - 1) \<le> val (take (Suc n) a)" using v by simp
    have "val (take (Suc n) a) < 2 ^ (32 * n) * Suc (unat (a ! n))" using v lo by simp
    also have "\<dots> \<le> 2 ^ (32 * n) * 2 ^ t" using t(2) by (intro mult_le_mono2) simp
    also have "\<dots> = 2 ^ (32 * n + t)" by (simp add: power_add)
    finally have lt: "val (take (Suc n) a) < 2 ^ (32 * n + t)" .
    from ge have "val (take (Suc n) a) \<noteq> 0" by (metis le_zero_eq power_not_zero zero_neq_numeral)
    then show ?thesis using False ge lt t(3) by (simp add: t_def)
  qed
qed

theorem bits_correct:
  assumes "wf256 a"
  shows "(bits a = 0 \<longleftrightarrow> val a = 0) \<and>
     (val a \<noteq> 0 \<longrightarrow> 2 ^ (bits a - 1) \<le> val a) \<and> val a < 2 ^ bits a \<and> bits a \<le> 256"
proof -
  have b: "val a = 0 \<Longrightarrow> bits a = 0"
    "val a \<noteq> 0 \<Longrightarrow> 0 < bits a \<and> 2 ^ (bits a - 1) \<le> val a \<and> val a < 2 ^ bits a"
    using bits_loop_correct [of WIDTH a] assms by (auto simp: bits_def)
  have "bits a \<le> 256"
  proof (cases "val a = 0")
    case True
    then show ?thesis using b by simp
  next
    case False
    then have "(2::nat) ^ (bits a - 1) < 2 ^ 256" using b val_less_256 [OF assms] by linarith
    then have "bits a - 1 < 256" by (rule power_less_imp_less_exp [rotated]) simp
    then show ?thesis by simp
  qed
  then show ?thesis using b by (cases "val a = 0") auto
qed

lemma or_shift_add: "x < 2 ^ n \<Longrightarrow> x OR push_bit n y = x + 2 ^ n * y" for x y :: nat
proof -
  assume "x < 2 ^ n"
  then have "take_bit n x = x" by (simp add: take_bit_nat_eq_self_iff)
  then have "\<not> (bit x k \<and> bit (push_bit n y) k)" for k
    by (metis bit_push_bit_iff bit_take_bit_iff leD)
  then have "x + push_bit n y = x OR push_bit n y" by (intro disjunctive_add) auto
  then show ?thesis by (simp add: push_bit_eq_mult mult.commute)
qed

lemma getLow64_val: "2 \<le> length a \<Longrightarrow> unat (getLow64 a) = val a mod 2 ^ 64"
proof -
  assume "2 \<le> length a"
  then obtain p q as where a: "a = p # q # as" by (cases a; cases "tl a") auto
  have "unat (push_bit 32 (ucast q :: uint64)) = push_bit 32 (unat q)"
    using unat_bound [of q]
    by (simp add: push_bit_eq_mult unat_word_ariths unat_ucast_32_64)
  then have "unat (getLow64 a) = unat p OR push_bit 32 (unat q)"
    by (simp add: getLow64_def a unsigned_or_eq unat_ucast_32_64)
  also have "\<dots> = unat p + 2 ^ 32 * unat q" using unat_bound [of p] by (simp add: or_shift_add)
  also have "\<dots> = val a mod 2 ^ 64"
  proof -
    have "val a = (unat p + 2 ^ 32 * unat q) + 2 ^ 64 * val as" by (simp add: a)
    moreover have "unat p + 2 ^ 32 * unat q < 2 ^ 64"
      using unat_bound [of p] unat_bound [of q] by simp
    ultimately show ?thesis by simp
  qed
  finally show ?thesis .
qed


lemma wf256_limbs:
  assumes "wf256 a"
  obtains p q as where "a = p # q # as" "length as = 6"
  using assms by (cases a; cases "tl a") (auto simp: WIDTH_def)

lemma equalTo_correct: "wf256 a \<Longrightarrow> equalTo a b \<longleftrightarrow> val a = unat b"
proof -
  assume "wf256 a"
  then obtain p q as where a: "a = p # q # as" and as: "length as = 6" by (rule wf256_limbs)
  have hi: "list_all (\<lambda>i. a ! i = 0) (rev [2..<WIDTH]) \<longleftrightarrow> val as = 0"
  proof -
    obtain x0 x1 x2 x3 x4 x5 where "as = [x0, x1, x2, x3, x4, x5]"
      using as by (auto simp: numeral_eq_Suc length_Suc_conv)
    then show ?thesis by (auto simp: val_eq_0_iff a WIDTH_def upt_rec unsigned_eq_0_iff)
  qed
  have q: "ucast q = drop_bit 32 b \<longleftrightarrow> unat q = unat b div 2 ^ 32"
    by (simp add: word_unat_eq_iff unat_ucast_32_64 unat_drop_bit)
  have p: "ucast p = b AND 0xffffffff \<longleftrightarrow> unat p = unat b mod 2 ^ 32"
    by (simp only: word_unat_eq_iff unat_ucast_32_64 unat_mask32)
  have "unat b div 2 ^ 32 < 2 ^ 32"
    using unat_bound [of b] by (simp add: less_mult_imp_div_less)
  then have "val a = unat b \<longleftrightarrow> val as = 0 \<and> unat q = unat b div 2 ^ 32 \<and> unat p = unat b mod 2 ^ 32"
    (is "?l \<longleftrightarrow> ?r")
  proof (intro iffI)
    assume ?l
    then have "unat b = unat p + 2 ^ 32 * (unat q + 2 ^ 32 * val as)" by (simp add: a)
    moreover have "(unat p + 2 ^ 32 * x) div 2 ^ 32 = x" "(unat p + 2 ^ 32 * x) mod 2 ^ 32 = unat p" for x
      using unat_bound [of p] by simp_all
    ultimately have d: "unat b div 2 ^ 32 = unat q + 2 ^ 32 * val as" "unat b mod 2 ^ 32 = unat p"
      by (simp_all only:)
    with \<open>unat b div 2 ^ 32 < 2 ^ 32\<close> have "val as = 0" by (cases "val as") auto
    with d show ?r by simp
  next
    assume ?r
    then show ?l by (simp add: a)
  qed
  then show ?thesis using hi q p by (simp add: equalTo_def a)
qed

section \<open>Division\<close>

lemma val_set_bit:
  assumes "wf256 pn" "s < 256" "2 ^ Suc s dvd val pn"
  shows "val (pn[s div 32 := pn ! (s div 32) OR push_bit (s mod 32) 1]) = val pn + 2 ^ s"
proof -
  obtain m where m: "val pn = 2 ^ Suc s * m" using assms(3) by blast
  have "val (pn[s div 32 := pn ! (s div 32) OR push_bit (s mod 32) 1]) = val pn OR push_bit s 1"
  proof (rule val_eqI)
    fix i :: nat assume i: "i < 256"
    have eq: "i = s \<longleftrightarrow> i div 32 = s div 32 \<and> i mod 32 = s mod 32"
      by (metis div_mult_mod_eq)
    have "i div 32 < WIDTH" "s div 32 < WIDTH" using i assms by (simp_all add: WIDTH_def)
    then show "bit (pn[s div 32 := pn ! (s div 32) OR push_bit (s mod 32) 1] ! (i div 32)) (i mod 32)
        = bit (val pn OR push_bit s 1) i"
      using assms(1) by (auto simp: nth_list_update bit_simps bit_val eq)
  next
    have "(2::nat) ^ s < 2 ^ 256" using assms(2) by (intro power_strict_increasing) auto
    then show "val pn OR push_bit s 1 < 2 ^ 256"
      using val_less_256 [OF assms(1)] by (intro nat_bitop_less(3)) (auto simp: push_bit_eq_mult)
  qed (use assms in simp)
  also have "\<dots> = 2 ^ s OR push_bit (Suc s) m"
    by (simp add: m or.commute push_bit_eq_mult mult.commute)
  also have "\<dots> = val pn + 2 ^ s" by (subst or_shift_add) (simp_all add: m)
  finally show ?thesis .
qed

lemma div_loop_correct:
  assumes "wf256 num" "wf256 dv" "wf256 pn" "0 < D" "n \<le> 256"
    and "0 < n \<Longrightarrow> val dv = D * 2 ^ (n - 1)"
    and "val num < D * 2 ^ n"
    and "2 ^ n dvd val pn"
  shows "case div_loop (int n - 1) num dv pn of (q, r) \<Rightarrow>
     wf256 q \<and> wf256 r \<and> val q * D + val r = val pn * D + val num \<and> val r < D"
  using assms
proof (induction n arbitrary: num dv pn)
  case 0
  then show ?case by (simp add: div_loop.simps)
next
  case (Suc n)
  let ?ge = "compareTo num dv \<ge> 0"
  let ?num = "if ?ge then op_sub_assign num dv else num"
  let ?pn = "if ?ge then pn[n div 32 := pn ! (n div 32) OR push_bit (n mod 32) 1] else pn"
  have step: "div_loop (int (Suc n) - 1) num dv pn = div_loop (int n - 1) ?num (op_shr_assign dv 1) ?pn"
    by (subst div_loop.simps) simp
  have dv: "val dv = D * 2 ^ n" using Suc.prems by simp
  have ge: "?ge \<longleftrightarrow> D * 2 ^ n \<le> val num"
    using compareTo_correct [of num dv] Suc.prems dv by auto
  have wf: "wf256 ?num" "wf256 (op_shr_assign dv 1)" "wf256 ?pn"
    using Suc.prems op_sub_assign_correct [of num dv] op_shr_assign_correct [of dv 1] by auto
  have shr: "0 < n \<Longrightarrow> val (op_shr_assign dv 1) = D * 2 ^ (n - 1)"
    using op_shr_assign_correct [of dv 1] Suc.prems dv by (cases n) auto
  have num: "val ?num = (if ?ge then val num - D * 2 ^ n else val num)"
    using op_sub_assign_exact [of num dv] Suc.prems ge dv by auto
  then have num_less: "val ?num < D * 2 ^ n"
    using Suc.prems(7) ge by (auto simp: algebra_simps)
  have pn: "val ?pn = (if ?ge then val pn + 2 ^ n else val pn)"
    using val_set_bit [of pn n] Suc.prems by auto
  have "2 ^ n dvd val pn" using Suc.prems(8) by (rule dvd_trans [rotated]) simp
  then have dvd: "2 ^ n dvd val ?pn" by (simp only: pn) (auto intro: dvd_add)
  have sum: "val ?pn * D + val ?num = val pn * D + val num"
    using pn num ge by (auto simp: algebra_simps)
  show ?case
    using Suc.IH [OF wf Suc.prems(4) _ shr num_less dvd] Suc.prems(5)
    unfolding step sum by simp
qed

theorem op_div_assign_correct:
  assumes "wf256 a" "wf256 b"
  shows "(val b = 0 \<longrightarrow> op_div_assign a b = Inl DivisionByZero) \<and>
     (val b \<noteq> 0 \<longrightarrow> (\<exists>q. op_div_assign a b = Inr q \<and> wf256 q \<and> val q = val a div val b))"
proof (cases "val b = 0")
  case True
  then show ?thesis using bits_correct [OF assms(2)] by (simp add: op_div_assign_def)
next
  case False
  note ba = bits_correct [OF assms(1)] and bb = bits_correct [OF assms(2)]
  have nz: "bits b \<noteq> 0" using bb False by simp
  show ?thesis
  proof (cases "bits b > bits a")
    case True
    have "val a < 2 ^ bits a" using ba by simp
    also have "\<dots> \<le> 2 ^ (bits b - 1)" using True by (intro power_increasing) auto
    also have "\<dots> \<le> val b" using bb False by simp
    finally show ?thesis using True nz False by (simp add: op_div_assign_def)
  next
    case le: False
    define s where "s = bits a - bits b"
    define dv where "dv = op_shl_assign b s"
    have "val b * 2 ^ s < 2 ^ bits b * 2 ^ s" using bb by simp
    also have "\<dots> = 2 ^ bits a" using le by (simp add: s_def power_add [symmetric])
    also have "\<dots> \<le> 2 ^ 256" using ba by (intro power_increasing) auto
    finally have dv: "wf256 dv" "val dv = val b * 2 ^ s"
      using op_shl_assign_correct [OF assms(2), of s] by (auto simp: dv_def)
    have "2 ^ bits b = 2 * (2::nat) ^ (bits b - 1)" using nz by (cases "bits b") auto
    also have "\<dots> \<le> 2 * val b" using bb False by simp
    finally have "2 ^ bits b * 2 ^ s \<le> 2 * val b * (2::nat) ^ s" by (rule mult_le_mono1)
    then have "val a < val b * 2 ^ Suc s"
      using ba le by (simp add: s_def power_add [symmetric])
    moreover have "s < 256" using ba nz by (auto simp: s_def)
    ultimately obtain q r where qr: "div_loop (int s) a dv (base_uint_of_u64 0) = (q, r)"
      "wf256 q" "val q * val b + val r = val a" "val r < val b"
      using div_loop_correct [of a dv "base_uint_of_u64 0" "val b" "Suc s"] assms dv False
      by (auto split: prod.splits)
    have "val a div val b = val q"
      using qr(3,4) by (metis add.commute div_less div_mult_self1 False add_cancel_right_left mult.commute)
    then show ?thesis
      using le nz qr False by (simp add: op_div_assign_def Let_def s_def dv_def)
  qed
qed


lemma op_order:
  assumes "wf256 a" "wf256 b"
  shows "op_gt a b \<longleftrightarrow> val a > val b" "op_lt a b \<longleftrightarrow> val a < val b" "op_ge a b \<longleftrightarrow> val a \<ge> val b"
  using assms by (auto simp: op_gt_def op_lt_def op_ge_def compareTo_correct)

section \<open>The interface of wrapping unsigned integers\<close>

text \<open>
  What the clients of \<open>arith_uint256\<close> (the proof-of-work rules and the chain work) rely on: the
  operators compute modulo a fixed bound and the comparison orders the values.
\<close>

locale wrapping_uint =
  fixes wf :: "'a \<Rightarrow> bool" and num :: "'a \<Rightarrow> nat" and modulus :: nat
    and add :: "'a \<Rightarrow> 'a \<Rightarrow> 'a" and sub :: "'a \<Rightarrow> 'a \<Rightarrow> 'a" and mul :: "'a \<Rightarrow> 'a \<Rightarrow> 'a"
    and cmp :: "'a \<Rightarrow> 'a \<Rightarrow> int"
  assumes num_bound: "wf a \<Longrightarrow> num a < modulus"
    and num_inj: "wf a \<Longrightarrow> wf b \<Longrightarrow> num a = num b \<Longrightarrow> a = b"
    and wf_add: "wf a \<Longrightarrow> wf b \<Longrightarrow> wf (add a b)"
    and num_add: "wf a \<Longrightarrow> wf b \<Longrightarrow> num (add a b) = (num a + num b) mod modulus"
    and wf_sub: "wf a \<Longrightarrow> wf b \<Longrightarrow> wf (sub a b)"
    and num_sub: "wf a \<Longrightarrow> wf b \<Longrightarrow> num (sub a b) = (num a + (modulus - num b)) mod modulus"
    and wf_mul: "wf a \<Longrightarrow> wf b \<Longrightarrow> wf (mul a b)"
    and num_mul: "wf a \<Longrightarrow> wf b \<Longrightarrow> num (mul a b) = (num a * num b) mod modulus"
    and cmp_less: "wf a \<Longrightarrow> wf b \<Longrightarrow> cmp a b < 0 \<longleftrightarrow> num a < num b"
    and cmp_greater: "wf a \<Longrightarrow> wf b \<Longrightarrow> cmp a b > 0 \<longleftrightarrow> num a > num b"
begin

lemmas wf_closed = wf_add wf_sub wf_mul

lemma cmp_eq_0_iff: "wf a \<Longrightarrow> wf b \<Longrightarrow> cmp a b = 0 \<longleftrightarrow> a = b"
proof -
  assume wf: "wf a" "wf b"
  have "cmp a b = 0 \<longleftrightarrow> \<not> cmp a b < 0 \<and> \<not> cmp a b > 0" by auto
  also have "\<dots> \<longleftrightarrow> num a = num b" using wf by (auto simp: cmp_less cmp_greater)
  also have "\<dots> \<longleftrightarrow> a = b" using wf num_inj by blast
  finally show ?thesis .
qed

lemma cmp_less_trans:
  "wf a \<Longrightarrow> wf b \<Longrightarrow> wf c \<Longrightarrow> cmp a b < 0 \<Longrightarrow> cmp b c < 0 \<Longrightarrow> cmp a c < 0"
  by (simp add: cmp_less)

lemma add_commute: "wf a \<Longrightarrow> wf b \<Longrightarrow> add a b = add b a"
  by (intro num_inj) (simp_all add: wf_closed num_add add.commute)

lemma add_assoc: "wf a \<Longrightarrow> wf b \<Longrightarrow> wf c \<Longrightarrow> add (add a b) c = add a (add b c)"
  by (intro num_inj) (simp_all add: wf_closed num_add mod_simps add.assoc)

lemma mul_commute: "wf a \<Longrightarrow> wf b \<Longrightarrow> mul a b = mul b a"
  by (intro num_inj) (simp_all add: wf_closed num_mul mult.commute)

lemma mul_assoc: "wf a \<Longrightarrow> wf b \<Longrightarrow> wf c \<Longrightarrow> mul (mul a b) c = mul a (mul b c)"
  by (intro num_inj) (simp_all add: wf_closed num_mul mod_simps mult.assoc)

lemma distrib: "wf a \<Longrightarrow> wf b \<Longrightarrow> wf c \<Longrightarrow> mul a (add b c) = add (mul a b) (mul a c)"
  by (intro num_inj) (simp_all add: wf_closed num_add num_mul mod_simps add_mult_distrib2)

lemma add_sub_cancel: "wf a \<Longrightarrow> wf b \<Longrightarrow> sub (add a b) b = a"
proof (intro num_inj)
  assume wf: "wf a" "wf b"
  have "num (sub (add a b) b) = (num a + num b + (modulus - num b)) mod modulus"
    using wf by (simp add: wf_closed num_sub num_add mod_simps)
  also have "\<dots> = (num a + modulus) mod modulus" using num_bound [OF wf(2)] by simp
  finally show "num (sub (add a b) b) = num a" using num_bound [OF wf(1)] by simp
qed (simp_all add: wf_closed)

text \<open>An addition wrapped around exactly when the sum compares below a summand.\<close>

lemma add_wraps_iff:
  assumes "wf a" "wf b"
  shows "cmp (add a b) a < 0 \<longleftrightarrow> modulus \<le> num a + num b"
proof -
  note bounds = num_bound [OF assms(1)] num_bound [OF assms(2)]
  have "(num a + num b) mod modulus < num a \<longleftrightarrow> modulus \<le> num a + num b"
  proof (cases "modulus \<le> num a + num b")
    case True
    then have "(num a + num b) mod modulus = num a + num b - modulus"
      using bounds by (simp add: le_mod_geq)
    then show ?thesis using True bounds by linarith
  next
    case False
    then show ?thesis by simp
  qed
  then show ?thesis using assms by (simp add: cmp_less wf_closed num_add)
qed

lemma add_exact: "wf a \<Longrightarrow> wf b \<Longrightarrow> num a + num b < modulus \<Longrightarrow> num (add a b) = num a + num b"
  by (simp add: num_add)

lemma add_increases:
  "wf a \<Longrightarrow> wf b \<Longrightarrow> num b \<noteq> 0 \<Longrightarrow> num a + num b < modulus \<Longrightarrow> cmp a (add a b) < 0"
  by (simp add: cmp_less wf_closed add_exact)

end

interpretation au: wrapping_uint wf256 val "2 ^ 256" op_add_assign op_sub_assign op_mul_assign compareTo
  by unfold_locales
    (use val_less_256 in \<open>simp_all add: val_inj op_add_assign_correct op_sub_assign_correct
      op_mul_assign_correct compareTo_correct\<close>)

section \<open>Properties\<close>

text \<open>
  C30: the operators \<open>+=\<close>, \<open>-=\<close>, \<open>*=\<close> and unary minus of \<open>base_uint\<close> compute sum, difference,
  product and negation modulo \<open>2 ^ 256\<close>, and keep the shape of the limb array.
\<close>

theorem uint256_ring_operators:
  assumes "wf256 a" "wf256 b"
  shows "wf256 (op_add_assign a b) \<and> val (op_add_assign a b) = (val a + val b) mod 2 ^ 256 \<and>
    wf256 (op_sub_assign a b) \<and> int (val (op_sub_assign a b)) = (int (val a) - int (val b)) mod 2 ^ 256 \<and>
    wf256 (op_mul_assign a b) \<and> val (op_mul_assign a b) = (val a * val b) mod 2 ^ 256 \<and>
    wf256 (op_neg a) \<and> int (val (op_neg a)) = (- int (val a)) mod 2 ^ 256"
proof -
  have neg: "int ((n + (2 ^ 256 - val c)) mod 2 ^ 256) = (int n - int (val c)) mod 2 ^ 256"
    if "wf256 c" for c n
  proof -
    have "int (n + (2 ^ 256 - val c)) = int n - int (val c) + 2 ^ 256"
      using val_less_256 [OF that] by (simp add: of_nat_diff)
    then show ?thesis by (simp only: of_nat_mod) simp
  qed
  show ?thesis
  proof (intro conjI au.wf_add au.wf_sub au.wf_mul au.num_add au.num_mul assms)
    show "int (val (op_sub_assign a b)) = (int (val a) - int (val b)) mod 2 ^ 256"
      by (simp only: au.num_sub [OF assms] neg [OF assms(2)])
    show "wf256 (op_neg a)" by (rule conjunct1 [OF op_neg_correct [OF assms(1)]])
    have "- int (val a) = int 0 - int (val a)" by simp
    then show "int (val (op_neg a)) = (- int (val a)) mod 2 ^ 256"
      using neg [OF assms(1), of 0] conjunct2 [OF op_neg_correct [OF assms(1)]]
      by (simp only: add_0)
  qed
qed

theorem uint256_ring_operators_witness:
  "wf256 (replicate 8 0xffffffff) \<and> wf256 [1, 0, 0, 0, 0, 0, 0, 0] \<and>
   val (op_add_assign (replicate 8 0xffffffff) [1, 0, 0, 0, 0, 0, 0, 0])
     = (val (replicate 8 0xffffffff) + val [1, 0, 0, 0, 0, 0, 0, 0]) mod 2 ^ 256"
  using uint256_ring_operators [of "replicate 8 0xffffffff" "[1, 0, 0, 0, 0, 0, 0, 0]"]
  by (simp add: WIDTH_def)

text \<open>
  C29: \<open>operator/=\<close> throws exactly on a zero divisor, and otherwise its shift-subtract loop
  returns the quotient of the two values.
\<close>

theorem uint256_division:
  assumes "wf256 a" "wf256 b"
  shows "if val b = 0 then op_div_assign a b = Inl DivisionByZero
     else \<exists>q. op_div_assign a b = Inr q \<and> wf256 q \<and> val q = val a div val b"
  using op_div_assign_correct [OF assms] by simp

theorem uint256_division_witness:
  "wf256 [5, 1, 0, 0, 0, 0, 0, 0] \<and> wf256 [3, 0, 0, 0, 0, 0, 0, 0] \<and>
   (\<exists>q. op_div_assign [5, 1, 0, 0, 0, 0, 0, 0] [3, 0, 0, 0, 0, 0, 0, 0] = Inr q \<and>
      val q = 1431655767)"
  using uint256_division [of "[5, 1, 0, 0, 0, 0, 0, 0]" "[3, 0, 0, 0, 0, 0, 0, 0]"]
  by (auto simp: WIDTH_def)

text \<open>
  \<open>operator<<=\<close> multiplies by a power of two modulo \<open>2 ^ 256\<close> and \<open>operator>>=\<close> divides by it,
  for every shift distance, at and beyond the limb and the full width included.
\<close>

theorem uint256_shifts:
  assumes "wf256 a"
  shows "wf256 (op_shl_assign a n) \<and> val (op_shl_assign a n) = (val a * 2 ^ n) mod 2 ^ 256 \<and>
    wf256 (op_shr_assign a n) \<and> val (op_shr_assign a n) = val a div 2 ^ n"
  using op_shl_assign_correct [OF assms] op_shr_assign_correct [OF assms] by simp

theorem uint256_shifts_witness:
  "wf256 (replicate 8 7) \<and> val (op_shr_assign (replicate 8 7) 40) = val (replicate 8 7) div 2 ^ 40"
  using uint256_shifts [of "replicate 8 7" 40] by (simp add: WIDTH_def)

text \<open>
  \<open>compareTo\<close> is the sign of the difference of the values, zero only for the same number, and
  \<open>bits\<close> is the length of the binary representation.
\<close>

theorem uint256_compare_bits:
  assumes "wf256 a" "wf256 b"
  shows "compareTo a b = sgn (int (val a) - int (val b)) \<and> (compareTo a b = 0 \<longleftrightarrow> a = b) \<and>
    (\<forall>n. bits a \<le> n \<longleftrightarrow> val a < 2 ^ n)"
proof (intro conjI allI)
  show "compareTo a b = sgn (int (val a) - int (val b))"
    by (simp add: compareTo_correct [OF assms])
  show "compareTo a b = 0 \<longleftrightarrow> a = b"
    by (rule au.cmp_eq_0_iff [OF assms])
next
  fix n
  note b = bits_correct [OF assms(1)]
  show "bits a \<le> n \<longleftrightarrow> val a < 2 ^ n"
  proof
    assume "bits a \<le> n"
    then have "(2::nat) ^ bits a \<le> 2 ^ n" by (intro power_increasing) auto
    then show "val a < 2 ^ n" using b by linarith
  next
    assume small: "val a < 2 ^ n"
    show "bits a \<le> n"
    proof (rule ccontr)
      assume big: "\<not> bits a \<le> n"
      then have "(2::nat) ^ n \<le> 2 ^ (bits a - 1)" by (intro power_increasing) auto
      moreover have "2 ^ (bits a - 1) \<le> val a" using b big by auto
      ultimately show False using small by linarith
    qed
  qed
qed

theorem uint256_compare_bits_witness:
  "wf256 [9, 0, 0, 0, 0, 0, 0, 0] \<and> wf256 [0, 1, 0, 0, 0, 0, 0, 0] \<and>
   compareTo [9, 0, 0, 0, 0, 0, 0, 0] [0, 1, 0, 0, 0, 0, 0, 0] = - 1"
  using uint256_compare_bits [of "[9, 0, 0, 0, 0, 0, 0, 0]" "[0, 1, 0, 0, 0, 0, 0, 0]"]
  by (simp add: WIDTH_def)

text \<open>
  Adding two \<open>arith_uint256\<close> wraps around exactly when the sum compares below the first
  summand; without a wrap, adding a non-zero number compares strictly above, and subtraction undoes
  addition in every case.
\<close>

theorem uint256_addition_order:
  assumes "wf256 a" "wf256 b"
  shows "(compareTo (op_add_assign a b) a < 0 \<longleftrightarrow> 2 ^ 256 \<le> val a + val b) \<and>
    (val b \<noteq> 0 \<and> val a + val b < 2 ^ 256 \<longrightarrow> compareTo a (op_add_assign a b) < 0) \<and>
    op_sub_assign (op_add_assign a b) b = a"
  using au.add_wraps_iff [OF assms] au.add_increases [OF assms] au.add_sub_cancel [OF assms]
  by blast

theorem uint256_addition_order_witness:
  "wf256 (replicate 8 0xffffffff) \<and> wf256 [1, 0, 0, 0, 0, 0, 0, 0] \<and>
   op_sub_assign (op_add_assign (replicate 8 0xffffffff) [1, 0, 0, 0, 0, 0, 0, 0])
     [1, 0, 0, 0, 0, 0, 0, 0] = replicate 8 0xffffffff"
  using uint256_addition_order [of "replicate 8 0xffffffff" "[1, 0, 0, 0, 0, 0, 0, 0]"]
  by (simp add: WIDTH_def)

end
