(* ===== verification/Compact.thy ===== *)
theory Compact
  imports Arith_Uint256
begin

text \<open>
  The compact (floating-point like) encoding of difficulty targets:
  \<open>arith_uint256::setCompact\<close> and \<open>arith_uint256::getCompact\<close> of \<open>libs/common/arith_uint256.cpp\<close>.
  \<open>setCompact\<close> returns the number with its two out-parameters \<open>*pfNegative\<close> and \<open>*pfOverflow\<close>;
  \<open>getCompact\<close> returns \<open>Inl\<close> where one of its assertions would fail.

  The lemmas give the decoded value and both flags exactly, show that the assertions of
  \<open>getCompact\<close> never fail, that encoding truncates to the top three bytes (at least 15 significant
  bits are kept), and that encoding what was decoded is stable.
\<close>

unbundle bit_operations_syntax

section \<open>Definitions\<close>

definition setCompact :: "uint32 \<Rightarrow> base_uint \<times> bool \<times> bool" where
  "setCompact nCompact =
     (let nSize = unat (drop_bit 24 nCompact);
          nWord = nCompact AND 0x007fffff;
          (nWord, this) =
            (if nSize \<le> 3
             then let nWord = drop_bit (8 * (3 - nSize)) nWord
                  in (nWord, base_uint_of_u64 (ucast nWord))
             else (nWord, op_shl_assign (base_uint_of_u64 (ucast nWord)) (8 * (nSize - 3))));
          fNegative = (nWord \<noteq> 0 \<and> nCompact AND 0x00800000 \<noteq> 0);
          fOverflow = (nWord \<noteq> 0 \<and> (nSize > 34 \<or> (nWord > 0xff \<and> nSize > 33) \<or>
                         (nWord > 0xffff \<and> nSize > 32)))
      in (this, fNegative, fOverflow))"

datatype compact_error = AssertMantissa | AssertSize

definition getCompact :: "bool \<Rightarrow> base_uint \<Rightarrow> (compact_error, uint32) result" where
  "getCompact fNegative this =
     (let nSize = (bits this + 7) div 8;
          nCompact = (if nSize \<le> 3 then ucast (push_bit (8 * (3 - nSize)) (getLow64 this))
                      else ucast (getLow64 (op_shr_assign this (8 * (nSize - 3)))));
          (nCompact, nSize) =
            (if nCompact AND 0x00800000 \<noteq> 0 then (drop_bit 8 nCompact, nSize + 1)
             else (nCompact, nSize))
      in if nCompact AND NOT 0x007fffff \<noteq> 0 then Inl AssertMantissa
         else if \<not> nSize < 256 then Inl AssertSize
         else let nCompact = nCompact OR push_bit 24 (of_nat nSize)
              in Inr (nCompact OR
                      (if fNegative \<and> nCompact AND 0x007fffff \<noteq> 0 then 0x00800000 else 0)))"

definition compact_mantissa :: "uint32 \<Rightarrow> nat" where
  "compact_mantissa c = unat c mod 2 ^ 23"

definition compact_size :: "uint32 \<Rightarrow> nat" where
  "compact_size c = unat c div 2 ^ 24"

section \<open>Fields of the encoding\<close>

lemma unat_and_mantissa: "unat (w AND 0x007fffff :: uint32) = unat w mod 2 ^ 23"
proof -
  have "(0x007fffff :: uint32) = mask 23" by (simp add: mask_eq_exp_minus_1)
  then have "w AND 0x007fffff = take_bit 23 w" by (simp only: take_bit_eq_mask)
  then have "unat (w AND 0x007fffff) = take_bit 23 (unat w)" by (simp only: unsigned_take_bit_eq)
  then show ?thesis by (simp only: take_bit_eq_mod)
qed

lemma and_sign_bit: "(w AND 0x00800000 :: uint32) \<noteq> 0 \<longleftrightarrow> odd (unat w div 2 ^ 23)"
proof -
  have "(0x00800000 :: uint32) = push_bit 23 1" by simp
  then have "w AND 0x00800000 \<noteq> 0 \<longleftrightarrow> bit w 23" by (simp only: bit_iff_and_push_bit_not_eq_0)
  also have "\<dots> \<longleftrightarrow> bit (unat w) 23" by (simp add: bit_unsigned_iff)
  finally show ?thesis by (simp only: bit_iff_odd)
qed

lemma and_not_mantissa: "(w AND NOT 0x007fffff :: uint32) = 0 \<longleftrightarrow> unat w < 2 ^ 23"
proof -
  have "(0x007fffff :: uint32) = mask 23" by (simp add: mask_eq_exp_minus_1)
  then have "w = take_bit 23 w OR (w AND NOT 0x007fffff)"
    by (simp only: take_bit_eq_mask) (simp add: bit_eq_iff bit_simps, blast)
  moreover have "unat w < 2 ^ 23 \<longleftrightarrow> take_bit 23 w = w"
    by (simp add: word_unat_eq_iff unsigned_take_bit_eq take_bit_nat_eq_self_iff)
  moreover have "take_bit 23 w = w \<Longrightarrow> w AND NOT 0x007fffff = 0"
    using \<open>0x007fffff = mask 23\<close> by (simp only: take_bit_eq_mask) (metis and.assoc and_zero_eq word_and_not)
  ultimately show ?thesis by (metis or.right_neutral)
qed

lemma setCompact_fields:
  fixes c :: uint32
  defines "k \<equiv> 8 * (3 - compact_size c)"
  shows "\<exists>w :: uint32. unat w = compact_mantissa c div 2 ^ k \<and>
     setCompact c =
       (op_shl_assign (base_uint_of_u64 (ucast w)) (8 * (compact_size c - 3)),
        w \<noteq> 0 \<and> odd (unat c div 2 ^ 23),
        w \<noteq> 0 \<and> (compact_size c > 34 \<or> (w > 0xff \<and> compact_size c > 33) \<or>
                    (w > 0xffff \<and> compact_size c > 32)))"
proof -
  have n: "unat (drop_bit 24 c) = compact_size c" by (simp add: compact_size_def unat_drop_bit)
  let ?w = "drop_bit k (c AND 0x007fffff)"
  have w: "unat ?w = compact_mantissa c div 2 ^ k"
    by (simp only: unat_drop_bit unat_and_mantissa compact_mantissa_def)
  have shl0: "op_shl_assign x 0 = x" if "wf256 x" for x
    using op_shl_assign_correct [OF that, of 0] val_less_256 [OF that] that
    by (intro val_inj) auto
  show ?thesis
  proof (cases "compact_size c \<le> 3")
    case True
    then have "8 * (compact_size c - 3) = 0" by simp
    with True w show ?thesis
      by (intro exI [of _ ?w]) (simp add: setCompact_def n Let_def k_def shl0 and_sign_bit)
  next
    case False
    then have "k = 0" by (simp add: k_def)
    with False w show ?thesis
      by (intro exI [of _ ?w]) (simp add: setCompact_def n Let_def and_sign_bit)
  qed
qed

lemma overflow_arith:
  fixes u n :: nat
  assumes "u < 2 ^ 23" "n > 3"
  shows "u \<noteq> 0 \<and> (n > 34 \<or> (u > 0xff \<and> n > 33) \<or> (u > 0xffff \<and> n > 32))
     \<longleftrightarrow> u * 2 ^ (8 * (n - 3)) \<ge> 2 ^ 256"
proof -
  consider "n \<le> 32" | "n = 33" | "n = 34" | "n > 34" by linarith
  then show ?thesis
  proof cases
    case 1
    have "u * 2 ^ (8 * (n - 3)) \<le> u * 2 ^ 232"
      using 1 by (intro mult_le_mono2 power_increasing) auto
    also have "\<dots> < 2 ^ 23 * 2 ^ 232" using assms(1) by simp
    also have "\<dots> < (2::nat) ^ 256" by simp
    finally show ?thesis using 1 by simp
  next
    case 4
    have "(2::nat) ^ 256 \<le> 2 ^ (8 * (n - 3))" using 4 by (intro power_increasing) auto
    then have "u \<noteq> 0 \<Longrightarrow> 2 ^ 256 \<le> u * 2 ^ (8 * (n - 3))"
      by (metis One_nat_def Suc_leI le_trans mult.left_neutral mult_le_mono1 neq0_conv)
    then show ?thesis using 4 by (cases "u = 0") auto
  qed auto
qed

text \<open>
  What \<open>setCompact\<close> returns, in terms of the mantissa and size fields: the value, and the overflow
  flag exactly when the encoded number does not fit in 256 bits.
\<close>

theorem setCompact_correct:
  fixes c :: uint32
  assumes "setCompact c = (a, neg, ovf)"
  defines "n \<equiv> compact_size c" and "m \<equiv> compact_mantissa c div 2 ^ (8 * (3 - compact_size c))"
  shows "wf256 a \<and> val a = (m * 2 ^ (8 * (n - 3))) mod 2 ^ 256 \<and>
     (ovf \<longleftrightarrow> m * 2 ^ (8 * (n - 3)) \<ge> 2 ^ 256) \<and>
     (neg \<longleftrightarrow> m \<noteq> 0 \<and> odd (unat c div 2 ^ 23))"
proof -
  obtain w :: uint32 where w: "unat w = m"
    and sc: "setCompact c =
       (op_shl_assign (base_uint_of_u64 (ucast w)) (8 * (n - 3)), w \<noteq> 0 \<and> odd (unat c div 2 ^ 23),
        w \<noteq> 0 \<and> (n > 34 \<or> (w > 0xff \<and> n > 33) \<or> (w > 0xffff \<and> n > 32)))"
    using setCompact_fields [of c] unfolding n_def m_def by blast
  have m_less: "m < 2 ^ 23"
    unfolding m_def by (rule le_less_trans [OF div_le_dividend]) (simp add: compact_mantissa_def)
  have w0: "w \<noteq> 0 \<longleftrightarrow> m \<noteq> 0" using w by (metis unsigned_0 unsigned_eq_0_iff)
  have wgt: "w > 0xff \<longleftrightarrow> m > 0xff" "w > 0xffff \<longleftrightarrow> m > 0xffff"
    using w by (simp_all add: word_less_nat_alt)
  have ovf: "w \<noteq> 0 \<and> (n > 34 \<or> (w > 0xff \<and> n > 33) \<or> (w > 0xffff \<and> n > 32))
     \<longleftrightarrow> m * 2 ^ (8 * (n - 3)) \<ge> 2 ^ 256"
  proof (cases "n > 3")
    case True
    then show ?thesis using overflow_arith [OF m_less True] by (simp only: w0 wgt)
  next
    case False
    then show ?thesis using m_less by simp
  qed
  have "wf256 a" "val a = (m * 2 ^ (8 * (n - 3))) mod 2 ^ 256"
    using op_shl_assign_correct [of "base_uint_of_u64 (ucast w)" "8 * (n - 3)"] assms(1) sc w
    by (simp_all add: unat_ucast_32_64)
  then show ?thesis using assms(1) sc ovf w0 by auto
qed


section \<open>Encoding\<close>

definition byte_size :: "base_uint \<Rightarrow> nat" where
  "byte_size a = (bits a + 7) div 8"

definition top_bytes :: "base_uint \<Rightarrow> nat" where
  "top_bytes a = (if byte_size a \<le> 3 then val a * 2 ^ (8 * (3 - byte_size a))
                  else val a div 2 ^ (8 * (byte_size a - 3)))"

lemma byte_size_bounds:
  assumes "wf256 a"
  shows "val a < 2 ^ (8 * byte_size a)" "byte_size a \<le> 32"
    and "val a \<noteq> 0 \<Longrightarrow> 0 < byte_size a \<and> 2 ^ (8 * (byte_size a - 1)) \<le> val a"
proof -
  note b = bits_correct [OF assms]
  have "bits a \<le> 8 * byte_size a" by (simp add: byte_size_def)
  then have "(2::nat) ^ bits a \<le> 2 ^ (8 * byte_size a)" by (intro power_increasing) auto
  then show "val a < 2 ^ (8 * byte_size a)" using b by linarith
  show "byte_size a \<le> 32" using b by (auto simp: byte_size_def)
  assume nz: "val a \<noteq> 0"
  have "8 * (byte_size a - 1) \<le> bits a - 1" using b nz by (auto simp: byte_size_def)
  then have "(2::nat) ^ (8 * (byte_size a - 1)) \<le> 2 ^ (bits a - 1)" by (intro power_increasing) auto
  also have "\<dots> \<le> val a" using b nz by simp
  finally show "0 < byte_size a \<and> 2 ^ (8 * (byte_size a - 1)) \<le> val a"
    using b nz by (auto simp: byte_size_def)
qed

lemma top_bytes_bounds:
  assumes "wf256 a"
  shows "top_bytes a < 2 ^ 24" and "val a \<noteq> 0 \<Longrightarrow> 2 ^ 16 \<le> top_bytes a"
proof -
  let ?n = "byte_size a"
  note b = byte_size_bounds [OF assms]
  show "top_bytes a < 2 ^ 24"
  proof (cases "?n \<le> 3")
    case True
    have "val a * 2 ^ (8 * (3 - ?n)) < 2 ^ (8 * ?n) * 2 ^ (8 * (3 - ?n))" using b(1) by simp
    also have "\<dots> = 2 ^ (8 * ?n + 8 * (3 - ?n))" by (simp only: power_add)
    also have "8 * ?n + 8 * (3 - ?n) = 24" using True by simp
    finally show ?thesis using True by (simp add: top_bytes_def)
  next
    case False
    have "8 * ?n = 24 + 8 * (?n - 3)" using False by simp
    then have "val a < 2 ^ 24 * 2 ^ (8 * (?n - 3))" using b(1) by (simp only: power_add)
    then show ?thesis using False by (simp add: top_bytes_def less_mult_imp_div_less)
  qed
  assume nz: "val a \<noteq> 0"
  note b3 = b(3) [OF nz]
  show "2 ^ 16 \<le> top_bytes a"
  proof (cases "?n \<le> 3")
    case True
    have "8 * (?n - 1) + 8 * (3 - ?n) = 16" using True b3 by auto
    then have "(2::nat) ^ 16 = 2 ^ (8 * (?n - 1)) * 2 ^ (8 * (3 - ?n))"
      by (simp only: power_add [symmetric])
    also have "\<dots> \<le> val a * 2 ^ (8 * (3 - ?n))" using b3 by (intro mult_le_mono1) simp
    finally show ?thesis using True by (simp add: top_bytes_def)
  next
    case False
    have "8 * (?n - 1) = 16 + 8 * (?n - 3)" using False by simp
    then have "2 ^ 16 * 2 ^ (8 * (?n - 3)) \<le> val a" using b3 by (simp only: power_add)
    then have "2 ^ 16 \<le> val a div 2 ^ (8 * (?n - 3))"
      by (simp only: less_eq_div_iff_mult_less_eq zero_less_power zero_less_numeral)
    then show ?thesis using False by (simp add: top_bytes_def)
  qed
qed

definition norm_mantissa :: "base_uint \<Rightarrow> nat" where
  "norm_mantissa a = (if top_bytes a \<ge> 2 ^ 23 then top_bytes a div 256 else top_bytes a)"

definition norm_size :: "base_uint \<Rightarrow> nat" where
  "norm_size a = (if top_bytes a \<ge> 2 ^ 23 then byte_size a + 1 else byte_size a)"

lemma unat_top_bytes:
  assumes "wf256 a"
  shows "unat (if byte_size a \<le> 3 then ucast (push_bit (8 * (3 - byte_size a)) (getLow64 a))
      else ucast (getLow64 (op_shr_assign a (8 * (byte_size a - 3)))) :: uint32) = top_bytes a"
proof (cases "byte_size a \<le> 3")
  case True
  let ?k = "8 * (3 - byte_size a)"
  have v: "val a * 2 ^ ?k < 2 ^ 24" using top_bytes_bounds [OF assms] True by (simp add: top_bytes_def)
  have "val a \<le> val a * 2 ^ ?k" by simp
  also note v
  also have "(2::nat) ^ 24 < 2 ^ 64" by simp
  finally have "val a < 2 ^ 64" .
  then have "unat (getLow64 a) = val a" using assms getLow64_val [of a] by (simp add: WIDTH_def)
  moreover have "unat (2 ^ ?k :: uint64) = 2 ^ ?k" by (rule unat_power2_64) simp
  ultimately have "unat (push_bit ?k (getLow64 a)) = val a * 2 ^ ?k"
    using v by (simp add: push_bit_eq_mult unat_word_ariths)
  then show ?thesis using True v by (simp add: unat_low32 top_bytes_def)
next
  case False
  let ?b = "op_shr_assign a (8 * (byte_size a - 3))"
  have "wf256 ?b" "val ?b = top_bytes a"
    using op_shr_assign_correct [OF assms] False by (simp_all add: top_bytes_def)
  moreover have "top_bytes a < 2 ^ 24" by (rule top_bytes_bounds [OF assms])
  ultimately show ?thesis
    using False getLow64_val [of ?b] by (simp add: WIDTH_def unat_low32)
qed


lemma norm_bounds:
  assumes "wf256 a"
  shows "norm_mantissa a < 2 ^ 23" "norm_size a \<le> 33"
    and "val a \<noteq> 0 \<Longrightarrow> 2 ^ 15 \<le> norm_mantissa a"
    and "val a = 0 \<Longrightarrow> norm_mantissa a = 0"
  using top_bytes_bounds [OF assms] byte_size_bounds(2) [OF assms]
  by (auto simp: norm_mantissa_def norm_size_def top_bytes_def)

lemma unat_pack:
  assumes "unat w < 2 ^ 24" "n < 256"
  shows "unat (w OR push_bit 24 (of_nat n) :: uint32) = unat w + 2 ^ 24 * n"
proof -
  have "unat (push_bit 24 (of_nat n) :: uint32) = push_bit 24 n"
    using assms(2) by (simp add: push_bit_eq_mult unat_word_ariths unsigned_of_nat take_bit_eq_mod)
  then have "unat (w OR push_bit 24 (of_nat n)) = unat w OR push_bit 24 n"
    by (simp only: unsigned_or_eq)
  then show ?thesis using assms(1) by (simp only: or_shift_add)
qed

text \<open>
  The assertions of \<open>getCompact\<close> never fail, and the fields of its result are the normalised
  mantissa, size and sign.
\<close>

theorem getCompact_correct:
  assumes "wf256 a"
  shows "\<exists>c. getCompact neg a = Inr c \<and> compact_mantissa c = norm_mantissa a \<and>
     compact_size c = norm_size a \<and> (odd (unat c div 2 ^ 23) \<longleftrightarrow> neg \<and> norm_mantissa a \<noteq> 0)"
proof -
  define w :: uint32 where
    "w = (if byte_size a \<le> 3 then ucast (push_bit (8 * (3 - byte_size a)) (getLow64 a))
          else ucast (getLow64 (op_shr_assign a (8 * (byte_size a - 3)))))"
  define v where "v = (if w AND 0x00800000 \<noteq> 0 then drop_bit 8 w else w)"
  define n where "n = (if w AND 0x00800000 \<noteq> 0 then byte_size a + 1 else byte_size a)"
  have w: "unat w = top_bytes a" unfolding w_def by (rule unat_top_bytes [OF assms])
  have "unat w div 2 ^ 23 < 2"
    using top_bytes_bounds(1) [OF assms] w by (simp add: less_mult_imp_div_less)
  then have "w AND 0x00800000 \<noteq> 0 \<longleftrightarrow> top_bytes a \<ge> 2 ^ 23"
    unfolding and_sign_bit w by (cases "top_bytes a div 2 ^ 23") (auto simp: div_eq_0_iff not_less)
  then have v: "unat v = norm_mantissa a" and n: "n = norm_size a"
    using w by (auto simp: v_def n_def norm_mantissa_def norm_size_def unat_drop_bit)
  note nb = norm_bounds [OF assms]
  define u where "u = v OR push_bit 24 (of_nat n)"
  have u: "unat u = norm_mantissa a + 2 ^ 24 * norm_size a"
    unfolding u_def using nb v n by (subst unat_pack) auto
  then have u': "unat u = norm_mantissa a + 2 ^ 23 * (2 * norm_size a)" by simp
  then have um: "unat u mod 2 ^ 23 = norm_mantissa a"
    using nb by (simp only: mod_mult_self2 mod_less)
  have "getCompact neg a = Inr (u OR (if neg \<and> u AND 0x007fffff \<noteq> 0 then 0x00800000 else 0))"
  proof -
    have "v AND NOT 0x007fffff = 0" unfolding and_not_mantissa v using nb by simp
    moreover have "n < 256" using nb n by simp
    ultimately show ?thesis
      unfolding getCompact_def Let_def byte_size_def [symmetric] w_def [symmetric]
      by (cases "w AND 0x00800000 = 0") (simp_all add: u_def v_def n_def)
  qed
  moreover have "u AND 0x007fffff \<noteq> 0 \<longleftrightarrow> norm_mantissa a \<noteq> 0"
    using um by (metis unat_and_mantissa unsigned_eq_0_iff)
  moreover have "unat (u OR 0x00800000) = unat u + 2 ^ 23"
  proof -
    have "\<not> odd (unat u div 2 ^ 23)"
      unfolding u' using nb by (simp only: div_mult_self2) simp
    then have "u AND 0x00800000 = 0" by (simp only: and_sign_bit [symmetric]) simp
    then have "u + 0x00800000 = u OR 0x00800000" by (rule disjunctive_add_eq_or)
    moreover have "unat u + 2 ^ 23 < 2 ^ 32" using u nb by simp
    then have "unat (u + 0x00800000) = unat u + 2 ^ 23" by (simp add: unat_word_ariths)
    ultimately show ?thesis by simp
  qed
  ultimately obtain c where c: "getCompact neg a = Inr c"
    "unat c = norm_mantissa a + (if neg \<and> norm_mantissa a \<noteq> 0 then 2 ^ 23 else 0) + 2 ^ 24 * norm_size a"
    using u by (cases "neg \<and> norm_mantissa a \<noteq> 0") auto
  show ?thesis
  proof (intro exI conjI)
    show "getCompact neg a = Inr c" by (rule c(1))
    let ?s = "if neg \<and> norm_mantissa a \<noteq> 0 then 1 else 0 :: nat"
    have e: "unat c = norm_mantissa a + 2 ^ 23 * (?s + 2 * norm_size a)" using c(2) by auto
    show "compact_mantissa c = norm_mantissa a"
      unfolding compact_mantissa_def e using nb by (simp only: mod_mult_self2 mod_less)
    show "odd (unat c div 2 ^ 23) \<longleftrightarrow> neg \<and> norm_mantissa a \<noteq> 0"
      unfolding e using nb by (simp only: div_mult_self2) simp
    show "compact_size c = norm_size a"
      unfolding compact_size_def c(2) by (rule div_low) (use nb in auto)
  qed
qed


section \<open>Round trips\<close>

text \<open>What the encoding drops: everything below the last byte of the mantissa.\<close>

definition compact_trunc :: "base_uint \<Rightarrow> nat" where
  "compact_trunc a = val a div 2 ^ (8 * (norm_size a - 3)) * 2 ^ (8 * (norm_size a - 3))"

lemma norm_decodes:
  assumes "wf256 a"
  shows "norm_mantissa a div 2 ^ (8 * (3 - norm_size a)) * 2 ^ (8 * (norm_size a - 3)) = compact_trunc a"
proof -
  let ?n = "byte_size a"
  consider "?n < 3" | "?n = 3" | "?n > 3" by linarith
  then show ?thesis
  proof cases
    case 1
    then have "8 * (3 - ?n) = 8 + 8 * (3 - (?n + 1))" by simp
    then have "(2::nat) ^ (8 * (3 - ?n)) = 2 ^ (8 * (3 - (?n + 1))) * 256"
      by (simp only: power_add) simp
    then have t: "top_bytes a = val a * 2 ^ (8 * (3 - (?n + 1))) * 256"
      using 1 by (simp add: top_bytes_def)
    have "norm_mantissa a = val a * 2 ^ (8 * (3 - norm_size a))"
    proof (cases "top_bytes a \<ge> 2 ^ 23")
      case True
      then show ?thesis unfolding norm_mantissa_def norm_size_def by (simp only: t) simp
    next
      case False
      then show ?thesis using 1 by (simp add: norm_mantissa_def norm_size_def top_bytes_def)
    qed
    then show ?thesis using 1 by (simp add: norm_size_def compact_trunc_def)
  next
    case 2
    then show ?thesis
      by (simp add: norm_mantissa_def norm_size_def top_bytes_def compact_trunc_def)
  next
    case 3
    then have "8 * (?n + 1 - 3) = 8 + 8 * (?n - 3)" by simp
    then have "(2::nat) ^ (8 * (?n + 1 - 3)) = 2 ^ (8 * (?n - 3)) * 256" by (simp add: power_add)
    then have "norm_mantissa a = val a div 2 ^ (8 * (norm_size a - 3))"
      using 3 by (simp add: norm_mantissa_def norm_size_def top_bytes_def div_mult2_eq)
    then show ?thesis using 3 by (simp add: norm_size_def compact_trunc_def)
  qed
qed

theorem setCompact_getCompact:
  assumes "wf256 a" "getCompact False a = Inr c" "setCompact c = (b, neg, ovf)"
  shows "wf256 b \<and> val b = compact_trunc a \<and> \<not> neg \<and> \<not> ovf"
proof -
  have f: "compact_mantissa c = norm_mantissa a" "compact_size c = norm_size a"
    "\<not> odd (unat c div 2 ^ 23)"
    using getCompact_correct [OF assms(1), of False] assms(2) by auto
  have "compact_trunc a \<le> val a" by (simp add: compact_trunc_def)
  then have "compact_trunc a < 2 ^ 256" using val_less_256 [OF assms(1)] by linarith
  then show ?thesis
    using setCompact_correct [OF assms(3)] f norm_decodes [OF assms(1)] by simp
qed

text \<open>The precision kept: at least 15 significant bits, and small numbers exactly.\<close>

theorem compact_precision:
  assumes "wf256 a"
  shows "compact_trunc a \<le> val a"
    and "val a < compact_trunc a + 2 ^ (8 * (norm_size a - 3))"
    and "val a \<noteq> 0 \<Longrightarrow> norm_size a > 3 \<Longrightarrow> 2 ^ 15 * 2 ^ (8 * (norm_size a - 3)) \<le> compact_trunc a"
proof -
  let ?k = "2 ^ (8 * (norm_size a - 3)) :: nat"
  show "compact_trunc a \<le> val a" by (simp add: compact_trunc_def)
  have "val a = val a div ?k * ?k + val a mod ?k" by (rule div_mult_mod_eq [symmetric])
  moreover have "val a mod ?k < ?k" by simp
  ultimately show "val a < compact_trunc a + ?k" unfolding compact_trunc_def by linarith
  assume "val a \<noteq> 0" "norm_size a > 3"
  then have "2 ^ 15 \<le> norm_mantissa a" "3 - norm_size a = 0"
    using norm_bounds(3) [OF assms] by simp_all
  then have "2 ^ 15 * ?k \<le> norm_mantissa a div 2 ^ (8 * (3 - norm_size a)) * ?k"
    by (intro mult_le_mono1) simp
  then show "2 ^ 15 * ?k \<le> compact_trunc a" by (simp only: norm_decodes [OF assms])
qed

lemma byte_size_unique:
  assumes "wf256 a" "0 < n" "2 ^ (8 * (n - 1)) \<le> val a" "val a < 2 ^ (8 * n)"
  shows "byte_size a = n"
proof -
  have nz: "val a \<noteq> 0" using assms(3) by (metis le_zero_eq power_not_zero zero_neq_numeral)
  note b = byte_size_bounds [OF assms(1)]
  have "(2::nat) ^ (8 * (n - 1)) < 2 ^ (8 * byte_size a)" using assms(3) b(1) by linarith
  then have "8 * (n - 1) < 8 * byte_size a" by (rule power_less_imp_less_exp [rotated]) simp
  moreover have "(2::nat) ^ (8 * (byte_size a - 1)) < 2 ^ (8 * n)" using assms(4) b(3) [OF nz] by linarith
  then have "8 * (byte_size a - 1) < 8 * n" by (rule power_less_imp_less_exp [rotated]) simp
  ultimately show ?thesis using assms(2) b(3) [OF nz] by linarith
qed


lemma multiple_le_trunc:
  fixes x y k :: nat
  assumes "k dvd x" "x \<le> y"
  shows "x \<le> y div k * k"
proof -
  obtain m where "x = m * k" using assms(1) by (metis dvd_def mult.commute)
  with assms(2) show ?thesis
    by (cases "k = 0") (auto simp: less_eq_div_iff_mult_less_eq)
qed

lemma norm_trunc:
  assumes "wf256 a" "wf256 b" "val b = compact_trunc a"
  shows "norm_mantissa b = norm_mantissa a \<and> norm_size b = norm_size a"
proof (cases "val a = 0 \<or> norm_size a \<le> 3")
  case True
  then have "val b = val a" using assms(3) by (auto simp: compact_trunc_def)
  then have "b = a" using assms by (intro val_inj) simp_all
  then show ?thesis by simp
next
  case False
  define n where "n = byte_size a"
  define K :: nat where "K = 2 ^ (8 * (n - 3))"
  have n3: "n \<ge> 3" using False by (auto simp: n_def norm_size_def split: if_splits)
  have K0: "K > 0" by (simp add: K_def)
  have ta: "top_bytes a = val a div K" using n3 by (auto simp: top_bytes_def n_def K_def)
  have trunc: "compact_trunc a = (if top_bytes a \<ge> 2 ^ 23 then val a div K div 256 * 256 * K
                                  else val a div K * K)"
  proof -
    have "8 * (n + 1 - 3) = 8 + 8 * (n - 3)" using n3 by simp
    then have "(2::nat) ^ (8 * (n + 1 - 3)) = K * 256" by (simp add: power_add K_def)
    then show ?thesis
      by (auto simp: compact_trunc_def norm_size_def n_def [symmetric] K_def [symmetric] div_mult2_eq)
  qed
  have "byte_size b = n"
  proof (rule byte_size_unique [OF assms(2)])
    show "0 < n" using n3 by simp
    show "val b < 2 ^ (8 * n)"
      using compact_precision(1) [OF assms(1)] byte_size_bounds(1) [OF assms(1)] assms(3)
      by (simp add: n_def)
    have "8 * (norm_size a - 3) \<le> 8 * (n - 1)" using n3 by (auto simp: norm_size_def n_def)
    then have "(2::nat) ^ (8 * (norm_size a - 3)) dvd 2 ^ (8 * (n - 1))" by (rule le_imp_power_dvd)
    then show "2 ^ (8 * (n - 1)) \<le> val b"
      using byte_size_bounds(3) [OF assms(1)] False unfolding assms(3) compact_trunc_def n_def
      by (intro multiple_le_trunc) auto
  qed
  then have tb: "top_bytes b = val b div K" using n3 by (auto simp: top_bytes_def K_def)
  show ?thesis
  proof (cases "top_bytes a \<ge> 2 ^ 23")
    case True
    have "2 ^ 23 \<le> val a div K div 256 * 256" using True ta by (intro multiple_le_trunc) simp_all
    moreover have "top_bytes b = val a div K div 256 * 256" using tb trunc True assms(3) K0 by simp
    ultimately show ?thesis
      using True \<open>byte_size b = n\<close> ta by (simp add: norm_mantissa_def norm_size_def n_def)
  next
    case False
    then have "top_bytes b = top_bytes a" using tb ta trunc assms(3) K0 by simp
    then show ?thesis using \<open>byte_size b = n\<close> by (simp add: norm_mantissa_def norm_size_def n_def)
  qed
qed

lemma compact_fields_inj:
  assumes "compact_mantissa c = compact_mantissa d" "compact_size c = compact_size d"
    "odd (unat c div 2 ^ 23) = odd (unat d div 2 ^ 23)"
  shows "c = d"
proof -
  have split: "unat x = compact_mantissa x + 2 ^ 23 * (unat x div 2 ^ 23 mod 2 + 2 * compact_size x)"
    for x :: uint32
  proof -
    have "unat x div 2 ^ 24 = unat x div 2 ^ 23 div 2"
      by (simp add: div_mult2_eq [symmetric])
    then have "unat x div 2 ^ 23 mod 2 + 2 * compact_size x = unat x div 2 ^ 23"
      by (simp only: compact_size_def mod_mult_div_eq)
    then show ?thesis by (simp only: compact_mantissa_def mod_mult_div_eq)
  qed
  have "unat c div 2 ^ 23 mod 2 = unat d div 2 ^ 23 mod 2"
    using assms(3) by (simp only: odd_iff_mod_2_eq_one even_iff_mod_2_eq_zero) (metis parity_cases)
  then have "unat c = unat d" using split [of c] split [of d] assms(1,2) by simp
  then show ?thesis by (simp add: word_unat_eq_iff)
qed

theorem getCompact_stable:
  assumes "wf256 a" "getCompact False a = Inr c" "setCompact c = (b, neg, ovf)"
  shows "getCompact False b = Inr c"
proof -
  have b: "wf256 b" "val b = compact_trunc a" using setCompact_getCompact [OF assms] by auto
  obtain d where d: "getCompact False b = Inr d" "compact_mantissa d = norm_mantissa b"
    "compact_size d = norm_size b" "even (unat d div 2 ^ 23)"
    using getCompact_correct [OF b(1), of False] by blast
  moreover have "compact_mantissa c = norm_mantissa a" "compact_size c = norm_size a"
    "even (unat c div 2 ^ 23)"
    using getCompact_correct [OF assms(1), of False] assms(2) by auto
  ultimately have "d = c"
    using norm_trunc [OF assms(1) b] by (intro compact_fields_inj) auto
  then show ?thesis using d by simp
qed

lemma compact_close:
  assumes "wf256 a"
  shows "(val a - compact_trunc a) * 2 ^ 15 \<le> val a"
proof (cases "val a \<noteq> 0 \<and> norm_size a > 3")
  case True
  let ?k = "2 ^ (8 * (norm_size a - 3)) :: nat"
  have "(val a - compact_trunc a) * 2 ^ 15 \<le> ?k * 2 ^ 15"
    using compact_precision(2) [OF assms] by (intro mult_le_mono1) linarith
  also have "\<dots> \<le> compact_trunc a"
    using compact_precision(3) [OF assms] True by (simp add: mult.commute)
  also have "\<dots> \<le> val a" by (rule compact_precision(1) [OF assms])
  finally show ?thesis .
next
  case False
  then have "compact_trunc a = val a" by (auto simp: compact_trunc_def)
  then show ?thesis by simp
qed

section \<open>Properties\<close>

text \<open>
  \<open>setCompact\<close> decodes mantissa and exponent to \<open>mantissa * 256 ^ (size - 3)\<close> modulo
  \<open>2 ^ 256\<close>; the overflow flag is set exactly when that number does not fit, and the negative flag
  exactly when the sign bit is set on a non-zero number.
\<close>

theorem compact_decoding:
  "case setCompact c of (a, neg, ovf) \<Rightarrow>
     let m = compact_mantissa c div 2 ^ (8 * (3 - compact_size c));
         v = m * 2 ^ (8 * (compact_size c - 3))
     in wf256 a \<and> val a = v mod 2 ^ 256 \<and> (ovf \<longleftrightarrow> v \<ge> 2 ^ 256) \<and>
        (neg \<longleftrightarrow> m \<noteq> 0 \<and> odd (unat c div 2 ^ 23))"
  using setCompact_correct [of c] by (auto simp: Let_def split: prod.splits)

text \<open>
  C31: \<open>getCompact\<close> never fails its assertions; decoding its result gives back the number with all
  but its top bytes cleared, without the overflow or the negative flag; at least 15 bits of
  precision survive; and encoding the decoded number again gives the same compact form.
\<close>

theorem compact_round_trip:
  assumes "wf256 a"
  shows "\<exists>c b. getCompact False a = Inr c \<and> setCompact c = (b, False, False) \<and> wf256 b \<and>
    val b \<le> val a \<and> (val a - val b) * 2 ^ 15 \<le> val a \<and> getCompact False b = Inr c"
proof -
  obtain c where c: "getCompact False a = Inr c" using getCompact_correct [OF assms] by blast
  obtain b neg ovf where s: "setCompact c = (b, neg, ovf)" using prod_cases3 by blast
  note b = setCompact_getCompact [OF assms c s]
  show ?thesis
    using b c s compact_precision(1) [OF assms] compact_close [OF assms] getCompact_stable [OF assms c s]
    by (intro exI [of _ c] exI [of _ b]) simp
qed

theorem compact_round_trip_witness:
  "wf256 (replicate 8 0xffffffff) \<and> (\<exists>c b. getCompact False (replicate 8 0xffffffff) = Inr c \<and>
     setCompact c = (b, False, False) \<and> getCompact False b = Inr c)"
  using compact_round_trip [of "replicate 8 0xffffffff"] by (auto simp: WIDTH_def)

end
