(* ===== verification/Uint256.thy ===== *)
theory Uint256
  imports Arith_Uint256 Endian
begin

text \<open>
  The opaque byte blobs of \<open>libs/common/uint256.h\<close> and \<open>uint256.cpp\<close> (\<open>uint160\<close>, \<open>uint256\<close>), their
  hexadecimal text form, and the conversions between \<open>uint256\<close> and \<open>arith_uint256\<close>.

  A \<open>base_blob\<close> is its member array \<open>data\<close>; \<open>BITS / 8\<close> is the length of the list. A C string
  argument is the list of its characters up to the terminating NUL, which the scanning loops of
  \<open>setHex\<close> meet at the end of the list. The host is little-endian, as \<open>Endian\<close> justifies.

  The lemmas show that \<open>setHex\<close> stores the number its digits denote modulo the width of the blob,
  that \<open>getHex\<close> and \<open>setHex\<close> round-trip, that the comparison operators are a strict linear order,
  and that the conversions to and from \<open>arith_uint256\<close> are mutually inverse and keep the value.
\<close>

unbundle bit_operations_syntax

section \<open>Definitions\<close>

type_synonym base_blob = "uint8 list"

definition UINT256_WIDTH :: nat where
  "UINT256_WIDTH = 32"

definition UINT160_WIDTH :: nat where
  "UINT160_WIDTH = 20"

definition blob_null :: "nat \<Rightarrow> base_blob" where
  "blob_null width = replicate width 0"

datatype blob_error = AssertBlobSize

definition blob_of_vector :: "nat \<Rightarrow> uint8 list \<Rightarrow> (blob_error, base_blob) result" where
  "blob_of_vector width vch = (if length vch = width then Inr vch else Inl AssertBlobSize)"

definition isNull :: "base_blob \<Rightarrow> bool" where
  "isNull data = list_all (\<lambda>i. data ! i = 0) [0..<length data]"

definition setNull :: "base_blob \<Rightarrow> base_blob" where
  "setNull data = replicate (length data) 0"

fun compare :: "base_blob \<Rightarrow> base_blob \<Rightarrow> int" where
  "compare (x # xs) (y # ys) = (if x = y then compare xs ys else uint x - uint y)"
| "compare _ _ = 0"

definition blob_eq :: "base_blob \<Rightarrow> base_blob \<Rightarrow> bool" where
  "blob_eq a b = (compare a b = 0)"

definition blob_less :: "base_blob \<Rightarrow> base_blob \<Rightarrow> bool" where
  "blob_less a b = (compare a b < 0)"

definition hexmap :: string where
  "hexmap = ''0123456789abcdef''"

fun hexStr_loop :: "bool \<Rightarrow> bool \<Rightarrow> uint8 list \<Rightarrow> string" where
  "hexStr_loop fSpaces first [] = []"
| "hexStr_loop fSpaces first (v # vs) =
     (if fSpaces \<and> \<not> first then '' '' else []) @
     [hexmap ! unat (drop_bit 4 v), hexmap ! unat (v AND 15)] @ hexStr_loop fSpaces False vs"

definition hexStr :: "uint8 list \<Rightarrow> bool \<Rightarrow> string" where
  "hexStr vch fSpaces = hexStr_loop fSpaces True vch"

definition p_util_hexdigit :: "int list" where
  "p_util_hexdigit =
     replicate 48 (- 1) @ [0, 1, 2, 3, 4, 5, 6, 7, 8, 9] @ replicate 6 (- 1) @
     [- 1, 0xa, 0xb, 0xc, 0xd, 0xe, 0xf] @ replicate 9 (- 1) @ replicate 16 (- 1) @
     [- 1, 0xa, 0xb, 0xc, 0xd, 0xe, 0xf] @ replicate 9 (- 1) @ replicate 144 (- 1)"

definition hexDigit :: "char \<Rightarrow> int" where
  "hexDigit c = p_util_hexdigit ! of_char c"

definition getHex :: "base_blob \<Rightarrow> string" where
  "getHex data = hexStr (rev data) False"

definition isspace :: "char \<Rightarrow> bool" where
  "isspace c = (of_char c \<in> {9, 10, 11, 12, 13, 32 :: nat})"

definition skip_0x :: "string \<Rightarrow> string" where
  "skip_0x psz = (case psz of c # d # rest \<Rightarrow>
       (if c = CHR ''0'' \<and> (d = CHR ''x'' \<or> d = CHR ''X'') then rest else psz) | _ \<Rightarrow> psz)"

function setHex_loop :: "base_blob \<Rightarrow> nat \<Rightarrow> string \<Rightarrow> base_blob" where
  "setHex_loop data p1 rdigits =
     (if rdigits \<noteq> [] \<and> p1 < length data
      then let data = data[p1 := of_int (hexDigit (hd rdigits))]; rdigits = tl rdigits
           in if rdigits \<noteq> []
              then setHex_loop
                     (data[p1 := data ! p1 OR push_bit 4 (of_int (hexDigit (hd rdigits)))])
                     (Suc p1) (tl rdigits)
              else data
      else data)"
  by pat_completeness auto
termination
  by (relation "measure (\<lambda>(data, p1, rdigits). length rdigits)") (auto simp: neq_Nil_conv)

definition setHex :: "nat \<Rightarrow> string \<Rightarrow> base_blob" where
  "setHex width psz =
     (let psz = skip_0x (dropWhile isspace psz);
          digits = takeWhile (\<lambda>c. hexDigit c \<noteq> - 1) psz
      in setHex_loop (replicate width 0) 0 (rev digits))"

definition toString :: "base_blob \<Rightarrow> string" where
  "toString data = getHex data"

definition uint256S :: "string \<Rightarrow> base_blob" where
  "uint256S str = setHex UINT256_WIDTH str"

definition getUint64 :: "base_blob \<Rightarrow> nat \<Rightarrow> uint64" where
  "getUint64 data pos =
     (let ptr = drop (pos * 8) data
      in ucast (ptr ! 0) OR push_bit 8 (ucast (ptr ! 1)) OR push_bit 16 (ucast (ptr ! 2)) OR
         push_bit 24 (ucast (ptr ! 3)) OR push_bit 32 (ucast (ptr ! 4)) OR
         push_bit 40 (ucast (ptr ! 5)) OR push_bit 48 (ucast (ptr ! 6)) OR
         push_bit 56 (ucast (ptr ! 7)))"

definition GetCheapHash :: "base_blob \<Rightarrow> uint64" where
  "GetCheapHash data = le_word (take 8 data)"

definition writeLE32 :: "base_blob \<Rightarrow> nat \<Rightarrow> uint32 \<Rightarrow> base_blob" where
  "writeLE32 data ofs x = take ofs data @ le_bytes x @ drop (ofs + 4) data"

definition readLE32 :: "base_blob \<Rightarrow> nat \<Rightarrow> uint32" where
  "readLE32 data ofs = le_word (take 4 (drop ofs data))"

definition arithToUint256 :: "base_uint \<Rightarrow> base_blob" where
  "arithToUint256 a =
     foldl (\<lambda>b x. writeLE32 b (x * 4) (a ! x)) (blob_null UINT256_WIDTH) [0..<WIDTH]"

definition uintToArith256 :: "base_blob \<Rightarrow> base_uint" where
  "uintToArith256 a = foldl (\<lambda>b x. b[x := readLE32 a (x * 4)]) base_uint_zero [0..<WIDTH]"

definition arith_setHex :: "string \<Rightarrow> base_uint" where
  "arith_setHex psz = uintToArith256 (uint256S psz)"

definition arith_getHex :: "base_uint \<Rightarrow> string" where
  "arith_getHex a = getHex (arithToUint256 a)"

text \<open>The number a string of hexadecimal digits denotes, most significant digit first.\<close>

definition hex_val :: "string \<Rightarrow> nat" where
  "hex_val ds = foldl (\<lambda>v c. 16 * v + nat (hexDigit c)) 0 ds"

declare setHex_loop.simps [simp del]

section \<open>Conversions to and from arith_uint256\<close>

lemma take_drop_concat_chunks:
  assumes "\<And>x. x \<in> set xs \<Longrightarrow> length (f x) = n" "i < length xs"
  shows "take n (drop (i * n) (concat (map f xs))) = f (xs ! i)"
  using assms
proof (induction xs arbitrary: i)
  case Nil
  then show ?case by simp
next
  case (Cons y ys)
  then show ?case by (cases i) auto
qed

lemma arithToUint256_eq: "wf256 a \<Longrightarrow> arithToUint256 a = concat (map le_bytes a)"
proof -
  assume wf: "wf256 a"
  let ?P = "\<lambda>n b. b = concat (map le_bytes (take n a)) @ replicate (4 * (WIDTH - n)) 0"
  have len: "length (concat (map le_bytes (take n a))) = 4 * n" if "n \<le> WIDTH" for n
    using that wf by (simp add: length_concat comp_def sum_list_triv)
  have "?P WIDTH (arithToUint256 a)"
    unfolding arithToUint256_def
  proof (rule foldl_upt_invariant [where P = ?P])
    show "?P 0 (blob_null UINT256_WIDTH)" by (simp add: blob_null_def UINT256_WIDTH_def WIDTH_def)
  next
    fix i b assume i: "i < WIDTH" and b: "?P i b"
    have "4 * (WIDTH - i) - 4 = 4 * (WIDTH - Suc i)" using i by simp
    then show "?P (Suc i) (writeLE32 b (i * 4) (a ! i))"
      using i wf len [of i] b
      by (simp add: writeLE32_def take_Suc_conv_app_nth)
  qed
  then show ?thesis using wf by simp
qed


lemma length_arithToUint256 [simp]: "wf256 a \<Longrightarrow> length (arithToUint256 a) = UINT256_WIDTH"
  by (simp add: arithToUint256_eq length_concat comp_def sum_list_triv WIDTH_def UINT256_WIDTH_def)

lemma uintToArith256_eq: "uintToArith256 a = map (\<lambda>x. readLE32 a (x * 4)) [0..<WIDTH]"
  unfolding uintToArith256_def
  using foldl_pointwise [of base_uint_zero WIDTH "\<lambda>x _. readLE32 a (x * 4)"] by simp

lemma wf256_uintToArith256 [simp]: "wf256 (uintToArith256 a)"
  by (simp add: uintToArith256_eq)

theorem uintToArith256_arithToUint256:
  assumes "wf256 a"
  shows "uintToArith256 (arithToUint256 a) = a"
proof -
  have "readLE32 (arithToUint256 a) (x * 4) = a ! x" if "x < WIDTH" for x
    using assms that take_drop_concat_chunks [of a le_bytes 4 x]
    by (simp add: readLE32_def arithToUint256_eq le_word_le_bytes)
  then show ?thesis
    using assms by (auto simp: uintToArith256_eq intro!: nth_equalityI)
qed

lemma le_val_concat_limbs: "le_val (concat (map le_bytes ps)) = val ps"
proof (induction ps)
  case Nil
  then show ?case by simp
next
  case (Cons p ps)
  have "le_val (le_bytes p) = unat p"
    using unat_bound [of p] by (simp add: le_bytes_def le_val_nat_bytes)
  then show ?case using Cons by (simp add: le_val_append)
qed

lemma le_val_arithToUint256: "wf256 a \<Longrightarrow> le_val (arithToUint256 a) = val a"
  by (simp add: arithToUint256_eq le_val_concat_limbs)

theorem arithToUint256_uintToArith256:
  assumes "length b = UINT256_WIDTH"
  shows "arithToUint256 (uintToArith256 b) = b"
proof -
  obtain a where a: "wf256 a" "val a = le_val b"
  proof
    let ?a = "map (\<lambda>i. of_nat (le_val b div 2 ^ (32 * i))) [0..<WIDTH] :: base_uint"
    show "wf256 ?a" by simp
    have gen: "val (map (\<lambda>i. of_nat (v div 2 ^ (32 * i))) [0..<n]) = v mod 2 ^ (32 * n)" for n v
    proof (induction n arbitrary: v)
      case 0
      then show ?case by simp
    next
      case (Suc n)
      have "map (\<lambda>i. of_nat (v div 2 ^ (32 * i)) :: uint32) [0..<Suc n]
          = of_nat v # map (\<lambda>i. of_nat (v div 2 ^ 32 div 2 ^ (32 * i))) [0..<n]"
        by (simp add: upt_conv_Cons map_Suc_upt [symmetric] div_mult2_eq [symmetric] power_add del: upt_Suc)
      then show ?case
        by (simp add: Suc unsigned_of_nat take_bit_eq_mod power_add mod_mult2_eq)
    qed
    have "le_val b < 2 ^ 256" using le_val_less [of b] assms by (simp add: UINT256_WIDTH_def)
    then show "val ?a = le_val b" using gen [of "le_val b" WIDTH] by (simp add: WIDTH_def)
  qed
  then have "arithToUint256 a = b"
    using assms by (intro le_val_inj) (simp_all add: le_val_arithToUint256)
  then show ?thesis using uintToArith256_arithToUint256 [OF a(1)] by simp
qed

lemma val_uintToArith256: "length b = UINT256_WIDTH \<Longrightarrow> val (uintToArith256 b) = le_val b"
  using le_val_arithToUint256 [of "uintToArith256 b"] arithToUint256_uintToArith256 [of b] by simp

section \<open>Comparison\<close>

lemma compare_eq_0_iff: "length a = length b \<Longrightarrow> compare a b = 0 \<longleftrightarrow> a = b"
  by (induction a b rule: compare.induct) (auto simp: word_uint_eq_iff)

lemma compare_antisym: "length a = length b \<Longrightarrow> compare b a = - compare a b"
  by (induction a b rule: compare.induct) auto

lemma blob_less_trans:
  "length a = length b \<Longrightarrow> length b = length c \<Longrightarrow> blob_less a b \<Longrightarrow> blob_less b c \<Longrightarrow> blob_less a c"
  unfolding blob_less_def
proof (induction a b arbitrary: c rule: list_induct2)
  case Nil
  then show ?case by simp
next
  case (Cons x xs y ys)
  then obtain z zs where "c = z # zs" by (cases c) auto
  with Cons show ?case by (auto split: if_splits)
qed

theorem blob_order:
  assumes "length a = length b"
  shows "blob_eq a b \<longleftrightarrow> a = b" and "\<not> blob_less a a"
    and "blob_less a b \<or> a = b \<or> blob_less b a" and "blob_less a b \<Longrightarrow> \<not> blob_less b a"
  using compare_eq_0_iff [OF assms] compare_antisym [OF assms] compare_eq_0_iff [of a a]
  by (auto simp: blob_eq_def blob_less_def)


section \<open>Hexadecimal text\<close>

lemma hexDigit_range: "hexDigit c = - 1 \<or> 0 \<le> hexDigit c \<and> hexDigit c < 16"
proof -
  have all: "list_all (\<lambda>n. p_util_hexdigit ! n = - 1 \<or>
      0 \<le> p_util_hexdigit ! n \<and> p_util_hexdigit ! n < 16) [0..<256]"
    by code_simp
  have "of_char c \<in> set [0..<256]" by simp
  then show ?thesis using all unfolding hexDigit_def list_all_iff by blast
qed

lemma hexmap_digit:
  assumes "d < 16"
  shows "hexDigit (hexmap ! d) = int d" "\<not> isspace (hexmap ! d)" "hexmap ! d \<notin> {CHR ''x'', CHR ''X''}"
proof -
  have "list_all (\<lambda>d. hexDigit (hexmap ! d) = int d \<and> \<not> isspace (hexmap ! d) \<and>
      hexmap ! d \<noteq> CHR ''x'' \<and> hexmap ! d \<noteq> CHR ''X'') [0..<16]"
    by code_simp
  then show "hexDigit (hexmap ! d) = int d" "\<not> isspace (hexmap ! d)"
    "hexmap ! d \<notin> {CHR ''x'', CHR ''X''}"
    using assms by (auto simp: list_all_iff)
qed

primrec rhex_val :: "string \<Rightarrow> nat" where
  "rhex_val [] = 0"
| "rhex_val (c # cs) = nat (hexDigit c) + 16 * rhex_val cs"

lemma hex_val_rev: "hex_val (rev ds) = rhex_val ds"
  by (induction ds) (simp_all add: hex_val_def)

lemma unat_nibbles:
  assumes "0 \<le> d" "d < 16" "0 \<le> e" "e < 16"
  shows "unat (of_int d OR push_bit 4 (of_int e) :: uint8) = nat d + 16 * nat e"
proof -
  have u: "unat (of_int d :: uint8) = nat d" "unat (of_int e :: uint8) = nat e"
    using assms by (simp_all add: unsigned_of_int take_bit_int_eq_self)
  have "unat (push_bit 4 (of_int e) :: uint8) = push_bit 4 (nat e)"
    using assms u by (simp add: push_bit_eq_mult unat_word_ariths)
  then have "unat (of_int d OR push_bit 4 (of_int e) :: uint8) = nat d OR push_bit 4 (nat e)"
    by (simp only: unsigned_or_eq u)
  also have "\<dots> = nat d + 2 ^ 4 * nat e" using assms by (intro or_shift_add) simp
  finally show ?thesis by simp
qed

lemma le_val_update_zero:
  assumes "p < length data" "drop p data = replicate (length data - p) 0"
  shows "le_val (data[p := x]) = le_val (take p data) + 256 ^ p * unat x"
    and "drop (Suc p) (data[p := x]) = replicate (length data - Suc p) 0"
    and "le_val (take (Suc p) (data[p := x])) = le_val (take p data) + 256 ^ p * unat x"
proof -
  have "drop (Suc p) data = replicate (length data - Suc p) 0"
  proof -
    have "drop (Suc p) data = drop 1 (drop p data)" by simp
    then show ?thesis by (simp only: assms(2) drop_replicate) simp
  qed
  then show d: "drop (Suc p) (data[p := x]) = replicate (length data - Suc p) 0" by simp
  have t: "take (Suc p) (data[p := x]) = take p data @ [x]"
    using assms(1) by (simp add: take_Suc_conv_app_nth)
  then show "le_val (take (Suc p) (data[p := x])) = le_val (take p data) + 256 ^ p * unat x"
    using assms(1) by (simp add: le_val_append)
  have "data[p := x] = take p data @ [x] @ replicate (length data - Suc p) 0"
    using t d by (metis append_assoc append_take_drop_id)
  then show "le_val (data[p := x]) = le_val (take p data) + 256 ^ p * unat x"
    using assms(1) by (simp add: le_val_append le_val_replicate_0)
qed

lemma setHex_loop_val:
  assumes "p1 \<le> length data" "drop p1 data = replicate (length data - p1) 0"
    "\<forall>c \<in> set ds. hexDigit c \<noteq> - 1"
  shows "length (setHex_loop data p1 ds) = length data \<and> le_val (setHex_loop data p1 ds)
     = (le_val (take p1 data) + 256 ^ p1 * rhex_val ds) mod 256 ^ length data"
  using assms
proof (induction data p1 ds rule: setHex_loop.induct)
  case (1 data p1 ds)
  have data: "data = take p1 data @ replicate (length data - p1) 0"
    using "1.prems"(2) by (metis append_take_drop_id)
  have vd: "le_val data = le_val (take p1 data)"
    using arg_cong [OF data, of le_val] by (simp add: le_val_append le_val_replicate_0)
  have low: "le_val data < 256 ^ length data" by (rule le_val_less)
  show ?case
  proof (cases "ds \<noteq> [] \<and> p1 < length data")
    case False
    then have same: "setHex_loop data p1 ds = data" by (subst setHex_loop.simps) auto
    have "256 ^ p1 * rhex_val ds mod 256 ^ length data = 0"
      using False "1.prems"(1) by (cases "ds = []") auto
    then have "(le_val data + 256 ^ p1 * rhex_val ds) mod 256 ^ length data = le_val data"
      using low by (metis add.right_neutral mod_add_right_eq mod_less)
    then show ?thesis by (simp only: same vd)
  next
    case True
    then obtain d es where ds: "ds = d # es" by (cases ds) auto
    have d: "0 \<le> hexDigit d" "hexDigit d < 16"
      using hexDigit_range [of d] "1.prems"(3) by (auto simp: ds)
    show ?thesis
    proof (cases es)
      case Nil
      have "unat (of_int (hexDigit d) :: uint8) = nat (hexDigit d)"
        using d by (simp add: unsigned_of_int take_bit_int_eq_self)
      then have "le_val (data[p1 := of_int (hexDigit d)])
          = le_val (take p1 data) + 256 ^ p1 * rhex_val ds"
        using le_val_update_zero(1) [of p1 data] True "1.prems"(2) ds Nil by simp
      moreover have "setHex_loop data p1 ds = data[p1 := of_int (hexDigit d)]"
        using True ds Nil by (subst setHex_loop.simps) simp
      ultimately show ?thesis
        using le_val_less [of "data[p1 := of_int (hexDigit d)]"] by simp
    next
      case (Cons e fs)
      have e: "0 \<le> hexDigit e" "hexDigit e < 16"
        using hexDigit_range [of e] "1.prems"(3) by (auto simp: ds Cons)
      define x :: uint8 where "x = of_int (hexDigit d) OR push_bit 4 (of_int (hexDigit e))"
      have x: "unat x = nat (hexDigit d) + 16 * nat (hexDigit e)"
        unfolding x_def by (rule unat_nibbles [OF d e])
      have step: "setHex_loop data p1 ds = setHex_loop (data[p1 := x]) (Suc p1) fs"
        using True ds Cons by (subst setHex_loop.simps) (simp add: x_def)
      note z = le_val_update_zero [of p1 data x, OF _ "1.prems"(2)]
      have "length (setHex_loop (data[p1 := x]) (Suc p1) fs) = length data \<and>
          le_val (setHex_loop (data[p1 := x]) (Suc p1) fs)
          = (le_val (take (Suc p1) (data[p1 := x])) + 256 ^ Suc p1 * rhex_val fs)
              mod 256 ^ length data"
        using "1.IH" [OF True refl refl] True ds Cons "1.prems" z(2) by (simp add: x_def)
      then show ?thesis
        unfolding step using z(3) True x ds Cons by (simp add: algebra_simps)
    qed
  qed
qed

text \<open>The digits that \<open>setHex\<close> reads: what follows leading white space and an optional prefix.\<close>

definition hex_digits :: "string \<Rightarrow> string" where
  "hex_digits psz = takeWhile (\<lambda>c. hexDigit c \<noteq> - 1) (skip_0x (dropWhile isspace psz))"

theorem setHex_correct:
  "length (setHex w psz) = w \<and> le_val (setHex w psz) = hex_val (hex_digits psz) mod 256 ^ w"
proof -
  have digits: "\<forall>c \<in> set (rev (hex_digits psz)). hexDigit c \<noteq> - 1"
    by (auto simp: hex_digits_def dest: set_takeWhileD)
  show ?thesis
    using setHex_loop_val [OF _ _ digits, of 0 "replicate w 0"]
    by (simp add: setHex_def Let_def hex_val_rev [symmetric] flip: hex_digits_def)
qed

lemma length_setHex [simp]: "length (setHex w psz) = w"
  using setHex_correct by blast

lemma hex_val_append: "hex_val (ds @ es) = hex_val ds * 16 ^ length es + hex_val es"
proof (induction es rule: rev_induct)
  case Nil
  then show ?case by (simp add: hex_val_def)
next
  case (snoc e es)
  have "hex_val (xs @ [e]) = 16 * hex_val xs + nat (hexDigit e)" for xs
    by (simp add: hex_val_def)
  then show ?case using snoc by (simp flip: append_assoc)
qed

lemma nibble_bounds: "unat (drop_bit 4 v) < 16" "unat (v AND 15) < 16"
  "16 * unat (drop_bit 4 v) + unat (v AND 15) = unat v" for v :: uint8
proof -
  have "v AND 15 = take_bit 4 v" by (simp add: take_bit_eq_mask mask_eq_exp_minus_1)
  then have low: "unat (v AND 15) = unat v mod 16"
    by (simp only: unsigned_take_bit_eq) (simp add: take_bit_eq_mod)
  show "unat (drop_bit 4 v) < 16"
    using uint8_bound [of v] by (simp add: word_val)
  show "unat (v AND 15) < 16"
    by (simp add: low)
  show "16 * unat (drop_bit 4 v) + unat (v AND 15) = unat v"
    by (simp add: low word_val)
qed

lemma hexStr_plain: "hexStr_loop False b vs = concat (map (\<lambda>v. [hexmap ! unat (drop_bit 4 v), hexmap ! unat (v AND 15)]) vs)"
  by (induction vs arbitrary: b) auto

lemma getHex_eq: "getHex (v # vs) = getHex vs @ [hexmap ! unat (drop_bit 4 v), hexmap ! unat (v AND 15)]"
  by (simp add: getHex_def hexStr_def hexStr_plain)

lemma getHex_Nil [simp]: "getHex [] = []"
  by (simp add: getHex_def hexStr_def)

theorem getHex_val: "hex_val (getHex b) = le_val b \<and> length (getHex b) = 2 * length b"
proof (induction b)
  case Nil
  then show ?case by (simp add: hex_val_def)
next
  case (Cons v vs)
  have "hex_val [hexmap ! unat (drop_bit 4 v), hexmap ! unat (v AND 15)] = unat v"
    using nibble_bounds [of v] by (simp add: hex_val_def hexmap_digit)
  then show ?case using Cons by (simp add: getHex_eq hex_val_append)
qed

lemma getHex_digits:
  "c \<in> set (getHex b) \<Longrightarrow> hexDigit c \<noteq> - 1 \<and> \<not> isspace c \<and> c \<notin> {CHR ''x'', CHR ''X''}"
proof -
  assume "c \<in> set (getHex b)"
  then have "\<exists>v :: uint8. c = hexmap ! unat (drop_bit 4 v) \<or> c = hexmap ! unat (v AND 15)"
    by (auto simp: getHex_def hexStr_def hexStr_plain)
  then obtain d where "d < 16" "c = hexmap ! d" using nibble_bounds(1,2) by blast
  then show ?thesis using hexmap_digit [of d] by auto
qed

lemma hex_digits_getHex: "hex_digits (getHex b) = getHex b"
proof -
  note d = getHex_digits [of _ b]
  have "dropWhile isspace (getHex b) = getHex b"
    using d by (cases "getHex b") auto
  moreover have "skip_0x (getHex b) = getHex b"
    using d by (auto simp: skip_0x_def split: list.splits)
  ultimately show ?thesis
    using d by (simp add: hex_digits_def takeWhile_eq_all_conv)
qed

theorem setHex_getHex: "setHex (length b) (getHex b) = b"
proof (rule le_val_inj)
  show "le_val (setHex (length b) (getHex b)) = le_val b"
    using le_val_less [of b] by (simp add: setHex_correct hex_digits_getHex getHex_val)
qed simp

theorem arith_setHex_correct:
  "wf256 (arith_setHex psz) \<and> val (arith_setHex psz) = hex_val (hex_digits psz) mod 2 ^ 256"
  by (simp add: arith_setHex_def val_uintToArith256 uint256S_def setHex_correct UINT256_WIDTH_def)

section \<open>Words inside a blob\<close>

lemma or_shift_word:
  assumes "unat (a :: 'a::len word) < 2 ^ k" "k + 8 \<le> LENGTH('a)" "8 \<le> LENGTH('a)"
  shows "unat (a OR push_bit k (ucast (v :: uint8))) = unat a + 2 ^ k * unat v"
proof -
  have lt: "unat v * 2 ^ k < 2 ^ LENGTH('a)"
  proof -
    have "unat v * 2 ^ k < 2 ^ 8 * 2 ^ k" using uint8_bound [of v] by simp
    also have "\<dots> \<le> 2 ^ LENGTH('a)" using assms(2) by (metis add.commute one_le_numeral power_add power_increasing)
    finally show ?thesis .
  qed
  have u: "unat (ucast v :: 'a word) = unat v"
    using uint8_bound [of v] assms(3) by (simp add: unsigned_ucast_eq take_bit_nat_eq_self_iff less_le_trans [OF _ power_increasing [of 8 "LENGTH('a)" "2::nat"]])
  have "unat (push_bit k (ucast v) :: 'a word) = push_bit k (unat v)"
    using lt by (simp only: unsigned_push_bit_eq u take_bit_nat_eq_self_iff) (simp add: push_bit_eq_mult)
  then have "unat (a OR push_bit k (ucast v)) = unat a OR push_bit k (unat v)"
    by (simp only: unsigned_or_eq)
  also have "\<dots> = unat a + 2 ^ k * unat v" using assms(1) by (rule or_shift_add)
  finally show ?thesis .
qed

theorem getUint64_correct:
  assumes "8 * pos + 8 \<le> length b"
  shows "unat (getUint64 b pos) = le_val (take 8 (drop (8 * pos) b))"
proof -
  obtain v0 v1 v2 v3 v4 v5 v6 v7 vs where "drop (8 * pos) b = v0 # v1 # v2 # v3 # v4 # v5 # v6 # v7 # vs"
  proof -
    have "8 \<le> length (drop (8 * pos) b)" using assms by simp
    then show thesis using that by (auto simp: eval_nat_numeral(2,3) Suc_le_length_iff simp del: length_drop)
  qed
  then have d: "drop (pos * 8) b = v0 # v1 # v2 # v3 # v4 # v5 # v6 # v7 # vs" "take 8 (drop (8 * pos) b) = [v0, v1, v2, v3, v4, v5, v6, v7]"
    by (simp_all add: mult.commute)
  have [simp]: "unat (ucast v0 :: uint64) = unat v0" by (rule unat_ucast_8_64)
  note b = uint8_bound [of v0] uint8_bound [of v1] uint8_bound [of v2] uint8_bound [of v3]
    uint8_bound [of v4] uint8_bound [of v5] uint8_bound [of v6] uint8_bound [of v7]
  show ?thesis
    unfolding getUint64_def Let_def d using b
    by (simp add: or_shift_word flip: or.assoc)
qed

section \<open>Properties\<close>

text \<open>
  \<open>setHex\<close> skips white space and an optional \<open>0x\<close>, reads the longest run of hexadecimal digits
  and stores the number they denote in little-endian byte order, dropping the digits that do not
  fit; \<open>getHex\<close> prints two digits per byte, most significant first, and \<open>setHex\<close> reads that back.
\<close>

theorem hex_text_round_trip:
  "le_val (setHex w psz) = hex_val (hex_digits psz) mod 256 ^ w \<and> length (setHex w psz) = w \<and>
   hex_val (getHex b) = le_val b \<and> length (getHex b) = 2 * length b \<and>
   setHex (length b) (getHex b) = b"
  using setHex_correct [of w psz] getHex_val [of b] setHex_getHex [of b] by simp

text \<open>
  \<open>arithToUint256\<close> and \<open>uintToArith256\<close> are inverse to each other, and keep the value: the
  blob holds the number in little-endian byte order.
\<close>

theorem blob_arith_conversion:
  assumes "wf256 a" "length b = UINT256_WIDTH"
  shows "uintToArith256 (arithToUint256 a) = a \<and> le_val (arithToUint256 a) = val a \<and>
    arithToUint256 (uintToArith256 b) = b \<and> val (uintToArith256 b) = le_val b"
  using uintToArith256_arithToUint256 [OF assms(1)] arithToUint256_uintToArith256 [OF assms(2)]
    le_val_arithToUint256 [OF assms(1)] val_uintToArith256 [OF assms(2)] by simp

theorem blob_arith_conversion_witness:
  "wf256 [1, 2, 3, 4, 5, 6, 7, 8] \<and> length (replicate 32 (9 :: uint8)) = UINT256_WIDTH \<and>
   uintToArith256 (arithToUint256 [1, 2, 3, 4, 5, 6, 7, 8]) = [1, 2, 3, 4, 5, 6, 7, 8]"
  using blob_arith_conversion [of "[1, 2, 3, 4, 5, 6, 7, 8]" "replicate 32 9"]
  by (simp add: WIDTH_def UINT256_WIDTH_def)

end
