(* ===== verification/ByteBuffer.thy ===== *)
theory ByteBuffer
  imports Endian Uint256
begin

text \<open>
  The serialisation buffer of \<open>libs/common/byte_buffer.h\<close>: the record \<open>ByteBuffer\<close> has the members
  \<open>rpos_\<close>, \<open>wpos_\<close> and \<open>data_\<close> of the class (as \<open>m_rpos\<close>, \<open>m_wpos\<close>, \<open>m_data\<close>), and every member function that reads or changes them is
  a function on it. A thrown \<open>ByteBuffer::Exception\<close>, a failed assertion and an access outside of
  the vector are the values of \<open>bb_error\<close>; the capacity that \<open>reserve\<close> manages is not observable. An
  integer is written with the bytes of \<open>EndianConvert\<close>, which \<open>EndianConvert_le\<close> shows to be
  little-endian on every host; \<open>char\<close> is signed.

  The invariant \<open>bb_wf\<close> is \<open>rpos_ <= wpos_ <= size()\<close>, and \<open>unread\<close> is the abstraction: the queue of
  bytes not yet read. The lemmas show that the reading and writing operations keep the invariant and act on
  the queue at its two ends, that a read fails exactly when the queue is too short, and for which
  arguments the unchecked setters of the positions and of the size break the invariant. The locale \<open>codec\<close> states
  what the stream operators of one type promise; it is interpreted for every type the program
  serialises, and the round trips of vectors and maps are proved in it once for all element types.
\<close>

section \<open>Definitions\<close>

record ByteBuffer =
  m_rpos :: nat
  m_wpos :: nat
  m_data :: "uint8 list"

datatype bb_error =
    Exception (m_add: bool) (m_pos: nat) (m_esize: nat) (m_size: nat)
  | AssertFail
  | OutOfRange

type_synonym 'a bb_result = "(bb_error, 'a) result"

definition DEFAULT_SIZE :: nat where
  "DEFAULT_SIZE = 0x100"

definition MAX_SIZE :: nat where
  "MAX_SIZE = 10000000"

definition new_buffer :: ByteBuffer where
  "new_buffer = \<lparr>m_rpos = 0, m_wpos = 0, m_data = []\<rparr>"

definition clear :: "bool \<Rightarrow> ByteBuffer \<Rightarrow> ByteBuffer" where
  "clear clearData b =
     (let b = (if clearData then b\<lparr>m_data := []\<rparr> else b) in b\<lparr>m_rpos := 0, m_wpos := 0\<rparr>)"

definition bb_size :: "ByteBuffer \<Rightarrow> nat" where
  "bb_size b = length (m_data b)"

definition bb_empty :: "ByteBuffer \<Rightarrow> bool" where
  "bb_empty b = (m_data b = [])"

definition bb_length :: "ByteBuffer \<Rightarrow> nat" where
  "bb_length b = (if m_rpos b \<ge> m_wpos b then 0 else m_wpos b - m_rpos b)"

definition space :: "ByteBuffer \<Rightarrow> nat" where
  "space b = (if m_wpos b \<ge> bb_size b then 0 else bb_size b - m_wpos b)"

definition set_rpos :: "int \<Rightarrow> ByteBuffer \<Rightarrow> ByteBuffer" where
  "set_rpos rpos b = (let rpos = (if rpos < 0 then 0 else rpos) in b\<lparr>m_rpos := nat rpos\<rparr>)"

definition set_wpos :: "int \<Rightarrow> ByteBuffer \<Rightarrow> ByteBuffer" where
  "set_wpos wpos b = (let wpos = (if wpos < 0 then 0 else wpos) in b\<lparr>m_wpos := nat wpos\<rparr>)"

definition int_cast :: "nat \<Rightarrow> int" where
  "int_cast n = sint (of_nat n :: 32 word)"

definition swap :: "ByteBuffer \<Rightarrow> ByteBuffer \<Rightarrow> ByteBuffer \<times> ByteBuffer" where
  "swap this s =
     (let rpos = m_rpos s; wpos = m_wpos s;
          d = m_data this;
          this = this\<lparr>m_data := m_data s\<rparr>;
          s = s\<lparr>m_data := d\<rparr>;
          s = set_rpos (int_cast (m_rpos this)) s;
          s = set_wpos (int_cast (m_wpos this)) s
      in (this\<lparr>m_rpos := rpos, m_wpos := wpos\<rparr>, s))"

text \<open>\<open>std::vector::resize\<close>, and \<open>memcpy\<close> to an offset of the vector.\<close>

definition vec_resize :: "nat \<Rightarrow> uint8 list \<Rightarrow> uint8 list" where
  "vec_resize n d = take n d @ replicate (n - length d) 0"

definition overwrite :: "uint8 list \<Rightarrow> nat \<Rightarrow> uint8 list \<Rightarrow> uint8 list" where
  "overwrite d pos src = take pos d @ src @ drop (pos + length src) d"

definition append_bytes :: "uint8 list \<Rightarrow> ByteBuffer \<Rightarrow> ByteBuffer bb_result" where
  "append_bytes src b =
     (let cnt = length src
      in if cnt = 0 then Inr b
         else if \<not> bb_size b < MAX_SIZE then Inl AssertFail
         else let d = (if length (m_data b) < m_wpos b + cnt then vec_resize (m_wpos b + cnt) (m_data b)
                       else m_data b)
              in Inr (b\<lparr>m_data := overwrite d (m_wpos b) src, m_wpos := m_wpos b + cnt\<rparr>))"

definition append_word :: "'a::len word \<Rightarrow> ByteBuffer \<Rightarrow> ByteBuffer bb_result" where
  "append_word value b = append_bytes (le_bytes value) b"

definition append_buffer :: "ByteBuffer \<Rightarrow> ByteBuffer \<Rightarrow> ByteBuffer bb_result" where
  "append_buffer buffer b =
     (if m_wpos buffer \<noteq> 0
      then if m_rpos buffer + bb_length buffer > bb_size buffer then Inl OutOfRange
           else append_bytes (take (bb_length buffer) (drop (m_rpos buffer) (m_data buffer))) b
      else Inr b)"

definition insert_bytes :: "nat \<Rightarrow> uint8 list \<Rightarrow> ByteBuffer \<Rightarrow> ByteBuffer bb_result" where
  "insert_bytes pos src b =
     (if pos > bb_size b then Inl OutOfRange
      else let d = take pos (m_data b) @ replicate (length src) 0 @ drop pos (m_data b)
           in Inr (b\<lparr>m_data := overwrite d pos src, m_wpos := m_wpos b + length src\<rparr>))"

definition put_bytes :: "nat \<Rightarrow> uint8 list \<Rightarrow> ByteBuffer \<Rightarrow> ByteBuffer bb_result" where
  "put_bytes pos src b =
     (if pos + length src > bb_size b then Inl (Exception True pos (length src) (bb_size b))
      else Inr (b\<lparr>m_data := overwrite (m_data b) pos src\<rparr>))"

definition put_word :: "nat \<Rightarrow> 'a::len word \<Rightarrow> ByteBuffer \<Rightarrow> ByteBuffer bb_result" where
  "put_word pos value b = put_bytes pos (le_bytes value) b"

definition read_skip :: "nat \<Rightarrow> ByteBuffer \<Rightarrow> ByteBuffer bb_result" where
  "read_skip skip b =
     (if skip > bb_length b then Inl (Exception False (m_rpos b) skip (bb_length b))
      else Inr (b\<lparr>m_rpos := m_rpos b + skip\<rparr>))"

definition bb_done :: "ByteBuffer \<Rightarrow> ByteBuffer bb_result" where
  "bb_done b = read_skip (bb_length b) b"

definition read_word_at :: "nat \<Rightarrow> ByteBuffer \<Rightarrow> ('a::len word) bb_result" where
  "read_word_at pos b =
     (let n = LENGTH('a) div 8
      in if n > bb_length b then Inl (Exception False pos n (bb_length b))
         else if pos + n > bb_size b then Inl OutOfRange
         else Inr (le_word (take n (drop pos (m_data b)))))"

definition read_word :: "ByteBuffer \<Rightarrow> ('a::len word \<times> ByteBuffer) bb_result" where
  "read_word b =
     bindE (read_word_at (m_rpos b) b)
       (\<lambda>r :: 'a word. Inr (r, b\<lparr>m_rpos := m_rpos b + LENGTH('a) div 8\<rparr>))"

definition read_bytes :: "nat \<Rightarrow> ByteBuffer \<Rightarrow> (uint8 list \<times> ByteBuffer) bb_result" where
  "read_bytes len b =
     (if len > bb_length b then Inl (Exception False (m_rpos b) len (bb_length b))
      else if m_rpos b + len > bb_size b then Inl OutOfRange
      else Inr (take len (drop (m_rpos b) (m_data b)), b\<lparr>m_rpos := m_rpos b + len\<rparr>))"

definition byte_at :: "ByteBuffer \<Rightarrow> nat \<Rightarrow> uint8 bb_result" where
  "byte_at b pos = read_word_at pos b"

definition resize :: "nat \<Rightarrow> ByteBuffer \<Rightarrow> ByteBuffer bb_result" where
  "resize newsize b =
     (if \<not> newsize \<le> 1310700 then Inl AssertFail
      else let b = b\<lparr>m_data := vec_resize newsize (m_data b)\<rparr>
           in Inr (b\<lparr>m_rpos := 0, m_wpos := bb_size b\<rparr>))"

definition data_resize :: "nat \<Rightarrow> ByteBuffer \<Rightarrow> ByteBuffer bb_result" where
  "data_resize newsize b =
     (if \<not> newsize \<le> 1310700 then Inl AssertFail
      else Inr (b\<lparr>m_data := vec_resize newsize (m_data b)\<rparr>))"

subsection \<open>Stream operators\<close>

definition put_int :: "'a::len itself \<Rightarrow> int \<Rightarrow> ByteBuffer \<Rightarrow> ByteBuffer bb_result" where
  "put_int T value b = append_word (of_int value :: 'a word) b"

definition get_int :: "'a::len itself \<Rightarrow> ByteBuffer \<Rightarrow> (int \<times> ByteBuffer) bb_result" where
  "get_int T b = bindE (read_word b) (\<lambda>(w :: 'a word, b). Inr (sint w, b))"

definition put_bool :: "bool \<Rightarrow> ByteBuffer \<Rightarrow> ByteBuffer bb_result" where
  "put_bool value b = append_word (if value then 1 else 0 :: 8 word) b"

definition get_bool :: "ByteBuffer \<Rightarrow> (bool \<times> ByteBuffer) bb_result" where
  "get_bool b = bindE (read_word b) (\<lambda>(c :: 8 word, b). Inr (sint c > 0, b))"

definition str_bytes :: "string \<Rightarrow> uint8 list" where
  "str_bytes s = map (\<lambda>c. of_nat (of_char c)) s"

definition put_string :: "string \<Rightarrow> ByteBuffer \<Rightarrow> ByteBuffer bb_result" where
  "put_string value b = bindE (append_bytes (str_bytes value) b) (append_word (0 :: 8 word))"

definition append_string :: "string \<Rightarrow> ByteBuffer \<Rightarrow> ByteBuffer bb_result" where
  "append_string str b = append_bytes (str_bytes str @ [0]) b"

definition isascii :: "uint8 \<Rightarrow> bool" where
  "isascii c = (c < 128)"

function get_string_loop :: "string \<Rightarrow> ByteBuffer \<Rightarrow> (string \<times> ByteBuffer) bb_result" where
  "get_string_loop value b =
     (if bb_length b > 0
      then (case read_word b of
              Inl e \<Rightarrow> Inl e
            | Inr (c :: 8 word, b) \<Rightarrow>
                (if c = 0 \<or> \<not> isascii c then Inr (value, b)
                 else get_string_loop (value @ [char_of (unat c)]) b))
      else Inr (value, b))"
  by pat_completeness auto
termination
  by (relation "measure (\<lambda>(value, b). bb_length b)")
    (auto simp: read_word_def read_word_at_def bindE_eq_Inr bb_length_def Let_def split: if_splits)

definition get_string :: "ByteBuffer \<Rightarrow> (string \<times> ByteBuffer) bb_result" where
  "get_string b = get_string_loop [] b"

definition read_skip_string :: "ByteBuffer \<Rightarrow> ByteBuffer bb_result" where
  "read_skip_string b = bindE (get_string b) (\<lambda>(temp, b). Inr b)"

definition put_blob :: "base_blob \<Rightarrow> ByteBuffer \<Rightarrow> ByteBuffer bb_result" where
  "put_blob data s = append_bytes data s"

definition get_blob :: "nat \<Rightarrow> ByteBuffer \<Rightarrow> (base_blob \<times> ByteBuffer) bb_result" where
  "get_blob width s = read_bytes width s"

text \<open>Sequences and maps, for element operators given as arguments.\<close>

fun put_elems :: "('a \<Rightarrow> ByteBuffer \<Rightarrow> ByteBuffer bb_result) \<Rightarrow> 'a list \<Rightarrow>
    ByteBuffer \<Rightarrow> ByteBuffer bb_result" where
  "put_elems put [] b = Inr b"
| "put_elems put (x # xs) b = bindE (put x b) (put_elems put xs)"

fun get_elems :: "(ByteBuffer \<Rightarrow> ('a \<times> ByteBuffer) bb_result) \<Rightarrow> nat \<Rightarrow> 'a list \<Rightarrow>
    ByteBuffer \<Rightarrow> ('a list \<times> ByteBuffer) bb_result" where
  "get_elems get 0 v b = Inr (v, b)"
| "get_elems get (Suc vsize) v b = bindE (get b) (\<lambda>(t, b). get_elems get vsize (v @ [t]) b)"

definition put_vector :: "('a \<Rightarrow> ByteBuffer \<Rightarrow> ByteBuffer bb_result) \<Rightarrow> 'a list \<Rightarrow>
    ByteBuffer \<Rightarrow> ByteBuffer bb_result" where
  "put_vector put v b = bindE (append_word (of_nat (length v) :: 32 word) b) (put_elems put v)"

definition get_vector :: "(ByteBuffer \<Rightarrow> ('a \<times> ByteBuffer) bb_result) \<Rightarrow>
    ByteBuffer \<Rightarrow> ('a list \<times> ByteBuffer) bb_result" where
  "get_vector get b = bindE (read_word b) (\<lambda>(vsize :: 32 word, b). get_elems get (unat vsize) [] b)"

definition put_pair :: "('a \<Rightarrow> ByteBuffer \<Rightarrow> ByteBuffer bb_result) \<Rightarrow>
    ('b \<Rightarrow> ByteBuffer \<Rightarrow> ByteBuffer bb_result) \<Rightarrow> 'a \<times> 'b \<Rightarrow> ByteBuffer \<Rightarrow> ByteBuffer bb_result" where
  "put_pair putk putv kv b = bindE (putk (fst kv) b) (putv (snd kv))"

definition get_pair :: "(ByteBuffer \<Rightarrow> ('a \<times> ByteBuffer) bb_result) \<Rightarrow>
    (ByteBuffer \<Rightarrow> ('b \<times> ByteBuffer) bb_result) \<Rightarrow> ByteBuffer \<Rightarrow> (('a \<times> 'b) \<times> ByteBuffer) bb_result" where
  "get_pair getk getv b = bindE (getk b) (\<lambda>(k, b). bindE (getv b) (\<lambda>(v, b). Inr ((k, v), b)))"

definition put_map :: "('k \<Rightarrow> ByteBuffer \<Rightarrow> ByteBuffer bb_result) \<Rightarrow>
    ('v \<Rightarrow> ByteBuffer \<Rightarrow> ByteBuffer bb_result) \<Rightarrow> ('k \<times> 'v) list \<Rightarrow> ByteBuffer \<Rightarrow> ByteBuffer bb_result" where
  "put_map putk putv m b =
     bindE (append_word (of_nat (length m) :: 32 word) b) (put_elems (put_pair putk putv) m)"

definition map_insert :: "('k \<rightharpoonup> 'v) \<Rightarrow> 'k \<times> 'v \<Rightarrow> ('k \<rightharpoonup> 'v)" where
  "map_insert m kv = (case m (fst kv) of None \<Rightarrow> m(fst kv \<mapsto> snd kv) | Some _ \<Rightarrow> m)"

fun get_map_loop :: "(ByteBuffer \<Rightarrow> ('k \<times> ByteBuffer) bb_result) \<Rightarrow>
    (ByteBuffer \<Rightarrow> ('v \<times> ByteBuffer) bb_result) \<Rightarrow> nat \<Rightarrow> ('k \<rightharpoonup> 'v) \<Rightarrow> ByteBuffer \<Rightarrow>
    (('k \<rightharpoonup> 'v) \<times> ByteBuffer) bb_result" where
  "get_map_loop getk getv 0 m b = Inr (m, b)"
| "get_map_loop getk getv (Suc msize) m b =
     bindE (get_pair getk getv b) (\<lambda>(kv, b). get_map_loop getk getv msize (map_insert m kv) b)"

definition get_map :: "(ByteBuffer \<Rightarrow> ('k \<times> ByteBuffer) bb_result) \<Rightarrow>
    (ByteBuffer \<Rightarrow> ('v \<times> ByteBuffer) bb_result) \<Rightarrow> ByteBuffer \<Rightarrow> (('k \<rightharpoonup> 'v) \<times> ByteBuffer) bb_result" where
  "get_map getk getv b =
     bindE (read_word b) (\<lambda>(msize :: 32 word, b). get_map_loop getk getv (unat msize) Map.empty b)"

declare get_string_loop.simps [simp del]

section \<open>The queue of unread bytes\<close>

definition bb_wf :: "ByteBuffer \<Rightarrow> bool" where
  "bb_wf b \<longleftrightarrow> m_rpos b \<le> m_wpos b \<and> m_wpos b \<le> bb_size b"

definition unread :: "ByteBuffer \<Rightarrow> uint8 list" where
  "unread b = take (bb_length b) (drop (m_rpos b) (m_data b))"

text \<open>What a successful write and a successful read do to the queue.\<close>

definition appends :: "ByteBuffer \<Rightarrow> uint8 list \<Rightarrow> ByteBuffer bb_result \<Rightarrow> bool" where
  "appends b bs r \<longleftrightarrow> (\<exists>b'. r = Inr b' \<and> bb_wf b' \<and> unread b' = unread b @ bs \<and>
     m_rpos b' = m_rpos b \<and> bb_size b' \<le> bb_size b + length bs)"

definition consumes :: "ByteBuffer \<Rightarrow> 'a \<Rightarrow> uint8 list \<Rightarrow> ('a \<times> ByteBuffer) bb_result \<Rightarrow> bool" where
  "consumes b x rest r \<longleftrightarrow> (\<exists>b'. r = Inr (x, b') \<and> bb_wf b' \<and> unread b' = rest \<and>
     m_data b' = m_data b \<and> m_wpos b' = m_wpos b)"

text \<open>A read that stays inside of the vector and keeps the invariant, whatever the bytes are.\<close>

definition read_safe :: "ByteBuffer \<Rightarrow> ('a \<times> ByteBuffer) bb_result \<Rightarrow> bool" where
  "read_safe b r \<longleftrightarrow> (case r of Inl e \<Rightarrow> e \<noteq> OutOfRange
     | Inr (x, b') \<Rightarrow> bb_wf b' \<and> m_data b' = m_data b \<and> m_wpos b' = m_wpos b \<and> m_rpos b \<le> m_rpos b')"

lemma length_unread: "bb_wf b \<Longrightarrow> length (unread b) = bb_length b"
  by (auto simp: unread_def bb_wf_def bb_length_def bb_size_def)

lemma bb_wf_new [simp]: "bb_wf new_buffer" "unread new_buffer = []" "bb_size new_buffer = 0"
  by (simp_all add: bb_wf_def new_buffer_def unread_def bb_length_def bb_size_def)

lemma length_vec_resize [simp]: "length (vec_resize n d) = n"
  by (simp add: vec_resize_def)

lemma take_vec_resize: "m \<le> n \<Longrightarrow> m \<le> length d \<Longrightarrow> take m (vec_resize n d) = take m d"
  by (simp add: vec_resize_def)

lemma overwrite_simps:
  assumes "pos + length src \<le> length d"
  shows "length (overwrite d pos src) = length d" "take pos (overwrite d pos src) = take pos d"
    "take (pos + length src) (overwrite d pos src) = take pos d @ src"
    "drop (pos + length src) (overwrite d pos src) = drop (pos + length src) d"
  using assms by (cases src; auto simp: overwrite_def min_def)+

lemma unread_eq: "bb_wf b \<Longrightarrow> unread b = drop (m_rpos b) (take (m_wpos b) (m_data b))"
  by (simp add: unread_def bb_wf_def bb_length_def drop_take)

lemma append_bytes_eq:
  assumes "bb_wf b" "src = [] \<or> bb_size b < MAX_SIZE"
  obtains b' where "append_bytes src b = Inr b'" "bb_wf b'" "unread b' = unread b @ src"
    "m_rpos b' = m_rpos b" "m_wpos b' = m_wpos b + length src"
    "bb_size b' = max (bb_size b) (m_wpos b + length src)"
    "take (m_wpos b + length src) (m_data b') = take (m_wpos b) (m_data b) @ src"
proof (cases "src = []")
  case True
  then show thesis using that [of b] assms(1) by (simp add: append_bytes_def bb_wf_def max_def)
next
  case False
  define d where "d = (if length (m_data b) < m_wpos b + length src
    then vec_resize (m_wpos b + length src) (m_data b) else m_data b)"
  let ?b = "b\<lparr>m_data := overwrite d (m_wpos b) src, m_wpos := m_wpos b + length src\<rparr>"
  have w: "m_rpos b \<le> m_wpos b" "m_wpos b \<le> length (m_data b)"
    using assms(1) by (simp_all add: bb_wf_def bb_size_def)
  have d: "m_wpos b + length src \<le> length d" "take (m_wpos b) d = take (m_wpos b) (m_data b)"
    "length d = max (length (m_data b)) (m_wpos b + length src)"
    using w by (auto simp: d_def take_vec_resize)
  note o = overwrite_simps [OF d(1)]
  have wf: "bb_wf ?b" using w d by (simp add: bb_wf_def bb_size_def o(1))
  show thesis
  proof (rule that [of ?b])
    show "append_bytes src b = Inr ?b"
      using False assms(2) by (simp add: append_bytes_def d_def Let_def)
    show "unread ?b = unread b @ src"
      using w d(2) o(3) assms(1) by (simp add: unread_eq [OF wf] unread_eq)
  qed (use wf w d o in \<open>simp_all add: bb_size_def\<close>)
qed

lemma append_bytes_appends:
  assumes "bb_wf b" "bb_size b + length src \<le> MAX_SIZE"
  shows "appends b src (append_bytes src b)"
proof -
  have "src = [] \<or> bb_size b < MAX_SIZE" using assms(2) by (cases src) auto
  then obtain b' where b': "append_bytes src b = Inr b'" "bb_wf b'" "unread b' = unread b @ src"
    "m_rpos b' = m_rpos b" "bb_size b' = max (bb_size b) (m_wpos b + length src)"
    using append_bytes_eq [OF assms(1)] by metis
  then have "bb_size b' \<le> bb_size b + length src" using assms(1) by (auto simp: bb_wf_def)
  with b' show ?thesis by (auto simp: appends_def)
qed

lemma appends_bind:
  assumes "appends b xs r"
    and "\<And>b'. bb_wf b' \<Longrightarrow> unread b' = unread b @ xs \<Longrightarrow> bb_size b' \<le> bb_size b + length xs \<Longrightarrow>
      appends b' ys (f b')"
  shows "appends b (xs @ ys) (bindE r f)"
proof -
  obtain b' where b': "r = Inr b'" "bb_wf b'" "unread b' = unread b @ xs"
    "m_rpos b' = m_rpos b" "bb_size b' \<le> bb_size b + length xs"
    using assms(1) by (auto simp: appends_def)
  obtain b'' where "f b' = Inr b''" "bb_wf b''" "unread b'' = unread b' @ ys"
    "m_rpos b'' = m_rpos b'" "bb_size b'' \<le> bb_size b' + length ys"
    using assms(2) [OF b'(2,3,5)] by (auto simp: appends_def)
  with b' show ?thesis by (auto simp: appends_def)
qed

lemma consumes_bind:
  assumes "consumes b x rest r"
    and "\<And>b'. bb_wf b' \<Longrightarrow> unread b' = rest \<Longrightarrow> consumes b' y rest' (f (x, b'))"
  shows "consumes b y rest' (bindE r f)"
  using assms by (fastforce simp: consumes_def)

lemma read_safe_bind:
  assumes "read_safe b r"
    and "\<And>x b'. bb_wf b' \<Longrightarrow> read_safe b' (f (x, b'))"
  shows "read_safe b (bindE r f)"
proof (cases r)
  case (Inl e)
  then show ?thesis using assms(1) by (simp add: read_safe_def)
next
  case (Inr q)
  obtain x b' where "q = (x, b')" by fastforce
  then show ?thesis
    using Inr assms(1) assms(2) [of b' x]
    by (auto simp: read_safe_def split: sum.splits)
qed

lemma read_advance:
  assumes "bb_wf b" "n \<le> bb_length b"
  shows "m_rpos b + n \<le> bb_size b" "bb_wf (b\<lparr>m_rpos := m_rpos b + n\<rparr>)"
    "unread (b\<lparr>m_rpos := m_rpos b + n\<rparr>) = drop n (unread b)"
    "take n (drop (m_rpos b) (m_data b)) = take n (unread b)"
proof -
  show wf: "bb_wf (b\<lparr>m_rpos := m_rpos b + n\<rparr>)" and "m_rpos b + n \<le> bb_size b"
    using assms by (auto simp: bb_wf_def bb_length_def bb_size_def split: if_splits)
  show "unread (b\<lparr>m_rpos := m_rpos b + n\<rparr>) = drop n (unread b)"
    using unread_eq [OF wf] unread_eq [OF assms(1)] by (simp add: add.commute)
  show "take n (drop (m_rpos b) (m_data b)) = take n (unread b)"
    using assms(2) by (simp add: unread_def min_def)
qed

lemma read_bytes_eq:
  assumes "bb_wf b"
  shows "read_bytes n b =
    (if n \<le> length (unread b) then Inr (take n (unread b), b\<lparr>m_rpos := m_rpos b + n\<rparr>)
     else Inl (Exception False (m_rpos b) n (length (unread b))))"
  using read_advance [OF assms, of n] by (auto simp: read_bytes_def length_unread [OF assms])

lemma read_word_eq:
  assumes "bb_wf b"
  shows "(read_word b :: ('a::len word \<times> ByteBuffer) bb_result) =
    (let n = LENGTH('a) div 8 in
     if n \<le> length (unread b) then Inr (le_word (take n (unread b)), b\<lparr>m_rpos := m_rpos b + n\<rparr>)
     else Inl (Exception False (m_rpos b) n (length (unread b))))"
  using read_advance [OF assms, of "LENGTH('a) div 8"]
  by (auto simp: read_word_def read_word_at_def Let_def length_unread [OF assms])

section \<open>The interface of a serialisable type\<close>

locale codec =
  fixes ok :: "'a \<Rightarrow> bool" and enc :: "'a \<Rightarrow> uint8 list"
    and put :: "'a \<Rightarrow> ByteBuffer \<Rightarrow> ByteBuffer bb_result"
    and get :: "ByteBuffer \<Rightarrow> ('a \<times> ByteBuffer) bb_result"
  assumes put_appends: "ok x \<Longrightarrow> bb_wf b \<Longrightarrow> bb_size b + length (enc x) \<le> MAX_SIZE \<Longrightarrow>
      appends b (enc x) (put x b)"
    and get_consumes: "ok x \<Longrightarrow> bb_wf b \<Longrightarrow> unread b = enc x @ rest \<Longrightarrow> consumes b x rest (get b)"
    and get_safe: "bb_wf b \<Longrightarrow> read_safe b (get b)"
begin

lemma round_trip:
  assumes "ok x" "bb_wf b" "unread b = []" "bb_size b + length (enc x) \<le> MAX_SIZE"
  shows "\<exists>b' b''. put x b = Inr b' \<and> get b' = Inr (x, b'') \<and> unread b'' = []"
proof -
  obtain b' where "put x b = Inr b'" "bb_wf b'" "unread b' = enc x @ []"
    using put_appends [OF assms(1,2,4)] assms(3) by (auto simp: appends_def)
  then show ?thesis using get_consumes [OF assms(1), of b' "[]"] by (auto simp: consumes_def)
qed

lemma enc_prefix_free:
  assumes "ok x" "ok y" "bb_wf b" "unread b = enc x @ xs" "unread b = enc y @ ys"
  shows "x = y \<and> xs = ys"
  using get_consumes [OF assms(1,3,4)] get_consumes [OF assms(2,3,5)] by (auto simp: consumes_def)

lemma put_elems_appends:
  "list_all ok xs \<Longrightarrow> bb_wf b \<Longrightarrow> bb_size b + length (concat (map enc xs)) \<le> MAX_SIZE \<Longrightarrow>
     appends b (concat (map enc xs)) (put_elems put xs b)"
proof (induction xs arbitrary: b)
  case Nil
  then show ?case by (auto simp: appends_def)
next
  case (Cons x xs)
  have "appends b (enc x @ concat (map enc xs)) (bindE (put x b) (put_elems put xs))"
  proof (rule appends_bind)
    show "appends b (enc x) (put x b)" using Cons.prems by (intro put_appends) auto
  qed (use Cons in auto)
  then show ?case by simp
qed

lemma get_elems_consumes:
  "list_all ok xs \<Longrightarrow> bb_wf b \<Longrightarrow> unread b = concat (map enc xs) @ rest \<Longrightarrow>
     consumes b (ys @ xs) rest (get_elems get (length xs) ys b)"
proof (induction xs arbitrary: b ys)
  case Nil
  then show ?case by (auto simp: consumes_def)
next
  case (Cons x xs)
  have "consumes b (ys @ x # xs) rest
      (bindE (get b) (\<lambda>(t, b). get_elems get (length xs) (ys @ [t]) b))"
  proof (rule consumes_bind)
    show "consumes b x (concat (map enc xs) @ rest) (get b)"
      using Cons.prems by (intro get_consumes) auto
  next
    fix b' assume "bb_wf b'" "unread b' = concat (map enc xs) @ rest"
    then show "consumes b' (ys @ x # xs) rest
        (case (x, b') of (t, b) \<Rightarrow> get_elems get (length xs) (ys @ [t]) b)"
      using Cons.IH [of b' "ys @ [x]"] Cons.prems by simp
  qed
  then show ?case by simp
qed

lemma get_elems_safe: "bb_wf b \<Longrightarrow> read_safe b (get_elems get n ys b)"
proof (induction n arbitrary: b ys)
  case 0
  then show ?case by (simp add: read_safe_def)
next
  case (Suc n)
  show ?case unfolding get_elems.simps
    by (rule read_safe_bind [OF get_safe [OF Suc.prems]]) (simp add: Suc.IH)
qed

end

lemma codec_word:
  assumes "8 dvd LENGTH('a::len)"
  shows "codec (\<lambda>_. True) le_bytes (append_word :: 'a word \<Rightarrow> _) read_word"
proof
  fix b rest and x :: "'a word"
  assume wf: "bb_wf b"
  show "read_safe b (read_word b :: ('a word \<times> ByteBuffer) bb_result)"
    using read_advance(2) [OF wf, of "LENGTH('a) div 8"]
    by (simp add: read_word_eq [OF wf] read_safe_def Let_def length_unread [OF wf])
  show "appends b (le_bytes x) (append_word x b)" if "bb_size b + length (le_bytes x) \<le> MAX_SIZE"
    using wf that by (simp add: append_word_def append_bytes_appends)
  assume u: "unread b = le_bytes x @ rest"
  show "consumes b x rest (read_word b)"
    using read_advance [OF wf, of "LENGTH('a) div 8"] u
    by (simp add: read_word_eq [OF wf] consumes_def Let_def length_unread [OF wf, symmetric]
        le_word_le_bytes [OF assms])
qed

interpretation u8: codec "\<lambda>_. True" le_bytes "append_word :: 8 word \<Rightarrow> _" read_word
  by (rule codec_word) simp

interpretation u16: codec "\<lambda>_. True" le_bytes "append_word :: 16 word \<Rightarrow> _" read_word
  by (rule codec_word) simp

interpretation u32: codec "\<lambda>_. True" le_bytes "append_word :: 32 word \<Rightarrow> _" read_word
  by (rule codec_word) simp

interpretation u64: codec "\<lambda>_. True" le_bytes "append_word :: 64 word \<Rightarrow> _" read_word
  by (rule codec_word) simp

lemma codec_blob: "codec (\<lambda>d. length d = width) id put_blob (get_blob width)"
proof
  fix b rest and x :: base_blob
  assume wf: "bb_wf b"
  show "read_safe b (get_blob width b)"
    using read_advance(2) [OF wf, of width]
    by (simp add: get_blob_def read_bytes_eq [OF wf] read_safe_def length_unread [OF wf])
  assume "length x = width"
  then show "appends b (id x) (put_blob x b)" if "bb_size b + length (id x) \<le> MAX_SIZE"
    using wf that by (simp add: put_blob_def append_bytes_appends)
  assume "unread b = id x @ rest"
  then show "consumes b x rest (get_blob width b)"
    using read_advance [OF wf, of width] \<open>length x = width\<close>
    by (simp add: get_blob_def read_bytes_eq [OF wf] consumes_def length_unread [OF wf, symmetric])
qed

interpretation blob256: codec "\<lambda>d. length d = UINT256_WIDTH" id put_blob "get_blob UINT256_WIDTH"
  by (rule codec_blob)

interpretation blob160: codec "\<lambda>d. length d = UINT160_WIDTH" id put_blob "get_blob UINT160_WIDTH"
  by (rule codec_blob)

context codec
begin

text \<open>A codec on representations gives one on the values they represent.\<close>

lemma codec_image:
  assumes "\<And>x. okx x \<Longrightarrow> ok (rep x) \<and> dec (rep x) = x"
  shows "codec okx (\<lambda>x. enc (rep x)) (\<lambda>x. put (rep x)) (\<lambda>b. bindE (get b) (\<lambda>(r, b). Inr (dec r, b)))"
proof
  fix x b rest assume wf: "bb_wf b"
  show "read_safe b (bindE (get b) (\<lambda>(r, b). Inr (dec r, b)))"
    by (rule read_safe_bind [OF get_safe [OF wf]]) (simp add: read_safe_def)
  assume "okx x"
  then have x: "ok (rep x)" "dec (rep x) = x" using assms by auto
  show "appends b (enc (rep x)) (put (rep x) b)" if "bb_size b + length (enc (rep x)) \<le> MAX_SIZE"
    using x(1) wf that by (rule put_appends)
  assume "unread b = enc (rep x) @ rest"
  then show "consumes b x rest (bindE (get b) (\<lambda>(r, b). Inr (dec r, b)))"
    by (intro consumes_bind [OF get_consumes [OF x(1) wf]]) (simp_all add: consumes_def x(2))
qed

lemma codec_vector:
  "codec (\<lambda>xs. list_all ok xs \<and> length xs < 2 ^ 32)
     (\<lambda>xs. le_bytes (of_nat (length xs) :: 32 word) @ concat (map enc xs)) (put_vector put) (get_vector get)"
proof
  fix b rest and xs assume wf: "bb_wf b"
  show "read_safe b (get_vector get b)"
    unfolding get_vector_def
    by (rule read_safe_bind [OF u32.get_safe [OF wf]]) (simp add: get_elems_safe)
  assume xs: "list_all ok xs \<and> length xs < 2 ^ 32"
  let ?n = "of_nat (length xs) :: 32 word"
  show "appends b (le_bytes ?n @ concat (map enc xs)) (put_vector put xs b)"
    if "bb_size b + length (le_bytes ?n @ concat (map enc xs)) \<le> MAX_SIZE"
    unfolding put_vector_def
  proof (rule appends_bind)
    show "appends b (le_bytes ?n) (append_word ?n b)" using wf that by (intro u32.put_appends) auto
  qed (use xs that in \<open>auto intro!: put_elems_appends\<close>)
  assume "unread b = (le_bytes ?n @ concat (map enc xs)) @ rest"
  then have "unread b = le_bytes ?n @ (concat (map enc xs) @ rest)" by simp
  then show "consumes b xs rest (get_vector get b)"
    unfolding get_vector_def
  proof (rule consumes_bind [OF u32.get_consumes [OF TrueI wf]])
    fix b' assume b': "bb_wf b'" "unread b' = concat (map enc xs) @ rest"
    have "unat ?n = length xs" using xs by (simp add: unsigned_of_nat take_bit_nat_eq_self_iff)
    then show "consumes b' xs rest (case (?n, b') of (vsize, b) \<Rightarrow> get_elems get (unat vsize) [] b)"
      using get_elems_consumes [OF _ b', of "[]"] xs by simp
  qed
qed

end

lemma codec_signed:
  assumes "8 dvd LENGTH('a::len)"
  shows "codec (\<lambda>i. - (2 ^ (LENGTH('a) - 1)) \<le> i \<and> i < 2 ^ (LENGTH('a) - 1))
    (\<lambda>i. le_bytes (of_int i :: 'a word)) (put_int TYPE('a)) (get_int TYPE('a))"
proof -
  have "sint (of_int i :: 'a word) = i" if "- (2 ^ (LENGTH('a) - 1)) \<le> i \<and> i < 2 ^ (LENGTH('a) - 1)" for i
    using that by (simp add: sint_sbintrunc' signed_take_bit_int_eq_self)
  then show ?thesis
    unfolding put_int_def get_int_def by (intro codec.codec_image [OF codec_word [OF assms]]) simp
qed

interpretation i32: codec "\<lambda>i. - (2 ^ (LENGTH(32) - 1)) \<le> i \<and> i < 2 ^ (LENGTH(32) - 1)"
    "\<lambda>i. le_bytes (of_int i :: 32 word)" "put_int TYPE(32)" "get_int TYPE(32)"
  by (rule codec_signed) simp

interpretation i64: codec "\<lambda>i. - (2 ^ (LENGTH(64) - 1)) \<le> i \<and> i < 2 ^ (LENGTH(64) - 1)"
    "\<lambda>i. le_bytes (of_int i :: 64 word)" "put_int TYPE(64)" "get_int TYPE(64)"
  by (rule codec_signed) simp

interpretation bool: codec "\<lambda>_. True" "\<lambda>v. le_bytes (if v then 1 else 0 :: 8 word)" put_bool get_bool
  unfolding put_bool_def get_bool_def by (intro codec.codec_image [OF u8.codec_axioms]) simp

subsection \<open>Strings\<close>

definition str_ok :: "string \<Rightarrow> bool" where
  "str_ok s = list_all (\<lambda>c. of_char c \<noteq> (0 :: nat) \<and> of_char c < (128 :: nat)) s"

lemma char_byte:
  "of_char c < (128 :: nat) \<Longrightarrow> unat (of_nat (of_char c) :: uint8) = of_char c"
  by (simp add: unsigned_of_nat take_bit_nat_eq_self_iff)

lemma read_byte_Cons:
  assumes "bb_wf b" "unread b = c # cs"
  shows "(read_word b :: (8 word \<times> ByteBuffer) bb_result) = Inr (c, b\<lparr>m_rpos := m_rpos b + 1\<rparr>)"
    and "bb_wf (b\<lparr>m_rpos := m_rpos b + 1\<rparr>)" and "unread (b\<lparr>m_rpos := m_rpos b + 1\<rparr>) = cs"
    and "bb_length b > 0"
  using read_advance [OF assms(1), of 1] assms(2) length_unread [OF assms(1)]
  by (simp_all add: read_word_eq [OF assms(1)] le_word_def)

lemma get_string_loop_safe: "bb_wf b \<Longrightarrow> read_safe b (get_string_loop v b)"
proof (induction v b rule: get_string_loop.induct)
  case (1 v b)
  show ?case
  proof (cases "unread b")
    case Nil
    then have "bb_length b = 0" using "1.prems" length_unread [of b] by simp
    then show ?thesis using "1.prems" by (simp add: get_string_loop.simps read_safe_def)
  next
    case (Cons c cs)
    let ?b = "b\<lparr>m_rpos := m_rpos b + 1\<rparr>"
    note r = read_byte_Cons [OF "1.prems" Cons]
    have IH: "\<not> (c = 0 \<or> \<not> isascii c) \<Longrightarrow> read_safe ?b (get_string_loop (v @ [char_of (unat c)]) ?b)"
      using "1.IH" [OF r(4,1) refl] r(2) by blast
    show ?thesis
      using r IH by (subst get_string_loop.simps) (auto simp: read_safe_def split: sum.splits)
  qed
qed

lemma get_string_loop_consumes:
  "str_ok s \<Longrightarrow> bb_wf b \<Longrightarrow> unread b = (str_bytes s @ [0]) @ rest \<Longrightarrow>
     consumes b (v @ s) rest (get_string_loop v b)"
proof (induction s arbitrary: v b)
  case Nil
  note r = read_byte_Cons [of b 0 rest]
  show ?case
    using Nil r by (subst get_string_loop.simps) (simp add: str_bytes_def consumes_def)
next
  case (Cons c s)
  let ?c = "of_nat (of_char c) :: uint8" and ?b = "b\<lparr>m_rpos := m_rpos b + 1\<rparr>"
  have c: "unat ?c = of_char c" "?c \<noteq> 0" "isascii ?c"
  proof -
    show u: "unat ?c = of_char c" using Cons.prems by (intro char_byte) (simp add: str_ok_def)
    have "of_char c \<noteq> (0::nat)" "of_char c < (128::nat)" using Cons.prems by (simp_all add: str_ok_def)
    then show "?c \<noteq> 0" "isascii ?c" using u by (auto simp: isascii_def word_less_nat_alt)
  qed
  have "unread b = ?c # (str_bytes s @ [0]) @ rest" using Cons.prems by (simp add: str_bytes_def)
  note r = read_byte_Cons [OF Cons.prems(2) this]
  have "consumes ?b ((v @ [c]) @ s) rest (get_string_loop (v @ [c]) ?b)"
    using Cons.prems r by (intro Cons.IH) (auto simp: str_ok_def)
  then show ?case
    using r c by (subst get_string_loop.simps) (auto simp: consumes_def)
qed

interpretation str: codec str_ok "\<lambda>s. str_bytes s @ [0]" put_string get_string
proof
  fix b rest s assume wf: "bb_wf b"
  show "read_safe b (get_string b)" using wf by (simp add: get_string_def get_string_loop_safe)
  assume ok: "str_ok s"
  show "appends b (str_bytes s @ [0]) (put_string s b)"
    if "bb_size b + length (str_bytes s @ [0]) \<le> MAX_SIZE"
    unfolding put_string_def
  proof (rule appends_bind)
    show "appends b (str_bytes s) (append_bytes (str_bytes s) b)"
      using wf that by (intro append_bytes_appends) auto
    fix b' assume "bb_wf b'" "bb_size b' \<le> bb_size b + length (str_bytes s)"
    then show "appends b' [0] (append_word (0 :: 8 word) b')"
      using that u8.put_appends [OF TrueI, of b' 0] by (simp add: le_bytes_def)
  qed
  assume "unread b = (str_bytes s @ [0]) @ rest"
  then show "consumes b s rest (get_string b)"
    using get_string_loop_consumes [OF ok wf, of rest "[]"] by (simp add: get_string_def)
qed

subsection \<open>Maps\<close>

locale codec_pair =
  k: codec okk enck putk getk + v: codec okv encv putv getv
  for okk :: "'k \<Rightarrow> bool" and enck putk getk
    and okv :: "'v \<Rightarrow> bool" and encv putv getv
begin

lemma codec_pair:
  "codec (\<lambda>kv. okk (fst kv) \<and> okv (snd kv)) (\<lambda>kv. enck (fst kv) @ encv (snd kv))
     (put_pair putk putv) (get_pair getk getv)"
proof
  fix b rest and x :: "'k \<times> 'v" assume wf: "bb_wf b"
  show "read_safe b (get_pair getk getv b)"
    unfolding get_pair_def
  proof (rule read_safe_bind [OF k.get_safe [OF wf]])
    fix y b' assume "bb_wf b'"
    then show "read_safe b' (case (y, b') of (k, b) \<Rightarrow> bindE (getv b) (\<lambda>(v, b). Inr ((k, v), b)))"
      by (simp, intro read_safe_bind [OF v.get_safe]) (simp_all add: read_safe_def)
  qed
  assume ok: "okk (fst x) \<and> okv (snd x)"
  show "appends b (enck (fst x) @ encv (snd x)) (put_pair putk putv x b)"
    if "bb_size b + length (enck (fst x) @ encv (snd x)) \<le> MAX_SIZE"
    unfolding put_pair_def using ok wf that
    by (intro appends_bind k.put_appends v.put_appends) auto
  assume "unread b = (enck (fst x) @ encv (snd x)) @ rest"
  then have "unread b = enck (fst x) @ (encv (snd x) @ rest)" by simp
  then show "consumes b x rest (get_pair getk getv b)"
    unfolding get_pair_def
  proof (rule consumes_bind [OF k.get_consumes [OF conjunct1 [OF ok] wf]])
    fix b' assume b': "bb_wf b'" "unread b' = encv (snd x) @ rest"
    show "consumes b' x rest (case (fst x, b') of (k, b) \<Rightarrow> bindE (getv b) (\<lambda>(v, b). Inr ((k, v), b)))"
      using consumes_bind [OF v.get_consumes [OF conjunct2 [OF ok] b'],
          where f = "\<lambda>(v, b). Inr ((fst x, v), b)" and y = x and rest' = rest]
      by (simp add: consumes_def)
  qed
qed

lemma get_map_loop_elems:
  "get_map_loop getk getv n m b = bindE (get_elems (get_pair getk getv) n vs b)
     (\<lambda>(ws, b). Inr (foldl map_insert m (drop (length vs) ws), b))"
proof (induction n arbitrary: m b vs)
  case 0
  then show ?case by simp
next
  case (Suc n)
  have grow: "\<exists>ts. ws = us @ ts"
    if "get_elems (get_pair getk getv) i us c = Inr (ws, c')" for i us c ws c'
    using that
  proof (induction i arbitrary: us c)
    case 0
    then show ?case by simp
  next
    case (Suc i)
    then obtain t d where "get_elems (get_pair getk getv) i (us @ [t]) d = Inr (ws, c')"
      by (auto simp: bindE_eq_Inr)
    from Suc.IH [OF this] show ?case by auto
  qed
  show ?case
  proof (cases "get_pair getk getv b")
    case (Inl e)
    then show ?thesis by simp
  next
    case (Inr q)
    obtain t d where q: "q = (t, d)" by fastforce
    show ?thesis
    proof (cases "get_elems (get_pair getk getv) n (vs @ [t]) d")
      case (Inl e)
      then show ?thesis using Inr q Suc [of "map_insert m t" d "vs @ [t]"] by simp
    next
      case w: (Inr r)
      obtain ws c where r: "r = (ws, c)" by fastforce
      obtain ts where "ws = (vs @ [t]) @ ts"
        using grow [of n "vs @ [t]" d ws c] w r by blast
      then show ?thesis using Inr q w r Suc [of "map_insert m t" d "vs @ [t]"] by simp
    qed
  qed
qed

end

lemma foldl_map_insert:
  "distinct (map fst xs) \<Longrightarrow> fst ` set xs \<inter> dom m = {} \<Longrightarrow> foldl map_insert m xs = m ++ map_of xs"
proof (induction xs arbitrary: m)
  case Nil
  then show ?case by simp
next
  case (Cons x xs)
  have "m (fst x) = None" using Cons.prems(2) by auto
  then have "map_insert m x = m(fst x \<mapsto> snd x)" by (simp add: map_insert_def)
  moreover have "fst ` set xs \<inter> dom (m(fst x \<mapsto> snd x)) = {}" using Cons.prems by auto
  ultimately have "foldl map_insert m (x # xs) = m(fst x \<mapsto> snd x) ++ map_of xs"
    using Cons by simp
  also have "\<dots> = m ++ map_of (x # xs)"
    using Cons.prems(1) by (simp add: map_add_upd_left dom_map_of_conv_image_fst)
  finally show ?case .
qed

context codec_pair
begin

lemma get_map_consumes:
  assumes "list_all (\<lambda>kv. okk (fst kv) \<and> okv (snd kv)) m" "length m < 2 ^ 32" "distinct (map fst m)"
    "bb_wf b"
    "unread b = (le_bytes (of_nat (length m) :: 32 word) @
       concat (map (\<lambda>kv. enck (fst kv) @ encv (snd kv)) m)) @ rest"
  shows "consumes b (map_of m) rest (get_map getk getv b)"
  unfolding get_map_def
proof (rule consumes_bind [OF u32.get_consumes [OF TrueI assms(4)]])
  let ?n = "of_nat (length m) :: 32 word" and ?c = "concat (map (\<lambda>kv. enck (fst kv) @ encv (snd kv)) m)"
  show "unread b = le_bytes ?n @ (?c @ rest)" using assms(5) by simp
  fix b' assume b': "bb_wf b'" "unread b' = ?c @ rest"
  have n: "unat ?n = length m" using assms(2) by (simp add: unsigned_of_nat take_bit_nat_eq_self_iff)
  have "consumes b' ([] @ m) rest (get_elems (get_pair getk getv) (length m) [] b')"
    by (rule codec.get_elems_consumes [OF codec_pair assms(1) b'])
  then show "consumes b' (map_of m) rest
      (case (?n, b') of (msize, b) \<Rightarrow> get_map_loop getk getv (unat msize) Map.empty b)"
    using foldl_map_insert [OF assms(3), of Map.empty]
    by (auto simp: n consumes_def get_map_loop_elems [where vs = "[]"])
qed

lemma put_map_appends:
  assumes "list_all (\<lambda>kv. okk (fst kv) \<and> okv (snd kv)) m" "length m < 2 ^ 32" "bb_wf b"
  defines "bs \<equiv> le_bytes (of_nat (length m) :: 32 word) @
       concat (map (\<lambda>kv. enck (fst kv) @ encv (snd kv)) m)"
  assumes "bb_size b + length bs \<le> MAX_SIZE"
  shows "appends b bs (put_map putk putv m b)"
  using codec.put_appends [OF codec.codec_vector [OF codec_pair], of m b] assms
  by (simp add: put_vector_def put_map_def)

end

interpretation str_u64: codec_pair str_ok "\<lambda>s. str_bytes s @ [0]" put_string get_string
    "\<lambda>_. True" le_bytes "append_word :: 64 word \<Rightarrow> _" read_word ..

section \<open>The operations keep the invariant\<close>

lemma append_bytes_cases:
  assumes "bb_wf b"
  shows "case append_bytes src b of
      Inl e \<Rightarrow> e = AssertFail \<and> src \<noteq> [] \<and> MAX_SIZE \<le> bb_size b
    | Inr b' \<Rightarrow> bb_wf b' \<and> unread b' = unread b @ src \<and> (src = [] \<or> bb_size b < MAX_SIZE)"
proof (cases "src = [] \<or> bb_size b < MAX_SIZE")
  case True
  then show ?thesis by (rule append_bytes_eq [OF assms]) (use True in simp)
next
  case False
  then show ?thesis by (simp add: append_bytes_def)
qed

lemma read_bytes_cases:
  assumes "bb_wf b"
  shows "case read_bytes n b of
      Inl e \<Rightarrow> e = Exception False (m_rpos b) n (length (unread b)) \<and> length (unread b) < n
    | Inr (xs, b') \<Rightarrow> bb_wf b' \<and> length xs = n \<and> unread b = xs @ unread b'"
  using read_advance [OF assms, of n]
  by (auto simp: read_bytes_eq [OF assms] length_unread [OF assms])

lemma clear_wf: "bb_wf (clear c b)" "unread (clear c b) = []"
  by (simp_all add: clear_def bb_wf_def unread_def bb_length_def)

lemma put_bytes_wf: "bb_wf b \<Longrightarrow> put_bytes pos src b = Inr b' \<Longrightarrow> bb_wf b'"
  by (auto simp: put_bytes_def bb_wf_def bb_size_def overwrite_simps split: if_splits)

lemma insert_bytes_wf: "bb_wf b \<Longrightarrow> insert_bytes pos src b = Inr b' \<Longrightarrow> bb_wf b'"
  by (auto simp: insert_bytes_def bb_wf_def bb_size_def overwrite_simps Let_def split: if_splits)

lemma read_skip_wf: "bb_wf b \<Longrightarrow> read_skip n b = Inr b' \<Longrightarrow> bb_wf b' \<and> unread b' = drop n (unread b)"
  using read_advance [of b n] by (auto simp: read_skip_def split: if_splits)

lemma read_skip_cases:
  assumes "bb_wf b"
  shows "case read_skip n b of
      Inl e \<Rightarrow> e = Exception False (m_rpos b) n (length (unread b)) \<and> length (unread b) < n
    | Inr b' \<Rightarrow> bb_wf b' \<and> n \<le> length (unread b) \<and> unread b' = drop n (unread b)"
  using read_skip_wf [OF assms, of n] length_unread [OF assms] by (auto simp: read_skip_def split: sum.splits if_splits)

lemma resize_wf: "resize n b = Inr b' \<Longrightarrow> bb_wf b' \<and> length (unread b') = n"
  by (auto simp: resize_def bb_wf_def unread_def bb_length_def bb_size_def Let_def split: if_splits)

lemma append_buffer_eq: "bb_wf s \<Longrightarrow> append_buffer s b = append_bytes (unread s) b"
  by (auto simp: append_buffer_def unread_def bb_wf_def bb_length_def bb_size_def append_bytes_def)

lemma int_cast_small: "n < 2 ^ 31 \<Longrightarrow> int_cast n = int n"
proof -
  assume "n < 2 ^ 31"
  then have "signed_take_bit (LENGTH(32) - 1) (int n) = int n"
    by (intro signed_take_bit_int_eq_self) auto
  moreover have "(of_nat n :: 32 word) = of_int (int n)" by simp
  ultimately show ?thesis unfolding int_cast_def by (simp only: sint_sbintrunc')
qed

lemma swap_eq: "m_rpos a < 2 ^ 31 \<Longrightarrow> m_wpos a < 2 ^ 31 \<Longrightarrow> swap a b = (b, a)"
  by (simp add: swap_def Let_def int_cast_small set_rpos_def set_wpos_def)

text \<open>
  The states of a buffer that is used through its reading and writing operations, in any order and with
  any arguments, and exchanged with other such buffers by \<open>swap\<close>. The setters \<open>rpos(int)\<close> and \<open>wpos(int)\<close>
  and \<open>data_resize\<close> are not steps: they check nothing, and what they do to the invariant is part of the
  property below. The second buffer of \<open>swap\<close> gets its positions through a conversion to \<open>int\<close>.
\<close>

inductive bb_step :: "ByteBuffer \<Rightarrow> ByteBuffer \<Rightarrow> bool" where
  step_clear: "bb_step b (clear c b)"
| step_append: "append_bytes src b = Inr b' \<Longrightarrow> bb_step b b'"
| step_put: "put_bytes pos src b = Inr b' \<Longrightarrow> bb_step b b'"
| step_insert: "insert_bytes pos src b = Inr b' \<Longrightarrow> bb_step b b'"
| step_skip: "read_skip n b = Inr b' \<Longrightarrow> bb_step b b'"
| step_read: "read_bytes n b = Inr (xs, b') \<Longrightarrow> bb_step b b'"
| step_string: "get_string b = Inr (s, b') \<Longrightarrow> bb_step b b'"
| step_resize: "resize n b = Inr b' \<Longrightarrow> bb_step b b'"

inductive_cases bb_stepE: "bb_step b b'"

inductive bb_reachable :: "ByteBuffer \<Rightarrow> bool" where
  reach_new: "bb_reachable new_buffer"
| reach_step: "bb_reachable b \<Longrightarrow> bb_step b b' \<Longrightarrow> bb_reachable b'"
| reach_swap_this: "bb_reachable b \<Longrightarrow> bb_reachable s \<Longrightarrow> bb_reachable (fst (swap b s))"
| reach_swap_other: "bb_reachable b \<Longrightarrow> bb_reachable s \<Longrightarrow> bb_size b < 2 ^ 31 \<Longrightarrow> bb_reachable (snd (swap b s))"

lemma bb_step_wf: "bb_step b b' \<Longrightarrow> bb_wf b \<Longrightarrow> bb_wf b'"
proof (induction rule: bb_step.induct)
  case (step_append src b b')
  then show ?case using append_bytes_cases [of b src] by simp
next
  case (step_read n b xs b')
  then show ?case using read_bytes_cases [of b n] by simp
next
  case (step_string b s b')
  then show ?case using str.get_safe [of b] by (simp add: read_safe_def)
qed (auto simp: clear_wf dest: put_bytes_wf insert_bytes_wf read_skip_wf resize_wf)

lemma swap_parts: "fst (swap b s) = s" "bb_wf b \<Longrightarrow> bb_size b < 2 ^ 31 \<Longrightarrow> snd (swap b s) = b"
  by (simp add: swap_def Let_def set_rpos_def set_wpos_def) (simp add: swap_eq bb_wf_def)

lemma bb_reachable_wf: "bb_reachable b \<Longrightarrow> bb_wf b"
  by (induction rule: bb_reachable.induct) (auto intro: bb_step_wf simp: swap_parts)

text \<open>The unchecked setters keep the invariant exactly when their argument fits.\<close>

lemma setters_wf:
  assumes "bb_wf b"
  shows "bb_wf (set_rpos r b) \<longleftrightarrow> nat r \<le> m_wpos b"
    "bb_wf (set_wpos w b) \<longleftrightarrow> m_rpos b \<le> nat w \<and> nat w \<le> bb_size b"
    "data_resize k b = Inr b' \<Longrightarrow> bb_wf b' \<longleftrightarrow> m_wpos b \<le> k"
  using assms
  by (auto simp: set_rpos_def set_wpos_def data_resize_def bb_wf_def bb_size_def Let_def split: if_splits)

lemma wpos_past_end:
  assumes "bb_wf b" "bb_size b < k"
  shows "read_bytes (k - m_rpos b) (set_wpos (int k) b) = Inl OutOfRange"
  using assms by (auto simp: read_bytes_def set_wpos_def bb_wf_def bb_length_def bb_size_def)

section \<open>Properties\<close>


text \<open>For the witnesses: three bytes are written and one of them is read.\<close>

definition example_buffer :: ByteBuffer where
  "example_buffer = \<lparr>m_rpos = 1, m_wpos = 3, m_data = [7, 8, 9]\<rparr>"

lemma example_buffer_reachable: "bb_reachable example_buffer"
proof -
  have "append_bytes [7, 8, 9] new_buffer = Inr \<lparr>m_rpos = 0, m_wpos = 3, m_data = [7, 8, 9]\<rparr>"
    by (simp add: append_bytes_def new_buffer_def bb_size_def MAX_SIZE_def overwrite_def vec_resize_def numeral_3_eq_3)
  then have "bb_reachable \<lparr>m_rpos = 0, m_wpos = 3, m_data = [7, 8, 9]\<rparr>" by (intro reach_step [OF reach_new step_append])
  moreover have "read_skip 1 \<lparr>m_rpos = 0, m_wpos = 3, m_data = [7, 8, 9]\<rparr> = Inr example_buffer"
    by (simp add: read_skip_def example_buffer_def bb_length_def)
  ultimately show ?thesis by (rule reach_step [OF _ step_skip])
qed


text \<open>
  C28: the buffer implements a queue of bytes: \<open>append\<close> adds its bytes at the back and fails exactly when
  its size assertion does; \<open>read\<close> and \<open>read_skip\<close> take bytes from the front and throw exactly when fewer are
  left, with the position and the two sizes in the exception; \<open>clear\<close> empties the queue, and \<open>append\<close> of
  another buffer appends its unread bytes.
\<close>

theorem byte_buffer_refines_queue:
  assumes "bb_wf b" "bb_wf s"
  shows "(case append_bytes src b of
       Inl e \<Rightarrow> e = AssertFail \<and> src \<noteq> [] \<and> MAX_SIZE \<le> bb_size b
     | Inr b' \<Rightarrow> bb_wf b' \<and> unread b' = unread b @ src \<and> (src = [] \<or> bb_size b < MAX_SIZE)) \<and>
    (case read_bytes n b of
       Inl e \<Rightarrow> e = Exception False (m_rpos b) n (length (unread b)) \<and> length (unread b) < n
     | Inr (xs, b') \<Rightarrow> bb_wf b' \<and> length xs = n \<and> unread b = xs @ unread b') \<and>
    append_buffer s b = append_bytes (unread s) b \<and> bb_wf (clear c b) \<and> unread (clear c b) = [] \<and>
    (case read_skip n b of
       Inl e \<Rightarrow> e = Exception False (m_rpos b) n (length (unread b)) \<and> length (unread b) < n
     | Inr b' \<Rightarrow> bb_wf b' \<and> n \<le> length (unread b) \<and> unread b' = drop n (unread b))"
  by (intro conjI append_bytes_cases read_bytes_cases append_buffer_eq clear_wf read_skip_cases assms)

theorem byte_buffer_refines_queue_witness:
  "append_buffer example_buffer example_buffer = append_bytes [8, 9] example_buffer \<and>
   read_skip 3 example_buffer = Inl (Exception False 1 3 2) \<and>
   (\<exists>b. read_skip 2 example_buffer = Inr b \<and> unread b = [])"
proof -
  have u: "unread example_buffer = [8, 9]" by (simp add: example_buffer_def unread_def bb_length_def)
  note wf = bb_reachable_wf [OF example_buffer_reachable]
  have q: "append_buffer example_buffer example_buffer = append_bytes (unread example_buffer) example_buffer"
    "case read_skip n example_buffer of
       Inl e \<Rightarrow> e = Exception False (m_rpos example_buffer) n (length (unread example_buffer)) \<and> length (unread example_buffer) < n
     | Inr b' \<Rightarrow> bb_wf b' \<and> n \<le> length (unread example_buffer) \<and> unread b' = drop n (unread example_buffer)" for n
    using byte_buffer_refines_queue [OF wf wf, of "[]" n] by blast+
  have "m_rpos example_buffer = 1" by (simp add: example_buffer_def)
  then show ?thesis using q(1) q(2) [of 2] q(2) [of 3] by (simp add: u split: sum.splits)
qed

text \<open>
  C40: what the stream operators write they read back, in order and leaving the following bytes
  alone: 32-bit integers, blobs, strings of ASCII characters without NUL, vectors of such strings,
  and maps from strings to integers.
\<close>

theorem stream_round_trip:
  assumes "bb_wf b" "unread b = []" "bb_size b + length es \<le> MAX_SIZE"
    and "es = le_bytes (n :: 32 word) @ h @ (str_bytes s @ [0]) @
      (le_bytes (of_nat (length v) :: 32 word) @ concat (map (\<lambda>s. str_bytes s @ [0]) v))"
    and "length h = UINT256_WIDTH" "str_ok s" "list_all str_ok v" "length v < 2 ^ 32"
  shows "\<exists>b1 b2 b3 b4 b5 b6 b7 b8.
    append_word n b = Inr b1 \<and> put_blob h b1 = Inr b2 \<and> put_string s b2 = Inr b3 \<and>
    put_vector put_string v b3 = Inr b4 \<and>
    read_word b4 = Inr (n, b5) \<and> get_blob UINT256_WIDTH b5 = Inr (h, b6) \<and>
    get_string b6 = Inr (s, b7) \<and> get_vector get_string b7 = Inr (v, b8) \<and> unread b8 = []"
proof -
  let ?enc = "\<lambda>v. le_bytes (of_nat (length v) :: 32 word) @ concat (map (\<lambda>s. str_bytes s @ [0]) v)"
  note vec = str.codec_vector
  obtain b1 where b1: "append_word n b = Inr b1" "bb_wf b1" "unread b1 = le_bytes n"
      "bb_size b1 \<le> bb_size b + length (le_bytes n)"
    using u32.put_appends [OF TrueI assms(1), of n] assms(1-4) by (auto simp: appends_def)
  obtain b2 where b2: "put_blob h b1 = Inr b2" "bb_wf b2" "unread b2 = le_bytes n @ h"
      "bb_size b2 \<le> bb_size b1 + length h"
    using blob256.put_appends [OF assms(5) b1(2)] b1(3,4) assms(3,4) by (auto simp: appends_def)
  obtain b3 where b3: "put_string s b2 = Inr b3" "bb_wf b3"
      "unread b3 = le_bytes n @ h @ str_bytes s @ [0]" "bb_size b3 \<le> bb_size b2 + length (str_bytes s @ [0])"
    using str.put_appends [OF assms(6) b2(2)] b2(3,4) b1(4) assms(3,4) by (auto simp: appends_def)
  obtain b4 where b4: "put_vector put_string v b3 = Inr b4" "bb_wf b4" "unread b4 = es"
    using codec.put_appends [OF vec _ b3(2), of v] assms(3,4,7,8) b3(3,4) b2(4) b1(4)
    by (auto simp: appends_def)
  have u4: "unread b4 = le_bytes n @ h @ (str_bytes s @ [0]) @ ?enc v"
    using b4(3) assms(4) by simp
  obtain b5 where b5: "read_word b4 = Inr (n, b5)" "bb_wf b5" "unread b5 = h @ (str_bytes s @ [0]) @ ?enc v"
    using u32.get_consumes [OF TrueI b4(2) u4] by (auto simp: consumes_def)
  obtain b6 where b6: "get_blob UINT256_WIDTH b5 = Inr (h, b6)" "bb_wf b6"
      "unread b6 = (str_bytes s @ [0]) @ ?enc v"
    using blob256.get_consumes [OF assms(5) b5(2)] b5(3) by (auto simp: consumes_def)
  obtain b7 where b7: "get_string b6 = Inr (s, b7)" "bb_wf b7" "unread b7 = ?enc v @ []"
    using str.get_consumes [OF assms(6) b6(2,3)] by (auto simp: consumes_def)
  obtain b8 where b8: "get_vector get_string b7 = Inr (v, b8)" "unread b8 = []"
    using codec.get_consumes [OF vec _ b7(2,3)] assms(7,8) by (auto simp: consumes_def)
  show ?thesis using b1(1) b2(1) b3(1) b4(1) b5(1) b6(1) b7(1) b8 by blast
qed

theorem stream_round_trip_witness:
  "\<exists>b1 b2 b3 b4 b5 b6 b7 b8.
    append_word (7 :: 32 word) new_buffer = Inr b1 \<and> put_blob (replicate 32 5) b1 = Inr b2 \<and>
    put_string ''ab'' b2 = Inr b3 \<and> put_vector put_string [''x'', ''yz''] b3 = Inr b4 \<and>
    read_word b4 = Inr (7 :: 32 word, b5) \<and> get_blob UINT256_WIDTH b5 = Inr (replicate 32 5, b6) \<and>
    get_string b6 = Inr (''ab'', b7) \<and> get_vector get_string b7 = Inr ([''x'', ''yz''], b8) \<and>
    unread b8 = []"
  by (rule stream_round_trip [OF bb_wf_new(1,2) _ refl])
    (simp_all add: UINT256_WIDTH_def MAX_SIZE_def str_ok_def str_bytes_def)

text \<open>
  A map written with \<open>operator<<\<close> is read back with the same entries; the stored size and the
  entries are all that is consumed.
\<close>

theorem map_round_trip:
  assumes "bb_wf b" "unread b = []" "distinct (map fst m)" "length m < 2 ^ 32"
    and "list_all (\<lambda>kv. str_ok (fst kv)) m"
    and "bb_size b + 4 + sum_list (map (\<lambda>kv. length (fst kv) + 9) m) \<le> MAX_SIZE"
  shows "\<exists>b1 b2. put_map put_string (append_word :: 64 word \<Rightarrow> _) m b = Inr b1 \<and>
    get_map get_string read_word b1 = Inr (map_of m, b2) \<and> unread b2 = []"
proof -
  let ?es = "le_bytes (of_nat (length m) :: 32 word) @
    concat (map (\<lambda>kv. (str_bytes (fst kv) @ [0]) @ le_bytes (snd kv)) m)"
  have ok: "list_all (\<lambda>kv. str_ok (fst kv) \<and> True) m" using assms(5) by simp
  have "length ?es = 4 + sum_list (map (\<lambda>kv. length (fst kv) + 9) m)"
    by (simp add: length_concat comp_def str_bytes_def)
  then have "bb_size b + length ?es \<le> MAX_SIZE" using assms(6) by simp
  then obtain b1 where b1: "put_map put_string append_word m b = Inr b1" "bb_wf b1" "unread b1 = ?es @ []"
    using str_u64.put_map_appends [OF ok assms(4,1)] assms(2) by (auto simp: appends_def)
  then show ?thesis
    using str_u64.get_map_consumes [OF ok assms(4,3) b1(2,3)] by (auto simp: consumes_def)
qed

theorem map_round_trip_witness:
  "\<exists>b1 b2. put_map put_string (append_word :: 64 word \<Rightarrow> _) [(''a'', 1), (''b'', 2)] new_buffer = Inr b1 \<and>
    get_map get_string read_word b1 = Inr (map_of [(''a'', 1 :: 64 word), (''b'', 2)], b2) \<and> unread b2 = []"
  by (rule map_round_trip [OF bb_wf_new(1,2)]) (simp_all add: MAX_SIZE_def str_ok_def)

text \<open>
  The positional read \<open>read<T>(pos)\<close>, and with it \<open>operator[]\<close>, compares the size of the type with
  the number of unread bytes instead of the end of the read: it accesses memory outside of the
  vector exactly when enough bytes are unread and the position is too large.
\<close>

theorem positional_read_out_of_range:
  "byte_at b pos = Inl OutOfRange \<longleftrightarrow> 0 < bb_length b \<and> length (m_data b) \<le> pos"
  by (auto simp: byte_at_def read_word_at_def Let_def bb_size_def)

end
