(* ===== verification/Block.thy ===== *)
theory Block
  imports ByteBuffer
begin

text \<open>
  Transactions, block headers and blocks of \<open>libs/blockchain/transaction.cpp\<close>, \<open>block.cpp\<close> and
  \<open>block.h\<close>, and the hash objects of \<open>libs/common/hash.h\<close>.

  OpenSSL is not part of the sources: the digest functions \<open>sha256\<close> and \<open>ripemd160\<close> are arguments of
  the definitions that hash. The state of an OpenSSL context is the sequence of bytes fed to it
  since its initialisation, whose digest \<open>SHA256_Final\<close> returns. What the code relies on is only that
  a digest fills the blob it is written to: \<open>digest_ok\<close>.

  The lemmas give the bytes that are hashed for a header and a transaction, show that the hash of a
  header is defined for every header, that equal bytes come from equal headers, and when this holds
  for transactions.
\<close>

section \<open>Hash objects\<close>

type_synonym digest = "uint8 list \<Rightarrow> uint8 list"

definition digest_ok :: "nat \<Rightarrow> digest \<Rightarrow> bool" where
  "digest_ok n h \<longleftrightarrow> (\<forall>bs. length (h bs) = n)"

record hash_state =
  hs_ctx :: "uint8 list"
  hs_hash :: base_blob
  hs_final :: bool

definition hash256_new :: hash_state where
  "hash256_new = \<lparr>hs_ctx = [], hs_hash = blob_null UINT256_WIDTH, hs_final = False\<rparr>"

definition hash256_update :: "uint8 list \<Rightarrow> hash_state \<Rightarrow> hash_state bb_result" where
  "hash256_update bytes s =
     (if hs_final s then Inl AssertFail else Inr (s\<lparr>hs_ctx := hs_ctx s @ bytes\<rparr>))"

definition hash256_update_stream :: "ByteBuffer \<Rightarrow> hash_state \<Rightarrow> hash_state bb_result" where
  "hash256_update_stream stream s =
     (if hs_final s then Inl AssertFail
      else if bb_length stream > bb_size stream then Inl OutOfRange
      else Inr (s\<lparr>hs_ctx := hs_ctx s @ take (bb_length stream) (m_data stream)\<rparr>))"

definition hash256_getHash :: "digest \<Rightarrow> hash_state \<Rightarrow> base_blob \<times> hash_state" where
  "hash256_getHash sha256 s =
     (let s = (if \<not> hs_final s then s\<lparr>hs_final := True, hs_hash := sha256 (hs_ctx s)\<rparr> else s)
      in (hs_hash s, s))"

definition hash160_new :: hash_state where
  "hash160_new = \<lparr>hs_ctx = [], hs_hash = blob_null UINT160_WIDTH, hs_final = False\<rparr>"

definition hash160_update :: "uint8 list \<Rightarrow> hash_state \<Rightarrow> hash_state bb_result" where
  "hash160_update bytes s =
     (if hs_final s then Inl AssertFail else Inr (s\<lparr>hs_ctx := hs_ctx s @ bytes\<rparr>))"

definition hash160_update_stream :: "ByteBuffer \<Rightarrow> hash_state \<Rightarrow> hash_state bb_result" where
  "hash160_update_stream stream s =
     (if hs_final s then Inl AssertFail
      else if bb_length stream > bb_size stream then Inl OutOfRange
      else Inr (s\<lparr>hs_ctx := hs_ctx s @ take (bb_length stream) (m_data stream)\<rparr>))"

definition hash160_getHash :: "digest \<Rightarrow> hash_state \<Rightarrow> base_blob \<times> hash_state" where
  "hash160_getHash ripemd160 s =
     (let s = (if \<not> hs_final s then s\<lparr>hs_final := True, hs_hash := ripemd160 (hs_ctx s)\<rparr> else s)
      in (hs_hash s, s))"

section \<open>Transactions\<close>

record Transaction =
  tx_sender :: string
  tx_recipient :: string
  tx_value :: uint64
  tx_magic :: uint32

definition new_Transaction :: Transaction where
  "new_Transaction = \<lparr>tx_sender = [], tx_recipient = [], tx_value = 0, tx_magic = 0\<rparr>"

definition isValueBase :: "Transaction \<Rightarrow> bool" where
  "isValueBase tx = True"

definition tx_getSerializeSize :: "Transaction \<Rightarrow> uint32" where
  "tx_getSerializeSize tx = 0"

definition tx_serialize :: "Transaction \<Rightarrow> ByteBuffer \<Rightarrow> ByteBuffer bb_result" where
  "tx_serialize tx stream =
     bindE (put_string (tx_sender tx) stream) (\<lambda>stream.
     bindE (put_string (tx_recipient tx) stream) (\<lambda>stream.
     bindE (append_word (tx_value tx) stream) (\<lambda>stream.
     append_word (tx_magic tx) stream)))"

text \<open>The two rounds of \<open>SHA256\<close> over the bytes of a stream, from its start.\<close>

definition hash_stream :: "digest \<Rightarrow> ByteBuffer \<Rightarrow> base_blob" where
  "hash_stream sha256 stream = sha256 (sha256 (take (bb_length stream) (m_data stream)))"

definition tx_getHash :: "digest \<Rightarrow> Transaction \<Rightarrow> base_blob bb_result" where
  "tx_getHash sha256 tx =
     bindE (tx_serialize tx new_buffer) (\<lambda>stream. Inr (hash_stream sha256 stream))"

section \<open>Block headers and blocks\<close>

definition P2PCLOUDS_VERSION :: uint32 where
  "P2PCLOUDS_VERSION = 100"

record BlockHeader =
  h_version :: uint32
  h_hashPrevBlock :: base_blob
  h_hashMerkleRoot :: base_blob
  h_timeval :: uint32
  h_bits :: uint32
  h_proof :: uint32

definition new_BlockHeader :: BlockHeader where
  "new_BlockHeader = \<lparr>h_version = P2PCLOUDS_VERSION, h_hashPrevBlock = blob_null UINT256_WIDTH,
     h_hashMerkleRoot = blob_null UINT256_WIDTH, h_timeval = 0, h_bits = 0, h_proof = 0\<rparr>"

definition header_serialize :: "BlockHeader \<Rightarrow> ByteBuffer \<Rightarrow> ByteBuffer bb_result" where
  "header_serialize h stream =
     bindE (append_word (h_version h) stream) (\<lambda>stream.
     bindE (put_blob (h_hashPrevBlock h) stream) (\<lambda>stream.
     bindE (put_blob (h_hashMerkleRoot h) stream) (\<lambda>stream.
     bindE (append_word (h_timeval h) stream) (\<lambda>stream.
     bindE (append_word (h_bits h) stream) (\<lambda>stream.
     append_word (h_proof h) stream)))))"

definition header_getSerializeSize :: "BlockHeader \<Rightarrow> uint32" where
  "header_getSerializeSize h =
     4 + of_nat UINT256_WIDTH + of_nat UINT256_WIDTH + 4 + 4 + 4"

definition header_getHash :: "digest \<Rightarrow> BlockHeader \<Rightarrow> base_blob bb_result" where
  "header_getHash sha256 h =
     bindE (header_serialize h (clear False new_buffer)) (\<lambda>stream. Inr (hash_stream sha256 stream))"

record Block =
  b_transactions :: "Transaction list"
  b_header :: BlockHeader

definition new_Block :: Block where
  "new_Block = \<lparr>b_transactions = [], b_header = new_BlockHeader\<rparr>"

definition addTransactions :: "Transaction list \<Rightarrow> Block \<Rightarrow> Block" where
  "addTransactions vals b = b\<lparr>b_transactions := b_transactions b @ vals\<rparr>"

definition block_getHash :: "digest \<Rightarrow> Block \<Rightarrow> base_blob bb_result" where
  "block_getHash sha256 b = header_getHash sha256 (b_header b)"

definition block_getSerializeSize :: "Block \<Rightarrow> uint32" where
  "block_getSerializeSize b =
     foldl (\<lambda>size item. size + tx_getSerializeSize item) (header_getSerializeSize (b_header b))
       (b_transactions b)"

definition header_ok :: "BlockHeader \<Rightarrow> bool" where
  "header_ok h \<longleftrightarrow> length (h_hashPrevBlock h) = UINT256_WIDTH \<and> length (h_hashMerkleRoot h) = UINT256_WIDTH"

section \<open>The hashed bytes\<close>

definition header_bytes :: "BlockHeader \<Rightarrow> uint8 list" where
  "header_bytes h = le_bytes (h_version h) @ h_hashPrevBlock h @ h_hashMerkleRoot h @
     le_bytes (h_timeval h) @ le_bytes (h_bits h) @ le_bytes (h_proof h)"

definition tx_bytes :: "Transaction \<Rightarrow> uint8 list" where
  "tx_bytes tx = (str_bytes (tx_sender tx) @ [0]) @ (str_bytes (tx_recipient tx) @ [0]) @
     le_bytes (tx_value tx) @ le_bytes (tx_magic tx)"

lemma length_header_bytes: "header_ok h \<Longrightarrow> length (header_bytes h) = 80"
  by (simp add: header_ok_def header_bytes_def UINT256_WIDTH_def)

lemma put_string_appends:
  assumes "bb_wf b" "bb_size b + length s + 1 \<le> MAX_SIZE"
  shows "appends b (str_bytes s @ [0]) (put_string s b)"
  unfolding put_string_def
proof (rule appends_bind)
  show "appends b (str_bytes s) (append_bytes (str_bytes s) b)"
    using assms by (intro append_bytes_appends) (auto simp: str_bytes_def)
  fix b' assume "bb_wf b'" "bb_size b' \<le> bb_size b + length (str_bytes s)"
  then show "appends b' [0] (append_word (0 :: 8 word) b')"
    using assms(2) u8.put_appends [OF TrueI, of b' 0] by (simp add: le_bytes_def str_bytes_def)
qed

lemma header_serialize_appends:
  assumes "header_ok h" "bb_wf b" "bb_size b + 80 \<le> MAX_SIZE"
  shows "appends b (header_bytes h) (header_serialize h b)"
  unfolding header_serialize_def header_bytes_def using assms
  by (intro appends_bind u32.put_appends blob256.put_appends [unfolded id_apply])
    (auto simp: header_ok_def UINT256_WIDTH_def)

lemma tx_serialize_appends:
  assumes "bb_wf b" "bb_size b + length (tx_sender tx) + length (tx_recipient tx) + 14 \<le> MAX_SIZE"
  shows "appends b (tx_bytes tx) (tx_serialize tx b)"
  unfolding tx_serialize_def tx_bytes_def using assms
  by (intro appends_bind u32.put_appends u64.put_appends put_string_appends)
    (auto simp: str_bytes_def)

lemma appends_hash_stream:
  assumes "appends b bs r" "bb_wf b" "unread b = []" "m_rpos b = 0"
  shows "bindE r (\<lambda>stream. Inr (hash_stream sha256 stream)) = Inr (sha256 (sha256 bs))"
  using assms by (auto simp: appends_def hash_stream_def unread_def)

lemma new_buffer_start: "m_rpos new_buffer = 0" "clear c new_buffer = new_buffer"
  by (simp_all add: new_buffer_def clear_def)

lemma header_getHash_eq: "header_ok h \<Longrightarrow> header_getHash sha256 h = Inr (sha256 (sha256 (header_bytes h)))"
  unfolding header_getHash_def
  by (rule appends_hash_stream [OF header_serialize_appends])
    (auto simp: new_buffer_start MAX_SIZE_def)

lemma tx_getHash_eq:
  "length (tx_sender tx) + length (tx_recipient tx) + 14 \<le> MAX_SIZE \<Longrightarrow>
     tx_getHash sha256 tx = Inr (sha256 (sha256 (tx_bytes tx)))"
  unfolding tx_getHash_def
  by (rule appends_hash_stream [OF tx_serialize_appends]) (auto simp: new_buffer_start)

lemma le_bytes_inject: "8 dvd LENGTH('a::len) \<Longrightarrow> le_bytes (v :: 'a word) = le_bytes w \<longleftrightarrow> v = w"
  by (metis le_word_le_bytes)

lemma header_bytes_inject:
  assumes "header_ok h" "header_ok k" "header_bytes h = header_bytes k"
  shows "h = k"
  using assms unfolding header_ok_def header_bytes_def
  by (intro BlockHeader.equality) (auto simp: le_bytes_inject)

definition buffer_of :: "uint8 list \<Rightarrow> ByteBuffer" where
  "buffer_of bs = \<lparr>m_rpos = 0, m_wpos = length bs, m_data = bs\<rparr>"

lemma buffer_of [simp]: "bb_wf (buffer_of bs)" "unread (buffer_of bs) = bs"
  by (simp_all add: buffer_of_def bb_wf_def unread_def bb_length_def bb_size_def)

lemma tx_bytes_inject:
  assumes "str_ok (tx_sender t)" "str_ok (tx_sender u)" "str_ok (tx_recipient t)"
    "str_ok (tx_recipient u)" "tx_bytes t = tx_bytes u"
  shows "t = u"
proof -
  note e = assms(5) [unfolded tx_bytes_def]
  note s = str.enc_prefix_free [OF assms(1,2) buffer_of(1), of "tx_bytes t"]
  have 1: "tx_sender t = tx_sender u \<and> (str_bytes (tx_recipient t) @ [0]) @
      le_bytes (tx_value t) @ le_bytes (tx_magic t) = (str_bytes (tx_recipient u) @ [0]) @
      le_bytes (tx_value u) @ le_bytes (tx_magic u)"
    using s e by (simp only: buffer_of tx_bytes_def)
  have 2: "tx_recipient t = tx_recipient u \<and>
      le_bytes (tx_value t) @ le_bytes (tx_magic t) = le_bytes (tx_value u) @ le_bytes (tx_magic u)"
    by (rule str.enc_prefix_free [OF assms(3,4) buffer_of(1) buffer_of(2)])
      (simp only: buffer_of(2) conjunct2 [OF 1])
  then have "tx_value t = tx_value u" "tx_magic t = tx_magic u" by (simp_all add: le_bytes_inject)
  with 1 2 show ?thesis by (intro Transaction.equality) simp_all
qed

lemma hash256_two_updates:
  "bindE (hash256_update xs hash256_new) (\<lambda>s. bindE (hash256_update ys s) (\<lambda>s. Inr (fst (hash256_getHash sha256 s))))
     = Inr (sha256 (xs @ ys))"
  by (simp add: hash256_update_def hash256_new_def hash256_getHash_def)

lemma block_size_constant: "block_getSerializeSize b = 80"
proof -
  have "foldl (\<lambda>size item. size + tx_getSerializeSize item) n ts = n" for n :: uint32 and ts
    by (induction ts) (simp_all add: tx_getSerializeSize_def)
  then show ?thesis
    by (simp add: block_getSerializeSize_def header_getSerializeSize_def UINT256_WIDTH_def)
qed

section \<open>Properties\<close>

text \<open>
  C39: every block header serialises to 80 bytes and has a hash, the double digest of these bytes.
  As long as the digest function has no collision among the four inputs it is applied to, two
  headers have the same hash exactly when they agree in every field.
\<close>

theorem header_hash_binding:
  assumes "header_ok h" "header_ok k"
    and "inj_on sha256 {header_bytes h, header_bytes k, sha256 (header_bytes h), sha256 (header_bytes k)}"
  shows "length (header_bytes h) = 80 \<and> header_getHash sha256 h = Inr (sha256 (sha256 (header_bytes h))) \<and>
    (header_getHash sha256 h = header_getHash sha256 k \<longleftrightarrow> h = k)"
proof -
  have "header_bytes h = header_bytes k \<longleftrightarrow> h = k" using header_bytes_inject [OF assms(1,2)] by blast
  then show ?thesis
    using assms(3) by (auto simp: header_getHash_eq assms(1,2) length_header_bytes inj_on_def)
qed

theorem header_hash_binding_witness:
  "header_ok new_BlockHeader \<and>
   header_getHash rev new_BlockHeader \<noteq> header_getHash rev (new_BlockHeader\<lparr>h_proof := 1\<rparr>)"
proof -
  have ok: "header_ok new_BlockHeader" "header_ok (new_BlockHeader\<lparr>h_proof := 1\<rparr>)"
    by (simp_all add: header_ok_def new_BlockHeader_def blob_null_def)
  have "new_BlockHeader \<noteq> new_BlockHeader\<lparr>h_proof := 1\<rparr>" by (simp add: new_BlockHeader_def)
  moreover have "inj_on rev A" for A :: "uint8 list set" by simp
  ultimately show ?thesis using header_hash_binding [OF ok, of rev] ok(1) by blast
qed

text \<open>
  The hash of a transaction is the double digest of its serialised fields, and the
  serialisation determines the transaction when its strings are ASCII without NUL characters.
\<close>

theorem transaction_hash_binding:
  assumes "length (tx_sender t) + length (tx_recipient t) + 14 \<le> MAX_SIZE"
    and "str_ok (tx_sender t)" "str_ok (tx_sender u)" "str_ok (tx_recipient t)" "str_ok (tx_recipient u)"
  shows "tx_getHash sha256 t = Inr (sha256 (sha256 (tx_bytes t))) \<and> (tx_bytes t = tx_bytes u \<longleftrightarrow> t = u)"
  using tx_getHash_eq [OF assms(1)] tx_bytes_inject [OF assms(2-5)] by blast

theorem transaction_hash_binding_witness:
  "tx_getHash rev \<lparr>tx_sender = ''a'', tx_recipient = ''b'', tx_value = 1, tx_magic = 2\<rparr>
     = Inr (tx_bytes \<lparr>tx_sender = ''a'', tx_recipient = ''b'', tx_value = 1, tx_magic = 2\<rparr>)"
  using transaction_hash_binding [of "\<lparr>tx_sender = ''a'', tx_recipient = ''b'', tx_value = 1, tx_magic = 2\<rparr>"
      "\<lparr>tx_sender = ''a'', tx_recipient = ''b'', tx_value = 1, tx_magic = 2\<rparr>" rev]
  by (simp add: str_ok_def MAX_SIZE_def)

text \<open>
  A sender or recipient that contains a NUL character makes the serialisation ambiguous: two
  different transactions have the same hash under every digest function.
\<close>

theorem transaction_hash_ambiguous:
  "\<exists>t u. t \<noteq> u \<and> (\<forall>sha256. tx_getHash sha256 t = tx_getHash sha256 u \<and> (\<exists>h. tx_getHash sha256 t = Inr h))"
proof -
  let ?t = "\<lparr>tx_sender = [char_of (0 :: nat)], tx_recipient = [], tx_value = 0, tx_magic = 0\<rparr>"
  let ?u = "\<lparr>tx_sender = [], tx_recipient = [char_of (0 :: nat)], tx_value = 0, tx_magic = 0\<rparr>"
  have "tx_bytes ?t = tx_bytes ?u" by (simp add: tx_bytes_def str_bytes_def)
  then have "tx_getHash sha256 ?t = tx_getHash sha256 ?u \<and> (\<exists>h. tx_getHash sha256 ?t = Inr h)" for sha256
    by (simp add: tx_getHash_eq MAX_SIZE_def)
  moreover have "?t \<noteq> ?u" by simp
  ultimately show ?thesis by blast
qed

end
