(* ===== verification/Merkle.thy ===== *)
theory Merkle
  imports Block
begin

text \<open>
  The constant-space Merkle tree computation of \<open>libs/blockchain/merkle.cpp\<close>.

  The loops of \<open>MerkleComputation\<close> are functions on the 32-bit counter, the array \<open>inner\<close>, the level
  and the record \<open>mk_state\<close> of the local variables \<open>h\<close>, \<open>matchh\<close>, the branch and the mutation flag.
  A level of 32 or more, where the shift is undefined and \<open>inner\<close> is left, is the error
  \<open>MerkleOverrun\<close>. \<open>want\<close> says that \<open>pbranch\<close> is not null.

  The reference is \<open>lv\<close>, the levels of the tree computed by pairing adjacent nodes and repeating the
  last of an odd number. The lemmas show that for up to \<open>2 ^ 31\<close> leaves the computation returns the
  single node of the top level, that the branch it returns is the list of siblings and reproduces
  the root, that the mutation flag is set exactly when two complete sibling subtrees are equal, and
  that without a collision of the digest the root of a tree that is not flagged determines the
  leaves among all trees of the same depth.
\<close>

unbundle bit_operations_syntax

section \<open>Definitions\<close>

datatype merkle_error = MerkleOverrun | LeafOutOfRange | LeafHash bb_error

type_synonym 'a merkle_result = "(merkle_error, 'a) result"

record mk_state =
  mk_h :: base_blob
  mk_matchh :: bool
  mk_branch :: "base_blob list"
  mk_mutated :: bool

definition hash_pair :: "digest \<Rightarrow> base_blob \<Rightarrow> base_blob \<Rightarrow> base_blob" where
  "hash_pair sha256 a b =
     (case bindE (hash256_update a hash256_new) (hash256_update b) of
        Inr s \<Rightarrow> fst (hash256_getHash sha256 s) | Inl _ \<Rightarrow> [])"

definition level_bit :: "uint32 \<Rightarrow> nat \<Rightarrow> bool" where
  "level_bit count level = (count AND push_bit level 1 \<noteq> 0)"

definition branch_step :: "bool \<Rightarrow> base_blob list \<Rightarrow> int \<Rightarrow> nat \<Rightarrow> mk_state \<Rightarrow> mk_state" where
  "branch_step want inner matchlevel level s =
     (if want
      then if mk_matchh s then s\<lparr>mk_branch := mk_branch s @ [inner ! level]\<rparr>
           else if matchlevel = int level
                then s\<lparr>mk_branch := mk_branch s @ [mk_h s], mk_matchh := True\<rparr>
                else s
      else s)"

function leaf_up :: "digest \<Rightarrow> bool \<Rightarrow> base_blob list \<Rightarrow> int \<Rightarrow> uint32 \<Rightarrow> nat \<Rightarrow> mk_state \<Rightarrow>
    (nat \<times> mk_state) merkle_result" where
  "leaf_up sha256 want inner matchlevel count level s =
     (if \<not> level < 32 then Inl MerkleOverrun
      else if level_bit count level then Inr (level, s)
      else let s = branch_step want inner matchlevel level s;
               s = s\<lparr>mk_mutated := mk_mutated s \<or> blob_eq (inner ! level) (mk_h s)\<rparr>;
               s = s\<lparr>mk_h := hash_pair sha256 (inner ! level) (mk_h s)\<rparr>
           in leaf_up sha256 want inner matchlevel count (Suc level) s)"
  by pat_completeness auto
termination
  by (relation "measure (\<lambda>(sha256, want, inner, matchlevel, count, level, s). 32 - level)") auto

fun leaves_loop :: "digest \<Rightarrow> bool \<Rightarrow> uint32 \<Rightarrow> base_blob list \<Rightarrow> uint32 \<Rightarrow> base_blob list \<Rightarrow> int \<Rightarrow>
    base_blob list \<Rightarrow> bool \<Rightarrow> (uint32 \<times> base_blob list \<times> int \<times> base_blob list \<times> bool) merkle_result" where
  "leaves_loop sha256 want branchpos [] count inner matchlevel branch mutated =
     Inr (count, inner, matchlevel, branch, mutated)"
| "leaves_loop sha256 want branchpos (h # leaves) count inner matchlevel branch mutated =
     (let matchh = (count = branchpos);
          count = count + 1
      in bindE (leaf_up sha256 want inner matchlevel count 0
                  \<lparr>mk_h = h, mk_matchh = matchh, mk_branch = branch, mk_mutated = mutated\<rparr>)
           (\<lambda>(level, s).
              let inner = inner[level := mk_h s];
                  matchlevel = (if mk_matchh s then int level else matchlevel)
              in leaves_loop sha256 want branchpos leaves count inner matchlevel (mk_branch s)
                   (mk_mutated s)))"

function skip_level :: "uint32 \<Rightarrow> nat \<Rightarrow> nat merkle_result" where
  "skip_level count level =
     (if \<not> level < 32 then Inl MerkleOverrun
      else if level_bit count level then Inr level
      else skip_level count (Suc level))"
  by pat_completeness auto
termination
  by (relation "measure (\<lambda>(count, level). 32 - level)") auto

function sweep_up :: "digest \<Rightarrow> bool \<Rightarrow> base_blob list \<Rightarrow> int \<Rightarrow> uint32 \<Rightarrow> nat \<Rightarrow> mk_state \<Rightarrow>
    (nat \<times> mk_state) merkle_result" where
  "sweep_up sha256 want inner matchlevel count level s =
     (if \<not> level < 32 then Inl MerkleOverrun
      else if level_bit count level then Inr (level, s)
      else let s = branch_step want inner matchlevel level s;
               s = s\<lparr>mk_h := hash_pair sha256 (inner ! level) (mk_h s)\<rparr>
           in sweep_up sha256 want inner matchlevel count (Suc level) s)"
  by pat_completeness auto
termination
  by (relation "measure (\<lambda>(sha256, want, inner, matchlevel, count, level, s). 32 - level)") auto

declare leaf_up.simps [simp del] skip_level.simps [simp del] sweep_up.simps [simp del]

lemma sweep_up_level:
  "sweep_up sha256 want inner matchlevel count level s = Inr (level', s') \<Longrightarrow> level \<le> level'"
proof (induction sha256 want inner matchlevel count level s rule: sweep_up.induct)
  case (1 sha256 want inner matchlevel count level s)
  show ?case
  proof (cases "level < 32 \<and> \<not> level_bit count level")
    case True
    have "Suc level \<le> level'"
      by (rule "1.IH") (use True "1.prems" in \<open>auto simp: sweep_up.simps [of _ _ _ _ _ level] Let_def\<close>)
    then show ?thesis by simp
  next
    case False
    then show ?thesis
      using "1.prems" by (auto simp: sweep_up.simps [of _ _ _ _ _ level] split: if_splits)
  qed
qed

function sweep :: "digest \<Rightarrow> bool \<Rightarrow> base_blob list \<Rightarrow> int \<Rightarrow> uint32 \<Rightarrow> nat \<Rightarrow> mk_state \<Rightarrow>
    mk_state merkle_result" where
  "sweep sha256 want inner matchlevel count level s =
     (if \<not> level < 32 then Inl MerkleOverrun
      else if count = push_bit level 1 then Inr s
      else let s = (if want \<and> mk_matchh s then s\<lparr>mk_branch := mk_branch s @ [mk_h s]\<rparr> else s);
               s = s\<lparr>mk_h := hash_pair sha256 (mk_h s) (mk_h s)\<rparr>;
               count = count + push_bit level 1
           in bindE (sweep_up sha256 want inner matchlevel count (Suc level) s)
                (\<lambda>r. sweep sha256 want inner matchlevel count (fst r) (snd r)))"
  by pat_completeness auto
termination
  by (relation "measure (\<lambda>(sha256, want, inner, matchlevel, count, level, s). 32 - level)")
    (auto dest!: sweep_up_level)

declare sweep.simps [simp del]

definition MerkleComputation :: "digest \<Rightarrow> base_blob list \<Rightarrow> bool \<Rightarrow> uint32 \<Rightarrow>
    (base_blob \<times> bool \<times> base_blob list) merkle_result" where
  "MerkleComputation sha256 leaves want branchpos =
     (if length leaves = 0 then Inr (blob_null UINT256_WIDTH, False, [])
      else bindE (leaves_loop sha256 want branchpos leaves 0
                    (replicate 32 (blob_null UINT256_WIDTH)) (- 1) [] False)
        (\<lambda>(count, inner, matchlevel, branch, mutated).
           bindE (skip_level count 0) (\<lambda>level.
             bindE (sweep sha256 want inner matchlevel count level
                      \<lparr>mk_h = inner ! level, mk_matchh = (matchlevel = int level),
                        mk_branch = branch, mk_mutated = mutated\<rparr>)
               (\<lambda>s. Inr (mk_h s, mk_mutated s, mk_branch s)))))"

definition ComputeMerkleRoot :: "digest \<Rightarrow> base_blob list \<Rightarrow> (base_blob \<times> bool) merkle_result" where
  "ComputeMerkleRoot sha256 leaves =
     bindE (MerkleComputation sha256 leaves False (- 1)) (\<lambda>(hash, mutated, _). Inr (hash, mutated))"

definition ComputeMerkleBranch :: "digest \<Rightarrow> base_blob list \<Rightarrow> uint32 \<Rightarrow> base_blob list merkle_result" where
  "ComputeMerkleBranch sha256 leaves position =
     bindE (MerkleComputation sha256 leaves True position) (\<lambda>(_, _, ret). Inr ret)"

fun ComputeMerkleRootFromBranch :: "digest \<Rightarrow> base_blob \<Rightarrow> base_blob list \<Rightarrow> uint32 \<Rightarrow> base_blob" where
  "ComputeMerkleRootFromBranch sha256 hash [] nIndex = hash"
| "ComputeMerkleRootFromBranch sha256 hash (it # vMerkleBranch) nIndex =
     ComputeMerkleRootFromBranch sha256
       (if nIndex AND 1 \<noteq> 0 then hash_pair sha256 it hash else hash_pair sha256 hash it)
       vMerkleBranch (drop_bit 1 nIndex)"

fun tx_hashes :: "digest \<Rightarrow> Transaction list \<Rightarrow> base_blob list merkle_result" where
  "tx_hashes sha256 [] = Inr []"
| "tx_hashes sha256 (tx # vtx) =
     (case tx_getHash sha256 tx of
        Inl e \<Rightarrow> Inl (LeafHash e)
      | Inr h \<Rightarrow> bindE (tx_hashes sha256 vtx) (\<lambda>hs. Inr (h # hs)))"

definition BlockMerkleRoot :: "digest \<Rightarrow> Block \<Rightarrow> (base_blob \<times> bool) merkle_result" where
  "BlockMerkleRoot sha256 block =
     bindE (tx_hashes sha256 (b_transactions block)) (ComputeMerkleRoot sha256)"

definition BlockWitnessMerkleRoot :: "digest \<Rightarrow> Block \<Rightarrow> (base_blob \<times> bool) merkle_result" where
  "BlockWitnessMerkleRoot sha256 block =
     (case b_transactions block of
        [] \<Rightarrow> Inl LeafOutOfRange
      | tx # vtx \<Rightarrow> bindE (tx_hashes sha256 vtx)
                     (\<lambda>hs. ComputeMerkleRoot sha256 (blob_null UINT256_WIDTH # hs)))"

definition BlockMerkleBranch :: "digest \<Rightarrow> Block \<Rightarrow> uint32 \<Rightarrow> base_blob list merkle_result" where
  "BlockMerkleBranch sha256 block position =
     bindE (tx_hashes sha256 (b_transactions block))
       (\<lambda>leaves. ComputeMerkleBranch sha256 leaves position)"

section \<open>The levels of the tree\<close>

fun pair_up :: "('a \<Rightarrow> 'a \<Rightarrow> 'a) \<Rightarrow> 'a list \<Rightarrow> 'a list" where
  "pair_up f [] = []"
| "pair_up f [x] = [f x x]"
| "pair_up f (x # y # xs) = f x y # pair_up f xs"

primrec lv :: "('a \<Rightarrow> 'a \<Rightarrow> 'a) \<Rightarrow> 'a list \<Rightarrow> nat \<Rightarrow> 'a list" where
  "lv f xs 0 = xs"
| "lv f xs (Suc l) = pair_up f (lv f xs l)"

lemma hash_pair_eq [simp]: "hash_pair sha256 a b = sha256 (a @ b)"
  by (simp add: hash_pair_def hash256_update_def hash256_new_def hash256_getHash_def)

lemma length_pair_up: "length (pair_up f xs) = (length xs + 1) div 2"
  by (induction f xs rule: pair_up.induct) auto

lemma nth_pair_up:
  "2 * i < length xs \<Longrightarrow> pair_up f xs ! i =
     f (xs ! (2 * i)) (if 2 * i + 1 < length xs then xs ! (2 * i + 1) else xs ! (2 * i))"
proof (induction f xs arbitrary: i rule: pair_up.induct)
  case (3 f x y xs)
  then show ?case by (cases i) auto
qed auto

lemma length_lv: "length (lv f xs l) = (length xs + 2 ^ l - 1) div 2 ^ l"
proof (induction l)
  case 0
  then show ?case by simp
next
  case (Suc l)
  have "length (lv f xs (Suc l)) = ((length xs + 2 ^ l - 1) div 2 ^ l + 1) div 2"
    by (simp add: length_pair_up Suc)
  also have "(length xs + 2 ^ l - 1) div 2 ^ l + 1 = (length xs + 2 ^ l - 1 + 2 ^ l) div 2 ^ l"
    by (rule div_add_self2 [symmetric]) simp
  also have "\<dots> div 2 = (length xs + 2 ^ l - 1 + 2 ^ l) div (2 ^ l * 2)"
    by (rule div_mult2_eq [symmetric])
  also have "length xs + 2 ^ l - 1 + 2 ^ l = length xs + 2 ^ Suc l - 1"
  proof -
    have "(1::nat) \<le> 2 ^ l" by simp
    then show ?thesis by simp
  qed
  finally show ?case by (simp add: mult.commute)
qed

text \<open>The number of nodes at a level whose subtree is complete, and the last node otherwise.\<close>

lemma length_lv_cases:
  "length (lv f xs l) =
     (if 2 ^ l dvd length xs then length xs div 2 ^ l else Suc (length xs div 2 ^ l))"
proof -
  let ?n = "length xs" and ?d = "2 ^ l :: nat"
  have n: "?n = ?d * (?n div ?d) + ?n mod ?d" by simp
  have d: "1 \<le> ?d" by simp
  show ?thesis
  proof (cases "?d dvd ?n")
    case True
    then obtain k where k: "?n = ?d * k" by blast
    have "(?d * k + ?d - 1) div ?d = k"
    proof (rule div_nat_eqI)
      show "?d * k \<le> ?d * k + ?d - 1" using d by linarith
      have "?d * Suc k = ?d * k + ?d" by simp
      then show "?d * k + ?d - 1 < ?d * Suc k" using d by linarith
    qed
    then show ?thesis using True k by (simp add: length_lv)
  next
    case False
    then have m: "0 < ?n mod ?d" "?n mod ?d < ?d" by (simp_all add: mod_greater_zero_iff_not_dvd)
    have "(?n + ?d - 1) div ?d = Suc (?n div ?d)"
    proof (rule div_nat_eqI)
      have "?d * Suc (?n div ?d) = ?d * (?n div ?d) + ?d" by simp
      then show "?d * Suc (?n div ?d) \<le> ?n + ?d - 1" using n m d by linarith
      have "?d * Suc (Suc (?n div ?d)) = ?d * (?n div ?d) + ?d + ?d" by simp
      then show "?n + ?d - 1 < ?d * Suc (Suc (?n div ?d))" using n m d by linarith
    qed
    then show ?thesis using False by (simp add: length_lv)
  qed
qed

lemma lv_Suc_nth:
  "2 * i < length (lv f xs l) \<Longrightarrow> lv f xs (Suc l) ! i =
     f (lv f xs l ! (2 * i))
       (if 2 * i + 1 < length (lv f xs l) then lv f xs l ! (2 * i + 1) else lv f xs l ! (2 * i))"
  by (simp add: nth_pair_up)

lemma complete_less: "i < length xs div 2 ^ l \<Longrightarrow> i < length (lv f xs l)"
  by (simp add: length_lv_cases)

section \<open>One step up the tree\<close>

abbreviation mlv :: "digest \<Rightarrow> base_blob list \<Rightarrow> nat \<Rightarrow> base_blob list" where
  "mlv sha256 xs l \<equiv> lv (\<lambda>a b. sha256 (a @ b)) xs l"

definition inner_ok :: "digest \<Rightarrow> base_blob list \<Rightarrow> nat \<Rightarrow> base_blob list \<Rightarrow> bool" where
  "inner_ok sha256 xs n inner \<longleftrightarrow> length inner = 32 \<and>
     (\<forall>l < 32. odd (n div 2 ^ l) \<longrightarrow> inner ! l = mlv sha256 xs l ! (n div 2 ^ l - 1))"

definition sib :: "'a list \<Rightarrow> nat \<Rightarrow> 'a" where
  "sib ys q = (if odd q then ys ! (q - 1) else if q + 1 < length ys then ys ! (q + 1) else ys ! q)"

definition sibs :: "digest \<Rightarrow> base_blob list \<Rightarrow> nat \<Rightarrow> nat \<Rightarrow> base_blob list" where
  "sibs sha256 xs pos l = map (\<lambda>j. sib (mlv sha256 xs j) (pos div 2 ^ j)) [0..<l]"

definition match_ok :: "digest \<Rightarrow> base_blob list \<Rightarrow> nat \<Rightarrow> nat \<Rightarrow> int \<Rightarrow> base_blob list \<Rightarrow> bool" where
  "match_ok sha256 xs pos n matchlevel branch \<longleftrightarrow>
     (if pos < n
      then \<exists>l < 32. matchlevel = int l \<and> odd (n div 2 ^ l) \<and> pos div 2 ^ l = n div 2 ^ l - 1 \<and>
             branch = sibs sha256 xs pos l
      else matchlevel = - 1 \<and> branch = [])"

lemma level_bit_eq: "level < 32 \<Longrightarrow> level_bit count level \<longleftrightarrow> odd (unat count div 2 ^ level)"
proof -
  assume "level < 32"
  have "level_bit count level \<longleftrightarrow> bit count level"
    by (simp add: level_bit_def bit_iff_and_push_bit_not_eq_0)
  also have "\<dots> \<longleftrightarrow> bit (unat count) level" using \<open>level < 32\<close> by (simp add: bit_unsigned_iff)
  finally show ?thesis by (simp only: bit_iff_odd)
qed

lemma sibs_Suc: "sibs sha256 xs pos (Suc l) = sibs sha256 xs pos l @ [sib (mlv sha256 xs l) (pos div 2 ^ l)]"
  by (simp add: sibs_def)

lemma div_Suc_level: "n div 2 ^ Suc l = n div 2 ^ l div 2" for n :: nat
proof -
  have "(2::nat) ^ Suc l = 2 ^ l * 2" by simp
  then show ?thesis by (simp only: div_mult2_eq)
qed

text \<open>The counter is followed by its predecessor: \<open>m = n + 1\<close> with its low bits clear.\<close>

lemma pred_div:
  assumes "2 ^ l dvd m" "0 < m"
  shows "((m :: nat) - 1) div 2 ^ l = m div 2 ^ l - 1"
proof -
  obtain k where k: "m = 2 ^ l * k" using assms(1) by blast
  with assms(2) obtain j where j: "k = Suc j" by (cases k) auto
  have "(2 ^ l * Suc j - 1) div 2 ^ l = j"
  proof (rule div_nat_eqI)
    have d: "(1::nat) \<le> 2 ^ l" by simp
    have "2 ^ l * Suc j = 2 ^ l * j + 2 ^ l" by simp
    then show "2 ^ l * j \<le> 2 ^ l * Suc j - 1" using d by linarith
    show "2 ^ l * Suc j - 1 < 2 ^ l * Suc j" using d by simp
  qed
  then show ?thesis using k j by simp
qed

lemma dvd_Suc_level:
  assumes "2 ^ l dvd m" "even (m div 2 ^ l)"
  shows "2 ^ Suc l dvd (m :: nat)"
proof -
  obtain k where k: "m = 2 ^ l * k" using assms(1) by blast
  then have "even k" using assms(2) by simp
  then show ?thesis using k by (auto elim!: evenE)
qed

lemma match_unique:
  fixes n pos :: nat
  assumes "odd (n div 2 ^ l)" "pos div 2 ^ l = n div 2 ^ l - 1" "l < l'"
    "odd (n div 2 ^ l')" "pos div 2 ^ l' = n div 2 ^ l' - 1"
  shows False
proof -
  obtain d where d: "l' = Suc (l + d)" using assms(3) less_imp_Suc_add by blast
  have "(2::nat) ^ l' = 2 ^ l * 2 * 2 ^ d" by (simp add: d power_add)
  then have up: "v div 2 ^ l' = v div 2 ^ l div 2 div 2 ^ d" for v :: nat
    by (simp only: div_mult2_eq)
  have "(n div 2 ^ l - 1) div 2 = n div 2 ^ l div 2" using assms(1) by (auto elim!: oddE)
  then have "pos div 2 ^ l' = n div 2 ^ l'" by (simp only: up assms(2))
  then show False using assms(4,5) by (cases "n div 2 ^ l'") auto
qed

lemma match_level:
  assumes "match_ok sha256 xs pos n ml br" "odd (n div 2 ^ l)"
  shows "ml = int l \<longleftrightarrow> pos div 2 ^ l = n div 2 ^ l - 1"
    and "ml = int l \<Longrightarrow> br = sibs sha256 xs pos l"
proof -
  have pos: "pos < n" if "pos div 2 ^ l = n div 2 ^ l - 1"
  proof (rule ccontr)
    assume "\<not> pos < n"
    then have "n div 2 ^ l \<le> pos div 2 ^ l" by (intro div_le_mono) simp
    then show False using that assms(2) by (cases "n div 2 ^ l") auto
  qed
  show "ml = int l \<longleftrightarrow> pos div 2 ^ l = n div 2 ^ l - 1"
  proof
    assume "ml = int l"
    then show "pos div 2 ^ l = n div 2 ^ l - 1"
      using assms(1) by (auto simp: match_ok_def split: if_splits)
  next
    assume eq: "pos div 2 ^ l = n div 2 ^ l - 1"
    then obtain l' where l': "ml = int l'" "odd (n div 2 ^ l')" "pos div 2 ^ l' = n div 2 ^ l' - 1"
      using pos assms(1) by (auto simp: match_ok_def)
    then have "l' = l"
      using match_unique [OF assms(2) eq _ l'(2,3)] match_unique [OF l'(2,3) _ assms(2) eq]
      by (metis linorder_neqE_nat)
    then show "ml = int l" using l' by simp
  qed
  show "ml = int l \<Longrightarrow> br = sibs sha256 xs pos l"
    using assms(1) by (auto simp: match_ok_def split: if_splits)
qed

text \<open>The branch after one step, for the last node of a pair whose first is in \<open>inner\<close>.\<close>

definition branch_ok :: "digest \<Rightarrow> base_blob list \<Rightarrow> nat \<Rightarrow> base_blob list \<Rightarrow> nat \<Rightarrow> nat \<Rightarrow> mk_state \<Rightarrow> bool" where
  "branch_ok sha256 xs pos br l q s \<longleftrightarrow> (mk_matchh s \<longleftrightarrow> pos div 2 ^ l = q) \<and>
     mk_branch s = (if mk_matchh s then sibs sha256 xs pos l else br)"

lemma branch_step_ok:
  assumes "match_ok sha256 xs pos n ml br" "n div 2 ^ l = 2 * k + 1" "2 * k + 1 < length (mlv sha256 xs l)"
    and "inner ! l = mlv sha256 xs l ! (2 * k)" "mk_h s = mlv sha256 xs l ! (2 * k + 1)"
    and "branch_ok sha256 xs pos br l (2 * k + 1) s"
  shows "branch_ok sha256 xs pos br (Suc l) k (branch_step True inner ml l s)"
proof -
  note ml = match_level [OF assms(1), of l]
  have iff: "ml = int l \<longleftrightarrow> pos div 2 ^ l = 2 * k" and br: "ml = int l \<Longrightarrow> br = sibs sha256 xs pos l"
    using ml assms(2) by simp_all
  have up: "pos div 2 ^ Suc l = k \<longleftrightarrow> pos div 2 ^ l = 2 * k \<or> pos div 2 ^ l = 2 * k + 1"
    unfolding div_Suc_level by auto
  show ?thesis
    using assms(3-6) iff br up
    by (auto simp: branch_ok_def branch_step_def sibs_Suc sib_def simp del: power_Suc)
qed

lemma branch_step_h [simp]: "mk_h (branch_step w inner ml l s) = mk_h s"
  "mk_mutated (branch_step w inner ml l s) = mk_mutated s"
  by (simp_all add: branch_step_def)

lemma branch_ok_upd [simp]:
  "branch_ok sha256 xs pos br l q (s\<lparr>mk_h := h\<rparr>) = branch_ok sha256 xs pos br l q s"
  "branch_ok sha256 xs pos br l q (s\<lparr>mk_mutated := b\<rparr>) = branch_ok sha256 xs pos br l q s"
  by (simp_all add: branch_ok_def)

section \<open>Processing the leaves\<close>

definition nodes_ok :: "digest \<Rightarrow> base_blob list \<Rightarrow> bool" where
  "nodes_ok sha256 xs \<longleftrightarrow> (\<forall>l i. i < length (mlv sha256 xs l) \<longrightarrow> length (mlv sha256 xs l ! i) = 32)"

definition eq_pair :: "digest \<Rightarrow> base_blob list \<Rightarrow> nat \<Rightarrow> nat \<Rightarrow> bool" where
  "eq_pair sha256 xs l i \<longleftrightarrow> mlv sha256 xs l ! (2 * i) = mlv sha256 xs l ! (2 * i + 1)"

lemma nodes_ok:
  assumes "digest_ok 32 sha256" "\<forall>x \<in> set xs. length x = 32"
  shows "nodes_ok sha256 xs"
  unfolding nodes_ok_def
proof (intro allI impI)
  fix l i assume "i < length (mlv sha256 xs l)"
  then show "length (mlv sha256 xs l ! i) = 32"
  proof (cases l)
    case 0
    then show ?thesis using assms(2) \<open>i < length (mlv sha256 xs l)\<close> by simp
  next
    case (Suc k)
    then have "2 * i < length (mlv sha256 xs k)"
      using \<open>i < length (mlv sha256 xs l)\<close> by (simp add: length_pair_up)
    then show ?thesis using assms(1) Suc by (simp only: lv_Suc_nth) (simp add: digest_ok_def)
  qed
qed

lemma level_below_32:
  assumes "2 ^ level dvd (m :: nat)" "0 < m" "m < 2 ^ 32"
  shows "level < 32"
proof -
  have "(2::nat) ^ level \<le> m" using assms(1,2) by (rule dvd_imp_le)
  then have "(2::nat) ^ level < 2 ^ 32" using assms(3) by linarith
  then show ?thesis by (simp only: power_strict_increasing_iff)
qed

text \<open>The pair that is combined at a level where the counter has a zero bit.\<close>

lemma pair_facts:
  assumes "inner_ok sha256 xs n inner" "n < length xs" "n + 1 < 2 ^ 32"
    "2 ^ l dvd n + 1" "even ((n + 1) div 2 ^ l)"
  defines "k \<equiv> (n + 1) div 2 ^ Suc l - 1"
  shows "(n + 1) div 2 ^ l = 2 * k + 2" "n div 2 ^ l = 2 * k + 1"
    "2 * k + 1 < length (mlv sha256 xs l)" "inner ! l = mlv sha256 xs l ! (2 * k)"
    "2 ^ Suc l dvd n + 1" "(n + 1) div 2 ^ Suc l = k + 1"
    "mlv sha256 xs (Suc l) ! k = sha256 (mlv sha256 xs l ! (2 * k) @ mlv sha256 xs l ! (2 * k + 1))"
proof -
  have pos: "0 < (n + 1) div 2 ^ l" using assms(4) by (simp add: div_greater_zero_iff dvd_imp_le)
  then obtain j where j: "(n + 1) div 2 ^ l = 2 * Suc j" using assms(5)
    by (metis evenE gr0_conv_Suc nat_0_less_mult_iff)
  then have "(n + 1) div 2 ^ Suc l = Suc j" unfolding div_Suc_level by simp
  then have k: "k = j" and "(n + 1) div 2 ^ Suc l = k + 1" by (simp_all add: k_def)
  then show "(n + 1) div 2 ^ Suc l = k + 1" by simp
  show a: "(n + 1) div 2 ^ l = 2 * k + 2" using j k by simp
  show b: "n div 2 ^ l = 2 * k + 1" using pred_div [OF assms(4)] a by simp
  show dvd: "2 ^ Suc l dvd n + 1" by (rule dvd_Suc_level [OF assms(4,5)])
  have "(n + 1) div 2 ^ l \<le> length xs div 2 ^ l" using assms(2) by (intro div_le_mono) simp
  then show len: "2 * k + 1 < length (mlv sha256 xs l)" using a by (intro complete_less) simp
  have "l < 32" by (rule level_below_32 [OF assms(4)]) (use assms(3) in auto)
  then show "inner ! l = mlv sha256 xs l ! (2 * k)" using assms(1) b by (simp add: inner_ok_def)
  show "mlv sha256 xs (Suc l) ! k = sha256 (mlv sha256 xs l ! (2 * k) @ mlv sha256 xs l ! (2 * k + 1))"
    using len by (subst lv_Suc_nth) auto
qed

lemma leaf_up_ok:
  assumes "n < length xs" "n + 1 < 2 ^ 32" "unat count = n + 1" "inner_ok sha256 xs n inner"
    "nodes_ok sha256 xs" "want \<Longrightarrow> match_ok sha256 xs pos n ml br"
    and "2 ^ l dvd n + 1" "mk_h s = mlv sha256 xs l ! ((n + 1) div 2 ^ l - 1)"
    "want \<Longrightarrow> branch_ok sha256 xs pos br l ((n + 1) div 2 ^ l - 1) s"
  shows "\<exists>l' s'. leaf_up sha256 want inner ml count l s = Inr (l', s') \<and> l \<le> l' \<and>
    2 ^ l' dvd n + 1 \<and> odd ((n + 1) div 2 ^ l') \<and> mk_h s' = mlv sha256 xs l' ! ((n + 1) div 2 ^ l' - 1) \<and>
    (want \<longrightarrow> branch_ok sha256 xs pos br l' ((n + 1) div 2 ^ l' - 1) s') \<and>
    (mk_mutated s' \<longleftrightarrow> mk_mutated s \<or>
      (\<exists>j. l \<le> j \<and> j < l' \<and> eq_pair sha256 xs j ((n + 1) div 2 ^ Suc j - 1)))"
  using assms(7-)
proof (induction "32 - l" arbitrary: l s rule: less_induct)
  case less
  have l: "l < 32" by (rule level_below_32 [OF less.prems(1)]) (use assms(2) in auto)
  show ?case
  proof (cases "odd ((n + 1) div 2 ^ l)")
    case True
    then have "leaf_up sha256 want inner ml count l s = Inr (l, s)"
      using l assms(3) by (subst leaf_up.simps) (simp add: level_bit_eq)
    then show ?thesis using True less.prems by auto
  next
    case False
    define k where "k = (n + 1) div 2 ^ Suc l - 1"
    from False have even: "even ((n + 1) div 2 ^ l)" by simp
    note pf = pair_facts [OF assms(4,1,2) less.prems(1) even, folded k_def]
    have h: "mk_h s = mlv sha256 xs l ! (2 * k + 1)" using less.prems(2) pf(1) by simp
    define t where "t = branch_step want inner ml l s"
    define s2 where "s2 = t\<lparr>mk_mutated := mk_mutated t \<or> blob_eq (inner ! l) (mk_h t),
      mk_h := sha256 (inner ! l @ mk_h t)\<rparr>"
    have mut: "blob_eq (inner ! l) (mk_h s) \<longleftrightarrow> eq_pair sha256 xs l k"
    proof -
      have "length (inner ! l) = length (mk_h s)"
        using assms(5) pf(3,4) h by (simp add: nodes_ok_def)
      then show ?thesis using pf(4) h by (simp add: blob_order(1) eq_pair_def)
    qed
    have "leaf_up sha256 want inner ml count l s = leaf_up sha256 want inner ml count (Suc l) s2"
      using l assms(3) False
      by (subst leaf_up.simps) (simp add: level_bit_eq t_def s2_def)
    moreover have "\<exists>l' s'. leaf_up sha256 want inner ml count (Suc l) s2 = Inr (l', s') \<and> Suc l \<le> l' \<and>
      2 ^ l' dvd n + 1 \<and> odd ((n + 1) div 2 ^ l') \<and> mk_h s' = mlv sha256 xs l' ! ((n + 1) div 2 ^ l' - 1) \<and>
      (want \<longrightarrow> branch_ok sha256 xs pos br l' ((n + 1) div 2 ^ l' - 1) s') \<and>
      (mk_mutated s' \<longleftrightarrow> mk_mutated s2 \<or>
        (\<exists>j. Suc l \<le> j \<and> j < l' \<and> eq_pair sha256 xs j ((n + 1) div 2 ^ Suc j - 1)))"
    proof (rule less.hyps)
      show "32 - Suc l < 32 - l" using l by simp
      show "2 ^ Suc l dvd n + 1" by (rule pf(5))
      show "mk_h s2 = mlv sha256 xs (Suc l) ! ((n + 1) div 2 ^ Suc l - 1)"
        unfolding pf(6) using pf(4,7) h by (simp add: s2_def t_def del: lv.simps)
      show "branch_ok sha256 xs pos br (Suc l) ((n + 1) div 2 ^ Suc l - 1) s2" if want
        unfolding pf(6) s2_def t_def
        using branch_step_ok [OF assms(6) [OF that] pf(2,3,4) h] less.prems(3) pf(1) that by simp
    qed
    moreover have "mk_mutated s2 \<longleftrightarrow> mk_mutated s \<or> eq_pair sha256 xs l ((n + 1) div 2 ^ Suc l - 1)"
      using mut by (simp add: s2_def t_def k_def)
    ultimately show ?thesis
      by (metis Suc_leD Suc_le_eq le_neq_implies_less order_refl)
  qed
qed

definition mut_upto :: "digest \<Rightarrow> base_blob list \<Rightarrow> nat \<Rightarrow> bool" where
  "mut_upto sha256 xs n \<longleftrightarrow> (\<exists>l i. (i + 1) * 2 ^ Suc l \<le> n \<and> eq_pair sha256 xs l i)"

text \<open>The lowest set bit of the counter, and the bits above and below it.\<close>

lemma lowest_bit:
  assumes "2 ^ l dvd m" "odd (m div 2 ^ l)"
  shows "2 ^ j dvd (m :: nat) \<longleftrightarrow> j \<le> l"
proof
  assume j: "2 ^ j dvd m"
  show "j \<le> l"
  proof (rule ccontr)
    assume "\<not> j \<le> l"
    then have "2 ^ Suc l dvd (2::nat) ^ j" by (intro le_imp_power_dvd) simp
    then obtain q where "m = 2 ^ Suc l * q" using j dvd_trans by blast
    then have "m div 2 ^ l = 2 * q" by simp
    then show False using assms(2) by simp
  qed
next
  assume "j \<le> l"
  then have "(2::nat) ^ j dvd 2 ^ l" by (rule le_imp_power_dvd)
  then show "2 ^ j dvd m" using assms(1) dvd_trans by blast
qed

lemma above_lowest_bit:
  fixes n :: nat
  assumes "2 ^ l dvd n + 1" "odd ((n + 1) div 2 ^ l)" "l < j"
  shows "(n + 1) div 2 ^ j = n div 2 ^ j"
proof -
  have "\<not> 2 ^ j dvd n + 1" using lowest_bit [OF assms(1,2), of j] assms(3) by simp
  then have "Suc n mod 2 ^ j \<noteq> 0" by (simp add: dvd_eq_mod_eq_0)
  then show ?thesis by (simp add: div_Suc)
qed

lemma odd_level_ge:
  fixes n :: nat
  assumes "2 ^ l dvd n + 1" "odd ((n + 1) div 2 ^ l)" "odd ((n + 1) div 2 ^ j)"
  shows "l \<le> j"
proof (rule ccontr)
  assume "\<not> l \<le> j"
  then have "2 ^ Suc j dvd n + 1" using lowest_bit [OF assms(1,2), of "Suc j"] by simp
  then obtain q where "n + 1 = 2 ^ Suc j * q" by blast
  then have "(n + 1) div 2 ^ j = 2 * q" by simp
  then show False using assms(3) by simp
qed

lemma inner_ok_step:
  assumes "inner_ok sha256 xs n inner" "2 ^ l dvd n + 1" "odd ((n + 1) div 2 ^ l)" "n + 1 < 2 ^ 32"
    "h = mlv sha256 xs l ! ((n + 1) div 2 ^ l - 1)"
  shows "inner_ok sha256 xs (n + 1) (inner[l := h])"
  unfolding inner_ok_def
proof (intro conjI allI impI)
  show "length (inner[l := h]) = 32" using assms(1) by (simp add: inner_ok_def)
  fix j assume j: "j < 32" "odd ((n + 1) div 2 ^ j)"
  have "l \<le> j" by (rule odd_level_ge [OF assms(2,3) j(2)])
  show "inner[l := h] ! j = mlv sha256 xs j ! ((n + 1) div 2 ^ j - 1)"
  proof (cases "j = l")
    case True
    then show ?thesis using assms(1,5) j(1) by (simp add: inner_ok_def)
  next
    case False
    then have "(n + 1) div 2 ^ j = n div 2 ^ j"
      using above_lowest_bit [OF assms(2,3)] \<open>l \<le> j\<close> by simp
    then show ?thesis using False assms(1) j by (simp add: inner_ok_def)
  qed
qed

lemma match_ok_step:
  assumes "match_ok sha256 xs pos n ml br" "2 ^ l dvd n + 1" "odd ((n + 1) div 2 ^ l)" "n + 1 < 2 ^ 32"
    "branch_ok sha256 xs pos br l ((n + 1) div 2 ^ l - 1) s"
  shows "match_ok sha256 xs pos (n + 1) (if mk_matchh s then int l else ml) (mk_branch s)"
proof (cases "mk_matchh s")
  case True
  then have eq: "pos div 2 ^ l = (n + 1) div 2 ^ l - 1" "mk_branch s = sibs sha256 xs pos l"
    using assms(5) by (auto simp: branch_ok_def)
  have "pos < n + 1"
  proof (rule ccontr)
    assume "\<not> pos < n + 1"
    then have "(n + 1) div 2 ^ l \<le> pos div 2 ^ l" by (intro div_le_mono) simp
    then show False using eq(1) assms(3) by (cases "(n + 1) div 2 ^ l") auto
  qed
  moreover have "l < 32" by (rule level_below_32 [OF assms(2)]) (use assms(4) in auto)
  ultimately show ?thesis using True eq assms(3) by (auto simp: match_ok_def)
next
  case False
  then have neq: "pos div 2 ^ l \<noteq> (n + 1) div 2 ^ l - 1" "mk_branch s = br"
    using assms(5) by (auto simp: branch_ok_def)
  have n: "n div 2 ^ l = (n + 1) div 2 ^ l - 1" using pred_div [OF assms(2)] by simp
  have "pos \<noteq> n" using neq(1) n by auto
  show ?thesis
  proof (cases "pos < n")
    case True
    then obtain j where j: "j < 32" "ml = int j" "odd (n div 2 ^ j)" "pos div 2 ^ j = n div 2 ^ j - 1"
        "br = sibs sha256 xs pos j"
      using assms(1) by (auto simp: match_ok_def)
    have "l < j"
    proof (rule ccontr)
      assume "\<not> l < j"
      show False
      proof (cases "j = l")
        case True
        then show False using j(3) n assms(3) by simp
      next
        case False
        with \<open>\<not> l < j\<close> obtain d where d: "l = Suc (j + d)" using less_imp_Suc_add by (metis linorder_neqE_nat)
        have "(2::nat) ^ l = 2 ^ j * 2 * 2 ^ d" by (simp add: d power_add)
        then have up: "v div 2 ^ l = v div 2 ^ j div 2 div 2 ^ d" for v :: nat
          by (simp only: div_mult2_eq)
        have "(n div 2 ^ j - 1) div 2 = n div 2 ^ j div 2" using j(3) by (auto elim!: oddE)
        then have "pos div 2 ^ l = n div 2 ^ l" by (simp only: up j(4))
        then show False using neq(1) n by simp
      qed
    qed
    then show ?thesis
      using above_lowest_bit [OF assms(2,3)] j True False neq(2) by (auto simp: match_ok_def)
  next
    case False
    then show ?thesis using assms(1) neq(2) \<open>\<not> mk_matchh s\<close> \<open>pos \<noteq> n\<close> by (simp add: match_ok_def)
  qed
qed

lemma mut_upto_step:
  assumes "2 ^ l dvd n + 1" "odd ((n + 1) div 2 ^ l)"
  shows "mut_upto sha256 xs (n + 1) \<longleftrightarrow> mut_upto sha256 xs n \<or>
    (\<exists>j < l. eq_pair sha256 xs j ((n + 1) div 2 ^ Suc j - 1))"
proof
  assume "mut_upto sha256 xs (n + 1)"
  then obtain j i where ji: "(i + 1) * 2 ^ Suc j \<le> n + 1" "eq_pair sha256 xs j i"
    by (auto simp: mut_upto_def)
  show "mut_upto sha256 xs n \<or> (\<exists>j < l. eq_pair sha256 xs j ((n + 1) div 2 ^ Suc j - 1))"
  proof (cases "(i + 1) * 2 ^ Suc j = n + 1")
    case True
    have dvd: "2 ^ Suc j dvd n + 1" by (simp only: True [symmetric] dvd_triv_right)
    have "(n + 1) div 2 ^ Suc j = i + 1"
      by (simp only: True [symmetric] nonzero_mult_div_cancel_right power_not_zero) simp
    then have "eq_pair sha256 xs j ((n + 1) div 2 ^ Suc j - 1)" using ji(2) by simp
    moreover have "j < l" using lowest_bit [OF assms, of "Suc j"] dvd by simp
    ultimately show ?thesis by blast
  next
    case False
    then have "(i + 1) * 2 ^ Suc j \<le> n" using ji(1) by linarith
    then show ?thesis using ji(2) unfolding mut_upto_def by blast
  qed
next
  assume "mut_upto sha256 xs n \<or> (\<exists>j < l. eq_pair sha256 xs j ((n + 1) div 2 ^ Suc j - 1))"
  then show "mut_upto sha256 xs (n + 1)"
  proof
    assume "mut_upto sha256 xs n"
    then show ?thesis unfolding mut_upto_def by (metis le_add1 le_trans)
  next
    assume "\<exists>j < l. eq_pair sha256 xs j ((n + 1) div 2 ^ Suc j - 1)"
    then obtain j where j: "j < l" "eq_pair sha256 xs j ((n + 1) div 2 ^ Suc j - 1)" by blast
    have "2 ^ Suc j dvd n + 1" using lowest_bit [OF assms, of "Suc j"] j(1) by simp
    then have "0 < (n + 1) div 2 ^ Suc j" by (simp add: div_greater_zero_iff dvd_imp_le del: power_Suc)
    then have "((n + 1) div 2 ^ Suc j - 1 + 1) * 2 ^ Suc j \<le> n + 1"
      by (simp only: add.commute le_add_diff_inverse Suc_leI One_nat_def) (rule div_times_less_eq_dividend)
    then show ?thesis using j(2) unfolding mut_upto_def by blast
  qed
qed

lemma leaves_loop_ok:
  assumes "length xs < 2 ^ 32" "nodes_ok sha256 xs" "pos = unat branchpos"
    and "rest = drop n xs" "n \<le> length xs" "unat count = n" "inner_ok sha256 xs n inner"
    "want \<Longrightarrow> match_ok sha256 xs pos n ml br" "mutated \<longleftrightarrow> mut_upto sha256 xs n"
  shows "\<exists>count' inner' ml' br'.
    leaves_loop sha256 want branchpos rest count inner ml br mutated =
      Inr (count', inner', ml', br', mut_upto sha256 xs (length xs)) \<and>
    unat count' = length xs \<and> inner_ok sha256 xs (length xs) inner' \<and>
    (want \<longrightarrow> match_ok sha256 xs pos (length xs) ml' br')"
  using assms(4-)
proof (induction rest arbitrary: n count inner ml br mutated)
  case Nil
  then have "n = length xs" by simp
  then show ?case using Nil by auto
next
  case (Cons h rest)
  have n: "n < length xs" using Cons.prems(1) by (metis drop_all leI list.distinct(1))
  then have n32: "n + 1 < 2 ^ 32" using assms(1) by linarith
  have h: "h = xs ! n" and rest: "rest = drop (n + 1) xs"
    using Cons.prems(1) n by (simp_all add: Cons_nth_drop_Suc [symmetric])
  have count: "unat (count + 1) = n + 1"
    using Cons.prems(3) n32 by (simp add: unat_word_ariths)
  let ?s = "\<lparr>mk_h = h, mk_matchh = (count = branchpos), mk_branch = br, mk_mutated = mutated\<rparr>"
  have b: "branch_ok sha256 xs pos br 0 ((n + 1) div 2 ^ 0 - 1) ?s" if want
    using Cons.prems(3,5) that assms(3)
    by (auto simp: branch_ok_def sibs_def match_ok_def word_unat_eq_iff split: if_splits)
  have h0: "mk_h ?s = mlv sha256 xs 0 ! ((n + 1) div 2 ^ 0 - 1)" using h by simp
  have d0: "2 ^ 0 dvd n + 1" by simp
  obtain l s where ls: "leaf_up sha256 want inner ml (count + 1) 0 ?s = Inr (l, s)"
    "2 ^ l dvd n + 1" "odd ((n + 1) div 2 ^ l)" "mk_h s = mlv sha256 xs l ! ((n + 1) div 2 ^ l - 1)"
    "want \<Longrightarrow> branch_ok sha256 xs pos br l ((n + 1) div 2 ^ l - 1) s"
    "mk_mutated s \<longleftrightarrow> mutated \<or> (\<exists>j < l. eq_pair sha256 xs j ((n + 1) div 2 ^ Suc j - 1))"
    using leaf_up_ok [of n xs "count + 1" sha256 inner want pos ml br 0 ?s,
        OF n n32 count Cons.prems(4) assms(2) Cons.prems(5) d0 h0 b] by fastforce
  have "leaves_loop sha256 want branchpos (h # rest) count inner ml br mutated =
      leaves_loop sha256 want branchpos rest (count + 1) (inner[l := mk_h s])
        (if mk_matchh s then int l else ml) (mk_branch s) (mk_mutated s)"
    using ls(1) by (simp add: Let_def)
  moreover have "\<exists>count' inner' ml' br'.
      leaves_loop sha256 want branchpos rest (count + 1) (inner[l := mk_h s])
        (if mk_matchh s then int l else ml) (mk_branch s) (mk_mutated s) =
      Inr (count', inner', ml', br', mut_upto sha256 xs (length xs)) \<and>
    unat count' = length xs \<and> inner_ok sha256 xs (length xs) inner' \<and>
    (want \<longrightarrow> match_ok sha256 xs pos (length xs) ml' br')"
  proof (rule Cons.IH [OF rest _ count])
    show "n + 1 \<le> length xs" using n by simp
    show "inner_ok sha256 xs (n + 1) (inner[l := mk_h s])"
      by (rule inner_ok_step [OF Cons.prems(4) ls(2,3) n32 ls(4)])
    show "match_ok sha256 xs pos (n + 1) (if mk_matchh s then int l else ml) (mk_branch s)" if want
      by (rule match_ok_step [OF Cons.prems(5) ls(2,3) n32 ls(5)]) (use that in auto)
    show "mk_mutated s \<longleftrightarrow> mut_upto sha256 xs (n + 1)"
      using mut_upto_step [OF ls(2,3)] ls(6) Cons.prems(6) by simp
  qed
  ultimately show ?case by simp
qed

section \<open>The final sweep\<close>

lemma skip_level_ok:
  assumes "unat count = n" "0 < n" "2 ^ l dvd n"
  shows "\<exists>l'. skip_level count l = Inr l' \<and> 2 ^ l' dvd n \<and> odd (n div 2 ^ l')"
  using assms(3)
proof (induction "32 - l" arbitrary: l rule: less_induct)
  case less
  have "n < 2 ^ 32" using unat_bound [of count] assms(1) by simp
  then have l: "l < 32" by (rule level_below_32 [OF less.prems assms(2)])
  show ?case
  proof (cases "odd (n div 2 ^ l)")
    case True
    then show ?thesis using l less.prems assms(1) by (subst skip_level.simps) (auto simp: level_bit_eq)
  next
    case False
    have "2 ^ Suc l dvd n" using less.prems False by (intro dvd_Suc_level) auto
    then have "\<exists>l'. skip_level count (Suc l) = Inr l' \<and> 2 ^ l' dvd n \<and> odd (n div 2 ^ l')"
      using l by (intro less.hyps) auto
    then show ?thesis using l False assms(1) by (subst skip_level.simps) (auto simp: level_bit_eq)
  qed
qed

text \<open>The number of nodes at a level times the size of a complete subtree.\<close>

abbreviation width_at :: "digest \<Rightarrow> base_blob list \<Rightarrow> nat \<Rightarrow> nat" where
  "width_at sha256 xs l \<equiv> length (mlv sha256 xs l)"

lemma width_at_bound:
  assumes "length xs \<le> 2 ^ 31" "l \<le> 31"
  shows "2 ^ l * width_at sha256 xs l \<le> 2 ^ 31"
proof -
  have d: "(1::nat) \<le> 2 ^ l" by simp
  have "(2::nat) ^ 31 = 2 ^ l * 2 ^ (31 - l)" using assms(2) by (simp flip: power_add)
  then have "length xs + 2 ^ l - 1 < 2 ^ l * Suc (2 ^ (31 - l))" using assms(1) d by simp
  then have "width_at sha256 xs l < Suc (2 ^ (31 - l))"
    unfolding length_lv by (intro less_mult_imp_div_less) (simp add: mult.commute)
  then have "2 ^ l * width_at sha256 xs l \<le> 2 ^ l * 2 ^ (31 - l)" by (intro mult_le_mono2) simp
  then show ?thesis using \<open>2 ^ 31 = 2 ^ l * 2 ^ (31 - l)\<close> by linarith
qed

definition below :: "nat \<Rightarrow> nat \<Rightarrow> bool" where
  "below n l \<longleftrightarrow> (\<forall>j < l. 2 ^ j < n)"

lemma below_level: "below n l \<Longrightarrow> n \<le> 2 ^ 31 \<Longrightarrow> l \<le> 31"
proof (rule ccontr)
  assume "below n l" "n \<le> 2 ^ 31" "\<not> l \<le> 31"
  then have "(2::nat) ^ 31 < n" unfolding below_def by (metis linorder_not_le)
  then show False using \<open>n \<le> 2 ^ 31\<close> by linarith
qed

lemma below_Suc: "below n l \<Longrightarrow> 2 ^ l < n \<Longrightarrow> below n (Suc l)"
  by (auto simp: below_def less_Suc_eq)

lemma width_at_pos: "0 < length xs \<Longrightarrow> 0 < width_at sha256 xs l"
  by (cases xs) (simp_all add: length_lv div_greater_zero_iff)

lemma width_at_gt: "1 < width_at sha256 xs l \<Longrightarrow> 2 ^ l < length xs"
proof (rule ccontr)
  assume w: "1 < width_at sha256 xs l" and "\<not> 2 ^ l < length xs"
  have d: "(1::nat) \<le> 2 ^ l" by simp
  have "length xs + 2 ^ l - 1 < 2 ^ l * 2" using \<open>\<not> 2 ^ l < length xs\<close> d by linarith
  then have "width_at sha256 xs l < 2" unfolding length_lv by (simp add: less_mult_imp_div_less mult.commute)
  then show False using w by simp
qed

text \<open>At a level that does not divide the number of leaves, the last node is not complete.\<close>

lemma sweep_pair_facts:
  assumes "inner_ok sha256 xs (length xs) inner" "\<not> 2 ^ l dvd length xs" "l < 32"
    "width_at sha256 xs l = 2 * k + 2"
  shows "length xs div 2 ^ l = 2 * k + 1" "inner ! l = mlv sha256 xs l ! (2 * k)"
    "width_at sha256 xs (Suc l) = k + 1" "\<not> 2 ^ Suc l dvd length xs"
    "mlv sha256 xs (Suc l) ! k = sha256 (mlv sha256 xs l ! (2 * k) @ mlv sha256 xs l ! (2 * k + 1))"
proof -
  show n: "length xs div 2 ^ l = 2 * k + 1" using assms(2,4) by (simp add: length_lv_cases)
  then show "inner ! l = mlv sha256 xs l ! (2 * k)" using assms(1,3) by (simp add: inner_ok_def)
  show "width_at sha256 xs (Suc l) = k + 1" using assms(4) by (simp add: length_pair_up)
  have "(2::nat) ^ l dvd 2 ^ Suc l" by simp
  then show "\<not> 2 ^ Suc l dvd length xs" using assms(2) dvd_trans by blast
  show "mlv sha256 xs (Suc l) ! k = sha256 (mlv sha256 xs l ! (2 * k) @ mlv sha256 xs l ! (2 * k + 1))"
    using assms(4) by (subst lv_Suc_nth) auto
qed

lemma sweep_up_ok:
  assumes "0 < length xs" "length xs \<le> 2 ^ 31" "inner_ok sha256 xs (length xs) inner"
    "want \<Longrightarrow> match_ok sha256 xs pos (length xs) ml br"
    and "\<not> 2 ^ l dvd length xs" "below (length xs) l" "unat count = 2 ^ l * width_at sha256 xs l"
    "mk_h s = mlv sha256 xs l ! (width_at sha256 xs l - 1)"
    "want \<Longrightarrow> branch_ok sha256 xs pos br l (width_at sha256 xs l - 1) s"
  shows "\<exists>l' s'. sweep_up sha256 want inner ml count l s = Inr (l', s') \<and> l \<le> l' \<and>
    \<not> 2 ^ l' dvd length xs \<and> below (length xs) l' \<and> odd (width_at sha256 xs l') \<and>
    unat count = 2 ^ l' * width_at sha256 xs l' \<and> mk_mutated s' = mk_mutated s \<and>
    mk_h s' = mlv sha256 xs l' ! (width_at sha256 xs l' - 1) \<and>
    (want \<longrightarrow> branch_ok sha256 xs pos br l' (width_at sha256 xs l' - 1) s')"
  using assms(5-)
proof (induction "32 - l" arbitrary: l s rule: less_induct)
  case less
  have l: "l < 32" using below_level [OF less.prems(2) assms(2)] by simp
  have bit: "level_bit count l \<longleftrightarrow> odd (width_at sha256 xs l)"
    using l less.prems(3) by (simp add: level_bit_eq)
  show ?case
  proof (cases "odd (width_at sha256 xs l)")
    case True
    then show ?thesis using l less.prems bit by (subst sweep_up.simps) auto
  next
    case False
    have "0 < width_at sha256 xs l" by (rule width_at_pos [OF assms(1)])
    define k where "k = width_at sha256 xs l div 2 - 1"
    have k: "width_at sha256 xs l = 2 * k + 2"
      using False \<open>0 < width_at sha256 xs l\<close> unfolding k_def by presburger
    note pf = sweep_pair_facts [OF assms(3) less.prems(1) l k]
    have h: "mk_h s = mlv sha256 xs l ! (2 * k + 1)" using less.prems(4) k by simp
    define s2 where "s2 = (branch_step want inner ml l s)\<lparr>mk_h := sha256 (inner ! l @ mk_h s)\<rparr>"
    have "sweep_up sha256 want inner ml count l s = sweep_up sha256 want inner ml count (Suc l) s2"
      using l bit False by (subst sweep_up.simps) (simp add: s2_def)
    moreover have "mk_mutated s2 = mk_mutated s" by (simp add: s2_def)
    moreover have "\<exists>l' s'. sweep_up sha256 want inner ml count (Suc l) s2 = Inr (l', s') \<and> Suc l \<le> l' \<and>
      \<not> 2 ^ l' dvd length xs \<and> below (length xs) l' \<and> odd (width_at sha256 xs l') \<and>
      unat count = 2 ^ l' * width_at sha256 xs l' \<and> mk_mutated s' = mk_mutated s2 \<and>
      mk_h s' = mlv sha256 xs l' ! (width_at sha256 xs l' - 1) \<and>
      (want \<longrightarrow> branch_ok sha256 xs pos br l' (width_at sha256 xs l' - 1) s')"
    proof (rule less.hyps)
      show "32 - Suc l < 32 - l" using l by simp
      show "\<not> 2 ^ Suc l dvd length xs" by (rule pf(4))
      show "below (length xs) (Suc l)"
        using less.prems(2) k by (intro below_Suc width_at_gt [of sha256 xs l]) simp_all
      show "unat count = 2 ^ Suc l * width_at sha256 xs (Suc l)"
        unfolding pf(3) using less.prems(3) k by simp
      show "mk_h s2 = mlv sha256 xs (Suc l) ! (width_at sha256 xs (Suc l) - 1)"
        unfolding pf(3) using pf(2,5) h by (simp add: s2_def del: lv.simps)
      show "branch_ok sha256 xs pos br (Suc l) (width_at sha256 xs (Suc l) - 1) s2" if want
        unfolding pf(3) s2_def
        using branch_step_ok [OF assms(4) [OF that] pf(1) _ pf(2) h] less.prems(5) k that by simp
    qed
    ultimately show ?thesis by (metis Suc_leD)
  qed
qed

lemma unat_level_bit: "l < 32 \<Longrightarrow> unat (push_bit l 1 :: uint32) = 2 ^ l"
proof -
  assume "l < 32"
  then have "(2::nat) ^ l < 2 ^ 32" by (intro power_strict_increasing) auto
  then have "take_bit LENGTH(32) ((2::nat) ^ l) = 2 ^ l"
    by (simp only: take_bit_nat_eq_self_iff len_num0 len_bit0 len_num1) simp
  then have "unat (of_nat (2 ^ l) :: uint32) = 2 ^ l"
    by (simp only: unsigned_of_nat of_nat_id)
  then show ?thesis by (simp add: push_bit_eq_mult)
qed

lemma sweep_ok:
  assumes "0 < length xs" "length xs \<le> 2 ^ 31" "inner_ok sha256 xs (length xs) inner"
    "want \<Longrightarrow> match_ok sha256 xs pos (length xs) ml br \<and> pos < length xs"
    and "below (length xs) l" "odd (width_at sha256 xs l)" "unat count = 2 ^ l * width_at sha256 xs l"
    "mk_h s = mlv sha256 xs l ! (width_at sha256 xs l - 1)"
    "want \<Longrightarrow> branch_ok sha256 xs pos br l (width_at sha256 xs l - 1) s"
  shows "\<exists>L s'. sweep sha256 want inner ml count l s = Inr s' \<and> below (length xs) L \<and>
    width_at sha256 xs L = 1 \<and> mk_mutated s' = mk_mutated s \<and> mk_h s' = mlv sha256 xs L ! 0 \<and>
    (want \<longrightarrow> branch_ok sha256 xs pos br L 0 s')"
  using assms(5-)
proof (induction "32 - l" arbitrary: l count s rule: less_induct)
  case less
  have l: "l < 32" using below_level [OF less.prems(1) assms(2)] by simp
  have top: "count = push_bit l 1 \<longleftrightarrow> width_at sha256 xs l = 1"
    unfolding word_unat_eq_iff unat_level_bit [OF l] less.prems(3) by simp
  show ?case
  proof (cases "width_at sha256 xs l = 1")
    case True
    then show ?thesis using l top less.prems by (subst sweep.simps) auto
  next
    case False
    then obtain k where k: "width_at sha256 xs l = 2 * k + 1" "0 < k" using less.prems(2) by (auto elim!: oddE)
    define s1 where "s1 = (if want \<and> mk_matchh s then s\<lparr>mk_branch := mk_branch s @ [mk_h s]\<rparr> else s)"
    define s2 where "s2 = s1\<lparr>mk_h := sha256 (mk_h s1 @ mk_h s1)\<rparr>"
    have k1: "width_at sha256 xs (Suc l) = k + 1" using k by (simp add: length_pair_up)
    have gt: "2 ^ l < length xs" by (rule width_at_gt [of sha256 xs l]) (use k in simp)
    have bel: "below (length xs) (Suc l)" by (rule below_Suc [OF less.prems(1) gt])
    have count: "unat (count + push_bit l 1) = 2 ^ Suc l * width_at sha256 xs (Suc l)"
    proof -
      have "2 ^ Suc l * width_at sha256 xs (Suc l) \<le> 2 ^ 31"
        by (rule width_at_bound [OF assms(2) below_level [OF bel assms(2)]])
      moreover have "unat count + 2 ^ l = 2 ^ Suc l * width_at sha256 xs (Suc l)"
        unfolding k1 less.prems(3) k by simp
      ultimately show ?thesis by (simp add: unat_word_ariths unat_level_bit [OF l] del: push_bit_of_1)
    qed
    have ndvd: "\<not> 2 ^ Suc l dvd length xs"
    proof
      assume "2 ^ Suc l dvd length xs"
      then obtain q where "length xs = 2 ^ Suc l * q" by blast
      then have "length xs = 2 ^ l * (2 * q)" by simp
      then have "width_at sha256 xs l = 2 * q" by (simp add: length_lv_cases)
      then show False using k by presburger
    qed
    have b: "branch_ok sha256 xs pos br (Suc l) (width_at sha256 xs (Suc l) - 1) s2" if want
    proof -
      have pos: "pos div 2 ^ l < 2 * k + 1"
      proof -
        have "pos div 2 ^ l \<le> (length xs - 1) div 2 ^ l" using assms(4) [OF that] by (intro div_le_mono) linarith
        moreover have "(length xs - 1) div 2 ^ l < width_at sha256 xs l"
        proof -
          have "length xs - 1 + 2 ^ l = length xs + 2 ^ l - 1" using assms(1) by linarith
          then show ?thesis unfolding length_lv by (metis div_add_self2 less_add_one power_not_zero zero_neq_numeral)
        qed
        ultimately show ?thesis using k by simp
      qed
      have up: "pos div 2 ^ Suc l = k \<longleftrightarrow> pos div 2 ^ l = 2 * k"
        unfolding div_Suc_level using pos by auto
      show ?thesis
        using less.prems(4,5) that k(1) up unfolding k1
        by (auto simp: branch_ok_def s2_def s1_def sibs_Suc sib_def simp del: power_Suc)
    qed
    have h2: "mk_h s2 = mlv sha256 xs (Suc l) ! (width_at sha256 xs (Suc l) - 1)"
    proof -
      have "mk_h s1 = mlv sha256 xs l ! (2 * k)" using less.prems(4) k(1) by (simp add: s1_def)
      then show ?thesis unfolding k1 using k by (simp only: s2_def diff_add_inverse2) (subst lv_Suc_nth, auto)
    qed
    obtain l' s' where up: "sweep_up sha256 want inner ml (count + push_bit l 1) (Suc l) s2 = Inr (l', s')"
      "Suc l \<le> l'" "below (length xs) l'" "odd (width_at sha256 xs l')"
      "unat (count + push_bit l 1) = 2 ^ l' * width_at sha256 xs l'" "mk_mutated s' = mk_mutated s2"
      "mk_h s' = mlv sha256 xs l' ! (width_at sha256 xs l' - 1)"
      "want \<Longrightarrow> branch_ok sha256 xs pos br l' (width_at sha256 xs l' - 1) s'"
      using sweep_up_ok [of xs sha256 inner want pos ml br "Suc l" "count + push_bit l 1" s2,
          OF assms(1-3) _ ndvd bel count h2 b] assms(4) by blast
    have "sweep sha256 want inner ml count l s = sweep sha256 want inner ml (count + push_bit l 1) l' s'"
      using l top False up(1) by (subst sweep.simps) (simp add: s2_def s1_def)
    moreover have "mk_mutated s2 = mk_mutated s" by (simp add: s2_def s1_def)
    ultimately show ?thesis
      using less.hyps [OF _ up(3,4,5,7,8)] up(2,6) l by simp
  qed
qed

section \<open>The reference tree\<close>

function merkle_root :: "('a \<Rightarrow> 'a \<Rightarrow> 'a) \<Rightarrow> 'a list \<Rightarrow> 'a" where
  "merkle_root f xs = (if length xs \<le> 1 then hd xs else merkle_root f (pair_up f xs))"
  by pat_completeness auto
termination
  by (relation "measure (\<lambda>(f, xs). length xs)") (auto simp: length_pair_up)

fun merkle_depth :: "nat \<Rightarrow> nat" where
  "merkle_depth n = (if n \<le> 1 then 0 else Suc (merkle_depth ((n + 1) div 2)))"

declare merkle_root.simps [simp del] merkle_depth.simps [simp del]

lemma lv_pair_up: "lv f (pair_up f xs) l = lv f xs (Suc l)"
  by (induction l) simp_all

lemma merkle_root_lv:
  "below (length xs) L \<Longrightarrow> length (lv f xs L) = 1 \<Longrightarrow>
     merkle_root f xs = lv f xs L ! 0 \<and> merkle_depth (length xs) = L"
proof (induction L arbitrary: xs)
  case 0
  then show ?case by (cases xs) (simp_all add: merkle_root.simps merkle_depth.simps)
next
  case (Suc L)
  have len: "1 < length xs" using Suc.prems(1) by (auto simp: below_def)
  have "below (length (pair_up f xs)) L"
    unfolding below_def length_pair_up
  proof (intro allI impI)
    fix j assume "j < L"
    then have "2 ^ Suc j < length xs" using Suc.prems(1) unfolding below_def by blast
    then show "2 ^ j < (length xs + 1) div 2" by simp
  qed
  moreover have "length (lv f (pair_up f xs) L) = 1" using Suc.prems(2) by (simp only: lv_pair_up)
  ultimately have "merkle_root f (pair_up f xs) = lv f (pair_up f xs) L ! 0 \<and>
      merkle_depth (length (pair_up f xs)) = L"
    by (rule Suc.IH)
  then show ?case
    using len by (subst merkle_root.simps, subst merkle_depth.simps) (simp only: lv_pair_up length_pair_up, simp)
qed

lemma merkle_depth_width: "0 < n \<Longrightarrow> below n (merkle_depth n) \<and> n \<le> 2 ^ merkle_depth n"
proof (induction n rule: merkle_depth.induct)
  case (1 n)
  show ?case
  proof (cases "n \<le> 1")
    case True
    then show ?thesis by (simp add: merkle_depth.simps below_def)
  next
    case False
    let ?d = "merkle_depth ((n + 1) div 2)"
    have IH: "below ((n + 1) div 2) ?d" "(n + 1) div 2 \<le> 2 ^ ?d" using "1.IH" False by auto
    have "below n (Suc ?d)"
      unfolding below_def
    proof (intro allI impI)
      fix j assume "j < Suc ?d"
      show "2 ^ j < n"
      proof (cases j)
        case 0
        then show ?thesis using False by simp
      next
        case (Suc i)
        then have "2 ^ i < (n + 1) div 2" using IH(1) \<open>j < Suc ?d\<close> by (simp add: below_def)
        then show ?thesis using Suc by simp
      qed
    qed
    moreover have "n \<le> 2 ^ Suc ?d" using IH(2) by simp
    moreover have "merkle_depth n = Suc ?d" using False by (subst merkle_depth.simps) simp
    ultimately show ?thesis by simp
  qed
qed

lemma width_at_depth: "0 < length xs \<Longrightarrow> length (lv f xs (merkle_depth (length xs))) = 1"
proof -
  let ?d = "merkle_depth (length xs)"
  assume pos: "0 < length xs"
  then have "length xs \<le> 2 ^ ?d" using merkle_depth_width by blast
  then have "length xs + 2 ^ ?d - 1 < 2 ^ ?d * 2" using pos by linarith
  then have "length (lv f xs ?d) < 2" unfolding length_lv by (simp add: less_mult_imp_div_less mult.commute)
  moreover have "0 < length (lv f xs ?d)" using pos by (cases xs) (simp_all add: length_lv div_greater_zero_iff)
  ultimately show ?thesis by linarith
qed

theorem MerkleComputation_ok:
  assumes "digest_ok 32 sha256" "\<forall>x \<in> set xs. length x = 32" "0 < length xs" "length xs \<le> 2 ^ 31"
    and "want \<Longrightarrow> unat branchpos < length xs"
  obtains br where "MerkleComputation sha256 xs want branchpos =
      Inr (merkle_root (\<lambda>a b. sha256 (a @ b)) xs, mut_upto sha256 xs (length xs), br)"
    "want \<Longrightarrow> br = sibs sha256 xs (unat branchpos) (merkle_depth (length xs))"
proof -
  let ?n = "length xs" and ?i = "replicate 32 (blob_null UINT256_WIDTH)" and ?pos = "unat branchpos"
  have n32: "?n < 2 ^ 32" using assms(4) by simp
  have nodes: "nodes_ok sha256 xs" by (rule nodes_ok [OF assms(1,2)])
  obtain count inner ml br where lp:
    "leaves_loop sha256 want branchpos xs 0 ?i (- 1) [] False =
       Inr (count, inner, ml, br, mut_upto sha256 xs ?n)"
    "unat count = ?n" "inner_ok sha256 xs ?n inner" "want \<Longrightarrow> match_ok sha256 xs ?pos ?n ml br"
    using leaves_loop_ok [OF n32 nodes refl, where rest = xs and n = 0 and count = 0 and inner = ?i
        and want = want and ml = "- 1" and br = "[]" and mutated = False and branchpos = branchpos]
    by (auto simp: inner_ok_def match_ok_def mut_upto_def)
  obtain l where l: "skip_level count 0 = Inr l" "2 ^ l dvd ?n" "odd (?n div 2 ^ l)"
    using skip_level_ok [OF lp(2) assms(3), of 0] by auto
  let ?s = "\<lparr>mk_h = inner ! l, mk_matchh = (ml = int l), mk_branch = br, mk_mutated = mut_upto sha256 xs ?n\<rparr>"
  have w: "width_at sha256 xs l = ?n div 2 ^ l" using l(2) by (simp add: length_lv_cases)
  have l32: "l < 32" by (rule level_below_32 [OF l(2) assms(3) n32])
  have bel: "below ?n l"
    unfolding below_def
  proof (intro allI impI)
    fix j assume "j < l"
    then have "(2::nat) ^ j < 2 ^ l" by (intro power_strict_increasing) auto
    also have "\<dots> \<le> ?n" by (rule dvd_imp_le [OF l(2) assms(3)])
    finally show "2 ^ j < ?n" .
  qed
  have h: "mk_h ?s = mlv sha256 xs l ! (width_at sha256 xs l - 1)"
    using lp(3) l(3) l32 w by (simp add: inner_ok_def)
  have cnt: "unat count = 2 ^ l * width_at sha256 xs l" using lp(2) l(2) w by simp
  have b: "branch_ok sha256 xs ?pos br l (width_at sha256 xs l - 1) ?s" if want
    using match_level [OF lp(4) [OF that] l(3)] w by (simp add: branch_ok_def)
  have odd: "odd (width_at sha256 xs l)" using l(3) w by simp
  have m: "match_ok sha256 xs ?pos ?n ml br \<and> ?pos < ?n" if want using lp(4) assms(5) that by blast
  obtain L s where s: "sweep sha256 want inner ml count l ?s = Inr s" "below ?n L"
    "width_at sha256 xs L = 1" "mk_mutated s = mut_upto sha256 xs ?n" "mk_h s = mlv sha256 xs L ! 0"
    "want \<Longrightarrow> branch_ok sha256 xs ?pos br L 0 s"
    using sweep_ok [of xs sha256 inner want ?pos ml br l count ?s, OF assms(3,4) lp(3) m bel odd cnt h b]
    by auto
  note root = merkle_root_lv [OF s(2,3)]
  show thesis
  proof (rule that [of "mk_branch s"])
    show "MerkleComputation sha256 xs want branchpos =
        Inr (merkle_root (\<lambda>a b. sha256 (a @ b)) xs, mut_upto sha256 xs ?n, mk_branch s)"
      using lp(1) l(1) s(1,4,5) root assms(3) by (simp add: MerkleComputation_def)
    assume want
    have "?n \<le> 2 ^ L" using merkle_depth_width [OF assms(3)] root by simp
    then have "?pos div 2 ^ L = 0" using assms(5) \<open>want\<close> by simp
    then show "mk_branch s = sibs sha256 xs ?pos (merkle_depth ?n)"
      using s(6) \<open>want\<close> root by (simp add: branch_ok_def)
  qed
qed

section \<open>Branches\<close>

lemma half_odd: "odd q \<Longrightarrow> 2 * (q div 2) = q - 1 \<and> 2 * (q div 2) + 1 = q" for q :: nat
  by presburger

lemma sibling_step:
  assumes "pos < length xs"
  shows "mlv sha256 xs (Suc l) ! (pos div 2 ^ Suc l) =
    (let q = pos div 2 ^ l; h = mlv sha256 xs l ! q; b = sib (mlv sha256 xs l) q
     in if odd q then sha256 (b @ h) else sha256 (h @ b))"
proof -
  let ?q = "pos div 2 ^ l" and ?y = "mlv sha256 xs l"
  have q: "?q < length ?y"
  proof -
    have "?q \<le> (length xs - 1) div 2 ^ l" using assms by (intro div_le_mono) linarith
    also have "\<dots> < length ?y"
    proof -
      have "length xs - 1 + 2 ^ l = length xs + 2 ^ l - 1" using assms by linarith
      then show ?thesis unfolding length_lv by (metis div_add_self2 less_add_one power_not_zero zero_neq_numeral)
    qed
    finally show ?thesis .
  qed
  have k: "2 * (?q div 2) < length ?y" using q by simp
  show ?thesis
  proof (cases "odd ?q")
    case True
    then have "2 * (?q div 2) = ?q - 1" "2 * (?q div 2) + 1 = ?q" using half_odd by blast+
    then show ?thesis using q True by (simp only: div_Suc_level lv_Suc_nth [OF k]) (simp add: sib_def Let_def)
  next
    case False
    then have "2 * (?q div 2) = ?q" by simp
    then show ?thesis using q False by (simp only: div_Suc_level lv_Suc_nth [OF k]) (simp add: sib_def Let_def)
  qed
qed

lemma root_from_branch:
  assumes "pos < length xs" "unat idx = pos div 2 ^ l"
  shows "ComputeMerkleRootFromBranch sha256 (mlv sha256 xs l ! (pos div 2 ^ l))
      (map (\<lambda>j. sib (mlv sha256 xs j) (pos div 2 ^ j)) [l..<l + d]) idx
    = mlv sha256 xs (l + d) ! (pos div 2 ^ (l + d))"
  using assms(2)
proof (induction d arbitrary: l idx)
  case 0
  then show ?case by simp
next
  case (Suc d)
  let ?q = "pos div 2 ^ l"
  have odd: "idx AND 1 \<noteq> 0 \<longleftrightarrow> odd ?q"
    using level_bit_eq [of 0 idx] Suc.prems by (simp add: level_bit_def)
  have nxt: "unat (drop_bit 1 idx) = pos div 2 ^ Suc l"
    using Suc.prems by (simp add: unat_drop_bit div_Suc_level del: power_Suc)
  have "[l..<l + Suc d] = l # [Suc l..<Suc l + d]" by (simp add: upt_conv_Cons)
  then show ?case
    using Suc.IH [OF nxt] sibling_step [OF assms(1), of sha256 l] odd
    by (cases "odd ?q") (simp_all add: Let_def del: upt_Suc lv.simps power_Suc)
qed

section \<open>Trees that are not flagged\<close>

definition pair_in :: "base_blob list \<Rightarrow> nat \<Rightarrow> uint8 list" where
  "pair_in ys i = ys ! (2 * i) @ (if 2 * i + 1 < length ys then ys ! (2 * i + 1) else ys ! (2 * i))"

text \<open>All inputs of the digest function in the computation of a root.\<close>

definition merkle_inputs :: "digest \<Rightarrow> base_blob list \<Rightarrow> uint8 list set" where
  "merkle_inputs sha256 xs =
     {pair_in (mlv sha256 xs l) i | l i. l < merkle_depth (length xs) \<and> 2 * i < width_at sha256 xs l}"

lemma merkle_inputsI:
  "l < merkle_depth (length xs) \<Longrightarrow> 2 * i < width_at sha256 xs l \<Longrightarrow>
     pair_in (mlv sha256 xs l) i \<in> merkle_inputs sha256 xs"
  unfolding merkle_inputs_def by blast

lemma lv_pair_in:
  "2 * i < width_at sha256 xs l \<Longrightarrow> mlv sha256 xs (Suc l) ! i = sha256 (pair_in (mlv sha256 xs l) i)"
  unfolding pair_in_def by (rule lv_Suc_nth)

lemma pair_in_eqD:
  assumes "nodes_ok sha256 xs" "nodes_ok sha256 ys" "2 * i < width_at sha256 xs l" "2 * j < width_at sha256 ys l"
    "pair_in (mlv sha256 xs l) i = pair_in (mlv sha256 ys l) j"
  shows "mlv sha256 xs l ! (2 * i) = mlv sha256 ys l ! (2 * j)"
    "(if 2 * i + 1 < width_at sha256 xs l then mlv sha256 xs l ! (2 * i + 1) else mlv sha256 xs l ! (2 * i))
     = (if 2 * j + 1 < width_at sha256 ys l then mlv sha256 ys l ! (2 * j + 1) else mlv sha256 ys l ! (2 * j))"
proof -
  have "length (mlv sha256 xs l ! (2 * i)) = length (mlv sha256 ys l ! (2 * j))"
    using assms(1-4) by (simp add: nodes_ok_def)
  note both = iffD1 [OF append_eq_append_conv [OF disjI1 [OF this]] assms(5) [unfolded pair_in_def]]
  show "mlv sha256 xs l ! (2 * i) = mlv sha256 ys l ! (2 * j)" by (rule conjunct1 [OF both])
  show "(if 2 * i + 1 < width_at sha256 xs l then mlv sha256 xs l ! (2 * i + 1) else mlv sha256 xs l ! (2 * i))
     = (if 2 * j + 1 < width_at sha256 ys l then mlv sha256 ys l ! (2 * j + 1) else mlv sha256 ys l ! (2 * j))"
    by (rule conjunct2 [OF both])
qed

lemma complete_pair_mut:
  assumes "2 * i + 1 < length xs div 2 ^ l" "mlv sha256 xs l ! (2 * i) = mlv sha256 xs l ! (2 * i + 1)"
  shows "mut_upto sha256 xs (length xs)"
proof -
  have "(2 * i + 2) * 2 ^ l \<le> length xs div 2 ^ l * 2 ^ l" using assms(1) by (intro mult_le_mono1) simp
  also have "\<dots> \<le> length xs" by (rule div_times_less_eq_dividend)
  finally have "(i + 1) * 2 ^ Suc l \<le> length xs" by (simp add: algebra_simps)
  then show ?thesis using assms(2) unfolding mut_upto_def eq_pair_def by blast
qed

text \<open>A complete node equal to the padded last node of its level: the padding repeats a node.\<close>

lemma padded_node_mut:
  assumes "nodes_ok sha256 xs" "inj_on sha256 (merkle_inputs sha256 xs)"
    and "l \<le> merkle_depth (length xs)" "\<not> 2 ^ l dvd length xs" "i < length xs div 2 ^ l"
    "mlv sha256 xs l ! i = mlv sha256 xs l ! (length xs div 2 ^ l)"
  shows "mut_upto sha256 xs (length xs)"
  using assms(3-)
proof (induction l arbitrary: i)
  case 0
  then show ?case by simp
next
  case (Suc l)
  let ?n = "length xs div 2 ^ l" and ?m = "length xs div 2 ^ Suc l"
  have m: "?m = ?n div 2" by (rule div_Suc_level)
  have i: "2 * i + 1 < ?n" using Suc.prems(3) unfolding m by simp
  have wi: "2 * i < width_at sha256 xs l" using complete_less [of "2 * i" xs l] i by simp
  have wi1: "2 * i + 1 < width_at sha256 xs l" by (rule complete_less [OF i])
  have wm: "2 * ?m < width_at sha256 xs l"
  proof (cases "2 ^ l dvd length xs")
    case True
    then have "odd ?n" using Suc.prems(2) dvd_Suc_level by blast
    then have "2 * ?m < ?n" unfolding m using half_odd [of ?n] by linarith
    then show ?thesis using True by (simp add: length_lv_cases del: power_Suc)
  next
    case False
    have "2 * ?m \<le> ?n" unfolding m by simp
    then show ?thesis using False by (simp add: length_lv_cases del: power_Suc)
  qed
  have "pair_in (mlv sha256 xs l) i = pair_in (mlv sha256 xs l) ?m"
    using Suc.prems(4) assms(2) Suc.prems(1) merkle_inputsI [OF _ wi] merkle_inputsI [OF _ wm]
    by (simp only: lv_pair_in [OF wi] lv_pair_in [OF wm]) (simp add: inj_on_def)
  note eq = pair_in_eqD [OF assms(1,1) wi wm this]
  show ?case
  proof (cases "2 * ?m + 1 < width_at sha256 xs l")
    case False
    then have "mlv sha256 xs l ! (2 * i) = mlv sha256 xs l ! (2 * i + 1)" using eq wi1 by simp
    then show ?thesis by (rule complete_pair_mut [OF i])
  next
    case True
    have nd: "\<not> 2 ^ l dvd length xs"
    proof
      assume "2 ^ l dvd length xs"
      then have "odd ?n" "width_at sha256 xs l = ?n"
        using Suc.prems(2) dvd_Suc_level by (blast, simp add: length_lv_cases)
      then show False using True half_odd [of ?n] m by simp
    qed
    then have "2 * ?m + 1 \<le> ?n" using True by (simp add: length_lv_cases del: power_Suc)
    moreover have "?n \<le> 2 * (?n div 2) + 1" using half_odd [of ?n] by (cases "odd ?n") auto
    ultimately have "2 * ?m + 1 = ?n" unfolding m by linarith
    then have "mlv sha256 xs l ! (2 * i + 1) = mlv sha256 xs l ! ?n" using eq(2) wi1 True by simp
    then show ?thesis using Suc.IH [OF _ nd i] Suc.prems(1) by simp
  qed
qed

lemma repeated_last_mut:
  assumes "nodes_ok sha256 xs" "inj_on sha256 (merkle_inputs sha256 xs)" "l \<le> merkle_depth (length xs)"
    "width_at sha256 xs l = 2 * k + 2" "mlv sha256 xs l ! (2 * k) = mlv sha256 xs l ! (2 * k + 1)"
  shows "mut_upto sha256 xs (length xs)"
proof (cases "2 ^ l dvd length xs")
  case True
  then show ?thesis using assms(4,5) complete_pair_mut [of k xs l sha256] by (simp add: length_lv_cases)
next
  case False
  then have "length xs div 2 ^ l = 2 * k + 1" using assms(4) by (simp add: length_lv_cases)
  then show ?thesis using padded_node_mut [OF assms(1-3) False, of "2 * k"] assms(5) by simp
qed

lemma half_cases:
  "(a + 1) div 2 = (b + 1) div 2 \<Longrightarrow> a \<noteq> b \<Longrightarrow>
     (\<exists>k. a = 2 * k + 1 \<and> b = 2 * k + 2) \<or> (\<exists>k. a = 2 * k + 2 \<and> b = 2 * k + 1)" for a b :: nat
  by presburger

lemma level_determined:
  assumes "nodes_ok sha256 xs" "nodes_ok sha256 ys"
    and "inj_on sha256 (merkle_inputs sha256 xs \<union> merkle_inputs sha256 ys)"
    and "l < merkle_depth (length xs)" "merkle_depth (length xs) = merkle_depth (length ys)"
    and "\<not> mut_upto sha256 xs (length xs)" "\<not> mut_upto sha256 ys (length ys)"
    and "mlv sha256 xs (Suc l) = mlv sha256 ys (Suc l)"
  shows "mlv sha256 xs l = mlv sha256 ys l"
proof -
  let ?a = "mlv sha256 xs l" and ?b = "mlv sha256 ys l"
  have inj: "inj_on sha256 (merkle_inputs sha256 xs)" "inj_on sha256 (merkle_inputs sha256 ys)"
    using assms(3) by (auto intro: inj_on_subset)
  have len: "(length ?a + 1) div 2 = (length ?b + 1) div 2"
    using arg_cong [OF assms(8), of length] by (simp add: length_pair_up)
  have pairs: "pair_in ?a i = pair_in ?b i" if "2 * i < length ?a" "2 * i < length ?b" for i
  proof -
    have "sha256 (pair_in ?a i) = sha256 (pair_in ?b i)"
      using assms(8) by (simp only: lv_pair_in [OF that(1), symmetric] lv_pair_in [OF that(2), symmetric])
    moreover have "pair_in ?a i \<in> merkle_inputs sha256 xs" "pair_in ?b i \<in> merkle_inputs sha256 ys"
      using that assms(4,5) by (auto intro: merkle_inputsI)
    ultimately show ?thesis using assms(3) by (simp add: inj_on_def)
  qed
  note eqs = pair_in_eqD [OF assms(1,2) _ _ pairs]
  have "length ?a = length ?b"
  proof (rule ccontr)
    assume "length ?a \<noteq> length ?b"
    with len consider k where "length ?a = 2 * k + 1" "length ?b = 2 * k + 2"
      | k where "length ?a = 2 * k + 2" "length ?b = 2 * k + 1" using half_cases by metis
    then show False
    proof cases
      case (1 k)
      then have "?b ! (2 * k) = ?b ! (2 * k + 1)" using eqs [of k] by simp
      then show False using repeated_last_mut [OF assms(2) inj(2) _ 1(2)] assms(4,5,7) by simp
    next
      case (2 k)
      then have "?a ! (2 * k) = ?a ! (2 * k + 1)" using eqs [of k] by simp
      then show False using repeated_last_mut [OF assms(1) inj(1) _ 2(1)] assms(4,6) by simp
    qed
  qed
  moreover have "?a ! j = ?b ! j" if j: "j < length ?a" for j
  proof (cases "even j")
    case True
    then obtain i where "j = 2 * i" by (elim evenE)
    then show ?thesis using eqs(1) [of i] j calculation by simp
  next
    case False
    then obtain i where "j = 2 * i + 1" by (elim oddE)
    then show ?thesis using eqs(2) [of i] j calculation by simp
  qed
  ultimately show ?thesis by (rule nth_equalityI)
qed

lemma leaves_determined:
  assumes "nodes_ok sha256 xs" "nodes_ok sha256 ys"
    and "inj_on sha256 (merkle_inputs sha256 xs \<union> merkle_inputs sha256 ys)"
    and "0 < length xs" "0 < length ys" "merkle_depth (length xs) = merkle_depth (length ys)"
    and "\<not> mut_upto sha256 xs (length xs)" "\<not> mut_upto sha256 ys (length ys)"
    and "merkle_root (\<lambda>a b. sha256 (a @ b)) xs = merkle_root (\<lambda>a b. sha256 (a @ b)) ys"
  shows "xs = ys"
proof -
  let ?D = "merkle_depth (length xs)"
  have root: "length (mlv sha256 zs (merkle_depth (length zs))) = 1 \<and>
      merkle_root (\<lambda>a b. sha256 (a @ b)) zs = mlv sha256 zs (merkle_depth (length zs)) ! 0" if "0 < length zs" for zs
    using merkle_root_lv [OF _ width_at_depth [OF that]] merkle_depth_width [OF that] width_at_depth [OF that]
    by blast
  have top: "mlv sha256 xs ?D = mlv sha256 ys ?D"
    using root [OF assms(4)] root [OF assms(5)] assms(6,9)
    by (intro nth_equalityI) (simp_all add: less_Suc_eq)
  have "d \<le> ?D \<Longrightarrow> mlv sha256 xs (?D - d) = mlv sha256 ys (?D - d)" for d
  proof (induction d)
    case 0
    then show ?case using top by simp
  next
    case (Suc d)
    then have "Suc (?D - Suc d) = ?D - d" by simp
    then show ?case
      using Suc level_determined [OF assms(1-3) _ assms(6-8), of "?D - Suc d"] by simp
  qed
  from this [of ?D] show ?thesis by simp
qed

lemma mut_upto_3: "mut_upto sha256 xs 3 \<longleftrightarrow> eq_pair sha256 xs 0 0"
proof
  assume "mut_upto sha256 xs 3"
  then obtain l i where li: "(i + 1) * 2 ^ Suc l \<le> (3::nat)" "eq_pair sha256 xs l i"
    unfolding mut_upto_def by blast
  have "l = 0 \<and> i = 0"
  proof (cases l)
    case 0
    then show ?thesis using li(1) by simp
  next
    case (Suc j)
    have "(1::nat) \<le> 2 ^ j" by simp
    then have "1 * 4 \<le> (i + 1) * (4 * 2 ^ j)" by (intro mult_le_mono) simp_all
    then have "4 \<le> (i + 1) * 2 ^ Suc l" using Suc by simp
    then show ?thesis using li(1) by linarith
  qed
  then show "eq_pair sha256 xs 0 0" using li(2) by simp
next
  assume "eq_pair sha256 xs 0 0"
  then show "mut_upto sha256 xs 3" unfolding mut_upto_def by (intro exI [of _ 0]) simp
qed

lemma ComputeMerkleRoot_eq:
  assumes "digest_ok 32 sha256" "\<forall>x \<in> set xs. length x = 32" "0 < length xs" "length xs \<le> 2 ^ 31"
  shows "ComputeMerkleRoot sha256 xs =
    Inr (merkle_root (\<lambda>a b. sha256 (a @ b)) xs, mut_upto sha256 xs (length xs))"
  by (rule MerkleComputation_ok [OF assms, of False "- 1"]) (simp_all add: ComputeMerkleRoot_def)

section \<open>Properties\<close>

text \<open>
  C6: for one to \<open>2 ^ 31\<close> leaves, the constant-space computation terminates without leaving its
  array of 32 subtree hashes and returns the root of the reference tree, in which adjacent nodes are
  hashed together and the last of an odd number is repeated; the mutation flag is set exactly when
  two complete sibling subtrees have the same hash.
\<close>

theorem merkle_root_equivalence:
  assumes "digest_ok 32 sha256" "\<forall>x \<in> set xs. length x = 32" "0 < length xs" "length xs \<le> 2 ^ 31"
  shows "ComputeMerkleRoot sha256 xs = Inr (merkle_root (\<lambda>a b. sha256 (a @ b)) xs,
    \<exists>l i. (i + 1) * 2 ^ Suc l \<le> length xs \<and>
      lv (\<lambda>a b. sha256 (a @ b)) xs l ! (2 * i) = lv (\<lambda>a b. sha256 (a @ b)) xs l ! (2 * i + 1))"
  using ComputeMerkleRoot_eq [OF assms] unfolding mut_upto_def eq_pair_def by simp

theorem merkle_root_equivalence_witness:
  "ComputeMerkleRoot (\<lambda>b. replicate 32 0) [replicate 32 1, replicate 32 2, replicate 32 3]
     = Inr (replicate 32 0, False)"
proof -
  let ?xs = "[replicate 32 1, replicate 32 2, replicate 32 (3 :: uint8)]"
  have "\<not> mut_upto (\<lambda>b. replicate 32 0) ?xs (length ?xs)"
    using mut_upto_3 [of "\<lambda>b. replicate 32 0" ?xs] by (simp add: eq_pair_def numeral_3_eq_3)
  then show ?thesis
    using merkle_root_equivalence [of "\<lambda>b. replicate 32 0" ?xs]
    unfolding mut_upto_def eq_pair_def by (simp add: digest_ok_def merkle_root.simps)
qed

text \<open>
  C26: \<open>ComputeMerkleBranch\<close> returns one sibling per level of the tree, and
  \<open>ComputeMerkleRootFromBranch\<close> recomputes the root from the leaf at that position and its branch.
\<close>

theorem merkle_branch_verifies:
  assumes "digest_ok 32 sha256" "\<forall>x \<in> set xs. length x = 32" "length xs \<le> 2 ^ 31" "unat pos < length xs"
  shows "\<exists>branch mutated. ComputeMerkleBranch sha256 xs pos = Inr branch \<and>
    length branch = merkle_depth (length xs) \<and>
    ComputeMerkleRoot sha256 xs = Inr (ComputeMerkleRootFromBranch sha256 (xs ! unat pos) branch pos, mutated)"
proof -
  have pos: "0 < length xs" using assms(4) by linarith
  let ?D = "merkle_depth (length xs)" and ?f = "\<lambda>a b. sha256 (a @ b)"
  obtain br where "MerkleComputation sha256 xs True pos =
      Inr (merkle_root ?f xs, mut_upto sha256 xs (length xs), br)" "br = sibs sha256 xs (unat pos) ?D"
    using MerkleComputation_ok [OF assms(1,2) pos assms(3), of True pos] assms(4) by metis
  then have br: "ComputeMerkleBranch sha256 xs pos = Inr (sibs sha256 xs (unat pos) ?D)"
    by (simp add: ComputeMerkleBranch_def)
  obtain br' where "MerkleComputation sha256 xs False (- 1) =
      Inr (merkle_root ?f xs, mut_upto sha256 xs (length xs), br')"
    using MerkleComputation_ok [OF assms(1,2) pos assms(3), of False "- 1"] by metis
  then have root: "ComputeMerkleRoot sha256 xs = Inr (merkle_root ?f xs, mut_upto sha256 xs (length xs))"
    by (simp add: ComputeMerkleRoot_def)
  have "unat pos div 2 ^ ?D = 0" using merkle_depth_width [OF pos] assms(4) by simp
  moreover have "merkle_root ?f xs = mlv sha256 xs ?D ! 0"
    using merkle_root_lv [OF _ width_at_depth [OF pos]] merkle_depth_width [OF pos] by blast
  ultimately have "ComputeMerkleRootFromBranch sha256 (xs ! unat pos) (sibs sha256 xs (unat pos) ?D) pos
      = merkle_root ?f xs"
    using root_from_branch [OF assms(4), of pos 0 sha256 ?D] by (simp add: sibs_def)
  then show ?thesis using br root by (auto simp: sibs_def)
qed

theorem merkle_branch_verifies_witness:
  "\<exists>branch mutated. ComputeMerkleBranch (\<lambda>b. replicate 32 0) [replicate 32 1, replicate 32 2, replicate 32 3] 2
      = Inr branch \<and> length branch = merkle_depth 3 \<and>
    ComputeMerkleRoot (\<lambda>b. replicate 32 0) [replicate 32 1, replicate 32 2, replicate 32 3] =
      Inr (ComputeMerkleRootFromBranch (\<lambda>b. replicate 32 0) (replicate 32 3) branch 2, mutated)"
  using merkle_branch_verifies [of "\<lambda>b. replicate 32 0" "[replicate 32 1, replicate 32 2, replicate 32 3]" 2]
  by (simp add: digest_ok_def numeral_3_eq_3)

text \<open>
  C7: the defence against duplicated transactions (CVE-2012-2459): as long as the digest function
  has no collision among the inputs of the two computations, two leaf lists of the same tree depth
  with the same root and neither flagged as mutated are equal.
\<close>

theorem merkle_unmutated_binding:
  assumes "digest_ok 32 sha256" "\<forall>x \<in> set xs. length x = 32" "\<forall>y \<in> set ys. length y = 32"
    and "0 < length xs" "length xs \<le> 2 ^ 31" "0 < length ys" "length ys \<le> 2 ^ 31"
    and "inj_on sha256 (merkle_inputs sha256 xs \<union> merkle_inputs sha256 ys)"
    and "merkle_depth (length xs) = merkle_depth (length ys)"
    and "ComputeMerkleRoot sha256 xs = Inr (root, False)" "ComputeMerkleRoot sha256 ys = Inr (root, False)"
  shows "xs = ys"
proof -
  show ?thesis
    by (rule leaves_determined [OF nodes_ok [OF assms(1,2)] nodes_ok [OF assms(1,3)] assms(8,4,6,9)])
      (use ComputeMerkleRoot_eq [OF assms(1,2,4,5)] ComputeMerkleRoot_eq [OF assms(1,3,6,7)]
        assms(10,11) in auto)
qed

text \<open>
  For the witness: a digest that keeps the first halves of two joined hashes. It has no collision among
  the inputs of the two trees with the leaves 1, 2, 3 and 1, 2, 4, and only the first has its root.
\<close>

definition halves_digest :: digest where
  "halves_digest bs = take 32 (take 16 bs @ take 16 (drop 32 bs) @ replicate 32 0)"

lemma halves_digest_ok: "digest_ok 32 halves_digest"
  by (simp add: digest_ok_def halves_digest_def)

lemma merkle_inputs_3: "merkle_inputs sha256 [a, b, c] = {a @ b, c @ c, sha256 (a @ b) @ sha256 (c @ c)}"
proof -
  let ?l = "mlv sha256 [a, b, c]"
  have "merkle_depth 3 = 2" by code_simp
  then have depth: "merkle_depth (length [a, b, c]) = 2" by (simp add: numeral_3_eq_3)
  have "merkle_inputs sha256 [a, b, c] =
      pair_in (?l 0) ` {i. 2 * i < length (?l 0)} \<union> pair_in (?l (Suc 0)) ` {i. 2 * i < length (?l (Suc 0))}"
    unfolding merkle_inputs_def depth less_2_cases_iff by blast
  moreover have "{i :: nat. 2 * i < length (?l 0)} = {0, 1}" "{i :: nat. 2 * i < length (?l (Suc 0))} = {0}" by auto
  ultimately show ?thesis by (auto simp: pair_in_def)
qed

theorem merkle_unmutated_binding_witness:
  "\<exists>root. ComputeMerkleRoot halves_digest [replicate 32 1, replicate 32 2, replicate 32 3] = Inr (root, False) \<and>
     inj_on halves_digest (merkle_inputs halves_digest [replicate 32 1, replicate 32 2, replicate 32 3] \<union>
       merkle_inputs halves_digest [replicate 32 1, replicate 32 2, replicate 32 4]) \<and>
     filter (\<lambda>zs. ComputeMerkleRoot halves_digest zs = Inr (root, False))
       [[replicate 32 1, replicate 32 2, replicate 32 3], [replicate 32 1, replicate 32 2, replicate 32 4]] =
       [[replicate 32 1, replicate 32 2, replicate 32 3]]"
proof -
  let ?xs = "[replicate 32 1, replicate 32 2, replicate 32 (3 :: uint8)]"
  let ?ys = "[replicate 32 1, replicate 32 2, replicate 32 (4 :: uint8)]"
  have "\<not> mut_upto halves_digest ?xs (length ?xs)"
    using mut_upto_3 [of halves_digest ?xs] by (simp add: eq_pair_def numeral_3_eq_3)
  then obtain root where root: "ComputeMerkleRoot halves_digest ?xs = Inr (root, False)"
    using ComputeMerkleRoot_eq [OF halves_digest_ok, of ?xs] by simp
  have inj: "inj_on halves_digest (merkle_inputs halves_digest ?xs \<union> merkle_inputs halves_digest ?ys)"
  proof -
    let ?d = halves_digest and ?a = "replicate 32 (1 :: uint8)" and ?b = "replicate 32 (2 :: uint8)"
      and ?c = "replicate 32 (3 :: uint8)" and ?e = "replicate 32 (4 :: uint8)"
    let ?inputs = "[?a @ ?b, ?c @ ?c, ?d (?a @ ?b) @ ?d (?c @ ?c), ?e @ ?e, ?d (?a @ ?b) @ ?d (?e @ ?e)]"
    have "distinct (map ?d ?inputs)" by code_simp
    then have "inj_on ?d (set ?inputs)" by (simp only: distinct_map)
    then show ?thesis unfolding merkle_inputs_3 by (rule inj_on_subset) auto
  qed
  have "ComputeMerkleRoot halves_digest ?ys \<noteq> Inr (root, False)"
    using merkle_unmutated_binding [OF halves_digest_ok, of ?xs ?ys root] inj root by auto
  then show ?thesis using root inj by simp
qed

text \<open>
  Without the mutation flag the root does not determine the leaves: for any three leaves the
  list with the last one repeated has the same root, and the flag tells them apart.
\<close>

theorem merkle_duplicate_flagged:
  assumes "digest_ok 32 sha256" "length a = 32" "length b = 32" "length c = 32" "a \<noteq> b"
  shows "\<exists>root. ComputeMerkleRoot sha256 [a, b, c] = Inr (root, False) \<and>
    ComputeMerkleRoot sha256 [a, b, c, c] = Inr (root, True)"
proof -
  let ?f = "\<lambda>a b. sha256 (a @ b)"
  note root = ComputeMerkleRoot_eq [OF assms(1)]
  have "(1 + 1) * 2 ^ Suc 0 \<le> length [a, b, c, c] \<and> eq_pair sha256 [a, b, c, c] 0 1"
    by (simp add: eq_pair_def)
  then have four: "mut_upto sha256 [a, b, c, c] (length [a, b, c, c])" unfolding mut_upto_def by blast
  have three: "\<not> mut_upto sha256 [a, b, c] (length [a, b, c])"
    using assms(5) mut_upto_3 [of sha256 "[a, b, c]"] by (simp add: eq_pair_def numeral_3_eq_3)
  have "merkle_root ?f [a, b, c] = merkle_root ?f [a, b, c, c]"
    by (simp add: merkle_root.simps)
  then show ?thesis
    using root [of "[a, b, c]"] root [of "[a, b, c, c]"] assms(2-4) four three by simp
qed

theorem merkle_duplicate_flagged_witness:
  "\<exists>root. ComputeMerkleRoot (\<lambda>bs. replicate 32 (hd bs)) [replicate 32 1, replicate 32 2, replicate 32 3]
       = Inr (root, False) \<and>
     ComputeMerkleRoot (\<lambda>bs. replicate 32 (hd bs)) [replicate 32 1, replicate 32 2, replicate 32 3, replicate 32 3]
       = Inr (root, True)"
  by (rule merkle_duplicate_flagged) (simp_all add: digest_ok_def)

end
