(* ===== verification/BlockIndex.thy ===== *)
theory BlockIndex
  imports Block Compact
begin

text \<open>
  The block tree of \<open>libs/blockchain/block_index.h\<close> and \<open>block_index.cpp\<close>, with the skip heights of
  \<open>ChainSkipList\<close> in \<open>chain.h\<close>.

  A \<open>BlockIndex*\<close> is an address or \<open>None\<close> for \<open>NULL\<close>; the objects live in a heap, a partial map from
  addresses. Following a null or dangling pointer is the error \<open>NullDeref\<close>.

  \<open>tree_ok\<close> is the invariant of the heap: every index but a root is one higher than its predecessor
  and its skip pointer is the ancestor at the skip height. The lemmas show that \<open>getAncestor\<close> is
  the walk along the predecessor pointers, that it terminates without following a null pointer, that
  \<open>buildSkip\<close> establishes the invariant for a new index, and that the work comparator is a strict
  total order, the contract of \<open>std::set\<close>, which the locale \<open>set_order\<close> states.
\<close>

unbundle bit_operations_syntax

section \<open>Definitions\<close>

type_synonym ptr = "nat option"

datatype chain_error =
    NullDeref
  | ChainAssert
  | ChainLoop
  | ChainOutOfRange
  | ChainArith uint_error
  | ChainStream
  | ChainMerkle
  | ChainCompact

type_synonym 'a chain_result = "(chain_error, 'a) result"

definition VALID_UNKNOWN :: uint32 where "VALID_UNKNOWN = 0"
definition VALID_HEADER :: uint32 where "VALID_HEADER = 1"
definition VALID_TREE :: uint32 where "VALID_TREE = 2"
definition VALID_TRANSACTIONS :: uint32 where "VALID_TRANSACTIONS = 3"
definition VALID_CHAIN :: uint32 where "VALID_CHAIN = 4"
definition VALID_SCRIPTS :: uint32 where "VALID_SCRIPTS = 5"
definition VALID_MASK :: uint32 where
  "VALID_MASK = VALID_HEADER OR VALID_TREE OR VALID_TRANSACTIONS OR VALID_CHAIN OR VALID_SCRIPTS"
definition HAVE_DATA :: uint32 where "HAVE_DATA = 8"
definition HAVE_UNDO :: uint32 where "HAVE_UNDO = 16"
definition FAILED_VALID :: uint32 where "FAILED_VALID = 32"
definition FAILED_CHILD :: uint32 where "FAILED_CHILD = 64"
definition FAILED_MASK :: uint32 where "FAILED_MASK = FAILED_VALID OR FAILED_CHILD"

record BlockIndex =
  bi_height :: int
  bi_chainWork :: base_uint
  bi_status :: uint32
  bi_phashBlock :: "base_blob option"
  bi_pPrev :: ptr
  bi_pSkip :: ptr
  bi_version :: uint32
  bi_hashMerkleRoot :: base_blob
  bi_timeval :: uint32
  bi_bits :: uint32
  bi_proof :: uint32
  bi_sequenceID :: uint32
  bi_numBlockTransactions :: uint32
  bi_numChainTransactions :: uint32

type_synonym heap = "nat \<rightharpoonup> BlockIndex"

definition new_BlockIndex :: "Block \<Rightarrow> BlockIndex" where
  "new_BlockIndex pBlock =
     (let h = b_header pBlock
      in \<lparr>bi_height = 0, bi_chainWork = base_uint_zero, bi_status = VALID_UNKNOWN,
          bi_phashBlock = None, bi_pPrev = None, bi_pSkip = None, bi_version = h_version h,
          bi_hashMerkleRoot = h_hashMerkleRoot h, bi_timeval = h_timeval h, bi_bits = h_bits h,
          bi_proof = h_proof h, bi_sequenceID = 0, bi_numBlockTransactions = 0,
          bi_numChainTransactions = 0\<rparr>)"

definition deref :: "heap \<Rightarrow> ptr \<Rightarrow> BlockIndex chain_result" where
  "deref hp p = (case p of None \<Rightarrow> Inl NullDeref
     | Some a \<Rightarrow> (case hp a of None \<Rightarrow> Inl NullDeref | Some b \<Rightarrow> Inr b))"

definition isValid_upto :: "uint32 \<Rightarrow> BlockIndex \<Rightarrow> bool" where
  "isValid_upto upToLevel b =
     (if bi_status b AND FAILED_MASK > 0 then False
      else bi_status b AND VALID_MASK \<ge> upToLevel)"

definition isValid :: "BlockIndex \<Rightarrow> bool" where
  "isValid b = (bi_status b AND FAILED_MASK = 0)"

definition getTimeval :: "BlockIndex \<Rightarrow> int" where
  "getTimeval b = uint (bi_timeval b)"

definition invertLowestOne :: "int \<Rightarrow> int" where
  "invertLowestOne n = n AND (n - 1)"

definition getSkipHeight :: "int \<Rightarrow> int" where
  "getSkipHeight height =
     (if height < 2 then 0
      else if height AND 1 \<noteq> 0 then invertLowestOne (invertLowestOne (height - 1)) + 1
      else invertLowestOne height)"

lemma invertLowestOne_bounds: "0 < n \<Longrightarrow> 0 \<le> invertLowestOne n \<and> invertLowestOne n < n"
  using AND_upper2 [of "n - 1" n] by (simp add: invertLowestOne_def)

lemma getSkipHeight_bounds: "0 < height \<Longrightarrow> 0 \<le> getSkipHeight height \<and> getSkipHeight height < height"
proof -
  assume pos: "0 < height"
  consider "height < 2" | "2 \<le> height" "height AND 1 = 0" | "3 \<le> height" "height AND 1 \<noteq> 0"
  proof -
    have "(2::int) AND 1 = 0" by simp
    then have "height \<noteq> 2" if "height AND 1 \<noteq> 0" using that by auto
    then show thesis using that by fastforce
  qed
  then show ?thesis
  proof cases
    case 1
    then show ?thesis using pos by (simp add: getSkipHeight_def)
  next
    case 2
    then show ?thesis using invertLowestOne_bounds [of height] by (simp add: getSkipHeight_def)
  next
    case 3
    let ?a = "invertLowestOne (height - 1)"
    have a: "0 \<le> ?a" "?a < height - 1" using invertLowestOne_bounds [of "height - 1"] 3 by auto
    have "0 \<le> invertLowestOne ?a \<and> invertLowestOne ?a \<le> ?a"
      using invertLowestOne_bounds [of ?a] a(1) by (cases "?a = 0") (auto simp: invertLowestOne_def)
    then show ?thesis using 3 a by (simp add: getSkipHeight_def)
  qed
qed

function ancestor_walk :: "heap \<Rightarrow> int \<Rightarrow> ptr \<Rightarrow> int \<Rightarrow> ptr chain_result" where
  "ancestor_walk hp inputHeight pIndexWalk heightWalk =
     (if heightWalk > inputHeight \<and> 0 \<le> inputHeight
      then let heightSkip = getSkipHeight heightWalk;
               heightSkipPrev = getSkipHeight (heightWalk - 1)
           in (case deref hp pIndexWalk of
                 Inl e \<Rightarrow> Inl e
               | Inr b \<Rightarrow>
                   (if heightSkip = inputHeight \<or>
                       (heightSkip > inputHeight \<and>
                        \<not> (heightSkipPrev < heightSkip - 2 \<and> heightSkipPrev \<ge> inputHeight))
                    then ancestor_walk hp inputHeight (bi_pSkip b) heightSkip
                    else ancestor_walk hp inputHeight (bi_pPrev b) (heightWalk - 1)))
      else Inr pIndexWalk)"
  by pat_completeness auto
termination
  by (relation "measure (\<lambda>(hp, inputHeight, p, heightWalk). nat heightWalk)")
    (use getSkipHeight_bounds in \<open>auto simp: zless_nat_conj\<close>)

declare ancestor_walk.simps [simp del]

definition getAncestor :: "heap \<Rightarrow> nat \<Rightarrow> int \<Rightarrow> ptr chain_result" where
  "getAncestor hp this inputHeight =
     bindE (deref hp (Some this)) (\<lambda>b.
       if inputHeight > bi_height b \<or> inputHeight < 0 then Inr None
       else ancestor_walk hp inputHeight (Some this) (bi_height b))"

definition buildSkip :: "heap \<Rightarrow> nat \<Rightarrow> heap chain_result" where
  "buildSkip hp this =
     bindE (deref hp (Some this)) (\<lambda>b.
       case bi_pPrev b of
         None \<Rightarrow> Inr hp
       | Some prev \<Rightarrow> bindE (getAncestor hp prev (getSkipHeight (bi_height b)))
                        (\<lambda>p. Inr (hp(this \<mapsto> b\<lparr>bi_pSkip := p\<rparr>))))"

definition BlockIndexWorkComparator :: "heap \<Rightarrow> nat \<Rightarrow> nat \<Rightarrow> bool" where
  "BlockIndexWorkComparator hp pa pb =
     (case (hp pa, hp pb) of
        (Some a, Some b) \<Rightarrow>
          (if op_gt (bi_chainWork a) (bi_chainWork b) then False
           else if op_lt (bi_chainWork a) (bi_chainWork b) then True
           else if bi_sequenceID a < bi_sequenceID b then False
           else if bi_sequenceID a > bi_sequenceID b then True
           else if pa < pb then False
           else if pa > pb then True
           else False)
      | _ \<Rightarrow> False)"

section \<open>Ancestors\<close>

text \<open>The specification: the walk along the predecessor pointers.\<close>

fun prev_n :: "heap \<Rightarrow> nat \<Rightarrow> ptr \<Rightarrow> ptr" where
  "prev_n hp 0 p = p"
| "prev_n hp (Suc n) None = None"
| "prev_n hp (Suc n) (Some a) = (case hp a of None \<Rightarrow> None | Some b \<Rightarrow> prev_n hp n (bi_pPrev b))"

definition node_ok :: "heap \<Rightarrow> nat \<Rightarrow> BlockIndex \<Rightarrow> bool" where
  "node_ok hp a b \<longleftrightarrow> (case bi_pPrev b of
       None \<Rightarrow> bi_height b = 0 \<and> bi_pSkip b = None
     | Some q \<Rightarrow> (\<exists>c. hp q = Some c \<and> bi_height b = bi_height c + 1 \<and> 0 \<le> bi_height c) \<and>
         bi_pSkip b = prev_n hp (nat (bi_height b - getSkipHeight (bi_height b))) (Some a))"

definition tree_ok :: "heap \<Rightarrow> bool" where
  "tree_ok hp \<longleftrightarrow> (\<forall>a b. hp a = Some b \<longrightarrow> node_ok hp a b)"

lemma tree_okD: "tree_ok hp \<Longrightarrow> hp a = Some b \<Longrightarrow> node_ok hp a b"
  by (simp add: tree_ok_def)

lemma tree_height_nonneg: "tree_ok hp \<Longrightarrow> hp a = Some b \<Longrightarrow> 0 \<le> bi_height b"
  by (auto simp: node_ok_def split: option.splits dest!: tree_okD)

lemma tree_prev:
  assumes "tree_ok hp" "hp a = Some b" "0 < bi_height b"
  obtains q c where "bi_pPrev b = Some q" "hp q = Some c" "bi_height b = bi_height c + 1"
  using tree_okD [OF assms(1,2)] assms(3) by (auto simp: node_ok_def split: option.splits)

lemma prev_n_add: "prev_n hp (m + n) p = prev_n hp n (prev_n hp m p)"
proof (induction hp m p rule: prev_n.induct)
  case (2 hp m)
  then show ?case by (cases n) auto
next
  case (3 hp m a)
  then show ?case by (cases n) (auto split: option.splits)
qed simp

lemma prev_n_height:
  "tree_ok hp \<Longrightarrow> hp a = Some b \<Longrightarrow> int n \<le> bi_height b \<Longrightarrow>
     \<exists>q c. prev_n hp n (Some a) = Some q \<and> hp q = Some c \<and> bi_height c = bi_height b - int n"
proof (induction n arbitrary: a b)
  case 0
  then show ?case by simp
next
  case (Suc n)
  then obtain q c where q: "bi_pPrev b = Some q" "hp q = Some c" "bi_height b = bi_height c + 1"
    by (elim tree_prev [of hp a b]) auto
  then show ?case using Suc.IH [OF Suc.prems(1) q(2)] Suc.prems by auto
qed

lemma ancestor_walk_ok:
  assumes "tree_ok hp" "0 \<le> inputHeight"
  shows "hp a = Some b \<Longrightarrow> bi_height b = heightWalk \<Longrightarrow> inputHeight \<le> heightWalk \<Longrightarrow>
    ancestor_walk hp inputHeight (Some a) heightWalk
      = Inr (prev_n hp (nat (heightWalk - inputHeight)) (Some a))"
proof (induction "nat heightWalk" arbitrary: a b heightWalk rule: less_induct)
  case less
  show ?case
  proof (cases "heightWalk > inputHeight")
    case False
    then show ?thesis using less.prems(3) by (subst ancestor_walk.simps) simp
  next
    case True
    then have pos: "0 < heightWalk" using assms(2) by simp
    let ?hs = "getSkipHeight heightWalk"
    have hs: "0 \<le> ?hs" "?hs < heightWalk" using getSkipHeight_bounds [OF pos] by auto
    obtain q c where q: "bi_pPrev b = Some q" "hp q = Some c" "bi_height b = bi_height c + 1"
      using tree_prev [OF assms(1) less.prems(1)] less.prems(2) pos by metis
    have skip: "bi_pSkip b = prev_n hp (nat (heightWalk - ?hs)) (Some a)"
      using tree_okD [OF assms(1) less.prems(1)] q(1) less.prems(2) by (simp add: node_ok_def)
    obtain s d where s: "bi_pSkip b = Some s" "hp s = Some d" "bi_height d = ?hs"
      using prev_n_height [OF assms(1) less.prems(1), of "nat (heightWalk - ?hs)"] skip hs less.prems(2)
      by auto
    have "prev_n hp (nat (heightWalk - 1 - inputHeight)) (bi_pPrev b)
        = prev_n hp (nat (heightWalk - inputHeight)) (Some a)"
    proof -
      have "nat (heightWalk - inputHeight) = Suc (nat (heightWalk - 1 - inputHeight))" using True by simp
      then show ?thesis using less.prems(1) by simp
    qed
    moreover have "prev_n hp (nat (?hs - inputHeight)) (bi_pSkip b)
        = prev_n hp (nat (heightWalk - inputHeight)) (Some a)" if "inputHeight \<le> ?hs"
    proof -
      have "nat (heightWalk - inputHeight) = nat (heightWalk - ?hs) + nat (?hs - inputHeight)"
        using that hs by simp
      then show ?thesis by (simp add: skip prev_n_add)
    qed
    moreover have "ancestor_walk hp inputHeight (bi_pSkip b) ?hs
        = Inr (prev_n hp (nat (?hs - inputHeight)) (bi_pSkip b))" if "inputHeight \<le> ?hs"
      using less.hyps [OF _ s(2,3) that] s(1) hs by simp
    moreover have "ancestor_walk hp inputHeight (bi_pPrev b) (heightWalk - 1)
        = Inr (prev_n hp (nat (heightWalk - 1 - inputHeight)) (bi_pPrev b))"
      using less.hyps [OF _ q(2), of "heightWalk - 1"] q(1,3) less.prems(2) True pos by simp
    ultimately show ?thesis
      using True assms(2) less.prems(1)
      by (subst ancestor_walk.simps) (auto simp: deref_def Let_def)
  qed
qed

lemma getAncestor_eq:
  assumes "tree_ok hp" "hp a = Some b"
  shows "getAncestor hp a h =
    Inr (if h > bi_height b \<or> h < 0 then None else prev_n hp (nat (bi_height b - h)) (Some a))"
  using ancestor_walk_ok [OF assms(1) _ assms(2) refl, of h] assms(2)
  by (auto simp: getAncestor_def deref_def)

text \<open>Adding an object at a fresh address does not change the walks of the others.\<close>

definition closed :: "heap \<Rightarrow> bool" where
  "closed hp \<longleftrightarrow> (\<forall>a b q. hp a = Some b \<longrightarrow> bi_pPrev b = Some q \<longrightarrow> q \<in> dom hp)"

lemma tree_ok_closed: "tree_ok hp \<Longrightarrow> closed hp"
  unfolding closed_def
proof (intro allI impI)
  fix a b q assume "tree_ok hp" "hp a = Some b" "bi_pPrev b = Some q"
  then show "q \<in> dom hp" using tree_okD [of hp a b] by (auto simp: node_ok_def)
qed

definition skips_closed :: "heap \<Rightarrow> bool" where
  "skips_closed hp \<longleftrightarrow> (\<forall>a b q. hp a = Some b \<longrightarrow> bi_pSkip b = Some q \<longrightarrow> q \<in> dom hp)"

lemma tree_ok_skips_closed:
  assumes "tree_ok hp"
  shows "skips_closed hp"
  unfolding skips_closed_def
proof (intro allI impI)
  fix a b q assume b: "hp a = Some b" "bi_pSkip b = Some q"
  note ok = tree_okD [OF assms b(1)]
  obtain r where r: "bi_pPrev b = Some r" using ok b(2) by (cases "bi_pPrev b") (auto simp: node_ok_def)
  have "0 < bi_height b" using ok r by (auto simp: node_ok_def)
  then have "0 \<le> getSkipHeight (bi_height b)" "getSkipHeight (bi_height b) < bi_height b"
    using getSkipHeight_bounds by auto
  then show "q \<in> dom hp"
    using prev_n_height [OF assms b(1), of "nat (bi_height b - getSkipHeight (bi_height b))"] ok r b(2)
    by (auto simp: node_ok_def)
qed

lemma ancestor_walk_None:
  "ancestor_walk hp i None k = (if k > i \<and> 0 \<le> i then Inl NullDeref else Inr None)"
  by (subst ancestor_walk.simps) (simp add: deref_def Let_def)

lemma ancestor_walk_upd:
  assumes "closed hp" "skips_closed hp" "a \<notin> dom hp"
  shows "w \<in> dom hp \<Longrightarrow> ancestor_walk (hp(a \<mapsto> b)) i (Some w) k = ancestor_walk hp i (Some w) k"
proof (induction "nat k" arbitrary: w k rule: less_induct)
  case less
  then obtain d where d: "hp w = Some d" by blast
  have wa: "w \<noteq> a" using less.prems assms(3) by auto
  show ?case
  proof (cases "k > i \<and> 0 \<le> i")
    case False
    then show ?thesis by (subst (1 2) ancestor_walk.simps) auto
  next
    case True
    then have k: "0 < k" by simp
    have "ancestor_walk (hp(a \<mapsto> b)) i (bi_pSkip d) (getSkipHeight k)
        = ancestor_walk hp i (bi_pSkip d) (getSkipHeight k)"
      using less.hyps [of "getSkipHeight k"] getSkipHeight_bounds [OF k] assms(2) d
      by (cases "bi_pSkip d") (auto simp: ancestor_walk_None skips_closed_def)
    moreover have "ancestor_walk (hp(a \<mapsto> b)) i (bi_pPrev d) (k - 1)
        = ancestor_walk hp i (bi_pPrev d) (k - 1)"
      using less.hyps [of "k - 1"] k assms(1) d
      by (cases "bi_pPrev d") (auto simp: ancestor_walk_None closed_def)
    ultimately show ?thesis
      using d wa
      by (subst ancestor_walk.simps, subst ancestor_walk.simps [of hp]) (auto simp: deref_def Let_def)
  qed
qed

lemma prev_n_upd:
  assumes "closed hp" "a \<notin> dom hp"
  shows "p \<in> dom hp \<Longrightarrow> prev_n (hp(a \<mapsto> b)) n (Some p) = prev_n hp n (Some p)"
proof (induction n arbitrary: p)
  case 0
  then show ?case by simp
next
  case (Suc n)
  then obtain c where c: "hp p = Some c" by blast
  have "p \<noteq> a" using Suc.prems assms(2) by auto
  show ?case
  proof (cases "bi_pPrev c")
    case None
    then show ?thesis using c \<open>p \<noteq> a\<close> by (cases n) auto
  next
    case (Some q)
    then have "q \<in> dom hp" using assms(1) c by (auto simp: closed_def)
    then show ?thesis using Suc.IH c Some \<open>p \<noteq> a\<close> by simp
  qed
qed

lemma node_ok_upd:
  assumes "closed hp" "a \<notin> dom hp" "hp p = Some c" "node_ok hp p c"
  shows "node_ok (hp(a \<mapsto> b)) p c"
proof -
  have "p \<in> dom hp" using assms(3) by blast
  show ?thesis
    using assms prev_n_upd [OF assms(1,2) \<open>p \<in> dom hp\<close>]
    by (auto simp: node_ok_def split: option.splits)
qed

lemma buildSkip_ok:
  assumes "tree_ok hp" "a \<notin> dom hp" "bi_pPrev b = Some q" "hp q = Some c" "bi_height b = bi_height c + 1"
  shows "\<exists>s. buildSkip (hp(a \<mapsto> b)) a = Inr (hp(a \<mapsto> b\<lparr>bi_pSkip := s\<rparr>)) \<and>
    tree_ok (hp(a \<mapsto> b\<lparr>bi_pSkip := s\<rparr>))"
proof -
  let ?h = "getSkipHeight (bi_height b)"
  have c: "0 \<le> bi_height c" by (rule tree_height_nonneg [OF assms(1,4)])
  then have h: "0 \<le> ?h" "?h \<le> bi_height c" using getSkipHeight_bounds [of "bi_height b"] assms(5) by auto
  have qa: "q \<noteq> a" "q \<in> dom hp" using assms(2,4) by auto
  note cl = tree_ok_closed [OF assms(1)]
  define s where "s = prev_n hp (nat (bi_height c - ?h)) (Some q)"
  have walk: "getAncestor (hp(a \<mapsto> b)) q ?h = Inr s"
  proof -
    have "getAncestor (hp(a \<mapsto> b)) q ?h = getAncestor hp q ?h"
      using ancestor_walk_upd [OF cl tree_ok_skips_closed [OF assms(1)] assms(2) qa(2)] qa assms(4) by (simp add: getAncestor_def deref_def)
    then show ?thesis using getAncestor_eq [OF assms(1,4)] h by (simp add: s_def)
  qed
  let ?b = "b\<lparr>bi_pSkip := s\<rparr>"
  let ?hp = "hp(a \<mapsto> ?b)"
  have "buildSkip (hp(a \<mapsto> b)) a = Inr ?hp"
    using walk assms(3) by (simp add: buildSkip_def deref_def)
  moreover have "tree_ok ?hp"
    unfolding tree_ok_def
  proof (intro allI impI)
    fix p d assume p: "?hp p = Some d"
    show "node_ok ?hp p d"
    proof (cases "p = a")
      case False
      then have "hp p = Some d" using p by simp
      then show ?thesis by (intro node_ok_upd [OF cl assms(2)] tree_okD [OF assms(1)])
    next
      case True
      then have d: "d = ?b" using p by simp
      have "nat (bi_height b - ?h) = Suc (nat (bi_height c - ?h))" using assms(5) h by simp
      then have "prev_n ?hp (nat (bi_height b - ?h)) (Some a) = s"
        using prev_n_upd [OF cl assms(2) qa(2)] assms(3) by (simp add: s_def)
      then show ?thesis using assms(3-5) c qa(1) True d by (simp add: node_ok_def)
    qed
  qed
  ultimately show ?thesis by blast
qed

lemma tree_ok_root:
  assumes "tree_ok hp" "a \<notin> dom hp" "bi_pPrev b = None" "bi_height b = 0" "bi_pSkip b = None"
  shows "tree_ok (hp(a \<mapsto> b))"
  unfolding tree_ok_def
proof (intro allI impI)
  fix p d assume p: "(hp(a \<mapsto> b)) p = Some d"
  show "node_ok (hp(a \<mapsto> b)) p d"
  proof (cases "p = a")
    case True
    then show ?thesis using p assms by (simp add: node_ok_def)
  next
    case False
    then show ?thesis
      using p assms by (auto intro!: node_ok_upd tree_ok_closed intro: tree_okD)
  qed
qed

section \<open>Ordered sets\<close>

text \<open>
  \<open>std::set\<close> with a comparator: the elements in iteration order. Insertion, removal and lookup
  compare with the comparator only, two elements being the same when neither is before the other.
\<close>

fun set_insert :: "('a \<Rightarrow> 'a \<Rightarrow> bool) \<Rightarrow> 'a \<Rightarrow> 'a list \<Rightarrow> 'a list" where
  "set_insert lt x [] = [x]"
| "set_insert lt x (y # ys) =
     (if lt y x then y # set_insert lt x ys else if lt x y then x # y # ys else y # ys)"

fun set_erase :: "('a \<Rightarrow> 'a \<Rightarrow> bool) \<Rightarrow> 'a \<Rightarrow> 'a list \<Rightarrow> 'a list" where
  "set_erase lt x [] = []"
| "set_erase lt x (y # ys) =
     (if lt y x then y # set_erase lt x ys else if lt x y then y # ys else ys)"

locale set_order =
  fixes V :: "'a \<Rightarrow> bool" and lt :: "'a \<Rightarrow> 'a \<Rightarrow> bool"
  assumes irrefl: "\<not> lt x x"
    and trans: "V x \<Longrightarrow> V y \<Longrightarrow> V z \<Longrightarrow> lt x y \<Longrightarrow> lt y z \<Longrightarrow> lt x z"
    and total: "V x \<Longrightarrow> V y \<Longrightarrow> lt x y \<or> x = y \<or> lt y x"
begin

definition ordered :: "'a list \<Rightarrow> bool" where
  "ordered xs \<longleftrightarrow> sorted_wrt lt xs \<and> (\<forall>x \<in> set xs. V x)"

lemma asym: "V x \<Longrightarrow> V y \<Longrightarrow> lt x y \<Longrightarrow> \<not> lt y x"
  using trans irrefl by blast

lemma set_insert_set: "ordered xs \<Longrightarrow> V x \<Longrightarrow> set (set_insert lt x xs) = insert x (set xs)"
proof (induction xs)
  case Nil
  then show ?case by simp
next
  case (Cons y ys)
  then show ?case using total [of x y] by (auto simp: ordered_def)
qed

lemma set_insert_ordered: "ordered xs \<Longrightarrow> V x \<Longrightarrow> ordered (set_insert lt x xs)"
proof (induction xs)
  case Nil
  then show ?case by (simp add: ordered_def)
next
  case (Cons y ys)
  have ys: "ordered ys" using Cons.prems by (simp add: ordered_def)
  show ?case
  proof (cases "lt y x")
    case True
    then show ?thesis
      using Cons ys set_insert_set [OF ys Cons.prems(2)] by (auto simp: ordered_def)
  next
    case False
    then show ?thesis using Cons.prems trans [of x y] by (auto simp: ordered_def)
  qed
qed

lemma set_erase_set: "ordered xs \<Longrightarrow> V x \<Longrightarrow> set (set_erase lt x xs) = set xs - {x}"
proof (induction xs)
  case Nil
  then show ?case by simp
next
  case (Cons y ys)
  have ys: "ordered ys" using Cons.prems by (simp add: ordered_def)
  consider "lt y x" | "lt x y" | "x = y" using total [of x y] Cons.prems by (auto simp: ordered_def)
  then show ?case
  proof cases
    case 1
    then show ?thesis using Cons ys irrefl [of x] by auto
  next
    case 2
    then have "x \<notin> set (y # ys)"
      using Cons.prems asym [of x y] irrefl [of x] by (auto simp: ordered_def)
    then show ?thesis using 2 asym [of x y] Cons.prems by (auto simp: ordered_def)
  next
    case 3
    then have "y \<notin> set ys" using Cons.prems irrefl by (auto simp: ordered_def)
    then show ?thesis using 3 irrefl by simp
  qed
qed

lemma set_erase_subset: "set (set_erase lt x xs) \<subseteq> set xs"
  by (induction xs) auto

lemma set_erase_ordered: "ordered xs \<Longrightarrow> ordered (set_erase lt x xs)"
proof (induction xs)
  case (Cons y ys)
  then have "ordered (set_erase lt x ys)" by (simp add: ordered_def)
  then show ?case using Cons.prems set_erase_subset [of x ys] by (auto simp: ordered_def)
qed (simp add: ordered_def)

lemma ordered_last_max:
  assumes "ordered xs" "x \<in> set xs"
  shows "x = last xs \<or> lt x (last xs)"
proof -
  obtain ys z where xs: "xs = ys @ [z]" using assms(2) by (cases xs rule: rev_cases) auto
  then show ?thesis using assms by (auto simp: ordered_def sorted_wrt_append)
qed

lemma ordered_drop: "ordered xs \<Longrightarrow> ordered (dropWhile P xs)"
  unfolding ordered_def by (metis set_dropWhileD sorted_wrt_append takeWhile_dropWhile_id)

end

definition work_ok :: "heap \<Rightarrow> nat \<Rightarrow> bool" where
  "work_ok hp p \<longleftrightarrow> (\<exists>b. hp p = Some b \<and> wf256 (bi_chainWork b))"

text \<open>The comparator compares the key of work, sequence and address lexicographically.\<close>

lemma work_comparator_key:
  assumes "hp pa = Some a" "hp pb = Some b" "wf256 (bi_chainWork a)" "wf256 (bi_chainWork b)"
  shows "BlockIndexWorkComparator hp pa pb \<longleftrightarrow>
    val (bi_chainWork a) < val (bi_chainWork b) \<or>
    val (bi_chainWork a) = val (bi_chainWork b) \<and>
      (bi_sequenceID a > bi_sequenceID b \<or> bi_sequenceID a = bi_sequenceID b \<and> pa > pb)"
  using assms by (auto simp: BlockIndexWorkComparator_def op_order)

lemma compareTo_refl: "compareTo a a = 0"
proof -
  have "compareTo_loop a a n = 0" for n by (induction n) auto
  then show ?thesis by (simp add: compareTo_def)
qed

interpretation work: set_order "work_ok hp" "BlockIndexWorkComparator hp" for hp
proof
  show "\<not> BlockIndexWorkComparator hp x x" for x
    by (auto simp: BlockIndexWorkComparator_def op_lt_def compareTo_refl split: option.splits)
  show "BlockIndexWorkComparator hp x z"
    if "work_ok hp x" "work_ok hp y" "work_ok hp z" "BlockIndexWorkComparator hp x y"
      "BlockIndexWorkComparator hp y z" for x y z
    using that by (auto simp: work_ok_def work_comparator_key)
  show "BlockIndexWorkComparator hp x y \<or> x = y \<or> BlockIndexWorkComparator hp y x"
    if "work_ok hp x" "work_ok hp y" for x y
    using that by (auto simp: work_ok_def work_comparator_key)
qed

section \<open>Properties\<close>

text \<open>
  C25: on a well-formed block tree, \<open>getAncestor\<close> follows skip pointers without ever meeting a null
  pointer and returns the same index as walking back the predecessor pointers one by one, at
  exactly the requested height; outside of the range of heights it returns \<open>NULL\<close>.
\<close>

theorem getAncestor_equivalence:
  assumes "tree_ok hp" "hp a = Some b"
  shows "if h < 0 \<or> h > bi_height b then getAncestor hp a h = Inr None
    else \<exists>q c. getAncestor hp a h = Inr (Some q) \<and> hp q = Some c \<and> bi_height c = h \<and>
      prev_n hp (nat (bi_height b - h)) (Some a) = Some q"
  using getAncestor_eq [OF assms, of h] prev_n_height [OF assms, of "nat (bi_height b - h)"]
  by auto

definition example_block :: "BlockIndex" where
  "example_block = new_BlockIndex new_Block"

theorem getAncestor_equivalence_witness:
  "\<exists>q. getAncestor [0 \<mapsto> example_block, 1 \<mapsto> example_block\<lparr>bi_height := 1, bi_pPrev := Some 0, bi_pSkip := Some 0\<rparr>] 1 0
     = Inr (Some q)"
proof -
  let ?r = example_block
  let ?b = "example_block\<lparr>bi_height := 1, bi_pPrev := Some 0, bi_pSkip := Some 0\<rparr>"
  have "tree_ok [0 \<mapsto> ?r, 1 \<mapsto> ?b]"
    by (simp add: tree_ok_def node_ok_def example_block_def new_BlockIndex_def Let_def getSkipHeight_def)
  from getAncestor_equivalence [OF this, of 1 ?b 0] show ?thesis by auto
qed

text \<open>
  \<open>buildSkip\<close> on a new index whose predecessor is in the tree terminates, sets its skip pointer
  to the ancestor at the skip height, and the tree with the new index is well-formed again.
\<close>

theorem buildSkip_preserves_tree:
  assumes "tree_ok hp" "a \<notin> dom hp" "bi_pPrev b = Some q" "hp q = Some c" "bi_height b = bi_height c + 1"
  shows "\<exists>s. buildSkip (hp(a \<mapsto> b)) a = Inr (hp(a \<mapsto> b\<lparr>bi_pSkip := s\<rparr>)) \<and>
    tree_ok (hp(a \<mapsto> b\<lparr>bi_pSkip := s\<rparr>))"
  by (rule buildSkip_ok [OF assms])

theorem buildSkip_preserves_tree_witness:
  "\<exists>s. tree_ok [0 \<mapsto> example_block, 1 \<mapsto> example_block\<lparr>bi_height := 1, bi_pPrev := Some 0, bi_pSkip := s\<rparr>]"
proof -
  have "tree_ok [0 \<mapsto> example_block]"
    by (simp add: tree_ok_def node_ok_def example_block_def new_BlockIndex_def Let_def)
  from buildSkip_preserves_tree [OF this, of 1 "example_block\<lparr>bi_height := 1, bi_pPrev := Some 0\<rparr>" 0 example_block]
  show ?thesis by (auto simp: example_block_def new_BlockIndex_def Let_def)
qed

text \<open>
  The work comparator is a strict total order on the indexes of the heap, so the set of
  candidates ordered by it keeps its order and loses no element under insertion and removal, and its
  last element has the most work.
\<close>

theorem candidate_set_laws:
  assumes "work.ordered hp xs" "work_ok hp x"
  shows "work.ordered hp (set_insert (BlockIndexWorkComparator hp) x xs) \<and>
    set (set_insert (BlockIndexWorkComparator hp) x xs) = insert x (set xs) \<and>
    work.ordered hp (set_erase (BlockIndexWorkComparator hp) x xs) \<and>
    set (set_erase (BlockIndexWorkComparator hp) x xs) = set xs - {x} \<and>
    (\<forall>y \<in> set xs. \<exists>a b. hp y = Some a \<and> hp (last xs) = Some b \<and> val (bi_chainWork a) \<le> val (bi_chainWork b))"
proof (intro conjI ballI)
  fix y assume y: "y \<in> set xs"
  then have "last xs \<in> set xs" by (intro last_in_set) auto
  then have "work_ok hp y" "work_ok hp (last xs)" using assms(1) y by (simp_all add: work.ordered_def)
  then obtain a b where ab: "hp y = Some a" "hp (last xs) = Some b" "wf256 (bi_chainWork a)" "wf256 (bi_chainWork b)"
    unfolding work_ok_def by blast
  have "val (bi_chainWork a) \<le> val (bi_chainWork b)"
    using work.ordered_last_max [OF assms(1) y] work_comparator_key [OF ab] ab by auto
  then show "\<exists>a b. hp y = Some a \<and> hp (last xs) = Some b \<and> val (bi_chainWork a) \<le> val (bi_chainWork b)"
    using ab by blast
qed (simp_all add: assms work.set_insert_ordered work.set_insert_set work.set_erase_ordered work.set_erase_set)

theorem candidate_set_laws_witness:
  "set (set_insert (BlockIndexWorkComparator [0 \<mapsto> example_block]) 0 []) = {0}"
proof -
  have "work_ok [0 \<mapsto> example_block] 0"
    by (simp add: work_ok_def example_block_def new_BlockIndex_def Let_def base_uint_zero_def)
  then show ?thesis
    using candidate_set_laws [of "[0 \<mapsto> example_block]" "[]" 0] by (simp add: work.ordered_def)
qed

end
