(* ===== verification/Chain.thy ===== *)
theory Chain
  imports BlockIndex
begin

text \<open>
  The active chain: class \<open>Chain\<close> of \<open>libs/blockchain/chain.h\<close> and \<open>chain.cpp\<close>. A chain is the member
  vector \<open>chain_\<close>, a list of pointers indexed by height; the heap of block indexes is an argument.
  The two loops that follow predecessor pointers (\<open>findFork\<close>, \<open>setTip\<close>) take a fuel argument, set by
  their callers to more than the height of the index they start from; running out of it is the error
  \<open>ChainLoop\<close>, which the lemmas exclude on a well-formed tree. The clock is an argument.

  \<open>chain_of\<close> is the specification: the path from the root to an index. The lemmas show that \<open>setTip\<close>
  makes the chain this path whatever path it was before, that \<open>findFork\<close> returns the last common
  index, and which block \<open>getBlock\<close> and which time the median computation return.
\<close>

section \<open>Definitions\<close>

type_synonym chain = "ptr list"

definition chain_height :: "chain \<Rightarrow> int" where
  "chain_height c = int (length c) - 1"

definition tip :: "chain \<Rightarrow> ptr" where
  "tip c = (if length c = 0 then None else c ! (length c - 1))"

definition chain_at :: "chain \<Rightarrow> int \<Rightarrow> ptr" where
  "chain_at c height = (if height < 0 \<or> height \<ge> int (length c) then None else c ! nat height)"

definition contains :: "heap \<Rightarrow> chain \<Rightarrow> ptr \<Rightarrow> bool chain_result" where
  "contains hp c pBlockIndex =
     bindE (deref hp pBlockIndex) (\<lambda>b. Inr (chain_at c (bi_height b) = pBlockIndex))"

definition chain_next :: "heap \<Rightarrow> chain \<Rightarrow> ptr \<Rightarrow> ptr chain_result" where
  "chain_next hp c p =
     bindE (contains hp c p) (\<lambda>yes.
       if yes then bindE (deref hp p) (\<lambda>b. Inr (chain_at c (bi_height b + 1))) else Inr None)"

definition chain_prev :: "heap \<Rightarrow> chain \<Rightarrow> ptr \<Rightarrow> ptr chain_result" where
  "chain_prev hp c p =
     bindE (contains hp c p) (\<lambda>yes.
       if yes then bindE (deref hp p) (\<lambda>b. Inr (chain_at c (bi_height b - 1))) else Inr None)"

definition getGenesisBlockIndex :: "chain \<Rightarrow> ptr" where
  "getGenesisBlockIndex c = (if length c > 0 then c ! 0 else None)"

definition chain_eq :: "chain \<Rightarrow> chain \<Rightarrow> bool chain_result" where
  "chain_eq a b =
     (if length a = length b
      then if length a = 0 then Inl ChainOutOfRange
           else Inr (a ! (length a - 1) = b ! (length b - 1))
      else Inr False)"

fun fork_walk :: "nat \<Rightarrow> heap \<Rightarrow> chain \<Rightarrow> ptr \<Rightarrow> ptr chain_result" where
  "fork_walk 0 hp c p = Inl ChainLoop"
| "fork_walk (Suc fuel) hp c p =
     (case p of
        None \<Rightarrow> Inr None
      | Some a \<Rightarrow> bindE (contains hp c p) (\<lambda>yes.
          if yes then Inr p
          else bindE (deref hp p) (\<lambda>b. fork_walk fuel hp c (bi_pPrev b))))"

definition findFork :: "heap \<Rightarrow> chain \<Rightarrow> nat \<Rightarrow> ptr chain_result" where
  "findFork hp c pBlockIndex =
     bindE (deref hp (Some pBlockIndex)) (\<lambda>b.
     bindE (if bi_height b > chain_height c then getAncestor hp pBlockIndex (chain_height c)
            else Inr (Some pBlockIndex)) (\<lambda>p.
     fork_walk (nat (bi_height b) + 2) hp c p))"

definition chain_resize :: "nat \<Rightarrow> chain \<Rightarrow> chain" where
  "chain_resize n c = take n c @ replicate (n - length c) None"

fun tip_walk :: "nat \<Rightarrow> heap \<Rightarrow> chain \<Rightarrow> ptr \<Rightarrow> chain chain_result" where
  "tip_walk 0 hp c p = Inl ChainLoop"
| "tip_walk (Suc fuel) hp c p =
     (case p of
        None \<Rightarrow> Inr c
      | Some a \<Rightarrow> bindE (deref hp p) (\<lambda>b.
          if bi_height b < 0 \<or> bi_height b \<ge> int (length c) then Inl ChainOutOfRange
          else if c ! nat (bi_height b) \<noteq> p
               then tip_walk fuel hp (c[nat (bi_height b) := p]) (bi_pPrev b)
               else Inr c))"

definition setTip :: "heap \<Rightarrow> chain \<Rightarrow> ptr \<Rightarrow> chain chain_result" where
  "setTip hp c pBlockIndex =
     (case pBlockIndex of
        None \<Rightarrow> Inr []
      | Some a \<Rightarrow> bindE (deref hp pBlockIndex) (\<lambda>b.
          tip_walk (nat (bi_height b) + 2) hp (chain_resize (nat (bi_height b + 1)) c) pBlockIndex))"

fun block_times :: "heap \<Rightarrow> nat \<Rightarrow> chain \<Rightarrow> int list \<Rightarrow> int list chain_result" where
  "block_times hp rng [] blockTimes = Inr blockTimes"
| "block_times hp rng (p # rit) blockTimes =
     bindE (deref hp p) (\<lambda>b.
       let blockTimes = blockTimes @ [getTimeval b]
       in if length blockTimes = rng then Inr blockTimes
          else block_times hp rng rit blockTimes)"

definition getMedianBlockTimePastInChain :: "heap \<Rightarrow> chain \<Rightarrow> nat \<Rightarrow> int chain_result" where
  "getMedianBlockTimePastInChain hp c rng =
     (if length c = 0 then Inr 0
      else bindE (block_times hp rng (rev c) []) (\<lambda>blockTimes.
        let blockTimes = sort blockTimes in Inr (blockTimes ! (length blockTimes div 2))))"

fun block_scan :: "heap \<Rightarrow> chain \<Rightarrow> nat \<Rightarrow> nat \<Rightarrow> ptr chain_result" where
  "block_scan hp [] startBlockHeight blockOffsetHeight = Inr None"
| "block_scan hp (p # rit) startBlockHeight blockOffsetHeight =
     (if startBlockHeight = 0
      then if blockOffsetHeight = 0 then Inr p
           else if blockOffsetHeight - 1 = 0 then Inr p
           else block_scan hp rit 0 (blockOffsetHeight - 1)
      else bindE (deref hp p) (\<lambda>b.
        if int startBlockHeight = bi_height b
        then if blockOffsetHeight = 0 then Inr p
             else if blockOffsetHeight - 1 = 0 then Inr p
             else block_scan hp rit 0 (blockOffsetHeight - 1)
        else block_scan hp rit startBlockHeight blockOffsetHeight))"

definition getBlock :: "heap \<Rightarrow> chain \<Rightarrow> nat \<Rightarrow> nat \<Rightarrow> ptr chain_result" where
  "getBlock hp c startBlockHeight blockOffsetHeight =
     block_scan hp (rev c) startBlockHeight blockOffsetHeight"

definition validBlockTime :: "heap \<Rightarrow> chain \<Rightarrow> int \<Rightarrow> int \<Rightarrow> bool chain_result" where
  "validBlockTime hp c adjustedTime timeval =
     (if timeval > adjustedTime + 2 * 60 * 60 then Inr False
      else bindE (getMedianBlockTimePastInChain hp c 11) (\<lambda>medianTime.
        if timeval < medianTime then Inr False else Inr True))"

section \<open>Paths\<close>

definition chain_of :: "heap \<Rightarrow> nat \<Rightarrow> chain" where
  "chain_of hp a =
     (case hp a of None \<Rightarrow> []
      | Some b \<Rightarrow> map (\<lambda>i. prev_n hp (nat (bi_height b) - i) (Some a)) [0..<nat (bi_height b) + 1])"

definition chain_ok :: "heap \<Rightarrow> chain \<Rightarrow> bool" where
  "chain_ok hp c \<longleftrightarrow> c = [] \<or> (\<exists>a \<in> dom hp. c = chain_of hp a)"

lemma length_chain_of: "hp a = Some b \<Longrightarrow> length (chain_of hp a) = nat (bi_height b) + 1"
  by (simp add: chain_of_def)

lemma nth_chain_of:
  "hp a = Some b \<Longrightarrow> i \<le> nat (bi_height b) \<Longrightarrow> chain_of hp a ! i = prev_n hp (nat (bi_height b) - i) (Some a)"
  by (simp add: chain_of_def nth_append del: upt_Suc)

lemma nth_chain_of_height:
  assumes "tree_ok hp" "hp a = Some b" "i \<le> nat (bi_height b)"
  obtains q d where "chain_of hp a ! i = Some q" "hp q = Some d" "bi_height d = int i"
proof -
  have "0 \<le> bi_height b" by (rule tree_height_nonneg [OF assms(1,2)])
  then show thesis
    using prev_n_height [OF assms(1,2), of "nat (bi_height b) - i"] that
      nth_chain_of [where hp = hp, OF assms(2,3)] assms(3) by auto
qed

text \<open>The part of a path below one of its members is the path of that member.\<close>

lemma chain_of_prefix:
  assumes "tree_ok hp" "hp a = Some b" "i \<le> nat (bi_height b)" "chain_of hp a ! i = Some q"
  shows "take (i + 1) (chain_of hp a) = chain_of hp q"
proof -
  obtain d where d: "hp q = Some d" "bi_height d = int i"
    using nth_chain_of_height [OF assms(1-3)] assms(4) by auto
  have q: "prev_n hp (nat (bi_height b) - i) (Some a) = Some q"
    using nth_chain_of [where hp = hp, OF assms(2,3)] assms(4) by simp
  show ?thesis
  proof (rule nth_equalityI)
    show "length (take (i + 1) (chain_of hp a)) = length (chain_of hp q)"
      using assms(3) by (simp add: length_chain_of [where hp = hp, OF assms(2)] length_chain_of [where hp = hp, OF d(1)] d(2))
    fix j assume "j < length (take (i + 1) (chain_of hp a))"
    then have j: "j \<le> i" using assms(3) by (simp add: length_chain_of [where hp = hp, OF assms(2)])
    have "chain_of hp a ! j = prev_n hp (nat (bi_height b) - j) (Some a)"
      using j assms(3) by (intro nth_chain_of [where hp = hp, OF assms(2)]) simp
    also have "nat (bi_height b) - j = (nat (bi_height b) - i) + (i - j)" using j assms(3) by simp
    finally have "chain_of hp a ! j = prev_n hp (i - j) (Some q)" by (simp only: prev_n_add q)
    then show "take (i + 1) (chain_of hp a) ! j = chain_of hp q ! j"
      using j nth_chain_of [where hp = hp, OF d(1), of j] d(2) by simp
  qed
qed

lemma chain_of_snoc:
  assumes "tree_ok hp" "hp a = Some b" "bi_pPrev b = Some q"
  shows "chain_of hp a = chain_of hp q @ [Some a]"
proof -
  obtain c where c: "hp q = Some c" "bi_height b = bi_height c + 1" "0 \<le> bi_height c"
    using tree_okD [OF assms(1,2)] assms(3) by (auto simp: node_ok_def)
  let ?h = "nat (bi_height c)"
  have h: "nat (bi_height b) = Suc ?h" using c by simp
  have q: "chain_of hp a ! ?h = Some q"
    using nth_chain_of [where hp = hp, OF assms(2), of ?h] h assms(2,3) by simp
  have "take (?h + 1) (chain_of hp a) = chain_of hp q"
    using h by (intro chain_of_prefix [OF assms(1,2) _ q]) simp
  moreover have "drop (?h + 1) (chain_of hp a) = [Some a]"
    using h nth_chain_of [where hp = hp, OF assms(2), of "Suc ?h"] length_chain_of [where hp = hp, OF assms(2)]
    by (intro nth_equalityI) auto
  ultimately show ?thesis by (metis append_take_drop_id)
qed

lemma chain_of_root:
  assumes "tree_ok hp" "hp a = Some b" "bi_pPrev b = None"
  shows "chain_of hp a = [Some a]"
  using tree_okD [OF assms(1,2)] assms(2,3) by (simp add: chain_of_def node_ok_def)

lemma contains_chain_of:
  assumes "tree_ok hp" "chain_ok hp c" "hp p = Some b"
  shows "contains hp c (Some p) = Inr (Some p \<in> set c)"
proof -
  have "chain_at c (bi_height b) = Some p \<longleftrightarrow> Some p \<in> set c"
  proof (cases "c = []")
    case True
    then show ?thesis using tree_height_nonneg [OF assms(1,3)] by (auto simp: chain_at_def)
  next
    case False
    then obtain a d where a: "hp a = Some d" "c = chain_of hp a" using assms(2) by (auto simp: chain_ok_def)
    have len: "length c = nat (bi_height d) + 1" using length_chain_of [where hp = hp, OF a(1)] a(2) by simp
    show ?thesis
    proof
      assume "chain_at c (bi_height b) = Some p"
      then show "Some p \<in> set c" by (metis chain_at_def nat_less_iff not_le nth_mem option.distinct(1))
    next
      assume "Some p \<in> set c"
      then obtain i where i: "i < length c" "c ! i = Some p" by (auto simp: in_set_conv_nth)
      then have "i \<le> nat (bi_height d)" using len by simp
      from nth_chain_of_height [OF assms(1) a(1) this] obtain q e
        where "chain_of hp a ! i = Some q" "hp q = Some e" "bi_height e = int i" .
      then have "bi_height b = int i" using i(2) a(2) assms(3) by simp
      then show "chain_at c (bi_height b) = Some p" using i by (simp add: chain_at_def)
    qed
  qed
  then show ?thesis using assms(3) by (simp add: contains_def deref_def)
qed

section \<open>Moving the tip\<close>

lemma tip_walk_ok:
  assumes "tree_ok hp" "chain_ok hp old"
  shows "hp p = Some b \<Longrightarrow> nat (bi_height b) + 1 < fuel \<Longrightarrow> nat (bi_height b) < length c \<Longrightarrow>
    take (nat (bi_height b) + 1) c = take (nat (bi_height b) + 1) (chain_resize (length c) old) \<Longrightarrow>
    tip_walk fuel hp c (Some p) = Inr (chain_of hp p @ drop (nat (bi_height b) + 1) c)"
proof (induction fuel arbitrary: p b c)
  case 0
  then show ?case by simp
next
  case (Suc fuel)
  let ?h = "nat (bi_height b)"
  have h0: "0 \<le> bi_height b" by (rule tree_height_nonneg [OF assms(1) Suc.prems(1)])
  have rng: "\<not> (bi_height b < 0 \<or> bi_height b \<ge> int (length c))" using Suc.prems(3) h0 by auto
  show ?case
  proof (cases "c ! ?h = Some p")
    case True
    have nth: "c ! ?h = chain_resize (length c) old ! ?h"
      using arg_cong [OF Suc.prems(4), of "\<lambda>xs. xs ! ?h"] by simp
    have "?h < length old"
      using True nth Suc.prems(3)
      by (cases "?h < length old") (auto simp: chain_resize_def nth_append min_def split: if_splits)
    then have old: "old ! ?h = Some p" using True nth Suc.prems(3) by (simp add: chain_resize_def nth_append)
    obtain a d where a: "hp a = Some d" "old = chain_of hp a"
      using assms(2) \<open>?h < length old\<close> by (auto simp: chain_ok_def)
    have "?h \<le> nat (bi_height d)" using \<open>?h < length old\<close> length_chain_of [where hp = hp, OF a(1)] a(2) by simp
    then have "take (?h + 1) old = chain_of hp p"
      using chain_of_prefix [OF assms(1) a(1)] old a(2) by simp
    moreover have "take (?h + 1) (chain_resize (length c) old) = take (?h + 1) old"
      using \<open>?h < length old\<close> Suc.prems(3) by (simp add: chain_resize_def)
    ultimately have "take (?h + 1) c = chain_of hp p" using Suc.prems(4) by simp
    then have "c = chain_of hp p @ drop (?h + 1) c" by (metis append_take_drop_id)
    moreover have "tip_walk (Suc fuel) hp c (Some p) = Inr c"
      using True rng Suc.prems(1) by (simp add: deref_def)
    ultimately show ?thesis by simp
  next
    case False
    let ?c = "c[?h := Some p]"
    have step: "tip_walk (Suc fuel) hp c (Some p) = tip_walk fuel hp ?c (bi_pPrev b)"
      using False rng Suc.prems(1) by (simp add: deref_def)
    show ?thesis
    proof (cases "bi_pPrev b")
      case None
      then have "?h = 0" using tree_okD [OF assms(1) Suc.prems(1)] by (simp add: node_ok_def)
      moreover obtain f where "fuel = Suc f" using Suc.prems(2) by (cases fuel) auto
      ultimately show ?thesis
        using step None chain_of_root [OF assms(1) Suc.prems(1) None] Suc.prems(3)
        by (cases c) auto
    next
      case (Some q)
      obtain e where e: "hp q = Some e" "bi_height b = bi_height e + 1" "0 \<le> bi_height e"
        using tree_okD [OF assms(1) Suc.prems(1)] Some by (auto simp: node_ok_def)
      let ?k = "nat (bi_height e)"
      have k: "?h = Suc ?k" using e by simp
      have "take (?k + 1) ?c = take (?k + 1) (take (?h + 1) c)" using k by simp
      also have "\<dots> = take (?k + 1) (chain_resize (length ?c) old)" using Suc.prems(4) k by simp
      finally have pre: "take (?k + 1) ?c = take (?k + 1) (chain_resize (length ?c) old)" .
      have "tip_walk fuel hp ?c (Some q) = Inr (chain_of hp q @ drop (?k + 1) ?c)"
        by (rule Suc.IH [OF e(1) _ _ pre]) (use Suc.prems(2,3) k in auto)
      moreover have "drop (?k + 1) ?c = Some p # drop (?h + 1) c"
        using k Suc.prems(3) by (simp add: Cons_nth_drop_Suc [symmetric] drop_update_cancel)
      ultimately show ?thesis
        using step Some chain_of_snoc [OF assms(1) Suc.prems(1) Some] by simp
    qed
  qed
qed

lemma length_chain_resize [simp]: "length (chain_resize n c) = n"
  by (simp add: chain_resize_def)

lemma setTip_ok:
  assumes "tree_ok hp" "chain_ok hp c" "hp p = Some b"
  shows "setTip hp c (Some p) = Inr (chain_of hp p)"
proof -
  let ?h = "nat (bi_height b)"
  have h: "nat (bi_height b + 1) = ?h + 1" using tree_height_nonneg [OF assms(1,3)] by simp
  have "tip_walk (?h + 2) hp (chain_resize (?h + 1) c) (Some p)
      = Inr (chain_of hp p @ drop (?h + 1) (chain_resize (?h + 1) c))"
    by (rule tip_walk_ok [OF assms]) simp_all
  then show ?thesis using assms(3) h by (simp add: setTip_def deref_def del: tip_walk.simps)
qed

lemma chain_ok_chain_of: "hp p = Some b \<Longrightarrow> chain_ok hp (chain_of hp p)"
  by (auto simp: chain_ok_def)

lemma tip_chain_of: "hp p = Some b \<Longrightarrow> tip (chain_of hp p) = Some p"
  using nth_chain_of [of hp p b "nat (bi_height b)"] by (simp add: tip_def length_chain_of)


section \<open>Forks\<close>

text \<open>The specification of \<open>findFork\<close>: the highest index of the path that is in the chain.\<close>

definition last_common :: "chain \<Rightarrow> chain \<Rightarrow> ptr" where
  "last_common c path =
     (let ps = filter (\<lambda>p. p \<in> set c) path in if ps = [] then None else last ps)"

lemma last_common_snoc:
  "last_common c (path @ [p]) = (if p \<in> set c then p else last_common c path)"
  by (simp add: last_common_def)

lemma last_common_append:
  "\<forall>p \<in> set ps. p \<notin> set c \<Longrightarrow> last_common c (path @ ps) = last_common c path"
  by (simp add: last_common_def)

lemma fork_walk_ok:
  assumes "tree_ok hp" "chain_ok hp c"
  shows "hp p = Some b \<Longrightarrow> nat (bi_height b) + 1 < fuel \<Longrightarrow>
    fork_walk fuel hp c (Some p) = Inr (last_common c (chain_of hp p))"
proof (induction fuel arbitrary: p b)
  case 0
  then show ?case by simp
next
  case (Suc fuel)
  note cont = contains_chain_of [OF assms Suc.prems(1)]
  show ?case
  proof (cases "bi_pPrev b")
    case None
    moreover obtain f where "fuel = Suc f" using Suc.prems(2) by (cases fuel) auto
    ultimately show ?thesis
      using cont Suc.prems(1) chain_of_root [OF assms(1) Suc.prems(1) None]
      by (auto simp: deref_def last_common_def)
  next
    case (Some q)
    obtain e where e: "hp q = Some e" "bi_height b = bi_height e + 1" "0 \<le> bi_height e"
      using tree_okD [OF assms(1) Suc.prems(1)] Some by (auto simp: node_ok_def)
    have "fork_walk fuel hp c (Some q) = Inr (last_common c (chain_of hp q))"
      by (rule Suc.IH [OF e(1)]) (use Suc.prems(2) e in auto)
    then show ?thesis
      using cont Suc.prems(1) Some chain_of_snoc [OF assms(1) Suc.prems(1) Some]
      by (simp add: deref_def last_common_snoc)
  qed
qed

lemma chain_ok_nth_height:
  assumes "tree_ok hp" "chain_ok hp c" "hp q = Some d" "Some q \<in> set c"
  shows "bi_height d < int (length c)"
proof -
  have "chain_at c (bi_height d) = Some q"
    using contains_chain_of [OF assms(1-3)] assms(3,4) by (simp add: contains_def deref_def)
  then show ?thesis by (auto simp: chain_at_def split: if_splits)
qed

lemma chain_of_above:
  assumes "tree_ok hp" "chain_ok hp c" "hp a = Some b" "length c \<le> k" "p \<in> set (drop k (chain_of hp a))"
  shows "p \<notin> set c"
proof
  assume "p \<in> set c"
  obtain j where j: "j < length (drop k (chain_of hp a))" "p = drop k (chain_of hp a) ! j"
    using assms(5) by (metis in_set_conv_nth)
  then have i: "k + j \<le> nat (bi_height b)" "p = chain_of hp a ! (k + j)"
    using length_chain_of [where hp = hp, OF assms(3)] by auto
  then obtain q d where "p = Some q" "hp q = Some d" "bi_height d = int (k + j)"
    using nth_chain_of_height [OF assms(1,3) i(1)] by metis
  then show False
    using chain_ok_nth_height [OF assms(1,2), of q d] \<open>p \<in> set c\<close> assms(4) by simp
qed

lemma findFork_ok:
  assumes "tree_ok hp" "chain_ok hp c" "hp a = Some b"
  shows "findFork hp c a = Inr (last_common c (chain_of hp a))"
proof (cases "bi_height b > chain_height c")
  case False
  then show ?thesis
    using fork_walk_ok [OF assms] assms(3) by (simp add: findFork_def deref_def del: fork_walk.simps)
next
  case True
  show ?thesis
  proof (cases "c = []")
    case c: True
    have "last_common c (chain_of hp a) = None" by (simp add: last_common_def c)
    then show ?thesis
      using True c assms(3) getAncestor_eq [OF assms(1,3)]
      by (simp add: findFork_def deref_def chain_height_def)
  next
    case False
    let ?h = "length c - 1"
    have h: "chain_height c = int ?h" "?h + 1 = length c"
      using False by (simp_all add: chain_height_def Suc_leI of_nat_diff)
    have le: "?h \<le> nat (bi_height b)" using True h by simp
    obtain q d where q: "chain_of hp a ! ?h = Some q" "hp q = Some d" "bi_height d = int ?h"
      using nth_chain_of_height [OF assms(1,3) le] .
    have "getAncestor hp a (chain_height c) = Inr (Some q)"
    proof -
      have "nat (bi_height b) - ?h = nat (bi_height b - chain_height c)" using h(1) by simp
      then show ?thesis
        using True h(1) q(1) nth_chain_of [where hp = hp, OF assms(3) le]
          getAncestor_eq [OF assms(1,3), of "chain_height c"] by simp
    qed
    moreover have "fork_walk (nat (bi_height b) + 2) hp c (Some q) = Inr (last_common c (chain_of hp q))"
      by (rule fork_walk_ok [OF assms(1,2) q(2)]) (use q(3) le in simp)
    moreover have "last_common c (chain_of hp a) = last_common c (chain_of hp q)"
    proof -
      have "chain_of hp a = chain_of hp q @ drop (?h + 1) (chain_of hp a)"
        by (metis append_take_drop_id chain_of_prefix [OF assms(1,3) le q(1)])
      moreover have "\<forall>p \<in> set (drop (?h + 1) (chain_of hp a)). p \<notin> set c"
        using chain_of_above [OF assms] h by auto
      ultimately show ?thesis using last_common_append by metis
    qed
    ultimately show ?thesis using True assms(3) by (simp add: findFork_def deref_def del: fork_walk.simps)
  qed
qed

section \<open>Blocks by height\<close>

lemma block_scan_zero:
  "block_scan hp rit 0 k = Inr (if max k 1 \<le> length rit then rit ! (max k 1 - 1) else None)"
proof (induction rit arbitrary: k)
  case (Cons p rit)
  show ?case
  proof (cases "k \<le> 1")
    case True
    then show ?thesis by (auto simp: max_def)
  next
    case False
    then obtain m where "k = Suc (Suc m)" by (metis Suc_pred less_imp_Suc_add not_le One_nat_def add_0 gr0I diff_Suc_1 less_nat_zero_code plus_1_eq_Suc)
    then show ?thesis using Cons [of "Suc m"] by simp
  qed
qed (simp add: max_def)

lemma block_scan_start:
  assumes "0 < s"
  shows "(\<forall>p \<in> set high. \<exists>q d. p = Some q \<and> hp q = Some d \<and> bi_height d \<noteq> int s) \<Longrightarrow>
    hp q = Some d \<Longrightarrow> bi_height d = int s \<Longrightarrow>
    block_scan hp (high @ Some q # low) s k = block_scan hp (Some q # low) 0 k"
proof (induction high)
  case Nil
  then show ?case using assms by (simp add: deref_def)
next
  case (Cons p high)
  then obtain r e where "p = Some r" "hp r = Some e" "bi_height e \<noteq> int s" by auto
  then show ?case using Cons assms by (simp add: deref_def)
qed

lemma chain_of_derefs:
  assumes "tree_ok hp" "hp a = Some b" "i < length (chain_of hp a)"
  shows "\<exists>q d. chain_of hp a ! i = Some q \<and> hp q = Some d \<and> bi_height d = int i"
proof -
  have "i \<le> nat (bi_height b)" using assms(3) length_chain_of [where hp = hp, OF assms(2)] by simp
  from nth_chain_of_height [OF assms(1,2) this] show ?thesis by metis
qed

lemma rev_split: "i < length xs \<Longrightarrow> rev xs = rev (drop (Suc i) xs) @ xs ! i # rev (take i xs)"
  by (metis append.assoc append_Cons append_Nil id_take_nth_drop rev.simps(2) rev_append rev_rev_ident)

lemma getBlock_ok:
  assumes "tree_ok hp" "hp a = Some b" "int s \<le> bi_height b"
  shows "getBlock hp (chain_of hp a) s k =
    Inr (chain_at (chain_of hp a) ((if s = 0 then bi_height b else int s) - (int (max k 1) - 1)))"
proof -
  let ?c = "chain_of hp a" and ?t = "if s = 0 then nat (bi_height b) else s"
  have nn: "0 \<le> bi_height b" by (rule tree_height_nonneg [OF assms(1,2)])
  have len: "length ?c = nat (bi_height b) + 1" by (rule length_chain_of [where hp = hp, OF assms(2)])
  have t: "?t < length ?c" using len assms(3) by auto
  obtain q d where q: "?c ! ?t = Some q" "hp q = Some d" "bi_height d = int ?t"
    using chain_of_derefs [OF assms(1,2) t] by metis
  have scan: "getBlock hp ?c s k = block_scan hp (Some q # rev (take ?t ?c)) 0 k"
  proof (cases "s = 0")
    case True
    have "rev ?c = Some q # rev (take ?t ?c)" using rev_split [OF t] q(1) len True by simp
    then show ?thesis unfolding getBlock_def by (simp only: True)
  next
    case False
    have "\<exists>q d. p = Some q \<and> hp q = Some d \<and> bi_height d \<noteq> int s" if high: "p \<in> set (rev (drop (Suc ?t) ?c))" for p
    proof -
      obtain j where j: "j < length (drop (Suc ?t) ?c)" "p = drop (Suc ?t) ?c ! j"
        using high by (metis in_set_conv_nth set_rev)
      then have i: "Suc ?t + j < length ?c" "p = ?c ! (Suc ?t + j)" by auto
      obtain r e where "p = Some r" "hp r = Some e" "bi_height e = int (Suc ?t + j)"
        using chain_of_derefs [OF assms(1,2) i(1)] i(2) by metis
      then show ?thesis using False by auto
    qed
    then show ?thesis
      using False rev_split [OF t] q block_scan_start [of s "rev (drop (Suc ?t) ?c)" hp q d] by (simp add: getBlock_def)
  qed
  have "(Some q # rev (take ?t ?c)) ! (max k 1 - 1) = ?c ! (?t - (max k 1 - 1))"
    if "max k 1 \<le> Suc ?t"
    using that q(1) t by (cases "max k 1 - 1") (auto simp: rev_nth nth_Cons')
  moreover have "int ?t = (if s = 0 then bi_height b else int s)" using nn by simp
  ultimately show ?thesis
    using t by (auto simp: scan block_scan_zero chain_at_def min_def max_def nat_diff_distrib)
qed

section \<open>Median time\<close>

definition time_at :: "heap \<Rightarrow> ptr \<Rightarrow> int" where
  "time_at hp p = (case p of None \<Rightarrow> 0 | Some a \<Rightarrow> (case hp a of None \<Rightarrow> 0 | Some b \<Rightarrow> getTimeval b))"

lemma block_times_ok:
  "(\<forall>p \<in> set rit. \<exists>q d. p = Some q \<and> hp q = Some d) \<Longrightarrow> length acc < n \<Longrightarrow>
    block_times hp n rit acc = Inr (acc @ map (time_at hp) (take (n - length acc) rit))"
proof (induction rit arbitrary: acc)
  case (Cons p rit)
  then obtain q d where q: "p = Some q" "hp q = Some d" by auto
  let ?acc = "acc @ [getTimeval d]"
  have k: "n - length acc = Suc (n - length ?acc)" using Cons.prems(2) by simp
  show ?case
  proof (cases "length ?acc = n")
    case True
    then show ?thesis using q k by (simp add: deref_def time_at_def)
  next
    case False
    then have "block_times hp n rit ?acc = Inr (?acc @ map (time_at hp) (take (n - length ?acc) rit))"
      by (intro Cons.IH) (use Cons.prems in auto)
    then show ?thesis using q k False by (simp add: deref_def time_at_def Let_def)
  qed
qed simp

lemma median_ok:
  assumes "tree_ok hp" "chain_ok hp c" "0 < n"
  shows "getMedianBlockTimePastInChain hp c n =
    Inr (if c = [] then 0
         else let ts = sort (map (time_at hp) (take n (rev c))) in ts ! (length ts div 2))"
proof (cases "c = []")
  case True
  then show ?thesis by (simp add: getMedianBlockTimePastInChain_def)
next
  case False
  then obtain a b where a: "hp a = Some b" "c = chain_of hp a" using assms(2) by (auto simp: chain_ok_def)
  have "\<forall>p \<in> set (rev c). \<exists>q d. p = Some q \<and> hp q = Some d"
    using chain_of_derefs [OF assms(1) a(1)] a(2) by (metis in_set_conv_nth set_rev)
  then show ?thesis
    using False block_times_ok [of "rev c" hp "[]" n] assms(3)
    by (simp add: getMedianBlockTimePastInChain_def Let_def)
qed

text \<open>The element in the middle of the sorted list is a median.\<close>

lemma sorted_below:
  fixes xs :: "'a::linorder list"
  shows "sorted xs \<Longrightarrow> k < length xs \<Longrightarrow> length (filter (\<lambda>x. x < xs ! k) xs) \<le> k"
proof -
  assume s: "sorted xs" "k < length xs"
  have "filter (\<lambda>x. x < xs ! k) (drop k xs) = []"
    using s by (auto simp: filter_empty_conv in_set_conv_nth not_less sorted_nth_mono)
  then have "filter (\<lambda>x. x < xs ! k) xs = filter (\<lambda>x. x < xs ! k) (take k xs)"
    by (metis append.right_neutral append_take_drop_id filter_append)
  moreover have "length (filter (\<lambda>x. x < xs ! k) (take k xs)) \<le> k"
    by (rule order_trans [OF length_filter_le]) simp
  ultimately show ?thesis by simp
qed

lemma sorted_above:
  fixes xs :: "'a::linorder list"
  shows "sorted xs \<Longrightarrow> k < length xs \<Longrightarrow> length (filter (\<lambda>x. x > xs ! k) xs) \<le> length xs - Suc k"
proof -
  assume s: "sorted xs" "k < length xs"
  have "filter (\<lambda>x. x > xs ! k) (take (Suc k) xs) = []"
    using s by (auto simp: filter_empty_conv in_set_conv_nth not_less sorted_nth_mono)
  then have "filter (\<lambda>x. x > xs ! k) xs = filter (\<lambda>x. x > xs ! k) (drop (Suc k) xs)"
    by (metis append_Nil append_take_drop_id filter_append)
  moreover have "length (filter (\<lambda>x. x > xs ! k) (drop (Suc k) xs)) \<le> length xs - Suc k"
    by (rule order_trans [OF length_filter_le]) simp
  ultimately show ?thesis by simp
qed

lemma sort_median:
  fixes ts :: "'a::linorder list"
  assumes "ts \<noteq> []" "m = sort ts ! (length ts div 2)"
  shows "m \<in> set ts" and "length (filter (\<lambda>t. t < m) ts) \<le> length ts div 2"
    and "length (filter (\<lambda>t. t > m) ts) \<le> length ts div 2"
proof -
  have k: "length ts div 2 < length (sort ts)" using assms(1) by simp
  show "m \<in> set ts" using assms(2) nth_mem [OF k] by simp
  have perm: "length (filter P (sort ts)) = length (filter P ts)" for P
    by (metis filter_sort length_sort)
  show "length (filter (\<lambda>t. t < m) ts) \<le> length ts div 2"
    using sorted_below [OF sorted_sort k] by (simp add: perm assms(2))
  have "length (filter (\<lambda>t. t > m) ts) \<le> length ts - Suc (length ts div 2)"
    using sorted_above [OF sorted_sort k] by (simp add: perm assms(2))
  then show "length (filter (\<lambda>t. t > m) ts) \<le> length ts div 2" by linarith
qed

section \<open>Properties\<close>

text \<open>A tree of three indexes with a fork, for the witnesses: 0 is the root, 1 and 2 are its successors.\<close>

definition example_tree :: heap where
  "example_tree =
     [0 \<mapsto> example_block,
      1 \<mapsto> example_block\<lparr>bi_height := 1, bi_pPrev := Some 0, bi_pSkip := Some 0, bi_timeval := 5\<rparr>,
      2 \<mapsto> example_block\<lparr>bi_height := 1, bi_pPrev := Some 0, bi_pSkip := Some 0, bi_timeval := 7\<rparr>]"

lemma example_tree_ok: "tree_ok example_tree"
  by (simp add: tree_ok_def node_ok_def example_tree_def example_block_def new_BlockIndex_def Let_def
    getSkipHeight_def)

lemma example_tree_nodes:
  "example_tree (Suc 0) \<noteq> None" "example_tree 2 \<noteq> None"
  "bi_height (the (example_tree (Suc 0))) = 1" "bi_height (the (example_tree 2)) = 1"
  by (simp_all add: example_tree_def)

lemma example_tree_paths:
  "chain_of example_tree (Suc 0) = [Some 0, Some (Suc 0)]" "chain_of example_tree 2 = [Some 0, Some 2]"
  by (simp_all add: chain_of_def example_tree_def)

text \<open>
  C24: \<open>setTip\<close> makes the chain the path from the root to the new tip, whichever path of the tree the
  chain was before: the early exit of its loop never leaves a stale entry, and the loop ends within
  height + 2 steps and in the bounds of the vector.
\<close>

theorem setTip_activates_path:
  assumes "tree_ok hp" "chain_ok hp c" "hp p = Some b"
  shows "setTip hp c (Some p) = Inr (chain_of hp p) \<and> tip (chain_of hp p) = Some p \<and>
    chain_ok hp (chain_of hp p) \<and> chain_height (chain_of hp p) = bi_height b"
  using setTip_ok [OF assms] tip_chain_of [where hp = hp, OF assms(3)]
    chain_ok_chain_of [where hp = hp, OF assms(3)] length_chain_of [where hp = hp, OF assms(3)]
    tree_height_nonneg [OF assms(1,3)]
  by (simp add: chain_height_def)

theorem setTip_activates_path_witness:
  "setTip example_tree [Some 0, Some 1] (Some 2) = Inr [Some 0, Some 2]"
proof -
  have "chain_ok example_tree [Some 0, Some 1]"
    using example_tree_paths example_tree_nodes by (force simp: chain_ok_def)
  then show ?thesis
    using setTip_activates_path [OF example_tree_ok, of "[Some 0, Some 1]" 2 "the (example_tree 2)"]
      example_tree_nodes example_tree_paths by auto
qed

text \<open>
  C37: \<open>findFork\<close> ends and returns the highest index that the path of the given index shares with the
  chain, and \<open>NULL\<close> exactly when they share none.
\<close>

theorem findFork_last_common:
  assumes "tree_ok hp" "chain_ok hp c" "hp a = Some b"
  shows "findFork hp c a = Inr (last_common c (chain_of hp a)) \<and>
    (last_common c (chain_of hp a) = None \<longleftrightarrow> set c \<inter> set (chain_of hp a) = {})"
proof
  show "findFork hp c a = Inr (last_common c (chain_of hp a))" by (rule findFork_ok [OF assms])
  have some: "p \<noteq> None" if "p \<in> set (chain_of hp a)" for p
    using chain_of_derefs [OF assms(1,3)] that by (metis in_set_conv_nth option.distinct(1))
  let ?ps = "filter (\<lambda>p. p \<in> set c) (chain_of hp a)"
  show "last_common c (chain_of hp a) = None \<longleftrightarrow> set c \<inter> set (chain_of hp a) = {}"
  proof (cases "?ps = []")
    case True
    then show ?thesis by (auto simp: last_common_def filter_empty_conv)
  next
    case False
    then have "last ?ps \<noteq> None" using last_in_set [OF False] some by auto
    moreover have "set c \<inter> set (chain_of hp a) \<noteq> {}" using False by (auto simp: filter_empty_conv)
    ultimately show ?thesis using False by (simp add: last_common_def)
  qed
qed

theorem findFork_last_common_witness: "findFork example_tree [Some 0, Some 1] 2 = Inr (Some 0)"
proof -
  have "chain_ok example_tree [Some 0, Some 1]"
    using example_tree_paths example_tree_nodes by (force simp: chain_ok_def)
  then show ?thesis
    using findFork_last_common [OF example_tree_ok, of "[Some 0, Some 1]" 2 "the (example_tree 2)"]
      example_tree_nodes example_tree_paths by (auto simp: last_common_def)
qed

text \<open>
  \<open>getBlock(s, k)\<close> returns the block \<open>k - 1\<close> below height \<open>s\<close>, where \<open>s = 0\<close> stands for the tip
  and \<open>k = 0\<close> counts as 1, and \<open>NULL\<close> when there is none.
\<close>

theorem getBlock_by_height:
  assumes "tree_ok hp" "hp a = Some b" "int s \<le> bi_height b"
  shows "getBlock hp (chain_of hp a) s k =
    Inr (chain_at (chain_of hp a) ((if s = 0 then bi_height b else int s) - (int (max k 1) - 1)))"
  by (rule getBlock_ok [OF assms])

theorem getBlock_by_height_witness: "getBlock example_tree [Some 0, Some 2] 1 2 = Inr (Some 0)"
  using getBlock_by_height [OF example_tree_ok, of 2 "the (example_tree 2)" 1 2]
    example_tree_nodes example_tree_paths by (auto simp: chain_at_def)

text \<open>
  C38: a block time is accepted exactly when it is at most two hours ahead of the adjusted time and
  not before a median of the times of the last eleven blocks (0 for the empty chain): at most half of
  these times are below the median and at most half above it.
\<close>

theorem validBlockTime_median:
  assumes "tree_ok hp" "chain_ok hp c"
  shows "\<exists>m. validBlockTime hp c adj t = Inr (t \<le> adj + 7200 \<and> m \<le> t) \<and>
    (if c = [] then m = 0
     else let ts = map (time_at hp) (take 11 (rev c)) in
       m \<in> set ts \<and> length (filter (\<lambda>x. x < m) ts) \<le> length ts div 2 \<and>
       length (filter (\<lambda>x. x > m) ts) \<le> length ts div 2)"
proof -
  let ?ts = "map (time_at hp) (take 11 (rev c))"
  let ?m = "if c = [] then 0 else sort ?ts ! (length ?ts div 2)"
  have "getMedianBlockTimePastInChain hp c 11 = Inr ?m"
    using median_ok [OF assms, of 11] by (simp add: Let_def)
  then have "validBlockTime hp c adj t = Inr (t \<le> adj + 7200 \<and> ?m \<le> t)"
    by (simp only: validBlockTime_def bindE_simps) (simp add: not_less)
  moreover have "c \<noteq> [] \<Longrightarrow> ?ts \<noteq> []" by simp
  ultimately show ?thesis
    using sort_median [of ?ts ?m] by (intro exI [of _ ?m]) (auto simp: Let_def)
qed

theorem validBlockTime_median_witness:
  "\<exists>m :: int. m \<in> {0, 7} \<and> validBlockTime example_tree [Some 0, Some 2] 10 7 = Inr (m \<le> 7)"
proof -
  have "chain_ok example_tree [Some 0, Some 2]"
    using example_tree_paths example_tree_nodes by (force simp: chain_ok_def)
  then obtain m where m: "validBlockTime example_tree [Some 0, Some 2] 10 7 = Inr (7 \<le> (10::int) + 7200 \<and> m \<le> 7)"
    "m \<in> set (map (time_at example_tree) (take 11 (rev [Some 0, Some 2])))"
    using validBlockTime_median [OF example_tree_ok, of "[Some 0, Some 2]" 10 7] by (auto simp: Let_def)
  have "m \<in> {0, 7}" using m(2) by (auto simp: time_at_def example_tree_def example_block_def
    new_BlockIndex_def Let_def getTimeval_def new_Block_def new_BlockHeader_def)
  then show ?thesis using m(1) by auto
qed

end
