(* ===== verification/Consensus.thy ===== *)
theory Consensus
  imports Merkle Chain
begin

text \<open>
  The proof-of-work rules of \<open>libs/blockchain/consensus.cpp\<close>: the consensus arguments, the subsidy, the
  validity of a proof, the retargeting of the difficulty, the assembly of a new block and the search
  for a proof. The digest \<open>sha256\<close>, the clock (\<open>getAdjustedTime\<close>), the heap of block indexes and the
  active chain are arguments. The difficulty and the hash rate, floating point values that are only
  logged, are left out; the division of \<open>arith_uint256\<close> that feeds them can throw and is kept.

  The lemmas characterise a valid proof, bound the subsidy of all blocks, give the retargeting rule
  when the product does not overflow and show that it overflows at the initial difficulty, and show
  that the stream patched by the search loop hashes to the hash of the header, so that a found block
  has a valid proof.
\<close>

unbundle bit_operations_syntax

section \<open>Definitions\<close>

definition liftE :: "chain_error \<Rightarrow> ('e, 'a) result \<Rightarrow> 'a chain_result" where
  "liftE e m = (case m of Inl _ \<Rightarrow> Inl e | Inr x \<Rightarrow> Inr x)"

lemma liftE_simps [simp]: "liftE e (Inl x) = Inl e" "liftE e (Inr y) = Inr y"
  by (simp_all add: liftE_def)

datatype ARGS_TYPE = NORMAL | TEST

record ConsensusArgs =
  ca_p_difficulty_1_target :: base_uint
  ca_b_difficulty_1_target :: base_uint
  ca_cycleBlockHeight :: uint32
  ca_cycleTimestamp :: uint32
  ca_subsidyHalvingInterval :: uint32
  ca_valueUnit :: uint64
  ca_hashBlockGenesis :: base_blob
  ca_maxBlockSerializedSize :: uint32
  ca_maxBlockWeight :: uint32
  ca_maxBlockSigopsCost :: int

definition create :: "ARGS_TYPE \<Rightarrow> ConsensusArgs" where
  "create type =
     (case type of
        NORMAL \<Rightarrow>
          \<lparr>ca_p_difficulty_1_target =
             arith_setHex ''0x0000FFFFFFFFFFFFFFFFFFFFFFFFFFFFFFFFFFFFFFFFFFFFFFFFFFFFFFFFFFFF'',
           ca_b_difficulty_1_target =
             arith_setHex ''0x0000FFFF00000000000000000000000000000000000000000000000000000000'',
           ca_cycleBlockHeight = 2016, ca_cycleTimestamp = 14 * 24 * 60 * 60,
           ca_subsidyHalvingInterval = 210000, ca_valueUnit = 100000000,
           ca_hashBlockGenesis = uint256S ''0'', ca_maxBlockSerializedSize = 4000000,
           ca_maxBlockWeight = 4000000, ca_maxBlockSigopsCost = 4000000 div 50\<rparr>
      | TEST \<Rightarrow>
          \<lparr>ca_p_difficulty_1_target =
             arith_setHex ''0x0000FFFFFFFFFFFFFFFFFFFFFFFFFFFFFFFFFFFFFFFFFFFFFFFFFFFFFFFFFFFF'',
           ca_b_difficulty_1_target =
             arith_setHex ''0x0000FFFF00000000000000000000000000000000000000000000000000000000'',
           ca_cycleBlockHeight = 2016, ca_cycleTimestamp = 14 * 24 * 60 * 60,
           ca_subsidyHalvingInterval = 210000, ca_valueUnit = 100000000,
           ca_hashBlockGenesis = uint256S ''0'', ca_maxBlockSerializedSize = 4000000,
           ca_maxBlockWeight = 4000000, ca_maxBlockSigopsCost = 4000000 div 50\<rparr>)"

text \<open>An integer division by zero ends the program; it is the error \<open>ChainArith DivisionByZero\<close>.\<close>

definition calculateSubsidyValue :: "ConsensusArgs \<Rightarrow> uint32 \<Rightarrow> uint64 chain_result" where
  "calculateSubsidyValue args blockHeight =
     (if ca_subsidyHalvingInterval args = 0 then Inl (ChainArith DivisionByZero)
      else let halvings = sint (blockHeight div ca_subsidyHalvingInterval args)
           in if halvings \<ge> 64 then Inr 0
              else if halvings < 0 then Inl ChainOutOfRange
              else Inr (drop_bit (nat halvings) (50 * ca_valueUnit args)))"

definition validProofOfWork :: "ConsensusArgs \<Rightarrow> base_blob \<Rightarrow> uint32 \<Rightarrow> bool" where
  "validProofOfWork args hash nBits =
     (let (target, isNegative, isOverflow) = setCompact nBits
      in if isNegative \<or> equalTo target 0 \<or> isOverflow \<or>
            op_gt target (ca_p_difficulty_1_target args) then False
         else if op_gt (uintToArith256 hash) target then False
         else True)"

definition calculateNextWorkTarget ::
  "ConsensusArgs \<Rightarrow> heap \<Rightarrow> chain \<Rightarrow> ptr \<Rightarrow> uint32 chain_result" where
  "calculateNextWorkTarget args hp c pLastBlockIndex =
     bindE (deref hp pLastBlockIndex) (\<lambda>l.
     bindE (getBlock hp c (nat (bi_height l)) (unat (ca_cycleBlockHeight args))) (\<lambda>pFirstBlockIndex.
     if pFirstBlockIndex = None then Inl ChainAssert else
     bindE (deref hp pFirstBlockIndex) (\<lambda>f.
     let diffTimestamp = (of_int (getTimeval l - getTimeval f) :: uint32);
         diffTimestamp = (if diffTimestamp < ca_cycleTimestamp args div 4
                          then ca_cycleTimestamp args div 4 else diffTimestamp);
         diffTimestamp = (if diffTimestamp > ca_cycleTimestamp args * 4
                          then ca_cycleTimestamp args * 4 else diffTimestamp);
         bnNew = fst (setCompact (bi_bits l));
         bnNew = op_mul_assign_u32 bnNew diffTimestamp
     in case op_div_assign bnNew (base_uint_of_u64 (ucast (ca_cycleTimestamp args))) of
          Inl e \<Rightarrow> Inl (ChainArith e)
        | Inr bnNew \<Rightarrow>
            let bnNew = (if op_gt bnNew (ca_p_difficulty_1_target args)
                         then ca_p_difficulty_1_target args else bnNew)
            in liftE ChainCompact (getCompact False bnNew))))"

definition getNextWorkTarget ::
  "ConsensusArgs \<Rightarrow> heap \<Rightarrow> chain \<Rightarrow> ptr \<Rightarrow> uint32 chain_result" where
  "getNextWorkTarget args hp c pLastBlockIndex =
     bindE (deref hp pLastBlockIndex) (\<lambda>l.
     let currBlockHeight = (of_int (bi_height l + 1) :: uint32)
     in if currBlockHeight < ca_cycleBlockHeight args then Inr (bi_bits l)
        else if ca_cycleBlockHeight args = 0 then Inl (ChainArith DivisionByZero)
        else if currBlockHeight mod ca_cycleBlockHeight args \<noteq> 1 then Inr (bi_bits l)
        else calculateNextWorkTarget args hp c pLastBlockIndex)"

text \<open>\<open>getWorkTarget\<close> reads the height of the index it found before it tests the pointer for null.\<close>

definition getWorkTarget ::
  "ConsensusArgs \<Rightarrow> heap \<Rightarrow> chain \<Rightarrow> (base_blob \<Rightarrow> ptr) \<Rightarrow> Block \<Rightarrow> uint32 chain_result" where
  "getWorkTarget args hp c findBlockIndex pBlock =
     (let pPrevBlockIndex = findBlockIndex (h_hashPrevBlock (b_header pBlock))
      in bindE (deref hp pPrevBlockIndex) (\<lambda>p.
         if ca_cycleBlockHeight args = 0 then Inl (ChainArith DivisionByZero)
         else if (of_int (bi_height p + 1) :: uint32) mod ca_cycleBlockHeight args \<noteq> 1 \<and>
                 pPrevBlockIndex = None then Inr 0
         else if pPrevBlockIndex = None then Inl ChainAssert
         else getNextWorkTarget args hp c pPrevBlockIndex))"

definition consensus_validBlock :: "ConsensusArgs \<Rightarrow> digest \<Rightarrow> Block \<Rightarrow> bool chain_result" where
  "consensus_validBlock args sha256 pBlock =
     bindE (liftE ChainStream (block_getHash sha256 pBlock)) (\<lambda>hash.
     if \<not> validProofOfWork args hash (h_bits (b_header pBlock)) then Inr False else Inr True)"

record miner =
  mi_userHash :: string
  mi_userGas :: uint64
  mi_transactions :: "Transaction list"

definition createNewBlock ::
  "ConsensusArgs \<Rightarrow> digest \<Rightarrow> heap \<Rightarrow> chain \<Rightarrow> miner \<Rightarrow> int \<Rightarrow> uint32 \<Rightarrow> uint32 \<Rightarrow> uint32 \<Rightarrow> ptr \<Rightarrow>
     Block chain_result" where
  "createNewBlock args sha256 hp c m adjustedTime nBits proof extraProof pTipBlockIndex =
     bindE (deref hp pTipBlockIndex) (\<lambda>t.
     case bi_phashBlock t of
       None \<Rightarrow> Inl NullDeref
     | Some hashPrev \<Rightarrow>
         bindE (if nBits = 0 then getNextWorkTarget args hp c pTipBlockIndex else Inr nBits) (\<lambda>nBits.
         bindE (calculateSubsidyValue args (of_int (bi_height t + 1))) (\<lambda>subsidy.
         let header = new_BlockHeader\<lparr>h_timeval := of_int adjustedTime, h_proof := proof,
                        h_hashPrevBlock := hashPrev, h_bits := nBits\<rparr>;
             base = \<lparr>tx_sender = ''0'', tx_recipient = mi_userHash m,
                     tx_value = subsidy - mi_userGas m, tx_magic = extraProof\<rparr>;
             block = addTransactions (mi_transactions m) \<lparr>b_transactions = [base], b_header = header\<rparr>
         in bindE (liftE ChainMerkle (BlockMerkleRoot sha256 block)) (\<lambda>(root, mutated).
            Inr (block\<lparr>b_header := header\<lparr>h_hashMerkleRoot := root\<rparr>\<rparr>)))))"

section \<open>The search for a proof\<close>

definition innerLoopCount :: uint32 where
  "innerLoopCount = 0x10000"

definition maxTries :: nat where
  "maxTries = 2 ^ 32 - 1"

text \<open>One round of the inner loop: the proof in the header is counted up and written over the old one.\<close>

definition proof_step :: "digest \<Rightarrow> nat \<Rightarrow> BlockHeader \<Rightarrow> ByteBuffer \<Rightarrow>
    (BlockHeader \<times> ByteBuffer \<times> base_blob) chain_result" where
  "proof_step sha256 woffset header stream =
     (let header = header\<lparr>h_proof := h_proof header + 1\<rparr>
      in bindE (liftE ChainStream (append_word (h_proof header) (set_wpos (int woffset) stream))) (\<lambda>stream.
         Inr (header, stream, hash_stream sha256 stream)))"

function proof_loop :: "ConsensusArgs \<Rightarrow> digest \<Rightarrow> nat \<Rightarrow> nat \<Rightarrow> BlockHeader \<Rightarrow> ByteBuffer \<Rightarrow>
    (nat \<times> BlockHeader) chain_result" where
  "proof_loop args sha256 woffset tries header stream =
     bindE (proof_step sha256 woffset header stream) (\<lambda>(header', stream, hash2562).
     if tries + 1 < maxTries \<and> h_proof header' < innerLoopCount \<and>
        \<not> validProofOfWork args hash2562 (h_bits header')
     then proof_loop args sha256 woffset (tries + 1) header' stream
     else Inr (tries + 1, header'))"
  by pat_completeness auto
termination
  by (relation "measure (\<lambda>(args, sha256, woffset, tries, header, stream). maxTries - tries)") auto

declare proof_loop.simps [simp del]

definition proof_search :: "ConsensusArgs \<Rightarrow> digest \<Rightarrow> nat \<Rightarrow> BlockHeader \<Rightarrow> (nat \<times> BlockHeader) chain_result" where
  "proof_search args sha256 tries header =
     bindE (liftE ChainStream (header_serialize header new_buffer)) (\<lambda>stream.
       proof_loop args sha256 (m_wpos stream - 4) tries header stream)"

section \<open>Valid proofs\<close>

definition target_of :: "uint32 \<Rightarrow> nat" where
  "target_of nBits = val (fst (setCompact nBits))"

lemma wf256_setCompact: "wf256 (fst (setCompact nBits))"
  using setCompact_correct [of nBits] by (metis prod.collapse)

lemma validProofOfWork_iff:
  assumes "wf256 (ca_p_difficulty_1_target args)" "length hash = UINT256_WIDTH"
  shows "validProofOfWork args hash nBits \<longleftrightarrow>
    \<not> fst (snd (setCompact nBits)) \<and> \<not> snd (snd (setCompact nBits)) \<and>
    0 < target_of nBits \<and> target_of nBits \<le> val (ca_p_difficulty_1_target args) \<and>
    le_val hash \<le> target_of nBits"
proof -
  obtain a neg ovf where s: "setCompact nBits = (a, neg, ovf)" using prod_cases3 by blast
  have a: "wf256 a" using wf256_setCompact [of nBits] s by simp
  then show ?thesis
    using s assms op_order(1) [OF a assms(1)] op_order(1) [OF wf256_uintToArith256 a]
    by (auto simp: validProofOfWork_def target_of_def equalTo_correct val_uintToArith256)
qed

lemma hexDigit_chars:
  "hexDigit (CHR ''0'') = 0" "hexDigit (CHR ''F'') = 15" "hexDigit (CHR ''x'') = - 1"
  by (simp_all add: hexDigit_def p_util_hexdigit_def nth_append)

lemma target_digits:
  "hex_digits ''0x0000FFFFFFFFFFFFFFFFFFFFFFFFFFFFFFFFFFFFFFFFFFFFFFFFFFFFFFFFFFFF'' =
     ''0000FFFFFFFFFFFFFFFFFFFFFFFFFFFFFFFFFFFFFFFFFFFFFFFFFFFFFFFFFFFF''"
  "hex_digits ''0x0000FFFF00000000000000000000000000000000000000000000000000000000'' =
     ''0000FFFF00000000000000000000000000000000000000000000000000000000''"
  by (simp_all add: hex_digits_def skip_0x_def isspace_def hexDigit_chars)

lemma target_values:
  "hex_val ''0000FFFFFFFFFFFFFFFFFFFFFFFFFFFFFFFFFFFFFFFFFFFFFFFFFFFFFFFFFFFF'' = 2 ^ 240 - 1"
  "hex_val ''0000FFFF00000000000000000000000000000000000000000000000000000000'' = 65535 * 2 ^ 224"
  by (simp_all add: hex_val_def hexDigit_chars)

lemma create_args:
  "create TEST = create NORMAL"
  "wf256 (ca_p_difficulty_1_target (create t))" "val (ca_p_difficulty_1_target (create t)) = 2 ^ 240 - 1"
  "wf256 (ca_b_difficulty_1_target (create t))" "val (ca_b_difficulty_1_target (create t)) = 65535 * 2 ^ 224"
  by (cases t; simp add: create_def arith_setHex_correct target_digits target_values)+

section \<open>The subsidy\<close>

lemma drop_bit_sum_bound:
  fixes s :: nat
  shows "(\<Sum>i < n. s div 2 ^ i) \<le> 2 * s"
proof -
  have "(\<Sum>i < n. s div 2 ^ i) + 2 * (s div 2 ^ n) \<le> 2 * s"
  proof (induction n)
    case (Suc n)
    have "s div 2 ^ Suc n = s div 2 ^ n div 2" by (simp only: power_Suc2 div_mult2_eq)
    then have "2 * (s div 2 ^ Suc n) \<le> s div 2 ^ n" by simp
    then show ?case using Suc by (simp only: sum.lessThan_Suc)
  qed simp
  then show ?thesis by linarith
qed

lemma sint_small: "unat (w :: uint32) < 2 ^ 31 \<Longrightarrow> sint w = int (unat w)"
proof -
  assume "unat w < 2 ^ 31"
  then have "int (unat w) < int (2 ^ 31)" by (simp only: of_nat_less_iff)
  then have "signed_take_bit 31 (uint w) = uint w"
    by (intro signed_take_bit_int_eq_self order_trans [of "- (2 ^ 31)" 0 "uint w"]) simp_all
  then show ?thesis by (simp add: sint_uint)
qed

definition subsidy :: "ConsensusArgs \<Rightarrow> nat \<Rightarrow> nat" where
  "subsidy args height = unat (50 * ca_valueUnit args) div 2 ^ (height div unat (ca_subsidyHalvingInterval args))"

lemma calculateSubsidyValue_eq:
  assumes "1 < ca_subsidyHalvingInterval args"
  shows "\<exists>v. calculateSubsidyValue args h = Inr v \<and> unat v = subsidy args (unat h)"
proof -
  let ?k = "ca_subsidyHalvingInterval args" and ?s = "50 * ca_valueUnit args :: uint64"
  let ?n = "h div ?k"
  have k: "1 < unat ?k" using assms by (simp add: word_less_nat_alt)
  have n: "unat ?n = unat h div unat ?k" by (simp add: unat_div)
  have "unat h div unat ?k \<le> unat h div 2" using k by (intro div_le_mono2) auto
  then have "unat ?n < 2 ^ 31" using n uint32_bound [of h] by simp
  then have si: "sint ?n = int (unat ?n)" by (rule sint_small)
  have "?k \<noteq> 0" using k by auto
  then have eq: "calculateSubsidyValue args h = Inr (if unat ?n < 64 then drop_bit (unat ?n) ?s else 0)"
  proof -
    define m where "m = unat ?n"
    have "sint ?n = int m" by (simp only: si m_def)
    with \<open>?k \<noteq> 0\<close> show ?thesis unfolding calculateSubsidyValue_def Let_def m_def [symmetric] by simp
  qed
  show ?thesis
  proof (cases "unat ?n < 64")
    case True
    then show ?thesis
      unfolding eq subsidy_def n [symmetric]
      by (intro exI [of _ "drop_bit (unat ?n) ?s"]) (simp only: unat_drop_bit if_True)
  next
    case False
    have "unat ?s < 2 ^ 64" using unat_bound [of ?s] by simp
    also have "(2::nat) ^ 64 \<le> 2 ^ unat ?n" using False by (intro power_increasing) auto
    finally have "unat ?s div 2 ^ unat ?n = 0" by (rule div_less)
    with False show ?thesis
      unfolding eq subsidy_def n [symmetric] by (intro exI [of _ 0]) (simp only: if_False unat_0)
  qed
qed

text \<open>Every halving period of blocks issues at most half of what the period before it did.\<close>

lemma subsidy_sum_bound:
  assumes "0 < unat (ca_subsidyHalvingInterval args)"
  shows "(\<Sum>h < n. subsidy args h) \<le> 2 * unat (50 * ca_valueUnit args) * unat (ca_subsidyHalvingInterval args)"
proof -
  let ?k = "unat (ca_subsidyHalvingInterval args)" and ?s = "unat (50 * ca_valueUnit args)"
  have "(\<Sum>h < n. subsidy args h) \<le> (\<Sum>h < n * ?k. subsidy args h)"
    using assms by (intro sum_mono2) auto
  also have "\<dots> = (\<Sum>i < n. \<Sum>h < ?k. subsidy args (i * ?k + h))"
  proof -
    have "(\<Sum>h < ?k. subsidy args (i * ?k + h)) = (\<Sum>h \<in> {i * ?k..<i * ?k + ?k}. subsidy args h)" for i
      using sum.shift_bounds_nat_ivl [of "subsidy args" 0 "i * ?k" ?k]
      by (simp add: atLeast0LessThan add.commute)
    then show ?thesis by (simp add: sum.nat_group)
  qed
  also have "\<dots> = (\<Sum>i < n. ?k * (?s div 2 ^ i))"
    using assms by (intro sum.cong refl) (simp add: subsidy_def)
  also have "\<dots> = ?k * (\<Sum>i < n. ?s div 2 ^ i)" by (simp add: sum_distrib_left)
  also have "\<dots> \<le> ?k * (2 * ?s)" by (intro mult_le_mono2 drop_bit_sum_bound)
  finally show ?thesis by (simp add: mult.commute)
qed

section \<open>Retargeting\<close>

definition clamp_timespan :: "ConsensusArgs \<Rightarrow> uint32 \<Rightarrow> uint32" where
  "clamp_timespan args d =
     (let d = (if d < ca_cycleTimestamp args div 4 then ca_cycleTimestamp args div 4 else d)
      in if d > ca_cycleTimestamp args * 4 then ca_cycleTimestamp args * 4 else d)"

text \<open>The target before encoding, as the code computes it: the product is reduced modulo $2^{256}$.\<close>

definition next_target :: "ConsensusArgs \<Rightarrow> uint32 \<Rightarrow> uint32 \<Rightarrow> nat" where
  "next_target args nBits d =
     min (val (ca_p_difficulty_1_target args))
       (target_of nBits * unat (clamp_timespan args d) mod 2 ^ 256 div unat (ca_cycleTimestamp args))"

lemma calculateNextWorkTarget_eq:
  assumes "wf256 (ca_p_difficulty_1_target args)" "ca_cycleTimestamp args \<noteq> 0"
    "hp l = Some lb" "getBlock hp c (nat (bi_height lb)) (unat (ca_cycleBlockHeight args)) = Inr (Some f)"
    "hp f = Some fb"
  shows "\<exists>t nBits. calculateNextWorkTarget args hp c (Some l) = Inr nBits \<and> wf256 t \<and>
    getCompact False t = Inr nBits \<and>
    val t = next_target args (bi_bits lb) (of_int (getTimeval lb - getTimeval fb))"
proof -
  let ?d = "clamp_timespan args (of_int (getTimeval lb - getTimeval fb))"
  let ?T = "base_uint_of_u64 (ucast (ca_cycleTimestamp args))"
  let ?m = "op_mul_assign_u32 (fst (setCompact (bi_bits lb))) ?d"
  have m: "wf256 ?m" "val ?m = target_of (bi_bits lb) * unat ?d mod 2 ^ 256"
    using op_mul_assign_u32_correct [OF wf256_setCompact] by (simp_all add: target_of_def)
  have T: "val ?T = unat (ca_cycleTimestamp args)" by (simp only: val_of_u64 unat_ucast_32_64)
  have "unat (ca_cycleTimestamp args) \<noteq> 0" using assms(2) by (simp add: unat_eq_zero)
  then obtain q where q: "op_div_assign ?m ?T = Inr q" "wf256 q" "val q = val ?m div unat (ca_cycleTimestamp args)"
    using op_div_assign_correct [OF m(1), of ?T] T by auto
  let ?t = "if op_gt q (ca_p_difficulty_1_target args) then ca_p_difficulty_1_target args else q"
  have t: "wf256 ?t" "val ?t = next_target args (bi_bits lb) (of_int (getTimeval lb - getTimeval fb))"
    using q assms(1) m(2) op_order(1) [OF q(2) assms(1)] by (auto simp: next_target_def)
  obtain nBits where n: "getCompact False ?t = Inr nBits" using getCompact_correct [OF t(1)] by blast
  have "calculateNextWorkTarget args hp c (Some l) = liftE ChainCompact (getCompact False ?t)"
    using q(1) assms(3-5)
    by (simp add: calculateNextWorkTarget_def deref_def Let_def clamp_timespan_def)
  then show ?thesis using n t by auto
qed

lemma next_target_exact:
  assumes "target_of nBits * unat (clamp_timespan args d) < 2 ^ 256"
  shows "next_target args nBits d =
    min (val (ca_p_difficulty_1_target args))
      (target_of nBits * unat (clamp_timespan args d) div unat (ca_cycleTimestamp args))"
  using assms by (simp only: next_target_def mod_less)

lemma getNextWorkTarget_eq:
  assumes "tree_ok hp" "hp a = Some b" "bi_height b + 1 < 2 ^ 32" "1 < ca_cycleBlockHeight args"
    "wf256 (ca_p_difficulty_1_target args)" "ca_cycleTimestamp args \<noteq> 0"
    "unat (ca_cycleBlockHeight args) = k"
  shows "let n = nat (bi_height b + 1) in
    if n < k \<or> n mod k \<noteq> 1 then getNextWorkTarget args hp (chain_of hp a) (Some a) = Inr (bi_bits b)
    else \<exists>f fb t nBits. chain_of hp a ! nat (bi_height b - (int k - 1)) = Some f \<and> hp f = Some fb \<and>
      bi_height fb = bi_height b - (int k - 1) \<and>
      getNextWorkTarget args hp (chain_of hp a) (Some a) = Inr nBits \<and> getCompact False t = Inr nBits \<and>
      wf256 t \<and> val t = next_target args (bi_bits b) (of_int (getTimeval b - getTimeval fb))"
proof -
  let ?n = "nat (bi_height b + 1)"
  let ?w = "of_int (bi_height b + 1) :: uint32"
  have nn: "0 \<le> bi_height b" by (rule tree_height_nonneg [OF assms(1,2)])
  have k: "1 < k" using assms(4,7) by (simp add: word_less_nat_alt)
  have "?n < 2 ^ 32" using assms(3) nn by simp
  moreover have "?w = of_nat ?n" using nn by simp
  ultimately have w: "unat ?w = ?n" by (simp only: unsigned_of_nat) (simp add: take_bit_nat_eq_self_iff)
  have k0: "ca_cycleBlockHeight args \<noteq> 0" using k assms(7) by auto
  have lt: "?w < ca_cycleBlockHeight args \<longleftrightarrow> ?n < k" by (simp only: word_less_nat_alt w assms(7))
  have mod1: "?w mod ca_cycleBlockHeight args \<noteq> 1 \<longleftrightarrow> ?n mod k \<noteq> 1"
    by (simp only: word_unat_eq_iff unat_mod w unat_1 assms(7))
  have nxt: "getNextWorkTarget args hp c (Some a) =
      (if ?n < k \<or> ?n mod k \<noteq> 1 then Inr (bi_bits b) else calculateNextWorkTarget args hp c (Some a))" for c
    using assms(2) k0 by (simp add: getNextWorkTarget_def deref_def Let_def lt mod1 del: of_int_add)
  show ?thesis
  proof (cases "?n < k \<or> ?n mod k \<noteq> 1")
    case True
    then show ?thesis by (simp add: nxt Let_def)
  next
    case False
    have "?n \<noteq> k" using False k by auto
    then have ge: "int k \<le> bi_height b" using False by linarith
    let ?i = "nat (bi_height b - (int k - 1))"
    have i: "?i < length (chain_of hp a)"
      using ge k length_chain_of [where hp = hp, OF assms(2)] by simp
    obtain f fb where f: "chain_of hp a ! ?i = Some f" "hp f = Some fb" "bi_height fb = int ?i"
      using chain_of_derefs [OF assms(1,2) i] by blast
    have "getBlock hp (chain_of hp a) (nat (bi_height b)) (unat (ca_cycleBlockHeight args)) = Inr (Some f)"
      using getBlock_ok [OF assms(1,2), of "nat (bi_height b)" k] nn k ge f(1) i
      by (simp add: assms(7) chain_at_def max_def)
    from calculateNextWorkTarget_eq [OF assms(5,6,2) this f(2)] f ge k False
    show ?thesis by (auto simp: nxt Let_def)
  qed
qed

section \<open>The search finds valid proofs\<close>

definition header_prefix :: "BlockHeader \<Rightarrow> uint8 list" where
  "header_prefix h = le_bytes (h_version h) @ h_hashPrevBlock h @ h_hashMerkleRoot h @
     le_bytes (h_timeval h) @ le_bytes (h_bits h)"

lemma header_bytes_split: "header_bytes h = header_prefix h @ le_bytes (h_proof h)"
  by (simp add: header_bytes_def header_prefix_def)

lemma header_prefix_proof: "header_prefix (h\<lparr>h_proof := p\<rparr>) = header_prefix h"
  by (simp add: header_prefix_def)

lemma length_header_prefix: "header_ok h \<Longrightarrow> length (header_prefix h) = 76"
  by (simp add: header_ok_def header_prefix_def UINT256_WIDTH_def)

text \<open>The stream of the search: 80 bytes, of which the first 76 are those of the header.\<close>

definition search_stream :: "BlockHeader \<Rightarrow> ByteBuffer \<Rightarrow> bool" where
  "search_stream h b \<longleftrightarrow> m_rpos b = 0 \<and> m_wpos b = 80 \<and> 80 \<le> bb_size b \<and> bb_size b < MAX_SIZE \<and>
     take 76 (m_data b) = header_prefix h"

lemma search_stream_start:
  assumes "header_ok h"
  shows "\<exists>b. header_serialize h new_buffer = Inr b \<and> search_stream h b"
proof -
  have "appends new_buffer (header_bytes h) (header_serialize h new_buffer)"
    by (rule header_serialize_appends [OF assms]) (simp_all add: MAX_SIZE_def)
  then obtain b where b: "header_serialize h new_buffer = Inr b" "bb_wf b" "unread b = header_bytes h"
    "m_rpos b = 0" "bb_size b \<le> length (header_bytes h)"
    by (auto simp: appends_def new_buffer_start)
  have len: "bb_length b = 80" using length_unread [OF b(2)] b(3) length_header_bytes [OF assms] by simp
  have w: "m_wpos b = 80" using len b(2,4) by (simp add: bb_length_def bb_wf_def split: if_splits)
  have t: "take 80 (m_data b) = header_bytes h" using b(3,4) len by (simp add: unread_def)
  have "take 76 (m_data b) = take 76 (take 80 (m_data b))" by simp
  also have "\<dots> = header_prefix h" unfolding t header_bytes_split using length_header_prefix [OF assms] by simp
  finally have "take 76 (m_data b) = header_prefix h" .
  then show ?thesis
    using b w length_header_bytes [OF assms] by (auto simp: search_stream_def bb_wf_def MAX_SIZE_def)
qed

lemma proof_step_eq:
  assumes "header_ok h" "search_stream h b"
  shows "\<exists>b'. proof_step sha256 76 h b =
      Inr (h\<lparr>h_proof := h_proof h + 1\<rparr>, b', sha256 (sha256 (header_bytes (h\<lparr>h_proof := h_proof h + 1\<rparr>)))) \<and>
    search_stream (h\<lparr>h_proof := h_proof h + 1\<rparr>) b'"
proof -
  let ?h = "h\<lparr>h_proof := h_proof h + 1\<rparr>" and ?b = "set_wpos (int 76) b"
  have b: "bb_wf ?b" "bb_size ?b < MAX_SIZE" "m_rpos ?b = 0" "m_wpos ?b = 76" "m_data ?b = m_data b"
    "bb_size ?b = bb_size b"
    using assms(2) by (auto simp: search_stream_def set_wpos_def bb_wf_def bb_size_def)
  obtain b' where b': "append_bytes (le_bytes (h_proof ?h)) ?b = Inr b'" "bb_wf b'"
    "m_rpos b' = m_rpos ?b" "m_wpos b' = m_wpos ?b + length (le_bytes (h_proof ?h))"
    "bb_size b' = max (bb_size ?b) (m_wpos ?b + length (le_bytes (h_proof ?h)))"
    "take (m_wpos ?b + length (le_bytes (h_proof ?h))) (m_data b') = take (m_wpos ?b) (m_data ?b) @ le_bytes (h_proof ?h)"
    by (rule append_bytes_eq [OF b(1) disjI2 [OF b(2)]])
  have four: "length (le_bytes (h_proof ?h)) = 4" by simp
  have t: "take 80 (m_data b') = header_bytes ?h"
    using b'(6) b(4,5) four assms(2) by (simp add: search_stream_def header_bytes_split header_prefix_proof)
  have "take 76 (m_data b') = take 76 (take 80 (m_data b'))" by simp
  also have "\<dots> = header_prefix ?h"
    unfolding t header_bytes_split header_prefix_proof using length_header_prefix [OF assms(1)] by simp
  finally have p: "take 76 (m_data b') = header_prefix ?h" .
  have s: "search_stream ?h b'"
    using p b' b four assms(2) by (simp add: search_stream_def)
  have "bb_length b' = 80" using s by (simp add: search_stream_def bb_length_def)
  then have "hash_stream sha256 b' = sha256 (sha256 (header_bytes ?h))" by (simp add: hash_stream_def t)
  moreover have "proof_step sha256 76 h b = Inr (?h, b', hash_stream sha256 b')"
    using b'(1) by (simp add: proof_step_def append_word_def Let_def)
  ultimately show ?thesis using s by auto
qed

lemma header_ok_proof [simp]: "header_ok (h\<lparr>h_proof := p\<rparr>) = header_ok h"
  by (simp add: header_ok_def)

lemma proof_loop_ok:
  assumes "header_ok h" "search_stream h b" "tries < maxTries"
  shows "\<exists>tries' p. proof_loop args sha256 76 tries h b = Inr (tries', h\<lparr>h_proof := p\<rparr>) \<and>
    tries < tries' \<and> tries' \<le> maxTries \<and>
    (tries' \<noteq> maxTries \<and> p < innerLoopCount \<longrightarrow>
       validProofOfWork args (sha256 (sha256 (header_bytes (h\<lparr>h_proof := p\<rparr>)))) (h_bits h))"
  using assms
proof (induction "maxTries - tries" arbitrary: h b tries rule: less_induct)
  case less
  let ?h = "h\<lparr>h_proof := h_proof h + 1\<rparr>"
  obtain b' where b': "proof_step sha256 76 h b = Inr (?h, b', sha256 (sha256 (header_bytes ?h)))"
    "search_stream ?h b'"
    using proof_step_eq [OF less.prems(1,2)] by blast
  show ?case
  proof (cases "tries + 1 < maxTries \<and> h_proof ?h < innerLoopCount \<and>
      \<not> validProofOfWork args (sha256 (sha256 (header_bytes ?h))) (h_bits ?h)")
    case True
    then have "proof_loop args sha256 76 tries h b = proof_loop args sha256 76 (tries + 1) ?h b'"
      by (subst proof_loop.simps) (simp add: b'(1))
    moreover have "\<exists>tries' p. proof_loop args sha256 76 (tries + 1) ?h b' = Inr (tries', ?h\<lparr>h_proof := p\<rparr>) \<and>
      tries + 1 < tries' \<and> tries' \<le> maxTries \<and> (tries' \<noteq> maxTries \<and> p < innerLoopCount \<longrightarrow>
       validProofOfWork args (sha256 (sha256 (header_bytes (?h\<lparr>h_proof := p\<rparr>)))) (h_bits ?h))"
      by (rule less.hyps) (use True less.prems b'(2) in auto)
    ultimately show ?thesis by auto
  next
    case False
    then have "proof_loop args sha256 76 tries h b = Inr (tries + 1, ?h)"
      by (subst proof_loop.simps) (auto simp: b'(1))
    then show ?thesis using False less.prems(3) by fastforce
  qed
qed

lemma proof_search_ok:
  assumes "header_ok h" "tries < maxTries"
  shows "\<exists>tries' p. proof_search args sha256 tries h = Inr (tries', h\<lparr>h_proof := p\<rparr>) \<and>
    tries < tries' \<and> tries' \<le> maxTries \<and>
    (tries' \<noteq> maxTries \<and> p < innerLoopCount \<longrightarrow>
       (\<exists>hash. header_getHash sha256 (h\<lparr>h_proof := p\<rparr>) = Inr hash \<and> validProofOfWork args hash (h_bits h)))"
proof -
  obtain b where b: "header_serialize h new_buffer = Inr b" "search_stream h b"
    using search_stream_start [OF assms(1)] by blast
  have "m_wpos b - 4 = 76" using b(2) by (simp add: search_stream_def)
  then show ?thesis
    using proof_loop_ok [OF assms(1) b(2) assms(2), of args sha256] b(1) assms(1)
    by (auto simp: proof_search_def header_getHash_eq)
qed

section \<open>Properties\<close>

text \<open>
  C34: a proof of work is valid exactly when the compact target is neither negative nor overflowing,
  is positive and at most the limit $2^{240} - 1$, and the hash, read as a little-endian number, is at
  most the target.
\<close>

theorem valid_proof_of_work:
  assumes "length hash = UINT256_WIDTH"
  shows "validProofOfWork (create t) hash nBits \<longleftrightarrow>
    (case setCompact nBits of (a, neg, ovf) \<Rightarrow>
       \<not> neg \<and> \<not> ovf \<and> 0 < val a \<and> val a \<le> 2 ^ 240 - 1 \<and> le_val hash \<le> val a)"
  using validProofOfWork_iff [OF create_args(2) assms, of t nBits]
  by (simp only: create_args(3) target_of_def) (simp split: prod.splits)

theorem valid_proof_of_work_witness:
  "\<not> validProofOfWork (create NORMAL) (replicate 32 0) 0"
proof -
  have len: "length (replicate 32 0 :: uint8 list) = UINT256_WIDTH" by (simp add: UINT256_WIDTH_def)
  obtain a neg ovf where s: "setCompact 0 = (a, neg, ovf)" using prod_cases3 by blast
  have "val a = 0" using setCompact_correct [OF s] by (simp add: compact_mantissa_def)
  then show ?thesis using valid_proof_of_work [OF len, of NORMAL 0] s by simp
qed

text \<open>
  C35: the subsidy of a block is the initial amount halved once per halving interval, and all blocks
  of a chain of any length together issue at most twice the subsidy of the first interval: 21 million
  units of $10^8$.
\<close>

theorem subsidy_supply_bound:
  "(\<exists>v. calculateSubsidyValue (create t) h = Inr v \<and> unat v = subsidy (create t) (unat h)) \<and>
   (\<Sum>i < n. subsidy (create t) i) \<le> 21000000 * 10 ^ 8"
proof
  have args: "ca_subsidyHalvingInterval (create t) = 210000" "ca_valueUnit (create t) = 100000000"
    by (cases t; simp add: create_def)+
  show "\<exists>v. calculateSubsidyValue (create t) h = Inr v \<and> unat v = subsidy (create t) (unat h)"
    by (rule calculateSubsidyValue_eq) (simp add: args)
  show "(\<Sum>i < n. subsidy (create t) i) \<le> 21000000 * 10 ^ 8"
    using subsidy_sum_bound [of "create t" n] by (simp add: args)
qed

text \<open>A chain that reaches the first change of the target, with a block every ten minutes.\<close>

definition long_index :: "nat \<Rightarrow> BlockIndex" where
  "long_index a = example_block\<lparr>bi_height := int a, bi_pPrev := (if a = 0 then None else Some (a - 1)),
     bi_pSkip := (if a = 0 then None else Some (nat (getSkipHeight (int a)))), bi_timeval := of_nat (600 * a)\<rparr>"

definition long_chain :: heap where
  "long_chain a = (if a \<le> 2016 then Some (long_index a) else None)"

lemma long_chain_prev: "n \<le> a \<Longrightarrow> a \<le> 2016 \<Longrightarrow> prev_n long_chain n (Some a) = Some (a - n)"
  by (induction n arbitrary: a) (auto simp: long_chain_def long_index_def)

lemma long_chain_ok: "tree_ok long_chain"
proof -
  have "node_ok long_chain a (long_index a)" if a: "a \<le> 2016" for a
  proof (cases "a = 0")
    case False
    then have "0 \<le> getSkipHeight (int a)" "getSkipHeight (int a) < int a" using getSkipHeight_bounds [of "int a"] by auto
    then show ?thesis
      using a False long_chain_prev [of "nat (int a - getSkipHeight (int a))" a]
      by (auto simp: node_ok_def long_index_def long_chain_def nat_diff_distrib)
  qed (simp add: node_ok_def long_index_def)
  then show ?thesis by (auto simp: tree_ok_def long_chain_def split: if_splits)
qed

text \<open>
  C32: the target of the next block. Outside of a retargeting height it is the target of the last
  block. At a retargeting height the block 2015 positions back in the chain is found, and the result
  encodes the old target scaled by the clamped time span, as computed modulo $2^{256}$ and limited;
  no null pointer is followed and no assertion fails.
\<close>

theorem next_work_target:
  assumes "tree_ok hp" "hp a = Some b" "bi_height b + 1 < 2 ^ 32"
  shows "let n = nat (bi_height b + 1) in
    if n < 2016 \<or> n mod 2016 \<noteq> 1
    then getNextWorkTarget (create t) hp (chain_of hp a) (Some a) = Inr (bi_bits b)
    else \<exists>f fb tg nBits. chain_of hp a ! nat (bi_height b - 2015) = Some f \<and> hp f = Some fb \<and>
      bi_height fb = bi_height b - 2015 \<and>
      getNextWorkTarget (create t) hp (chain_of hp a) (Some a) = Inr nBits \<and>
      getCompact False tg = Inr nBits \<and> wf256 tg \<and>
      val tg = next_target (create t) (bi_bits b) (of_int (getTimeval b - getTimeval fb))"
proof -
  have args: "ca_cycleBlockHeight (create t) = 2016" "ca_cycleTimestamp (create t) \<noteq> 0"
    by (cases t; simp add: create_def)+
  show ?thesis
    using getNextWorkTarget_eq [OF assms _ create_args(2) args(2), of 2016]
    by (auto simp: args(1) Let_def split: if_splits)
qed

theorem next_work_target_witness:
  "getNextWorkTarget (create NORMAL) long_chain (chain_of long_chain 5) (Some 5) = Inr (bi_bits example_block) \<and>
   (\<exists>tg nBits. getNextWorkTarget (create NORMAL) long_chain (chain_of long_chain 2016) (Some 2016) = Inr nBits \<and>
      getCompact False tg = Inr nBits \<and> wf256 tg \<and>
      val tg = next_target (create NORMAL) (bi_bits example_block) 1209000)"
proof -
  let ?b = "\<lambda>a. the (long_chain a)"
  have b: "long_chain 2016 = Some (?b 2016)" "long_chain 5 = Some (?b 5)" "bi_height (?b 2016) = 2016" "bi_height (?b 5) = 5"
    "bi_bits (?b 5) = bi_bits example_block" "bi_bits (?b 2016) = bi_bits example_block" "getTimeval (?b 2016) = 1209600"
    by (simp_all add: long_chain_def long_index_def getTimeval_def)
  obtain f fb tg nBits where f: "long_chain f = Some fb" "bi_height fb = 1"
      "getNextWorkTarget (create NORMAL) long_chain (chain_of long_chain 2016) (Some 2016) = Inr nBits"
      "getCompact False tg = Inr nBits" "wf256 tg"
      "val tg = next_target (create NORMAL) (bi_bits example_block) (of_int (1209600 - getTimeval fb))"
    using next_work_target [OF long_chain_ok b(1), of NORMAL] by (auto simp: b(3,6,7) Let_def)
  have "f = 1" using f(1,2) by (auto simp: long_chain_def long_index_def split: if_splits)
  then have "getTimeval fb = 600" using f(1) by (auto simp: long_chain_def long_index_def getTimeval_def)
  with f(3-6) next_work_target [OF long_chain_ok b(2), of NORMAL]
  show ?thesis by (auto simp: b(4,5) Let_def)
qed

text \<open>
  C33: at the initial difficulty (compact form 0x1f00ffff, the first block's target) the product of the
  retargeting rule overflows 256 bits: whatever time the last cycle took, and also when it took longer
  than intended and the target should rise, the new target is less than an eighteenth of the old one.
  After a cycle of exactly the intended 1209600 seconds, when it should stay the same, it is less than a
  fortieth.
\<close>

theorem retarget_overflow:
  assumes "ca_p_difficulty_1_target args = ca_p_difficulty_1_target (create NORMAL)"
    "ca_cycleTimestamp args = 1209600" "hp l = Some lb" "hp f = Some fb"
    "getBlock hp c (nat (bi_height lb)) (unat (ca_cycleBlockHeight args)) = Inr (Some f)"
    "bi_bits lb = 0x1f00ffff"
  shows "target_of 0x1f00ffff = val (ca_b_difficulty_1_target (create NORMAL)) \<and>
    (\<exists>nBits. calculateNextWorkTarget args hp c (Some l) = Inr nBits \<and>
       18 * target_of nBits < target_of 0x1f00ffff \<and>
       (getTimeval lb - getTimeval fb = 1209600 \<longrightarrow> 40 * target_of nBits < target_of 0x1f00ffff))"
proof -
  have wf: "wf256 (ca_p_difficulty_1_target args)" by (simp add: assms(1) create_args)
  have tgt: "target_of 0x1f00ffff = 65535 * 2 ^ 224"
  proof -
    obtain x neg ovf where s: "setCompact 0x1f00ffff = (x, neg, ovf)" using prod_cases3 by blast
    then show ?thesis
      using setCompact_correct [OF s] by (simp add: target_of_def compact_mantissa_def compact_size_def)
  qed
  define d :: uint32 where "d = of_int (getTimeval lb - getTimeval fb)"
  obtain t nBits where t: "calculateNextWorkTarget args hp c (Some l) = Inr nBits" "wf256 t"
    "getCompact False t = Inr nBits" "val t = next_target args 0x1f00ffff d"
    using calculateNextWorkTarget_eq [OF wf _ assms(3,5,4)] assms(2,6) by (auto simp: d_def)
  have "target_of nBits \<le> val t"
    using compact_precision(1) [OF t(2)] setCompact_getCompact [OF t(2,3)]
    by (metis prod.collapse target_of_def)
  then have le: "target_of nBits \<le> 65535 * 2 ^ 224 * unat (clamp_timespan args d) mod 2 ^ 256 div 1209600"
    using t(4) tgt by (simp only: next_target_def assms(2)) simp
  also have "\<dots> \<le> (2 ^ 256 - 1) div 1209600" by (intro div_le_mono) (simp only: less_Suc_eq_le [symmetric], simp)
  finally have "18 * target_of nBits < 65535 * 2 ^ 224" by simp
  moreover have "40 * target_of nBits < 65535 * 2 ^ 224" if "getTimeval lb - getTimeval fb = 1209600"
  proof -
    have "d = 1209600" by (simp add: d_def that)
    then have "unat (clamp_timespan args d) = 1209600" by (simp add: clamp_timespan_def assms(2))
    then show ?thesis using le by simp
  qed
  ultimately show ?thesis using tgt t(1) create_args(5) by auto
qed

theorem retarget_overflow_witness:
  "\<exists>nBits. calculateNextWorkTarget ((create NORMAL)\<lparr>ca_cycleBlockHeight := 2\<rparr>)
     [0 \<mapsto> example_block, 1 \<mapsto> example_block\<lparr>bi_height := 1, bi_bits := 0x1f00ffff, bi_timeval := 1209600\<rparr>]
     [Some 0, Some 1] (Some 1) = Inr nBits \<and> 40 * target_of nBits < target_of 0x1f00ffff"
proof -
  let ?l = "example_block\<lparr>bi_height := 1, bi_bits := 0x1f00ffff, bi_timeval := 1209600\<rparr>"
  let ?hp = "[0 \<mapsto> example_block, 1 \<mapsto> ?l]"
  have "ca_cycleTimestamp (create NORMAL) = 1209600" by (simp add: create_def)
  moreover have "getBlock ?hp [Some 0, Some 1] 1 2 = Inr (Some 0)"
    by (simp add: getBlock_def deref_def)
  moreover have "getTimeval ?l - getTimeval example_block = 1209600"
    by (simp add: getTimeval_def example_block_def new_BlockIndex_def new_Block_def new_BlockHeader_def Let_def)
  ultimately have "\<exists>nBits. calculateNextWorkTarget ((create NORMAL)\<lparr>ca_cycleBlockHeight := 2\<rparr>) ?hp
      [Some 0, Some 1] (Some 1) = Inr nBits \<and> 40 * target_of nBits < target_of 0x1f00ffff"
    using retarget_overflow [where lb = ?l and f = 0 and fb = example_block and l = 1 and hp = ?hp and c = "[Some 0, Some 1]"
      and args = "(create NORMAL)\<lparr>ca_cycleBlockHeight := 2\<rparr>"] by auto
  then show ?thesis .
qed

end
