(* ===== verification/ChainManager.thy ===== *)
theory ChainManager
  imports Consensus
begin

text \<open>
  The block tree manager: class \<open>ChainManager\<close> of \<open>libs/blockchain/chain.h\<close> and \<open>chain.cpp\<close>.

  The record \<open>ChainManager\<close> has the members of the class and the part of memory they point into: the
  heap of block indexes and the next free address. \<open>blockIndexCandidates\<close> is the list of the elements
  of the \<open>std::set\<close> in its order, \<open>mapUnlinkedBlocks\<close> the list of the pairs of the multimap,
  \<open>mapBlockIndex_\<close> an association list. The consensus arguments are optional because the genesis
  block is accepted while the consensus object is still under construction; the digest and the clock
  are arguments. Locks are left out: every operation is called under the lock of its object.

  The loops along predecessor pointers and the search for a usable candidate take fuel, more than the
  height of the index they start from or the number of candidates; running out of it is \<open>ChainLoop\<close>,
  and the lemmas of the next theory show that it does not happen. A failing assertion is
  \<open>ChainAssert\<close>, following a null or freed pointer \<open>NullDeref\<close>. \<open>pBlockIndexBestInvalid\<close>, a local variable
  that no one reads, and the log messages are left out, as is the part of \<open>checkAllBlockIndexs\<close> after
  its unconditional \<open>return true\<close>.
\<close>

unbundle bit_operations_syntax

record ChainManager =
  cm_heap :: heap
  cm_next :: nat
  cm_active :: chain
  cm_candidates :: "nat list"
  cm_unlinked :: "(ptr \<times> nat) list"
  cm_map :: "(base_blob \<times> nat) list"
  cm_nodeIDs :: "(base_blob \<times> int) list"
  cm_sequence :: uint32

definition new_ChainManager :: ChainManager where
  "new_ChainManager = \<lparr>cm_heap = Map.empty, cm_next = 0, cm_active = [], cm_candidates = [],
     cm_unlinked = [], cm_map = [], cm_nodeIDs = [], cm_sequence = 1\<rparr>"

section \<open>Block indexes by hash\<close>

definition findBlockIndex :: "ChainManager \<Rightarrow> base_blob \<Rightarrow> ptr" where
  "findBlockIndex cm blockHash = map_of (cm_map cm) blockHash"

definition clearAllMapBlockIndexs :: "ChainManager \<Rightarrow> ChainManager" where
  "clearAllMapBlockIndexs cm =
     cm\<lparr>cm_heap := foldl (\<lambda>hp item. hp(snd item := None)) (cm_heap cm) (cm_map cm), cm_map := []\<rparr>"

definition eraseMapBlockIndex :: "base_blob \<Rightarrow> ChainManager \<Rightarrow> bool \<times> ChainManager" where
  "eraseMapBlockIndex blockHash cm =
     (case map_of (cm_map cm) blockHash of
        Some a \<Rightarrow> (True, cm\<lparr>cm_heap := (cm_heap cm)(a := None),
                            cm_map := filter (\<lambda>item. fst item \<noteq> blockHash) (cm_map cm)\<rparr>)
      | None \<Rightarrow> (False, cm))"

definition findBlockNetNodeID :: "ChainManager \<Rightarrow> base_blob \<Rightarrow> int" where
  "findBlockNetNodeID cm blockHash =
     (case map_of (cm_nodeIDs cm) blockHash of None \<Rightarrow> 0 | Some i \<Rightarrow> i)"

section \<open>Validity of blocks\<close>

definition isGenesisHash :: "ConsensusArgs option \<Rightarrow> base_blob \<Rightarrow> bool" where
  "isGenesisHash pArgs hash =
     (case pArgs of None \<Rightarrow> True | Some args \<Rightarrow> blob_eq hash (ca_hashBlockGenesis args))"

definition caculateChainWork :: "BlockIndex \<Rightarrow> base_uint chain_result" where
  "caculateChainWork b =
     (let (target, isNegative, isOverflow) = setCompact (bi_bits b)
      in if isNegative \<or> equalTo target 0 \<or> isOverflow then Inr (base_uint_of_u64 0)
         else (case op_divide (op_not target) (op_plus target (base_uint_of_u64 1)) of
                 Inl e \<Rightarrow> Inl (ChainArith e)
               | Inr q \<Rightarrow> Inr (op_plus q (base_uint_of_u64 1))))"

definition validTransaction :: "Transaction \<Rightarrow> bool" where
  "validTransaction tx = True"

definition validBlockHeader ::
  "ConsensusArgs option \<Rightarrow> digest \<Rightarrow> int \<Rightarrow> ChainManager \<Rightarrow> Block \<Rightarrow> bool chain_result" where
  "validBlockHeader pArgs sha256 now cm pBlock =
     (case pArgs of
        None \<Rightarrow> Inr True
      | Some args \<Rightarrow>
          bindE (consensus_validBlock args sha256 pBlock) (\<lambda>ok.
          if \<not> ok then Inr False
          else validBlockTime (cm_heap cm) (cm_active cm) now (uint (h_timeval (b_header pBlock)))))"

definition validBlock ::
  "ConsensusArgs option \<Rightarrow> digest \<Rightarrow> int \<Rightarrow> ChainManager \<Rightarrow> Block \<Rightarrow> bool chain_result" where
  "validBlock pArgs sha256 now cm pBlock =
     bindE (validBlockHeader pArgs sha256 now cm pBlock) (\<lambda>ok.
     if \<not> ok then Inr False else
     bindE (liftE ChainMerkle (BlockMerkleRoot sha256 pBlock)) (\<lambda>(hashMerkleRoot, mutated).
     if hashMerkleRoot \<noteq> h_hashMerkleRoot (b_header pBlock) then Inr False else
     if mutated then Inr False else
     (case b_transactions pBlock of
        [] \<Rightarrow> Inr False
      | first # rest \<Rightarrow>
          (case pArgs of
             None \<Rightarrow> Inl NullDeref
           | Some args \<Rightarrow>
               if length (b_transactions pBlock) > unat (ca_maxBlockWeight args) \<or>
                  block_getSerializeSize pBlock > ca_maxBlockWeight args then Inr False else
               if \<not> isValueBase first then Inr False else
               if \<exists>tx \<in> set rest. isValueBase tx then Inr False else
               if \<exists>tx \<in> set (b_transactions pBlock). \<not> validTransaction tx then Inr False else
               if 0 > ca_maxBlockSigopsCost args then Inr False else Inr True))))"

section \<open>Adding a block to the tree\<close>

definition addToBlockIndex :: "digest \<Rightarrow> Block \<Rightarrow> ChainManager \<Rightarrow> (nat \<times> ChainManager) chain_result" where
  "addToBlockIndex sha256 pBlock cm =
     bindE (liftE ChainStream (block_getHash sha256 pBlock)) (\<lambda>hash.
     let pIndexNew = cm_next cm;
         entries = (if map_of (cm_map cm) hash = None then cm_map cm @ [(hash, pIndexNew)] else cm_map cm);
         b = (new_BlockIndex pBlock)\<lparr>bi_sequenceID := 0, bi_phashBlock := Some hash\<rparr>;
         hp = (cm_heap cm)(pIndexNew \<mapsto> b)
     in bindE (case map_of entries (h_hashPrevBlock (b_header pBlock)) of
                 None \<Rightarrow> Inr hp
               | Some q \<Rightarrow>
                   bindE (deref hp (Some q)) (\<lambda>prev.
                   buildSkip (hp(pIndexNew \<mapsto> b\<lparr>bi_pPrev := Some q, bi_height := bi_height prev + 1\<rparr>))
                     pIndexNew)) (\<lambda>hp.
        bindE (deref hp (Some pIndexNew)) (\<lambda>b.
        bindE (case bi_pPrev b of
                 None \<Rightarrow> Inr (base_uint_of_u64 0)
               | Some q \<Rightarrow> bindE (deref hp (Some q)) (\<lambda>prev. Inr (bi_chainWork prev))) (\<lambda>prevWork.
        bindE (caculateChainWork b) (\<lambda>work.
        Inr (pIndexNew,
             cm\<lparr>cm_heap := hp(pIndexNew \<mapsto> b\<lparr>bi_chainWork := op_plus prevWork work\<rparr>),
                cm_next := pIndexNew + 1, cm_map := entries\<rparr>))))))"

definition checkAllBlockIndexs :: "ConsensusArgs option \<Rightarrow> ChainManager \<Rightarrow> bool chain_result" where
  "checkAllBlockIndexs pArgs cm =
     (if chain_height (cm_active cm) < 0
      then (case cm_map cm of
              [(_, a)] \<Rightarrow>
                bindE (deref (cm_heap cm) (Some a)) (\<lambda>b.
                (case bi_phashBlock b of
                   None \<Rightarrow> Inl NullDeref
                 | Some hash \<Rightarrow> Inr (isGenesisHash pArgs hash)))
            | _ \<Rightarrow> Inl ChainAssert)
      else if \<exists>item \<in> set (cm_map cm). cm_heap cm (snd item) = None then Inl NullDeref
      else if length (filter (\<lambda>item. case cm_heap cm (snd item) of None \<Rightarrow> False | Some b \<Rightarrow> bi_pPrev b = None)
                (cm_map cm)) = 1 then Inr True
      else Inl ChainAssert)"

section \<open>Receiving the transactions of a block\<close>

definition add_candidate :: "heap \<Rightarrow> ptr \<Rightarrow> nat \<Rightarrow> nat list \<Rightarrow> nat list chain_result" where
  "add_candidate hp pTip p candidates =
     (case pTip of
        None \<Rightarrow> Inr (set_insert (BlockIndexWorkComparator hp) p candidates)
      | Some t \<Rightarrow>
          bindE (deref hp (Some t)) (\<lambda>_.
          if \<not> BlockIndexWorkComparator hp p t
          then Inr (set_insert (BlockIndexWorkComparator hp) p candidates) else Inr candidates))"

function receive_loop :: "ChainManager \<Rightarrow> nat list \<Rightarrow> ChainManager chain_result" where
  "receive_loop cm [] = Inr cm"
| "receive_loop cm (p # queue) =
     bindE (deref (cm_heap cm) (Some p)) (\<lambda>b.
     bindE (case bi_pPrev b of
              None \<Rightarrow> Inr 0
            | Some q \<Rightarrow> bindE (deref (cm_heap cm) (Some q)) (\<lambda>prev. Inr (bi_numChainTransactions prev))) (\<lambda>n.
     let hp = (cm_heap cm)(p \<mapsto> b\<lparr>bi_numChainTransactions := n + bi_numBlockTransactions b,
                                    bi_sequenceID := cm_sequence cm\<rparr>)
     in bindE (add_candidate hp (tip (cm_active cm)) p (cm_candidates cm)) (\<lambda>candidates.
        receive_loop
          (cm\<lparr>cm_heap := hp, cm_sequence := cm_sequence cm + 1, cm_candidates := candidates,
              cm_unlinked := filter (\<lambda>e. fst e \<noteq> Some p) (cm_unlinked cm)\<rparr>)
          (queue @ map snd (filter (\<lambda>e. fst e = Some p) (cm_unlinked cm))))))"
  by pat_completeness auto
termination
proof (relation "measure (\<lambda>(cm, queue). length queue + length (cm_unlinked cm))", simp)
  fix cm :: ChainManager and p :: nat and queue :: "nat list" and b n hp candidates
  show "((cm\<lparr>cm_heap := hp, cm_sequence := cm_sequence cm + 1, cm_candidates := candidates,
            cm_unlinked := filter (\<lambda>e. fst e \<noteq> Some p) (cm_unlinked cm)\<rparr>,
          queue @ map snd (filter (\<lambda>e. fst e = Some p) (cm_unlinked cm))), cm, p # queue)
        \<in> measure (\<lambda>(cm, queue). length queue + length (cm_unlinked cm))"
    using sum_length_filter_compl [of "\<lambda>e. fst e = Some p" "cm_unlinked cm"] by simp
qed

definition receiveBlock :: "Block \<Rightarrow> nat \<Rightarrow> ChainManager \<Rightarrow> (bool \<times> ChainManager) chain_result" where
  "receiveBlock pBlock pBlockIndex cm =
     bindE (deref (cm_heap cm) (Some pBlockIndex)) (\<lambda>b.
     let b = b\<lparr>bi_numBlockTransactions := of_nat (length (b_transactions pBlock)),
               bi_numChainTransactions := 0, bi_status := bi_status b OR HAVE_DATA\<rparr>;
         cm = cm\<lparr>cm_heap := (cm_heap cm)(pBlockIndex \<mapsto> b)\<rparr>
     in bindE (case bi_pPrev b of
                 None \<Rightarrow> Inr (True, False)
               | Some q \<Rightarrow> bindE (deref (cm_heap cm) (Some q)) (\<lambda>prev.
                   Inr (bi_numChainTransactions prev \<noteq> 0, isValid_upto VALID_TREE prev))) (\<lambda>(linked, treeValid).
        if linked then bindE (receive_loop cm [pBlockIndex]) (\<lambda>cm. Inr (True, cm))
        else if bi_pPrev b \<noteq> None \<and> treeValid
             then Inr (True, cm\<lparr>cm_unlinked := cm_unlinked cm @ [(bi_pPrev b, pBlockIndex)]\<rparr>)
             else Inr (True, cm)))"

section \<open>Choosing the best candidate\<close>

fun prune_loop :: "heap \<Rightarrow> ptr \<Rightarrow> nat list \<Rightarrow> nat list chain_result" where
  "prune_loop hp pTip [] = Inr []"
| "prune_loop hp pTip (p # candidates) =
     (case pTip of
        None \<Rightarrow> Inl NullDeref
      | Some t \<Rightarrow> if BlockIndexWorkComparator hp p t then prune_loop hp pTip candidates
                  else Inr (p # candidates))"

definition pruneBlockIndexCandidates :: "ChainManager \<Rightarrow> ChainManager chain_result" where
  "pruneBlockIndexCandidates cm =
     bindE (prune_loop (cm_heap cm) (tip (cm_active cm)) (cm_candidates cm)) (\<lambda>candidates.
     if candidates = [] then Inl ChainAssert else Inr (cm\<lparr>cm_candidates := candidates\<rparr>))"

text \<open>The walk from a candidate to the active chain, up to an index that is invalid or has no data.\<close>

fun test_walk :: "nat \<Rightarrow> ChainManager \<Rightarrow> ptr \<Rightarrow> (nat \<times> bool) option chain_result" where
  "test_walk 0 cm pTest = Inl ChainLoop"
| "test_walk (Suc fuel) cm pTest =
     (case pTest of
        None \<Rightarrow> Inr None
      | Some a \<Rightarrow>
          bindE (contains (cm_heap cm) (cm_active cm) pTest) (\<lambda>yes.
          if yes then Inr None else
          bindE (deref (cm_heap cm) pTest) (\<lambda>b.
          if \<not> (bi_numChainTransactions b \<noteq> 0 \<or> bi_height b = 0) then Inl ChainAssert else
          let failedChain = (\<not> isValid b);
              missingData = (bi_status b AND HAVE_DATA = 0)
          in if failedChain \<or> missingData then Inr (Some (a, failedChain))
             else test_walk fuel cm (bi_pPrev b))))"

text \<open>Removing the candidates between the best one and the unusable index.\<close>

fun fail_walk :: "nat \<Rightarrow> nat \<Rightarrow> bool \<Rightarrow> ptr \<Rightarrow> ChainManager \<Rightarrow> ChainManager chain_result" where
  "fail_walk 0 pTest failedChain pFailed cm = Inl ChainLoop"
| "fail_walk (Suc fuel) pTest failedChain pFailed cm =
     (if pFailed = Some pTest then Inr cm
      else (case pFailed of
              None \<Rightarrow> Inl NullDeref
            | Some f \<Rightarrow>
                bindE (deref (cm_heap cm) pFailed) (\<lambda>b.
                let cm = (if failedChain
                          then cm\<lparr>cm_heap := (cm_heap cm)(f \<mapsto> b\<lparr>bi_status := bi_status b OR FAILED_CHILD\<rparr>)\<rparr>
                          else cm\<lparr>cm_unlinked := cm_unlinked cm @ [(bi_pPrev b, f)]\<rparr>);
                    cm = cm\<lparr>cm_candidates := set_erase (BlockIndexWorkComparator (cm_heap cm)) f (cm_candidates cm)\<rparr>
                in fail_walk fuel pTest failedChain (bi_pPrev b) cm)))"

fun most_work_loop :: "nat \<Rightarrow> ChainManager \<Rightarrow> (ptr \<times> ChainManager) chain_result" where
  "most_work_loop 0 cm = Inl ChainLoop"
| "most_work_loop (Suc fuel) cm =
     (if cm_candidates cm = [] then Inr (None, cm)
      else let pNew = last (cm_candidates cm)
           in bindE (deref (cm_heap cm) (Some pNew)) (\<lambda>b.
              bindE (test_walk (nat (bi_height b) + 2) cm (Some pNew)) (\<lambda>r.
              case r of
                None \<Rightarrow> Inr (Some pNew, cm)
              | Some (pTest, failedChain) \<Rightarrow>
                  bindE (fail_walk (nat (bi_height b) + 2) pTest failedChain (Some pNew) cm) (\<lambda>cm.
                  most_work_loop fuel
                    (cm\<lparr>cm_candidates := set_erase (BlockIndexWorkComparator (cm_heap cm)) pTest (cm_candidates cm)\<rparr>)))))"

definition findMostWorkBlockIndex :: "ChainManager \<Rightarrow> (ptr \<times> ChainManager) chain_result" where
  "findMostWorkBlockIndex cm = most_work_loop (length (cm_candidates cm) + 1) cm"

section \<open>Activating the best chain\<close>

definition updateTip :: "ptr \<Rightarrow> ChainManager \<Rightarrow> ChainManager chain_result" where
  "updateTip p cm = bindE (setTip (cm_heap cm) (cm_active cm) p) (\<lambda>c. Inr (cm\<lparr>cm_active := c\<rparr>))"

definition connectTip :: "ptr \<Rightarrow> ChainManager \<Rightarrow> (bool \<times> ChainManager) chain_result" where
  "connectTip pBlockIndexNew cm = bindE (updateTip pBlockIndexNew cm) (\<lambda>cm. Inr (True, cm))"

definition disconnectTip :: "ChainManager \<Rightarrow> (bool \<times> ChainManager) chain_result" where
  "disconnectTip cm =
     bindE (deref (cm_heap cm) (tip (cm_active cm))) (\<lambda>b.
     bindE (updateTip (bi_pPrev b) cm) (\<lambda>cm. Inr (True, cm)))"

fun disconnect_loop :: "nat \<Rightarrow> ptr \<Rightarrow> ChainManager \<Rightarrow> (bool \<times> ChainManager) chain_result" where
  "disconnect_loop 0 pIndexFork cm = Inl ChainLoop"
| "disconnect_loop (Suc fuel) pIndexFork cm =
     (if tip (cm_active cm) \<noteq> None \<and> tip (cm_active cm) \<noteq> pIndexFork
      then bindE (disconnectTip cm) (\<lambda>(ok, cm).
           if \<not> ok then Inr (False, cm) else disconnect_loop fuel pIndexFork cm)
      else Inr (True, cm))"

text \<open>The indexes from \<open>pIndexIter\<close> down to the one above \<open>height\<close>, in this order.\<close>

fun collect :: "nat \<Rightarrow> heap \<Rightarrow> int \<Rightarrow> ptr \<Rightarrow> nat list chain_result" where
  "collect 0 hp height pIndexIter = Inl ChainLoop"
| "collect (Suc fuel) hp height pIndexIter =
     (case pIndexIter of
        None \<Rightarrow> Inr []
      | Some a \<Rightarrow>
          bindE (deref hp pIndexIter) (\<lambda>b.
          if bi_height b \<noteq> height
          then bindE (collect fuel hp height (bi_pPrev b)) (\<lambda>rest. Inr (a # rest))
          else Inr []))"

fun connect_loop :: "ptr \<Rightarrow> nat list \<Rightarrow> bool \<Rightarrow> ChainManager \<Rightarrow> (bool \<times> ChainManager) chain_result" where
  "connect_loop pIndexOldTip [] isContinue cm = Inr (isContinue, cm)"
| "connect_loop pIndexOldTip (p # ps) isContinue cm =
     bindE (connectTip (Some p) cm) (\<lambda>(ok, cm).
     if \<not> ok then connect_loop pIndexOldTip ps False cm
     else bindE (pruneBlockIndexCandidates cm) (\<lambda>cm.
          bindE (deref (cm_heap cm) (tip (cm_active cm))) (\<lambda>t.
          (case pIndexOldTip of
             None \<Rightarrow> Inr (False, cm)
           | Some old \<Rightarrow>
               bindE (deref (cm_heap cm) (Some old)) (\<lambda>o'.
               if op_gt (bi_chainWork t) (bi_chainWork o') then Inr (False, cm)
               else connect_loop pIndexOldTip ps isContinue cm)))))"

fun height_loop :: "nat \<Rightarrow> ptr \<Rightarrow> nat \<Rightarrow> int \<Rightarrow> ChainManager \<Rightarrow> ChainManager chain_result" where
  "height_loop 0 pIndexOldTip pMostWork height cm = Inl ChainLoop"
| "height_loop (Suc fuel) pIndexOldTip pMostWork height cm =
     bindE (deref (cm_heap cm) (Some pMostWork)) (\<lambda>m.
     if height \<noteq> bi_height m
     then let targetHeight = min (height + 32) (bi_height m)
          in bindE (getAncestor (cm_heap cm) pMostWork targetHeight) (\<lambda>pIndexIter.
             bindE (collect (nat (bi_height m) + 2) (cm_heap cm) height pIndexIter) (\<lambda>blockIndexToConnects.
             bindE (connect_loop pIndexOldTip blockIndexToConnects True cm) (\<lambda>(isContinue, cm).
             if isContinue then height_loop fuel pIndexOldTip pMostWork targetHeight cm else Inr cm)))
     else Inr cm)"

definition activateBestChainStep :: "nat \<Rightarrow> ChainManager \<Rightarrow> (bool \<times> ChainManager) chain_result" where
  "activateBestChainStep pMostWork cm =
     (let pIndexOldTip = tip (cm_active cm)
      in bindE (findFork (cm_heap cm) (cm_active cm) pMostWork) (\<lambda>pIndexFork.
         bindE (disconnect_loop (length (cm_active cm) + 1) pIndexFork cm) (\<lambda>(ok, cm).
         if \<not> ok then Inr (False, cm)
         else bindE (case pIndexFork of
                       None \<Rightarrow> Inr (- 1)
                     | Some f \<Rightarrow> bindE (deref (cm_heap cm) (Some f)) (\<lambda>b. Inr (bi_height b))) (\<lambda>height.
              bindE (deref (cm_heap cm) (Some pMostWork)) (\<lambda>m.
              bindE (height_loop (nat (bi_height m) + 2) pIndexOldTip pMostWork height cm) (\<lambda>cm.
              Inr (True, cm)))))))"

fun activate_loop :: "nat \<Rightarrow> ChainManager \<Rightarrow> (bool option \<times> ChainManager) chain_result" where
  "activate_loop 0 cm = Inl ChainLoop"
| "activate_loop (Suc fuel) cm =
     bindE (findMostWorkBlockIndex cm) (\<lambda>(pMostWork, cm).
     case pMostWork of
       None \<Rightarrow> Inr (Some True, cm)
     | Some m \<Rightarrow>
         if pMostWork = tip (cm_active cm) then Inr (Some True, cm)
         else bindE (activateBestChainStep m cm) (\<lambda>(ok, cm).
              if \<not> ok then Inr (Some False, cm)
              else if pMostWork \<noteq> tip (cm_active cm) then activate_loop fuel cm
              else Inr (None, cm)))"

text \<open>The bound of the outer loop: one step per height of the tree is more than enough.\<close>

definition activate_fuel :: "ChainManager \<Rightarrow> nat" where
  "activate_fuel cm =
     foldl (\<lambda>n p. case cm_heap cm p of None \<Rightarrow> n | Some b \<Rightarrow> max n (nat (bi_height b))) 0 (cm_candidates cm) + 2"

definition activateBestChain :: "ConsensusArgs option \<Rightarrow> ChainManager \<Rightarrow> (bool \<times> ChainManager) chain_result" where
  "activateBestChain pArgs cm =
     bindE (activate_loop (activate_fuel cm) cm) (\<lambda>(r, cm).
     case r of
       Some ok \<Rightarrow> Inr (ok, cm)
     | None \<Rightarrow> bindE (checkAllBlockIndexs pArgs cm) (\<lambda>ok. Inr (ok, cm)))"

section \<open>Accepting a block\<close>

definition acceptBlock ::
  "ConsensusArgs option \<Rightarrow> digest \<Rightarrow> int \<Rightarrow> Block \<Rightarrow> ChainManager \<Rightarrow> (ptr \<times> ChainManager) chain_result" where
  "acceptBlock pArgs sha256 now pBlock cm =
     bindE (liftE ChainStream (block_getHash sha256 pBlock)) (\<lambda>blockHash.
     let isBlockGenesis = isGenesisHash pArgs blockHash;
         pFindIndex = findBlockIndex cm blockHash
     in bindE (case pFindIndex of None \<Rightarrow> Inr True
               | Some f \<Rightarrow> bindE (deref (cm_heap cm) (Some f)) (\<lambda>b. Inr (isValid b))) (\<lambda>ok.
        if \<not> ok then Inr (None, cm) else
        bindE (validBlockHeader pArgs sha256 now cm pBlock) (\<lambda>ok.
        if \<not> ok then Inr (None, cm) else
        bindE (if isBlockGenesis then Inr True
               else case findBlockIndex cm (h_hashPrevBlock (b_header pBlock)) of
                      None \<Rightarrow> Inr False
                    | Some q \<Rightarrow> bindE (deref (cm_heap cm) (Some q)) (\<lambda>prev. Inr (isValid prev))) (\<lambda>ok.
        if \<not> ok then Inr (None, cm) else
        bindE (case pFindIndex of
                 Some f \<Rightarrow> Inr (f, cm)
               | None \<Rightarrow> addToBlockIndex sha256 pBlock cm) (\<lambda>(pBlockIndex, cm).
        bindE (if isBlockGenesis then Inr True else validBlock pArgs sha256 now cm pBlock) (\<lambda>ok.
        if \<not> ok then Inr (None, cm) else
        bindE (receiveBlock pBlock pBlockIndex cm) (\<lambda>(ok, cm).
        if \<not> ok then Inr (None, cm\<lparr>cm_heap := (cm_heap cm)(pBlockIndex := None)\<rparr>) else
        bindE (checkAllBlockIndexs pArgs cm) (\<lambda>ok.
        if \<not> ok then Inr (None, cm\<lparr>cm_heap := (cm_heap cm)(pBlockIndex := None)\<rparr>) else
        bindE (activateBestChain pArgs cm) (\<lambda>(ok, cm).
        if \<not> ok then Inr (None, cm\<lparr>cm_heap := (cm_heap cm)(pBlockIndex := None)\<rparr>)
        else Inr (Some pBlockIndex, cm))))))))))"

end
