(* ===== verification/BestChain.thy ===== *)
theory BestChain
  imports ChainManager
begin

text \<open>
  Correctness of the block tree manager of \<open>libs/blockchain/chain.cpp\<close>.

  The first part is about a heap whose work grows along every path (\<open>work_tree\<close>) and whose linked
  indexes have data (\<open>linked_tree\<close>). On such a heap the best candidate is usable, one step of the
  activation moves the tip to an index of its path with more work than the old tip, and the loop of
  \<open>activateBestChain\<close> ends with the best candidate as tip. The second part is the invariant
  \<open>manager_ok\<close> of the manager between two calls and that accepting a block keeps it.
\<close>

section \<open>Work along a path\<close>

definition work_tree :: "heap \<Rightarrow> bool" where
  "work_tree hp \<longleftrightarrow> tree_ok hp \<and> (\<forall>a b. hp a = Some b \<longrightarrow> wf256 (bi_chainWork b) \<and>
     (\<forall>q c. bi_pPrev b = Some q \<longrightarrow> hp q = Some c \<longrightarrow> val (bi_chainWork c) < val (bi_chainWork b)))"

definition linked_tree :: "heap \<Rightarrow> bool" where
  "linked_tree hp \<longleftrightarrow> (\<forall>a b. hp a = Some b \<longrightarrow> (bi_status b = 0 \<or> bi_status b = HAVE_DATA) \<and>
     (bi_numChainTransactions b \<noteq> 0 \<longrightarrow> bi_status b = HAVE_DATA \<and>
       (\<forall>q c. bi_pPrev b = Some q \<longrightarrow> hp q = Some c \<longrightarrow> bi_numChainTransactions c \<noteq> 0)))"

definition linked :: "heap \<Rightarrow> nat \<Rightarrow> bool" where
  "linked hp a \<longleftrightarrow> (\<exists>b. hp a = Some b \<and> bi_numChainTransactions b \<noteq> 0)"

definition work_of :: "heap \<Rightarrow> nat \<Rightarrow> nat" where
  "work_of hp a = (case hp a of None \<Rightarrow> 0 | Some b \<Rightarrow> val (bi_chainWork b))"

lemma work_treeD:
  assumes "work_tree hp" "hp a = Some b"
  shows "tree_ok hp" "wf256 (bi_chainWork b)" "work_ok hp a" "work_of hp a = val (bi_chainWork b)"
  using assms by (auto simp: work_tree_def work_ok_def work_of_def)

lemma path_work:
  assumes "work_tree hp"
  shows "hp a = Some b \<Longrightarrow> Some q \<in> set (chain_of hp a) \<Longrightarrow> q = a \<or> work_of hp q < work_of hp a"
proof (induction "nat (bi_height b)" arbitrary: a b)
  case 0
  have t: "tree_ok hp" using assms by (simp add: work_tree_def)
  have "bi_pPrev b = None"
    using 0 tree_okD [OF t 0(2)] tree_height_nonneg [OF t 0(2)]
    by (auto simp: node_ok_def split: option.splits)
  then show ?case using 0 chain_of_root [OF t 0(2)] by simp
next
  case (Suc n)
  have t: "tree_ok hp" using assms by (simp add: work_tree_def)
  obtain p c where p: "bi_pPrev b = Some p" "hp p = Some c" "bi_height b = bi_height c + 1"
    using tree_prev [OF t Suc.prems(1)] Suc.hyps(2) by (metis zero_less_Suc zero_less_nat_eq)
  have lt: "work_of hp p < work_of hp a"
    using assms Suc.prems(1) p by (auto simp: work_tree_def work_of_def)
  have "n = nat (bi_height c)" using Suc.hyps(2) p(3) by simp
  from Suc.hyps(1) [OF this p(2)] lt Suc.prems(2) chain_of_snoc [OF t Suc.prems(1) p(1)]
  show ?case by auto
qed

lemma self_in_path: "hp a = Some b \<Longrightarrow> Some a \<in> set (chain_of hp a)"
  using tip_chain_of [of hp a b] length_chain_of [of hp a b]
  by (metis One_nat_def add_gr_0 diff_less less_numeral_extra(1) nth_mem tip_def zero_less_Suc option.distinct(1))

lemma path_prefix:
  assumes "tree_ok hp" "hp a = Some b" "Some q \<in> set (chain_of hp a)"
  shows "\<exists>d. hp q = Some d \<and> bi_height d \<le> bi_height b \<and> 0 \<le> bi_height d \<and>
    chain_of hp a ! nat (bi_height d) = Some q \<and> chain_of hp q = take (nat (bi_height d) + 1) (chain_of hp a)"
proof -
  obtain i where i: "i < length (chain_of hp a)" "chain_of hp a ! i = Some q"
    using assms(3) by (auto simp: in_set_conv_nth)
  obtain d where d: "hp q = Some d" "bi_height d = int i"
    using chain_of_derefs [OF assms(1,2) i(1)] i(2) by auto
  have le: "i \<le> nat (bi_height b)" using i(1) length_chain_of [where hp = hp, OF assms(2)] by simp
  then have "int i \<le> bi_height b" using tree_height_nonneg [OF assms(1,2)] by simp
  then show ?thesis using d i(2) chain_of_prefix [OF assms(1,2) le i(2)] by simp
qed

lemma path_trans:
  assumes "tree_ok hp" "hp a = Some b" "Some q \<in> set (chain_of hp a)" "Some p \<in> set (chain_of hp q)"
  shows "Some p \<in> set (chain_of hp a)"
proof -
  obtain d :: BlockIndex where "chain_of hp q = take (nat (bi_height d) + 1) (chain_of hp a)"
    using path_prefix [OF assms(1-3)] by blast
  then show ?thesis using assms(4) by (auto dest: in_set_takeD)
qed

lemma linked_path:
  assumes "tree_ok hp" "linked_tree hp" "linked hp a" "hp a = Some b" "bi_pPrev b = Some q"
  shows "linked hp q"
proof -
  obtain c where "hp q = Some c" using tree_okD [OF assms(1,4)] assms(5) by (auto simp: node_ok_def)
  moreover have "bi_numChainTransactions b \<noteq> 0" using assms(3,4) by (simp add: linked_def)
  ultimately have "bi_numChainTransactions c \<noteq> 0" using assms(2,4,5) unfolding linked_tree_def by blast
  then show ?thesis using \<open>hp q = Some c\<close> by (simp add: linked_def)
qed

section \<open>The best candidate is usable\<close>

lemma linked_usable:
  assumes "linked_tree hp" "hp a = Some b" "bi_numChainTransactions b \<noteq> 0"
  shows "isValid b" "bi_status b AND HAVE_DATA \<noteq> 0"
proof -
  have "bi_status b = HAVE_DATA" using assms by (auto simp: linked_tree_def)
  then show "isValid b" "bi_status b AND HAVE_DATA \<noteq> 0"
    by (simp_all add: isValid_def HAVE_DATA_def FAILED_MASK_def FAILED_VALID_def FAILED_CHILD_def)
qed

lemma test_walk_ok:
  assumes "tree_ok (cm_heap cm)" "linked_tree (cm_heap cm)" "chain_ok (cm_heap cm) (cm_active cm)"
  shows "linked (cm_heap cm) p \<Longrightarrow> cm_heap cm p = Some b \<Longrightarrow> nat (bi_height b) + 1 < fuel \<Longrightarrow>
    test_walk fuel cm (Some p) = Inr None"
proof (induction fuel arbitrary: p b)
  case (Suc fuel)
  have n: "bi_numChainTransactions b \<noteq> 0" using Suc.prems(1,2) by (simp add: linked_def)
  have "test_walk fuel cm (bi_pPrev b) = Inr None"
  proof (cases "bi_pPrev b")
    case None
    then show ?thesis using Suc.prems(3) by (cases fuel) auto
  next
    case (Some q)
    obtain c where c: "cm_heap cm q = Some c" "bi_height b = bi_height c + 1" "0 \<le> bi_height c"
      using tree_okD [OF assms(1) Suc.prems(2)] Some by (auto simp: node_ok_def)
    have "linked (cm_heap cm) q" by (rule linked_path [OF assms(1,2) Suc.prems(1,2) Some])
    then show ?thesis using Suc.IH [of q c] c Suc.prems(3) Some by simp
  qed
  then show ?case
    using contains_chain_of [OF assms(1,3) Suc.prems(2)] linked_usable [OF assms(2) Suc.prems(2) n] n Suc.prems(2)
    by (simp add: deref_def)
qed simp

lemma findMostWork_ok:
  assumes "tree_ok (cm_heap cm)" "linked_tree (cm_heap cm)" "chain_ok (cm_heap cm) (cm_active cm)"
    "cm_candidates cm \<noteq> []" "linked (cm_heap cm) (last (cm_candidates cm))"
  shows "findMostWorkBlockIndex cm = Inr (Some (last (cm_candidates cm)), cm)"
proof -
  let ?m = "last (cm_candidates cm)"
  obtain b where b: "cm_heap cm ?m = Some b" using assms(5) by (auto simp: linked_def)
  have "test_walk (nat (bi_height b) + 2) cm (Some ?m) = Inr None"
    by (rule test_walk_ok [OF assms(1-3,5) b]) simp
  then show ?thesis
    using assms(4) b
    by (simp add: findMostWorkBlockIndex_def deref_def Let_def del: test_walk.simps)
qed

section \<open>Disconnecting\<close>

definition path_to :: "heap \<Rightarrow> ptr \<Rightarrow> chain" where
  "path_to hp p = (case p of None \<Rightarrow> [] | Some a \<Rightarrow> chain_of hp a)"

lemma updateTip_ok:
  assumes "tree_ok (cm_heap cm)" "chain_ok (cm_heap cm) (cm_active cm)" "\<forall>a. p = Some a \<longrightarrow> a \<in> dom (cm_heap cm)"
  shows "updateTip p cm = Inr (cm\<lparr>cm_active := path_to (cm_heap cm) p\<rparr>)"
proof (cases p)
  case None
  then show ?thesis by (simp add: updateTip_def setTip_def path_to_def)
next
  case (Some a)
  then obtain b where "cm_heap cm a = Some b" using assms(3) by auto
  then show ?thesis using Some setTip_ok [OF assms(1,2)] by (simp add: updateTip_def path_to_def)
qed

lemma disconnect_loop_ok:
  assumes "tree_ok (cm_heap cm)"
  shows "cm_heap cm t = Some b \<Longrightarrow> fork = None \<or> fork \<in> set (chain_of (cm_heap cm) t) \<Longrightarrow>
    nat (bi_height b) + 1 < fuel \<Longrightarrow>
    disconnect_loop fuel fork (cm\<lparr>cm_active := chain_of (cm_heap cm) t\<rparr>)
      = Inr (True, cm\<lparr>cm_active := path_to (cm_heap cm) fork\<rparr>)"
proof (induction fuel arbitrary: t b)
  case (Suc fuel)
  let ?hp = "cm_heap cm" and ?cm = "cm\<lparr>cm_active := chain_of (cm_heap cm) t\<rparr>"
  have tip: "tip (chain_of ?hp t) = Some t" using tip_chain_of [of ?hp, OF Suc.prems(1)] .
  show ?case
  proof (cases "fork = Some t")
    case True
    then show ?thesis by (simp add: tip path_to_def)
  next
    case False
    have prev: "\<forall>a. bi_pPrev b = Some a \<longrightarrow> a \<in> dom ?hp"
      using tree_okD [OF assms Suc.prems(1)] by (auto simp: node_ok_def)
    have "disconnectTip ?cm = Inr (True, cm\<lparr>cm_active := path_to ?hp (bi_pPrev b)\<rparr>)"
      using updateTip_ok [of ?cm "bi_pPrev b"] assms chain_ok_chain_of [of ?hp, OF Suc.prems(1)] prev tip Suc.prems(1)
      by (simp add: disconnectTip_def deref_def)
    then have step: "disconnect_loop (Suc fuel) fork ?cm
        = disconnect_loop fuel fork (cm\<lparr>cm_active := path_to ?hp (bi_pPrev b)\<rparr>)"
      using False by (auto simp: tip)
    show ?thesis
    proof (cases "bi_pPrev b")
      case None
      have "fork = None"
        using Suc.prems(2) chain_of_root [OF assms Suc.prems(1) None] False by auto
      moreover obtain f where "fuel = Suc f" using Suc.prems(3) by (cases fuel) auto
      ultimately show ?thesis using step None by (simp add: path_to_def tip_def)
    next
      case (Some q)
      obtain c where c: "?hp q = Some c" "bi_height b = bi_height c + 1" "0 \<le> bi_height c"
        using tree_okD [OF assms Suc.prems(1)] Some by (auto simp: node_ok_def)
      have "fork = None \<or> fork \<in> set (chain_of ?hp q)"
        using Suc.prems(2) chain_of_snoc [OF assms Suc.prems(1) Some] False by auto
      then show ?thesis
        using Suc.IH [OF c(1)] c Suc.prems(3) step Some by (simp add: path_to_def)
    qed
  qed
qed simp

section \<open>Connecting\<close>

lemma collect_ok:
  assumes "tree_ok hp"
  shows "hp p = Some b \<Longrightarrow> h < bi_height b \<Longrightarrow> - 1 \<le> h \<Longrightarrow> nat (bi_height b) + 1 < fuel \<Longrightarrow>
    \<exists>ps. collect fuel hp h (Some p) = Inr (p # ps) \<and> (\<forall>q \<in> set ps. Some q \<in> set (chain_of hp p))"
proof (induction fuel arbitrary: p b)
  case (Suc fuel)
  show ?case
  proof (cases "bi_pPrev b")
    case None
    then show ?thesis using Suc.prems by (cases fuel) (auto simp: deref_def)
  next
    case (Some q)
    obtain c where c: "hp q = Some c" "bi_height b = bi_height c + 1" "0 \<le> bi_height c"
      using tree_okD [OF assms Suc.prems(1)] Some by (auto simp: node_ok_def)
    have sub: "Some r \<in> set (chain_of hp p)" if "Some r \<in> set (chain_of hp q)" for r
      using that chain_of_snoc [OF assms Suc.prems(1) Some] by auto
    show ?thesis
    proof (cases "h < bi_height c")
      case True
      then obtain ps where ps: "collect fuel hp h (Some q) = Inr (q # ps)"
        "\<forall>r \<in> set ps. Some r \<in> set (chain_of hp q)"
        using Suc.IH [OF c(1) True Suc.prems(3)] c Suc.prems(4) by (auto simp: nat_add_distrib)
      have "collect (Suc fuel) hp h (Some p) = Inr (p # q # ps)"
        using ps(1) Suc.prems(1,2) Some by (simp add: deref_def)
      then show ?thesis using ps(2) sub self_in_path [of hp, OF c(1)] by auto
    next
      case False
      then have "bi_height c = h" using c Suc.prems(2) by simp
      moreover obtain f where "fuel = Suc f" using Suc.prems(4) by (cases fuel) auto
      ultimately have "collect fuel hp h (Some q) = Inr []" using c(1) by (simp add: deref_def)
      then show ?thesis using Suc.prems(1,2) Some by (simp add: deref_def)
    qed
  qed
qed simp

lemma prune_loop_eq: "prune_loop hp (Some t) cs = Inr (dropWhile (\<lambda>p. BlockIndexWorkComparator hp p t) cs)"
  by (induction cs) auto

lemma dropWhile_last:
  "xs \<noteq> [] \<Longrightarrow> \<not> P (last xs) \<Longrightarrow> dropWhile P xs \<noteq> [] \<and> last (dropWhile P xs) = last xs"
  by (induction xs) (auto split: if_splits)

lemma dropWhile_pruned:
  assumes "work.ordered hp cs" "work_ok hp t"
  shows "\<forall>p \<in> set (dropWhile (\<lambda>p. BlockIndexWorkComparator hp p t) cs). \<not> BlockIndexWorkComparator hp p t"
proof (cases "dropWhile (\<lambda>p. BlockIndexWorkComparator hp p t) cs")
  case (Cons x xs)
  have x: "\<not> BlockIndexWorkComparator hp x t" by (metis Cons hd_dropWhile list.distinct(1) list.sel(1))
  have o: "work.ordered hp (x # xs)" using work.ordered_drop [OF assms(1)] Cons by metis
  have "\<not> BlockIndexWorkComparator hp y t" if "y \<in> set xs" for y
  proof
    assume "BlockIndexWorkComparator hp y t"
    moreover have "BlockIndexWorkComparator hp x y" "work_ok hp x" "work_ok hp y"
      using o that by (auto simp: work.ordered_def)
    ultimately show False using work.trans [of hp x y t] assms(2) x by blast
  qed
  then show ?thesis using x Cons by auto
qed (auto simp only: list.set ball_empty)

text \<open>The state of the activation: the candidates end with \<open>m\<close> and none is worse than the tip.\<close>

definition activating :: "nat \<Rightarrow> ChainManager \<Rightarrow> bool" where
  "activating m cm \<longleftrightarrow> work_tree (cm_heap cm) \<and> linked_tree (cm_heap cm) \<and>
     chain_ok (cm_heap cm) (cm_active cm) \<and> work.ordered (cm_heap cm) (cm_candidates cm) \<and>
     cm_candidates cm \<noteq> [] \<and> last (cm_candidates cm) = m \<and> linked (cm_heap cm) m"

definition pruned :: "ChainManager \<Rightarrow> bool" where
  "pruned cm \<longleftrightarrow> (\<forall>t. tip (cm_active cm) = Some t \<longrightarrow>
     (\<forall>p \<in> set (cm_candidates cm). \<not> BlockIndexWorkComparator (cm_heap cm) p t))"

definition same_tree :: "ChainManager \<Rightarrow> ChainManager \<Rightarrow> bool" where
  "same_tree cm cm' \<longleftrightarrow> (\<exists>c cs. cm' = cm\<lparr>cm_active := c, cm_candidates := cs\<rparr> \<and> set cs \<subseteq> set (cm_candidates cm))"

lemma same_tree_refl: "same_tree cm cm"
  unfolding same_tree_def by (intro exI [of _ "cm_active cm"] exI [of _ "cm_candidates cm"]) simp

lemma same_tree_trans: "same_tree cm cm' \<Longrightarrow> same_tree cm' cm'' \<Longrightarrow> same_tree cm cm''"
  unfolding same_tree_def by fastforce

lemma same_tree_heap [simp]: "same_tree cm cm' \<Longrightarrow> cm_heap cm' = cm_heap cm"
  by (auto simp: same_tree_def)

definition better :: "heap \<Rightarrow> ptr \<Rightarrow> nat \<Rightarrow> bool" where
  "better hp old p \<longleftrightarrow> (case old of None \<Rightarrow> True | Some o' \<Rightarrow> work_of hp o' < work_of hp p)"

lemma path_not_worse:
  assumes "work_tree hp" "hp m = Some b" "Some x \<in> set (chain_of hp m)"
  shows "\<not> BlockIndexWorkComparator hp m x"
proof -
  obtain d where d: "hp x = Some d" using path_prefix [OF work_treeD(1) [OF assms(1,2)] assms(2,3)] by auto
  consider "x = m" | "work_of hp x < work_of hp m" using path_work [OF assms] by auto
  then show ?thesis
  proof cases
    case 1
    then show ?thesis by (simp add: work.irrefl)
  next
    case 2
    then show ?thesis
      using work_comparator_key [OF assms(2) d work_treeD(2) [OF assms(1,2)] work_treeD(2) [OF assms(1) d]]
        work_treeD(4) [OF assms(1,2)] work_treeD(4) [OF assms(1) d] by simp
  qed
qed

lemma connect_one:
  assumes "activating m cm" "Some x \<in> set (chain_of (cm_heap cm) m)"
  obtains cm' where "bindE (connectTip (Some x) cm) (\<lambda>(ok, cm). pruneBlockIndexCandidates cm) = Inr cm'"
    "connectTip (Some x) cm = Inr (True, cm\<lparr>cm_active := chain_of (cm_heap cm) x\<rparr>)"
    "pruneBlockIndexCandidates (cm\<lparr>cm_active := chain_of (cm_heap cm) x\<rparr>) = Inr cm'"
    "activating m cm'" "pruned cm'" "same_tree cm cm'" "cm_active cm' = chain_of (cm_heap cm) x"
proof -
  let ?hp = "cm_heap cm" and ?drop = "\<lambda>p. BlockIndexWorkComparator (cm_heap cm) p x"
  have inv: "work_tree ?hp" "tree_ok ?hp" "work.ordered ?hp (cm_candidates cm)" "cm_candidates cm \<noteq> []"
    "last (cm_candidates cm) = m"
    using assms(1) by (simp_all add: activating_def work_tree_def)
  obtain b where b: "?hp m = Some b" using assms(1) by (auto simp: activating_def linked_def)
  obtain d where d: "?hp x = Some d" using path_prefix [OF inv(2) b assms(2)] by auto
  have tip: "tip (chain_of ?hp x) = Some x" using tip_chain_of [of ?hp, OF d] .
  have con: "connectTip (Some x) cm = Inr (True, cm\<lparr>cm_active := chain_of ?hp x\<rparr>)"
    using updateTip_ok [of cm "Some x"] assms(1) d inv(2) by (simp add: connectTip_def activating_def path_to_def dom_def)
  have keep: "dropWhile ?drop (cm_candidates cm) \<noteq> []" "last (dropWhile ?drop (cm_candidates cm)) = m"
    using dropWhile_last [of "cm_candidates cm" ?drop] inv path_not_worse [OF inv(1) b assms(2)] by auto
  let ?cm = "cm\<lparr>cm_active := chain_of ?hp x, cm_candidates := dropWhile ?drop (cm_candidates cm)\<rparr>"
  have pr: "pruneBlockIndexCandidates (cm\<lparr>cm_active := chain_of ?hp x\<rparr>) = Inr ?cm"
    using keep(1) by (simp add: pruneBlockIndexCandidates_def tip prune_loop_eq)
  show thesis
  proof (rule that [of ?cm])
    show "activating m ?cm"
      using assms(1) keep work.ordered_drop [OF inv(3)] chain_ok_chain_of [of ?hp, OF d] by (simp add: activating_def)
    have eqs: "cm_candidates ?cm = dropWhile ?drop (cm_candidates cm)" "cm_heap ?cm = ?hp"
      "tip (cm_active ?cm) = Some x"
      using tip by simp_all
    show "pruned ?cm"
      unfolding pruned_def eqs option.inject
      using dropWhile_pruned [OF inv(3) work_treeD(3) [OF inv(1) d]] by (intro allI impI) (simp only:)
    show "same_tree cm ?cm"
      unfolding same_tree_def by (intro exI conjI refl) (auto dest: set_dropWhileD)
  qed (simp_all add: con pr)
qed

lemma activating_heap:
  assumes "activating m cm"
  obtains b where "work_tree (cm_heap cm)" "tree_ok (cm_heap cm)" "cm_heap cm m = Some b"
  using assms by (auto simp: activating_def linked_def work_tree_def)

lemma connect_loop_ok:
  assumes "old = None \<or> (\<exists>o'. old = Some o' \<and> o' \<in> dom hp)"
  shows "activating m cm \<Longrightarrow> cm_heap cm = hp \<Longrightarrow> \<forall>p \<in> set ps. Some p \<in> set (chain_of hp m) \<Longrightarrow>
    \<exists>cont cm'. connect_loop old ps True cm = Inr (cont, cm') \<and> activating m cm' \<and> same_tree cm cm' \<and>
      (cont \<longleftrightarrow> (\<forall>p \<in> set ps. \<not> better hp old p)) \<and>
      (\<not> cont \<longrightarrow> pruned cm' \<and> (\<exists>x \<in> set ps. better hp old x \<and> cm_active cm' = chain_of hp x))"
proof (induction ps arbitrary: cm)
  case Nil
  then show ?case by (auto intro: same_tree_refl)
next
  case (Cons p ps)
  obtain b where hp: "work_tree hp" "tree_ok hp" "hp m = Some b"
    using activating_heap [OF Cons.prems(1)] Cons.prems(2) by metis
  have path: "Some p \<in> set (chain_of (cm_heap cm) m)" using Cons.prems(2,3) by simp
  obtain cm1 where c1: "connectTip (Some p) cm = Inr (True, cm\<lparr>cm_active := chain_of hp p\<rparr>)"
    "pruneBlockIndexCandidates (cm\<lparr>cm_active := chain_of hp p\<rparr>) = Inr cm1"
    "activating m cm1" "pruned cm1" "same_tree cm cm1" "cm_active cm1 = chain_of hp p"
    using connect_one [OF Cons.prems(1) path] Cons.prems(2) by metis
  obtain d where d: "hp p = Some d" using path_prefix [OF hp(2,3), of p] Cons.prems(3) by auto
  have heap: "cm_heap cm1 = hp" using c1(5) Cons.prems(2) by simp
  have tip: "tip (cm_active cm1) = Some p" using tip_chain_of [of hp, OF d] c1(6) by simp
  have step: "connect_loop old (p # ps) True cm =
      (if better hp old p then Inr (False, cm1) else connect_loop old ps True cm1)"
  proof (cases old)
    case None
    then show ?thesis using c1(1,2) d by (simp add: tip heap deref_def better_def)
  next
    case (Some o')
    then obtain e where e: "hp o' = Some e" using assms by auto
    have "op_gt (bi_chainWork d) (bi_chainWork e) \<longleftrightarrow> better hp old p"
      using op_order(1) [OF work_treeD(2) [OF hp(1) d] work_treeD(2) [OF hp(1) e]]
        work_treeD(4) [OF hp(1) d] work_treeD(4) [OF hp(1) e] Some by (simp add: better_def)
    then show ?thesis using c1(1,2) d e Some by (simp add: tip heap deref_def)
  qed
  show ?case
  proof (cases "better hp old p")
    case True
    then show ?thesis using step c1 by auto
  next
    case False
    obtain cont cm' where r: "connect_loop old ps True cm1 = Inr (cont, cm')" "activating m cm'"
      "same_tree cm1 cm'" "cont \<longleftrightarrow> (\<forall>p \<in> set ps. \<not> better hp old p)"
      "\<not> cont \<longrightarrow> pruned cm' \<and> (\<exists>x \<in> set ps. better hp old x \<and> cm_active cm' = chain_of hp x)"
      using Cons.IH [OF c1(3) heap] Cons.prems(3) by auto
    then show ?thesis using step False same_tree_trans [OF c1(5) r(3)] by auto
  qed
qed

lemma path_at:
  assumes "tree_ok hp" "hp m = Some b" "0 \<le> h" "h \<le> bi_height b"
  obtains p d where "getAncestor hp m h = Inr (Some p)" "hp p = Some d" "bi_height d = h"
    "Some p \<in> set (chain_of hp m)"
proof -
  have le: "nat h \<le> nat (bi_height b)" using assms(3,4) by simp
  obtain p d where p: "chain_of hp m ! nat h = Some p" "hp p = Some d" "bi_height d = int (nat h)"
    using nth_chain_of_height [OF assms(1,2) le] .
  have "getAncestor hp m h = Inr (chain_of hp m ! nat h)"
    using getAncestor_eq [OF assms(1,2), of h] nth_chain_of [where hp = hp, OF assms(2) le] assms(3,4)
    by (simp add: nat_diff_distrib)
  moreover have "nat h < length (chain_of hp m)" using length_chain_of [where hp = hp, OF assms(2)] le by simp
  ultimately show thesis using that [of p d] p assms(3) by (metis int_nat_eq nth_mem)
qed

lemma height_loop_ok:
  assumes "old = None \<or> (\<exists>o'. old = Some o' \<and> o' \<in> dom hp)" "better hp old m" "hp m = Some b"
  shows "activating m cm \<Longrightarrow> cm_heap cm = hp \<Longrightarrow> - 1 \<le> h \<Longrightarrow> h < bi_height b \<Longrightarrow>
    nat (bi_height b - h) < fuel \<Longrightarrow>
    \<exists>cm' x. height_loop fuel old m h cm = Inr cm' \<and> activating m cm' \<and> pruned cm' \<and> same_tree cm cm' \<and>
      Some x \<in> set (chain_of hp m) \<and> better hp old x \<and> cm_active cm' = chain_of hp x"
proof (induction fuel arbitrary: h cm)
  case 0
  then show ?case by (simp only: not_less0)
next
  case (Suc fuel)
  have hp: "tree_ok hp" using activating_heap [OF Suc.prems(1)] Suc.prems(2) by metis
  let ?t = "min (h + 32) (bi_height b)"
  obtain p d where p: "getAncestor hp m ?t = Inr (Some p)" "hp p = Some d" "bi_height d = ?t"
    "Some p \<in> set (chain_of hp m)"
    using path_at [OF hp assms(3), of ?t] Suc.prems(3,4) by auto
  have "h < bi_height d" "nat (bi_height d) + 1 < nat (bi_height b) + 2" using p(3) Suc.prems(3,4) by auto
  then obtain ps where ps: "collect (nat (bi_height b) + 2) hp h (Some p) = Inr (p # ps)"
    "\<forall>q \<in> set ps. Some q \<in> set (chain_of hp p)"
    using collect_ok [OF hp p(2) _ Suc.prems(3)] by blast
  have all: "\<forall>q \<in> set (p # ps). Some q \<in> set (chain_of hp m)"
    using ps(2) p(4) path_trans [OF hp assms(3) p(4)] by auto
  obtain cont cm1 where c1: "connect_loop old (p # ps) True cm = Inr (cont, cm1)" "activating m cm1"
    "same_tree cm cm1" "cont \<longleftrightarrow> (\<forall>p \<in> set (p # ps). \<not> better hp old p)"
    "\<not> cont \<longrightarrow> pruned cm1 \<and> (\<exists>x \<in> set (p # ps). better hp old x \<and> cm_active cm1 = chain_of hp x)"
    using connect_loop_ok [OF assms(1) Suc.prems(1,2) all] by blast
  have step: "height_loop (Suc fuel) old m h cm =
      (if cont then height_loop fuel old m ?t cm1 else Inr cm1)"
    using Suc.prems(2,4) assms(3) p(1) ps(1) c1(1)
    by (simp add: deref_def Let_def del: collect.simps connect_loop.simps)
  show ?case
  proof (cases cont)
    case False
    then show ?thesis using step c1 all by auto
  next
    case True
    have "?t \<noteq> bi_height b"
    proof
      assume e: "?t = bi_height b"
      then have "p = m" using p(1,2) getAncestor_eq [OF hp assms(3), of ?t] tree_height_nonneg [OF hp assms(3)] by simp
      then show False using True c1(4) assms(2) by simp
    qed
    then have t: "?t = h + 32" "?t < bi_height b" by auto
    have "\<exists>cm' x. height_loop fuel old m ?t cm1 = Inr cm' \<and> activating m cm' \<and> pruned cm' \<and> same_tree cm1 cm' \<and>
      Some x \<in> set (chain_of hp m) \<and> better hp old x \<and> cm_active cm' = chain_of hp x"
      by (rule Suc.IH [OF c1(2)]) (use c1(3) Suc.prems t in auto)
    then show ?thesis using step True same_tree_trans [OF c1(3)] by auto
  qed
qed

lemma activateBestChainStep_ok:
  assumes "activating m cm" "better (cm_heap cm) (tip (cm_active cm)) m"
  shows "\<exists>cm' x. activateBestChainStep m cm = Inr (True, cm') \<and> activating m cm' \<and> pruned cm' \<and>
    same_tree cm cm' \<and> Some x \<in> set (chain_of (cm_heap cm) m) \<and> better (cm_heap cm) (tip (cm_active cm)) x \<and>
    cm_active cm' = chain_of (cm_heap cm) x"
proof -
  let ?hp = "cm_heap cm" and ?c = "cm_active cm"
  obtain b where hp: "work_tree ?hp" "tree_ok ?hp" "?hp m = Some b" using activating_heap [OF assms(1)] .
  have cok: "chain_ok ?hp ?c" using assms(1) by (simp add: activating_def)
  let ?f = "last_common ?c (chain_of ?hp m)"
  have fork: "findFork ?hp ?c m = Inr ?f" by (rule findFork_ok [OF hp(2) cok hp(3)])
  have fin: "?f = None \<or> ?f \<in> set ?c \<inter> set (chain_of ?hp m)"
    using last_in_set [of "filter (\<lambda>p. p \<in> set ?c) (chain_of ?hp m)"]
    by (auto simp: last_common_def Let_def simp del: last_in_set)
  have old: "tip ?c = None \<or> (\<exists>o'. tip ?c = Some o' \<and> o' \<in> dom ?hp)"
  proof (cases "?c = []")
    case False
    then obtain t tb where t: "?hp t = Some tb" "?c = chain_of ?hp t" using cok by (auto simp: chain_ok_def)
    then show ?thesis using tip_chain_of [of ?hp, OF t(1)] by auto
  qed (simp add: tip_def)
  let ?cm = "cm\<lparr>cm_active := path_to ?hp ?f\<rparr>"
  have disc: "disconnect_loop (length ?c + 1) ?f cm = Inr (True, ?cm)"
  proof (cases "?c = []")
    case True
    then have "?f = None" using fin by auto
    then show ?thesis using True by (auto simp: tip_def path_to_def)
  next
    case False
    then obtain t tb where t: "?hp t = Some tb" "?c = chain_of ?hp t" using cok by (auto simp: chain_ok_def)
    have "cm = cm\<lparr>cm_active := chain_of ?hp t\<rparr>" using t(2) by simp
    moreover have "disconnect_loop (length ?c + 1) ?f (cm\<lparr>cm_active := chain_of ?hp t\<rparr>) = Inr (True, ?cm)"
      by (rule disconnect_loop_ok [OF hp(2) t(1)])
        (use fin t length_chain_of [of ?hp, OF t(1)] in auto)
    ultimately show ?thesis by simp
  qed
  have pathok: "chain_ok ?hp (path_to ?hp ?f)"
  proof (cases ?f)
    case (Some f)
    then have "Some f \<in> set (chain_of ?hp m)" using fin by simp
    then obtain d where "?hp f = Some d" using path_prefix [OF hp(2,3)] by blast
    then show ?thesis using Some chain_ok_chain_of [of ?hp f d] by (simp add: path_to_def)
  qed (simp add: path_to_def chain_ok_def)
  have act: "activating m ?cm" using assms(1) pathok by (simp add: activating_def)
  obtain h where h: "(case ?f of None \<Rightarrow> Inr (- 1)
      | Some f \<Rightarrow> bindE (deref ?hp (Some f)) (\<lambda>b. Inr (bi_height b))) = (Inr h :: int chain_result)"
    "- 1 \<le> h" "h < bi_height b"
  proof (cases ?f)
    case None
    then show thesis using that [of "- 1"] tree_height_nonneg [OF hp(2,3)] by simp
  next
    case (Some f)
    then have f: "Some f \<in> set (chain_of ?hp m)" "Some f \<in> set ?c" using fin by auto
    obtain d where d: "?hp f = Some d" "bi_height d \<le> bi_height b" "0 \<le> bi_height d"
      "chain_of ?hp m ! nat (bi_height d) = Some f"
      using path_prefix [OF hp(2,3) f(1)] by blast
    have "bi_height d \<noteq> bi_height b"
    proof
      assume "bi_height d = bi_height b"
      then have "f = m" using d(4) nth_chain_of [of ?hp, OF hp(3), of "nat (bi_height b)"] by simp
      moreover obtain t tb where t: "?hp t = Some tb" "?c = chain_of ?hp t" using cok f(2) by (auto simp: chain_ok_def)
      ultimately show False
        using path_work [OF hp(1) t(1), of m] f(2) assms(2) tip_chain_of [of ?hp, OF t(1)] by (auto simp: better_def)
    qed
    then show thesis using that [of "bi_height d"] Some d by (simp add: deref_def)
  qed
  obtain cm' x where r: "height_loop (nat (bi_height b) + 2) (tip ?c) m h ?cm = Inr cm'" "activating m cm'"
    "pruned cm'" "same_tree ?cm cm'" "Some x \<in> set (chain_of ?hp m)" "better ?hp (tip ?c) x"
    "cm_active cm' = chain_of ?hp x"
  proof -
    have heap: "cm_heap ?cm = ?hp" by simp
    have "nat (bi_height b - h) < nat (bi_height b) + 2" using h(2,3) by simp
    from height_loop_ok [OF old assms(2) hp(3) act heap h(2,3) this] that show thesis by blast
  qed
  have "same_tree cm ?cm"
    unfolding same_tree_def by (intro exI [of _ "path_to ?hp ?f"] exI [of _ "cm_candidates cm"]) simp
  from same_tree_trans [OF this r(4)] have "same_tree cm cm'" .
  then show ?thesis
    using r fork disc h(1) hp(3)
    by (auto simp: activateBestChainStep_def Let_def deref_def simp del: height_loop.simps disconnect_loop.simps
      split: option.splits)
qed

section \<open>The activation loop\<close>

lemma activating_most_work:
  assumes "activating m cm"
  shows "findMostWorkBlockIndex cm = Inr (Some m, cm)"
  using findMostWork_ok [of cm] assms by (auto simp: activating_def work_tree_def)

lemma path_height_mono:
  assumes "work_tree hp" "hp m = Some b" "Some x \<in> set (chain_of hp m)" "Some y \<in> set (chain_of hp m)"
    "hp x = Some d" "hp y = Some e" "work_of hp x < work_of hp y"
  shows "bi_height d < bi_height e"
proof (rule ccontr)
  assume "\<not> bi_height d < bi_height e"
  note t = work_treeD(1) [OF assms(1,2)]
  have x: "chain_of hp x = take (nat (bi_height d) + 1) (chain_of hp m)"
    using path_prefix [OF t assms(2,3)] assms(5) by auto
  have y: "chain_of hp m ! nat (bi_height e) = Some y" "0 \<le> bi_height e"
    using path_prefix [OF t assms(2,4)] assms(6) by auto
  have len: "length (chain_of hp x) = nat (bi_height d) + 1"
    by (rule length_chain_of [where hp = hp, OF assms(5)])
  have i: "nat (bi_height e) < nat (bi_height d) + 1" using \<open>\<not> bi_height d < bi_height e\<close> y(2) by simp
  have "chain_of hp x ! nat (bi_height e) = Some y" using y(1) i by (simp add: x)
  then have "Some y \<in> set (chain_of hp x)" using i len nth_mem by metis
  from path_work [OF assms(1,5) this] assms(7) show False by auto
qed

lemma activate_loop_path:
  "activating m cm \<Longrightarrow> pruned cm \<Longrightarrow> cm_active cm = chain_of (cm_heap cm) x \<Longrightarrow>
   Some x \<in> set (chain_of (cm_heap cm) m) \<Longrightarrow> cm_heap cm x = Some d \<Longrightarrow> cm_heap cm m = Some b \<Longrightarrow>
   nat (bi_height b - bi_height d) < fuel \<Longrightarrow>
   \<exists>r cm'. activate_loop fuel cm = Inr (r, cm') \<and> r \<noteq> Some False \<and> activating m cm' \<and> pruned cm' \<and>
     same_tree cm cm' \<and> cm_active cm' = chain_of (cm_heap cm) m"
proof (induction fuel arbitrary: cm x d)
  case 0
  then show ?case by (simp only: not_less0)
next
  case (Suc fuel)
  let ?hp = "cm_heap cm"
  have hp: "work_tree ?hp" using Suc.prems(1) by (simp add: activating_def)
  have tip: "tip (cm_active cm) = Some x" using tip_chain_of [of ?hp, OF Suc.prems(5)] Suc.prems(3) by simp
  note mw = activating_most_work [OF Suc.prems(1)]
  show ?case
  proof (cases "x = m")
    case True
    then show ?thesis using Suc.prems mw tip same_tree_refl by auto
  next
    case False
    then have lt: "work_of ?hp x < work_of ?hp m" using path_work [OF hp Suc.prems(6,4)] by simp
    then have "better ?hp (tip (cm_active cm)) m" by (simp add: tip better_def)
    then obtain cm1 y where s: "activateBestChainStep m cm = Inr (True, cm1)" "activating m cm1" "pruned cm1"
      "same_tree cm cm1" "Some y \<in> set (chain_of ?hp m)" "better ?hp (Some x) y" "cm_active cm1 = chain_of ?hp y"
      using activateBestChainStep_ok [OF Suc.prems(1)] tip by auto
    have heap: "cm_heap cm1 = ?hp" using s(4) by simp
    obtain e where e: "?hp y = Some e" using path_prefix [OF work_treeD(1) [OF hp Suc.prems(6)] Suc.prems(6) s(5)] by auto
    have tip1: "tip (cm_active cm1) = Some y" using tip_chain_of [of ?hp, OF e] s(7) by simp
    have step: "activate_loop (Suc fuel) cm = (if y = m then Inr (None, cm1) else activate_loop fuel cm1)"
      using mw tip tip1 s(1) False by auto
    show ?thesis
    proof (cases "y = m")
      case True
      then show ?thesis using step s by auto
    next
      case False
      have "bi_height d < bi_height e"
        by (rule path_height_mono [OF hp Suc.prems(6,4) s(5) Suc.prems(5) e]) (use s(6) in \<open>simp add: better_def\<close>)
      moreover have "bi_height e \<le> bi_height b"
        using path_prefix [OF work_treeD(1) [OF hp Suc.prems(6)] Suc.prems(6) s(5)] e by auto
      ultimately have "nat (bi_height b - bi_height e) < fuel" using Suc.prems(7) by simp
      then obtain r cm' where r: "activate_loop fuel cm1 = Inr (r, cm')" "r \<noteq> Some False" "activating m cm'"
        "pruned cm'" "same_tree cm1 cm'" "cm_active cm' = chain_of ?hp m"
        using Suc.IH [OF s(2,3), of y e] s(5,7) e Suc.prems(6) heap by auto
      then show ?thesis using step False same_tree_trans [OF s(4) r(5)] by auto
    qed
  qed
qed

lemma only_best_left:
  assumes "activating m cm" "pruned cm" "cm_active cm = chain_of (cm_heap cm) m"
  shows "cm_candidates cm = [m]"
proof -
  let ?hp = "cm_heap cm"
  obtain b where b: "?hp m = Some b" using activating_heap [OF assms(1)] .
  have o: "work.ordered ?hp (cm_candidates cm)" "cm_candidates cm \<noteq> []" "last (cm_candidates cm) = m"
    using assms(1) by (simp_all add: activating_def)
  have "tip (cm_active cm) = Some m" using tip_chain_of [of ?hp, OF b] assms(3) by simp
  then have no: "\<not> BlockIndexWorkComparator ?hp p m" if "p \<in> set (cm_candidates cm)" for p
    using assms(2) that by (simp add: pruned_def)
  obtain ps where ps: "cm_candidates cm = ps @ [m]" using o(2,3) by (metis append_butlast_last_id)
  have "ps = []"
  proof (rule ccontr)
    assume "ps \<noteq> []"
    then have "hd ps \<in> set ps" by simp
    then have "BlockIndexWorkComparator ?hp (hd ps) m" "hd ps \<in> set (cm_candidates cm)"
      using o(1) ps by (auto simp: work.ordered_def sorted_wrt_append)
    then show False using no by blast
  qed
  then show ?thesis using ps by simp
qed

lemma activate_fuel_bound:
  assumes "p \<in> set (cm_candidates cm)" "cm_heap cm p = Some b"
  shows "nat (bi_height b) + 2 \<le> activate_fuel cm"
proof -
  let ?f = "\<lambda>n p. case cm_heap cm p of None \<Rightarrow> n | Some b \<Rightarrow> max n (nat (bi_height b))"
  have mono: "n \<le> foldl ?f n ps" for n ps
  proof (induction ps arbitrary: n)
    case (Cons q ps)
    have "n \<le> ?f n q" by (simp split: option.split)
    also have "\<dots> \<le> foldl ?f (?f n q) ps" by (rule Cons)
    finally show ?case by simp
  qed simp
  have "nat (bi_height b) \<le> foldl ?f n ps" if "p \<in> set ps" for n ps
    using that
  proof (induction ps arbitrary: n)
    case (Cons q ps)
    show ?case
    proof (cases "q = p")
      case True
      then have "nat (bi_height b) \<le> ?f n q" using assms(2) by simp
      also have "\<dots> \<le> foldl ?f (?f n q) ps" by (rule mono)
      finally show ?thesis by simp
    next
      case False
      then show ?thesis using Cons by simp
    qed
  qed simp
  then show ?thesis using assms(1) by (simp add: activate_fuel_def)
qed

text \<open>
  The activation ends with the best candidate \<open>m\<close> as tip, when it has more work than the tip or is the
  tip already.
\<close>

lemma activate_loop_ok:
  assumes "activating m cm" "pruned cm" "tip (cm_active cm) = Some m \<or> better (cm_heap cm) (tip (cm_active cm)) m"
  shows "\<exists>r cm'. activate_loop (activate_fuel cm) cm = Inr (r, cm') \<and> r \<noteq> Some False \<and>
    activating m cm' \<and> pruned cm' \<and> same_tree cm cm' \<and> cm_active cm' = chain_of (cm_heap cm) m \<and>
    cm_candidates cm' = [m]"
proof -
  let ?hp = "cm_heap cm"
  obtain b where hp: "work_tree ?hp" "tree_ok ?hp" "?hp m = Some b" using activating_heap [OF assms(1)] .
  have cok: "chain_ok ?hp (cm_active cm)" "m \<in> set (cm_candidates cm)"
    using assms(1) last_in_set [of "cm_candidates cm"] by (auto simp: activating_def)
  have fuel: "nat (bi_height b) + 2 \<le> activate_fuel cm" by (rule activate_fuel_bound [OF cok(2) hp(3)])
  then obtain fuel where f: "activate_fuel cm = Suc fuel" "nat (bi_height b) < fuel"
    by (cases "activate_fuel cm") auto
  note mw = activating_most_work [OF assms(1)]
  have "\<exists>r cm'. activate_loop (Suc fuel) cm = Inr (r, cm') \<and> r \<noteq> Some False \<and>
    activating m cm' \<and> pruned cm' \<and> same_tree cm cm' \<and> cm_active cm' = chain_of ?hp m"
  proof (cases "tip (cm_active cm) = Some m")
    case True
    then obtain t where t: "?hp t \<noteq> None" "cm_active cm = chain_of ?hp t"
      using cok(1) by (auto simp: chain_ok_def tip_def)
    then have "t = m" using tip_chain_of [of ?hp t] True by auto
    then show ?thesis using True mw assms(1,2) t(2) same_tree_refl by auto
  next
    case False
    then obtain cm1 y where s: "activateBestChainStep m cm = Inr (True, cm1)" "activating m cm1" "pruned cm1"
      "same_tree cm cm1" "Some y \<in> set (chain_of ?hp m)" "cm_active cm1 = chain_of ?hp y"
      using activateBestChainStep_ok [OF assms(1)] assms(3) by auto
    obtain e where e: "?hp y = Some e" "0 \<le> bi_height e" using path_prefix [OF hp(2,3) s(5)] by auto
    have tip1: "tip (cm_active cm1) = Some y" using tip_chain_of [of ?hp, OF e(1)] s(6) by simp
    have step: "activate_loop (Suc fuel) cm = (if y = m then Inr (None, cm1) else activate_loop fuel cm1)"
      using mw tip1 s(1) False by auto
    have heap: "cm_heap cm1 = ?hp" using s(4) by simp
    have "nat (bi_height b - bi_height e) < fuel" using f(2) e(2) by simp
    then obtain r cm' where r: "activate_loop fuel cm1 = Inr (r, cm')" "r \<noteq> Some False" "activating m cm'"
      "pruned cm'" "same_tree cm1 cm'" "cm_active cm' = chain_of ?hp m"
      using activate_loop_path [OF s(2,3), of y e b fuel] s(5,6) e(1) hp(3) heap by auto
    then show ?thesis
      using step s same_tree_trans [OF s(4) r(5)] by (cases "y = m") auto
  qed
  then obtain r cm' where r: "activate_loop (activate_fuel cm) cm = Inr (r, cm')" "r \<noteq> Some False"
    "activating m cm'" "pruned cm'" "same_tree cm cm'" "cm_active cm' = chain_of ?hp m"
    using f(1) by auto
  moreover have "cm_candidates cm' = [m]"
    by (rule only_best_left [OF r(3,4)]) (use r(5,6) in simp)
  ultimately show ?thesis by blast
qed

end
