(* ===== verification/AcceptBlock.thy ===== *)
theory AcceptBlock
  imports BestChain
begin

text \<open>
  The invariant \<open>manager_ok\<close> of the block tree manager between two calls and its preservation by
  \<open>acceptBlock\<close>: the tree is well formed, work grows along it, every linked index has data, the map
  points to live indexes and has one root, nothing waits in \<open>mapUnlinkedBlocks\<close>, the active chain is
  the path to its tip, the tip is the only candidate, and no linked index has more work than it.
\<close>

section \<open>Changing the counters of an index\<close>

definition same_links :: "BlockIndex \<Rightarrow> BlockIndex \<Rightarrow> bool" where
  "same_links b b' \<longleftrightarrow> bi_pPrev b' = bi_pPrev b \<and> bi_height b' = bi_height b \<and>
     bi_pSkip b' = bi_pSkip b"

lemma prev_n_relink:
  assumes "hp a = Some b" "same_links b b'"
  shows "prev_n (hp(a \<mapsto> b')) n p = prev_n hp n p"
proof (induction n arbitrary: p)
  case (Suc n)
  then show ?case using assms by (cases p) (auto simp: same_links_def split: option.splits)
qed simp

lemma relink_node:
  assumes "hp a = Some b" "same_links b b'" "(hp(a \<mapsto> b')) p = Some d"
  obtains c where "hp p = Some c" "same_links c d"
    "bi_chainWork b' = bi_chainWork b \<Longrightarrow> bi_chainWork d = bi_chainWork c"
  using assms by (cases "p = a") (auto simp: same_links_def)

lemma relink:
  assumes "hp a = Some b" "same_links b b'"
  shows "bi_chainWork b' = bi_chainWork b \<Longrightarrow> work_of (hp(a \<mapsto> b')) = work_of hp"
    "chain_of (hp(a \<mapsto> b')) = chain_of hp"
    "dom (hp(a \<mapsto> b')) = dom hp"
proof -
  let ?hp = "hp(a \<mapsto> b')"
  show "work_of ?hp = work_of hp" if "bi_chainWork b' = bi_chainWork b"
    using assms that by (auto simp: work_of_def same_links_def fun_eq_iff split: option.splits)
  show "chain_of ?hp = chain_of hp"
  proof
    fix p
    have "prev_n ?hp n q = prev_n hp n q" for n q by (rule prev_n_relink [where hp = hp, OF assms])
    then show "chain_of ?hp p = chain_of hp p"
      unfolding chain_of_def using assms by (auto simp: same_links_def split: option.splits)
  qed
  show "dom ?hp = dom hp" using assms(1) by auto
qed

lemma node_ok_relink:
  assumes "hp a = Some b" "same_links b b'" "same_links c d" "node_ok hp p c"
  shows "node_ok (hp(a \<mapsto> b')) p d"
proof (cases "bi_pPrev c")
  case None
  then show ?thesis using assms by (simp add: node_ok_def same_links_def)
next
  case (Some q)
  then obtain e where e: "hp q = Some e" "bi_height c = bi_height e + 1" "0 \<le> bi_height e"
    using assms(4) by (auto simp: node_ok_def)
  have "\<exists>e'. (hp(a \<mapsto> b')) q = Some e' \<and> bi_height e' = bi_height e"
    using e(1) assms(1,2) by (cases "q = a") (auto simp: same_links_def)
  then show ?thesis
    using Some e assms by (auto simp: node_ok_def same_links_def prev_n_relink [where hp = hp, OF assms(1,2)])
qed

lemma relink_tree:
  assumes "hp a = Some b" "same_links b b'"
  shows "tree_ok hp \<Longrightarrow> tree_ok (hp(a \<mapsto> b'))"
    "bi_chainWork b' = bi_chainWork b \<Longrightarrow> work_tree hp \<Longrightarrow> work_tree (hp(a \<mapsto> b'))"
proof -
  let ?hp = "hp(a \<mapsto> b')"
  show tree: "tree_ok hp \<Longrightarrow> tree_ok ?hp"
    unfolding tree_ok_def
    by (metis assms node_ok_relink relink_node)
  assume bw: "bi_chainWork b' = bi_chainWork b" and w: "work_tree hp"
  show "work_tree ?hp"
    unfolding work_tree_def
  proof (intro conjI allI impI)
    show "tree_ok ?hp" using w tree by (simp add: work_tree_def)
    fix p d assume d: "?hp p = Some d"
    obtain c where c: "hp p = Some c" "same_links c d" "bi_chainWork d = bi_chainWork c"
      using relink_node [where hp = hp, OF assms d] bw by metis
    show "wf256 (bi_chainWork d)" using w c by (simp add: work_tree_def)
    fix q e' assume q: "bi_pPrev d = Some q" "?hp q = Some e'"
    obtain e where e: "hp q = Some e" "bi_chainWork e' = bi_chainWork e"
      using relink_node [where hp = hp, OF assms q(2)] bw by metis
    have "bi_pPrev c = Some q" using c(2) q(1) by (simp add: same_links_def)
    then have "val (bi_chainWork e) < val (bi_chainWork c)" using w c(1) e(1) unfolding work_tree_def by blast
    then show "val (bi_chainWork e') < val (bi_chainWork d)" using c(3) e(2) by simp
  qed
qed

lemma relink_chain_ok:
  "hp a = Some b \<Longrightarrow> same_links b b' \<Longrightarrow> chain_ok (hp(a \<mapsto> b')) c = chain_ok hp c"
  unfolding chain_ok_def by (simp only: relink)

lemma linked_tree_upd:
  assumes "linked_tree hp" "hp a = Some b" "bi_pPrev b' = bi_pPrev b" "bi_status b' = HAVE_DATA"
    "bi_numChainTransactions b \<noteq> 0 \<Longrightarrow> bi_numChainTransactions b' \<noteq> 0"
    "bi_numChainTransactions b' \<noteq> 0 \<Longrightarrow> (\<forall>q. bi_pPrev b = Some q \<longrightarrow> q \<noteq> a \<and> linked hp q)"
  shows "linked_tree (hp(a \<mapsto> b'))"
  unfolding linked_tree_def
proof (intro allI impI conjI)
  fix p d assume d: "(hp(a \<mapsto> b')) p = Some d"
  show "bi_status d = 0 \<or> bi_status d = HAVE_DATA"
    using d assms(1,4) by (cases "p = a") (auto simp: linked_tree_def)
  assume n: "bi_numChainTransactions d \<noteq> 0"
  show "bi_status d = HAVE_DATA"
    using d n assms(1,4) by (cases "p = a") (auto simp: linked_tree_def)
  fix q c assume q: "bi_pPrev d = Some q" "(hp(a \<mapsto> b')) q = Some c"
  show "bi_numChainTransactions c \<noteq> 0"
  proof (cases "p = a")
    case True
    then have "b' = d" using d by simp
    then have "bi_pPrev b = Some q" "bi_numChainTransactions b' \<noteq> 0" using q(1) n assms(3) by simp_all
    then have "q \<noteq> a" "linked hp q" using assms(6) by blast+
    then show ?thesis using q(2) by (auto simp: linked_def)
  next
    case False
    then have p: "hp p = Some d" using d by simp
    obtain c0 where c0: "hp q = Some c0" using q(2) assms(2) by (cases "q = a") auto
    have "bi_numChainTransactions c0 \<noteq> 0" using assms(1) p n q(1) c0 unfolding linked_tree_def by blast
    then show ?thesis using q(2) c0 assms(2,5) by (cases "q = a") auto
  qed
qed

section \<open>A new index\<close>

lemma chain_of_fresh:
  assumes "tree_ok hp" "a \<notin> dom hp" "p \<in> dom hp"
  shows "chain_of (hp(a \<mapsto> b)) p = chain_of hp p"
proof -
  have "p \<noteq> a" using assms(2,3) by auto
  moreover have "prev_n (hp(a \<mapsto> b)) n (Some p) = prev_n hp n (Some p)" for n
    by (rule prev_n_upd [OF tree_ok_closed [OF assms(1)] assms(2,3)])
  ultimately show ?thesis using assms(3) by (auto simp: chain_of_def)
qed

lemma work_tree_fresh:
  assumes "work_tree hp" "a \<notin> dom hp" "tree_ok (hp(a \<mapsto> b))" "wf256 (bi_chainWork b)"
    "\<forall>q. bi_pPrev b = Some q \<longrightarrow> work_of hp q < val (bi_chainWork b)"
  shows "work_tree (hp(a \<mapsto> b))"
  unfolding work_tree_def
proof (intro conjI allI impI)
  show "tree_ok (hp(a \<mapsto> b))" by (rule assms(3))
  fix p d assume d: "(hp(a \<mapsto> b)) p = Some d"
  show "wf256 (bi_chainWork d)" using d assms(1,4) by (cases "p = a") (auto simp: work_tree_def)
  fix q c assume q: "bi_pPrev d = Some q" "(hp(a \<mapsto> b)) q = Some c"
  show "val (bi_chainWork c) < val (bi_chainWork d)"
  proof (cases "p = a")
    case True
    have "q \<noteq> a"
    proof
      assume "q = a"
      then have "bi_height d = bi_height d + 1"
        using tree_okD [OF assms(3) d] q d True by (auto simp: node_ok_def)
      then show False by simp
    qed
    then have "hp q = Some c" "b = d" using q(2) d True by simp_all
    then have "work_of hp q < val (bi_chainWork d)" using q(1) assms(5) by blast
    then show ?thesis using \<open>hp q = Some c\<close> by (simp add: work_of_def)
  next
    case False
    then have p: "hp p = Some d" using d by simp
    have "q \<in> dom hp" using tree_ok_closed [of hp] assms(1) p q(1) by (auto simp: closed_def work_tree_def)
    then have "q \<noteq> a" using assms(2) by auto
    then have "hp q = Some c" using q(2) by simp
    then show ?thesis using assms(1) p q(1) unfolding work_tree_def by blast
  qed
qed

lemma linked_tree_fresh:
  assumes "linked_tree hp" "a \<notin> dom hp" "closed hp" "bi_status b = 0" "bi_numChainTransactions b = 0"
  shows "linked_tree (hp(a \<mapsto> b))"
  unfolding linked_tree_def
proof (intro allI impI conjI)
  fix p d assume d: "(hp(a \<mapsto> b)) p = Some d"
  show "bi_status d = 0 \<or> bi_status d = HAVE_DATA"
    using d assms(1,4) by (cases "p = a") (auto simp: linked_tree_def)
  assume n: "bi_numChainTransactions d \<noteq> 0"
  then have p: "hp p = Some d" "p \<noteq> a" using d assms(5) by (auto split: if_splits)
  then show "bi_status d = HAVE_DATA" using n assms(1) by (auto simp: linked_tree_def)
  fix q c assume q: "bi_pPrev d = Some q" "(hp(a \<mapsto> b)) q = Some c"
  have "q \<in> dom hp" using assms(3) p(1) q(1) by (auto simp: closed_def)
  then have "q \<noteq> a" using assms(2) by auto
  then have "hp q = Some c" using q(2) by simp
  then show "bi_numChainTransactions c \<noteq> 0" using assms(1) p(1) n q(1) unfolding linked_tree_def by blast
qed

section \<open>The work of a block\<close>

lemma target_not_max: "target_of nBits + 1 < 2 ^ 256"
proof -
  obtain a neg ovf where s: "setCompact nBits = (a, neg, ovf)" using prod_cases3 by blast
  let ?n = "compact_size nBits" and ?m = "compact_mantissa nBits div 2 ^ (8 * (3 - compact_size nBits))"
  have v: "target_of nBits = ?m * 2 ^ (8 * (?n - 3)) mod 2 ^ 256"
    using setCompact_correct [OF s] s by (simp add: target_of_def)
  have m: "?m < 2 ^ 23"
  proof -
    have "compact_mantissa nBits < 2 ^ 23" by (simp add: compact_mantissa_def)
    then show ?thesis using div_le_dividend le_less_trans by blast
  qed
  show ?thesis
  proof (cases "?n \<le> 3")
    case True
    then have "target_of nBits \<le> ?m" using v by simp
    then show ?thesis using m by simp
  next
    case False
    then have "even (target_of nBits)" unfolding v by (intro dvd_mod) auto
    moreover have "target_of nBits < 2 ^ 256" unfolding v by simp
    moreover have "odd (2 ^ 256 - 1 :: nat)" by simp
    ultimately have "target_of nBits \<noteq> 2 ^ 256 - 1" by metis
    then show ?thesis using \<open>target_of nBits < 2 ^ 256\<close> by linarith
  qed
qed

lemma div_complement: "0 < (d :: nat) \<Longrightarrow> d \<le> n \<Longrightarrow> (n - d) div d + 1 = n div d"
  by (metis Suc_eq_plus1 le_div_geq not_le)

lemma caculateChainWork_eq:
  "\<exists>w. caculateChainWork b = Inr w \<and> wf256 w \<and>
     val w = (if fst (snd (setCompact (bi_bits b))) \<or> snd (snd (setCompact (bi_bits b))) \<or> target_of (bi_bits b) = 0
              then 0 else 2 ^ 256 div (target_of (bi_bits b) + 1))"
proof -
  obtain t neg ovf where s: "setCompact (bi_bits b) = (t, neg, ovf)" using prod_cases3 by blast
  have t: "wf256 t" "val t = target_of (bi_bits b)" using wf256_setCompact [of "bi_bits b"] s by (simp_all add: target_of_def)
  have lt: "val t + 1 < 2 ^ 256" using target_not_max [of "bi_bits b"] t(2) by simp
  show ?thesis
  proof (cases "neg \<or> val t = 0 \<or> ovf")
    case True
    then show ?thesis using s t by (auto simp: caculateChainWork_def equalTo_correct)
  next
    case False
    let ?one = "base_uint_of_u64 1"
    have one: "wf256 ?one" "val ?one = 1" by simp_all
    have d: "wf256 (op_plus t ?one)" "val (op_plus t ?one) = val t + 1"
      using op_add_assign_correct [OF t(1) one(1)] lt by (simp_all add: op_plus_def)
    have n: "wf256 (op_not t)" "val (op_not t) = 2 ^ 256 - (val t + 1)"
      using val_op_not [OF t(1)] by simp_all
    obtain q where q: "op_divide (op_not t) (op_plus t ?one) = Inr q" "wf256 q"
      "val q = (2 ^ 256 - (val t + 1)) div (val t + 1)"
      using op_div_assign_correct [OF n(1) d(1)] n(2) d(2) by (auto simp: op_divide_def)
    have sum: "val q + 1 = 2 ^ 256 div (val t + 1)"
      unfolding q(3) by (rule div_complement) (use lt in linarith)+
    have "2 ^ 256 div (val t + 1) \<le> 2 ^ 256 div (2 :: nat)" using False by (intro div_le_mono2) auto
    then have "val q + 1 < 2 ^ 256" using sum by simp
    then have "wf256 (op_plus q ?one)" "val (op_plus q ?one) = 2 ^ 256 div (val t + 1)"
      using op_add_assign_correct [OF q(2) one(1)] one(2) sum by (simp_all add: op_plus_def)
    then show ?thesis using False s t q(1) by (auto simp: caculateChainWork_def equalTo_correct)
  qed
qed

section \<open>The invariant\<close>

definition is_root :: "heap \<Rightarrow> nat \<Rightarrow> bool" where
  "is_root hp a = (case hp a of None \<Rightarrow> False | Some b \<Rightarrow> bi_pPrev b = None)"

text \<open>Every index has the hash of its block.\<close>

definition hashed :: "heap \<Rightarrow> bool" where
  "hashed hp \<longleftrightarrow> (\<forall>a b. hp a = Some b \<longrightarrow> (\<exists>g. bi_phashBlock b = Some g \<and> length g = UINT256_WIDTH))"

lemma hashed_upd: "hashed hp \<Longrightarrow> bi_phashBlock b = Some g \<Longrightarrow> length g = UINT256_WIDTH \<Longrightarrow> hashed (hp(a \<mapsto> b))"
  by (simp add: hashed_def)

definition tree_inv :: "ChainManager \<Rightarrow> bool" where
  "tree_inv cm \<longleftrightarrow> work_tree (cm_heap cm) \<and> linked_tree (cm_heap cm) \<and> hashed (cm_heap cm) \<and>
     (\<forall>a b. cm_heap cm a = Some b \<longrightarrow> a < cm_next cm \<and> bi_sequenceID b < cm_sequence cm) \<and>
     (\<forall>(h, a) \<in> set (cm_map cm). \<exists>b. cm_heap cm a = Some b \<and> bi_phashBlock b = Some h) \<and>
     length (filter (\<lambda>item. is_root (cm_heap cm) (snd item)) (cm_map cm)) = 1 \<and> cm_unlinked cm = []"

definition manager_ok :: "ChainManager \<Rightarrow> bool" where
  "manager_ok cm \<longleftrightarrow> tree_inv cm \<and>
     (\<exists>t. linked (cm_heap cm) t \<and> cm_active cm = chain_of (cm_heap cm) t \<and> cm_candidates cm = [t] \<and>
        (\<forall>a. linked (cm_heap cm) a \<longrightarrow> work_of (cm_heap cm) a \<le> work_of (cm_heap cm) t))"

lemma tree_invD:
  assumes "tree_inv cm"
  shows "work_tree (cm_heap cm)" "tree_ok (cm_heap cm)" "linked_tree (cm_heap cm)" "cm_unlinked cm = []"
    "cm_heap cm a = Some b \<Longrightarrow> a < cm_next cm" "cm_heap cm a = Some b \<Longrightarrow> bi_sequenceID b < cm_sequence cm"
    "(h, a) \<in> set (cm_map cm) \<Longrightarrow> \<exists>b. cm_heap cm a = Some b \<and> bi_phashBlock b = Some h"
    "length (filter (\<lambda>item. is_root (cm_heap cm) (snd item)) (cm_map cm)) = 1" "hashed (cm_heap cm)"
  using assms by (auto simp: tree_inv_def work_tree_def)

lemma tree_inv_next_fresh: "tree_inv cm \<Longrightarrow> cm_next cm \<notin> dom (cm_heap cm)"
  using tree_invD(5) by blast

lemma checkAllBlockIndexs_ok:
  assumes "tree_inv cm" "cm_active cm \<noteq> []"
  shows "checkAllBlockIndexs pArgs cm = Inr True"
proof -
  have "\<not> (\<exists>item \<in> set (cm_map cm). cm_heap cm (snd item) = None)"
    using tree_invD(7) [OF assms(1)] by fastforce
  then show ?thesis
    using tree_invD(8) [OF assms(1)] assms(2)
    by (simp add: checkAllBlockIndexs_def chain_height_def is_root_def)
qed

lemma find_in_map:
  assumes "tree_inv cm" "findBlockIndex cm h = Some a"
  shows "\<exists>b. cm_heap cm a = Some b \<and> bi_phashBlock b = Some h"
  using tree_invD(7) [OF assms(1)] assms(2) by (auto simp: findBlockIndex_def dest: map_of_SomeD)

section \<open>Adding an index\<close>

definition work_room :: "ChainManager \<Rightarrow> uint32 \<Rightarrow> bool" where
  "work_room cm nBits \<longleftrightarrow>
     (\<forall>a \<in> dom (cm_heap cm). work_of (cm_heap cm) a + 2 ^ 256 div (target_of nBits + 1) < 2 ^ 256)"

definition good_bits :: "uint32 \<Rightarrow> bool" where
  "good_bits nBits \<longleftrightarrow> \<not> fst (snd (setCompact nBits)) \<and> \<not> snd (snd (setCompact nBits)) \<and> 0 < target_of nBits"

lemma addToBlockIndex_ok:
  assumes "tree_inv cm" "linked (cm_heap cm) t"
    and hash: "block_getHash sha256 blk = Inr h" "findBlockIndex cm h = None"
    and prev: "findBlockIndex cm (h_hashPrevBlock (b_header blk)) = Some q"
    and work: "good_bits (h_bits (b_header blk))" "work_room cm (h_bits (b_header blk))"
  shows "\<exists>b. addToBlockIndex sha256 blk cm = Inr (cm_next cm,
      cm\<lparr>cm_heap := (cm_heap cm)(cm_next cm \<mapsto> b), cm_next := cm_next cm + 1,
         cm_map := cm_map cm @ [(h, cm_next cm)]\<rparr>) \<and>
    bi_phashBlock b = Some h \<and> bi_pPrev b = Some q \<and> bi_status b = 0 \<and> bi_numChainTransactions b = 0 \<and>
    bi_sequenceID b = 0 \<and> wf256 (bi_chainWork b) \<and>
    val (bi_chainWork b) = work_of (cm_heap cm) q + 2 ^ 256 div (target_of (h_bits (b_header blk)) + 1) \<and>
    tree_ok ((cm_heap cm)(cm_next cm \<mapsto> b))"
proof -
  let ?hp = "cm_heap cm" and ?a = "cm_next cm" and ?bits = "h_bits (b_header blk)"
  let ?new = "(new_BlockIndex blk)\<lparr>bi_sequenceID := 0, bi_phashBlock := Some h\<rparr>"
  note tree = tree_invD(2) [OF assms(1)] and fresh = tree_inv_next_fresh [OF assms(1)]
  obtain c where c: "?hp q = Some c" using find_in_map [OF assms(1) prev] by blast
  have qa: "q \<noteq> ?a" using c fresh by auto
  have wc: "wf256 (bi_chainWork c)" "work_of ?hp q = val (bi_chainWork c)"
    using work_treeD(2,4) [OF tree_invD(1) [OF assms(1)] c] by simp_all
  let ?b = "?new\<lparr>bi_pPrev := Some q, bi_height := bi_height c + 1\<rparr>"
  obtain s where s: "buildSkip (?hp(?a \<mapsto> ?b)) ?a = Inr (?hp(?a \<mapsto> ?b\<lparr>bi_pSkip := s\<rparr>))"
    "tree_ok (?hp(?a \<mapsto> ?b\<lparr>bi_pSkip := s\<rparr>))"
    using buildSkip_ok [OF tree fresh, of ?b q c] c by auto
  let ?bs = "?b\<lparr>bi_pSkip := s\<rparr>"
  have bits: "bi_bits ?bs = ?bits" by (simp add: new_BlockIndex_def Let_def)
  obtain w where w: "caculateChainWork ?bs = Inr w" "wf256 w" "val w = 2 ^ 256 div (target_of ?bits + 1)"
    using caculateChainWork_eq [of ?bs] bits work(1) by (auto simp: good_bits_def)
  have "q \<in> dom ?hp" using c by blast
  then have "work_of ?hp q + 2 ^ 256 div (target_of ?bits + 1) < 2 ^ 256"
    using work(2) unfolding work_room_def by blast
  then have room: "val (bi_chainWork c) + val w < 2 ^ 256" by (simp only: wc(2) w(3))
  let ?w = "op_plus (bi_chainWork c) w"
  have sum: "wf256 ?w" "val ?w = val (bi_chainWork c) + val w"
    using op_add_assign_correct [OF wc(1) w(2)] room by (simp_all add: op_plus_def)
  let ?bw = "?bs\<lparr>bi_chainWork := ?w\<rparr>"
  have entries: "map_of (cm_map cm @ [(h, ?a)]) (h_hashPrevBlock (b_header blk)) = Some q"
    using prev by (simp add: findBlockIndex_def map_add_Some_iff)
  have "addToBlockIndex sha256 blk cm = Inr (?a,
      cm\<lparr>cm_heap := ?hp(?a \<mapsto> ?bw), cm_next := ?a + 1, cm_map := cm_map cm @ [(h, ?a)]\<rparr>)"
    using hash entries s(1) w(1) c qa
    by (simp add: addToBlockIndex_def findBlockIndex_def Let_def deref_def)
  moreover have "tree_ok (?hp(?a \<mapsto> ?bw))"
    using relink_tree(1) [of "?hp(?a \<mapsto> ?bs)" ?a ?bs ?bw] s(2) by (simp add: same_links_def)
  ultimately show ?thesis
    using sum w(3) wc(2)
    by (intro exI [of _ ?bw]) (simp add: new_BlockIndex_def Let_def VALID_UNKNOWN_def)
qed

lemma linked_fresh:
  assumes "a \<notin> dom hp" "bi_numChainTransactions b = 0"
  shows "linked (hp(a \<mapsto> b)) p = linked hp p"
  using assms by (auto simp: linked_def)

lemma work_of_fresh: "a \<notin> dom hp \<Longrightarrow> p \<in> dom hp \<Longrightarrow> work_of (hp(a \<mapsto> b)) p = work_of hp p"
  by (auto simp: work_of_def)

lemma linked_dom: "linked hp p \<Longrightarrow> p \<in> dom hp"
  by (auto simp: linked_def)

lemma manager_ok_add:
  assumes "manager_ok cm" "tree_ok ((cm_heap cm)(cm_next cm \<mapsto> b))" "wf256 (bi_chainWork b)"
    "bi_phashBlock b = Some h" "bi_pPrev b = Some q" "bi_status b = 0" "bi_numChainTransactions b = 0"
    "bi_sequenceID b = 0" "work_of (cm_heap cm) q < val (bi_chainWork b)" "length h = UINT256_WIDTH"
  shows "manager_ok (cm\<lparr>cm_heap := (cm_heap cm)(cm_next cm \<mapsto> b), cm_next := cm_next cm + 1,
         cm_map := cm_map cm @ [(h, cm_next cm)]\<rparr>)"
proof -
  let ?hp = "cm_heap cm" and ?a = "cm_next cm"
  let ?hp' = "?hp(?a \<mapsto> b)"
  obtain t where inv: "tree_inv cm" and t: "linked ?hp t" "cm_active cm = chain_of ?hp t" "cm_candidates cm = [t]"
    "\<forall>a. linked ?hp a \<longrightarrow> work_of ?hp a \<le> work_of ?hp t"
    using assms(1) by (auto simp: manager_ok_def)
  note D = tree_invD [OF inv]
  note fresh = tree_inv_next_fresh [OF inv]
  have wt: "work_tree ?hp'" by (rule work_tree_fresh [OF D(1) fresh assms(2,3)]) (simp add: assms)
  have lt: "linked_tree ?hp'"
    by (rule linked_tree_fresh [OF D(3) fresh tree_ok_closed [OF D(2)] assms(6,7)])
  obtain tb where "?hp t = Some tb" using t(1) by (auto simp: linked_def)
  then have "0 < cm_sequence cm" using D(6) [of t tb] by (metis word_gt_0 not_less_iff_gr_or_eq word_not_simps(1))
  then have seq: "\<forall>p d. ?hp' p = Some d \<longrightarrow> p < ?a + 1 \<and> bi_sequenceID d < cm_sequence cm"
    using D(5,6) assms(8) by (auto simp: less_Suc_eq)
  have m: "\<exists>d. ?hp' p = Some d \<and> bi_phashBlock d = Some g" if "(g, p) \<in> set (cm_map cm @ [(h, ?a)])" for g p
    using that D(7) [of g p] fresh assms(4) by (cases "p = ?a") auto
  have in_heap: "snd i \<noteq> ?a" if "i \<in> set (cm_map cm)" for i
    using D(7) [of "fst i" "snd i"] that fresh by auto
  have "filter (\<lambda>i. is_root ?hp' (snd i)) (cm_map cm) = filter (\<lambda>i. is_root ?hp (snd i)) (cm_map cm)"
    using in_heap by (intro filter_cong refl) (simp add: is_root_def)
  then have roots: "length (filter (\<lambda>i. is_root ?hp' (snd i)) (cm_map cm @ [(h, ?a)])) = 1"
    using D(8) assms(5) by (simp add: is_root_def)
  have "tree_inv (cm\<lparr>cm_heap := ?hp', cm_next := ?a + 1, cm_map := cm_map cm @ [(h, ?a)]\<rparr>)"
    unfolding tree_inv_def using wt lt seq m roots D(4) hashed_upd [OF D(9) assms(4,10), of ?a]
    by (simp del: fun_upd_apply filter_append set_append) blast
  moreover have "chain_of ?hp' t = chain_of ?hp t"
    by (rule chain_of_fresh [OF D(2) fresh linked_dom [OF t(1)]])
  moreover have "work_of ?hp' p = work_of ?hp p" if "linked ?hp p" for p
    by (rule work_of_fresh [OF fresh linked_dom [OF that]])
  ultimately show ?thesis
    unfolding manager_ok_def using t by (auto simp: linked_fresh [OF fresh assms(7)] simp del: fun_upd_apply)
qed

section \<open>Receiving the transactions\<close>

lemma prev_other:
  assumes "tree_ok hp" "hp p = Some b" "bi_pPrev b = Some q"
  shows "q \<noteq> p \<and> (\<exists>c. hp q = Some c)"
proof -
  obtain c where c: "hp q = Some c" "bi_height b = bi_height c + 1"
    using tree_okD [OF assms(1,2)] assms(3) by (auto simp: node_ok_def)
  have "q \<noteq> p"
  proof
    assume "q = p"
    then have "b = c" using c(1) assms(2) by simp
    then show False using c(2) by simp
  qed
  then show ?thesis using c(1) by blast
qed

lemma tree_inv_upd:
  assumes "tree_inv cm" "cm_heap cm p = Some b" "same_links b b'" "bi_chainWork b' = bi_chainWork b"
    "bi_phashBlock b' = bi_phashBlock b" "bi_status b' = HAVE_DATA"
    "bi_numChainTransactions b \<noteq> 0 \<Longrightarrow> bi_numChainTransactions b' \<noteq> 0"
    "bi_numChainTransactions b' \<noteq> 0 \<Longrightarrow> (\<forall>q. bi_pPrev b = Some q \<longrightarrow> linked (cm_heap cm) q)"
    "bi_sequenceID b' < n" "cm_sequence cm \<le> n"
  shows "tree_inv (cm\<lparr>cm_heap := (cm_heap cm)(p \<mapsto> b'), cm_sequence := n, cm_candidates := cs, cm_unlinked := []\<rparr>)"
proof -
  let ?hp = "cm_heap cm"
  let ?hp' = "?hp(p \<mapsto> b')"
  note D = tree_invD [OF assms(1)]
  have wt: "work_tree ?hp'" by (rule relink_tree(2) [OF assms(2-4) D(1)])
  have neq: "q \<noteq> p" if "bi_pPrev b = Some q" for q
    using prev_other [OF D(2) assms(2) that] by blast
  have lt: "linked_tree ?hp'"
    by (rule linked_tree_upd [OF D(3) assms(2)]) (use assms neq in \<open>auto simp: same_links_def\<close>)
  have seq: "\<forall>a d. ?hp' a = Some d \<longrightarrow> a < cm_next cm \<and> bi_sequenceID d < n"
  proof (intro allI impI)
    fix a d assume d: "?hp' a = Some d"
    show "a < cm_next cm \<and> bi_sequenceID d < n"
    proof (cases "a = p")
      case True
      then show ?thesis using d D(5) [OF assms(2)] assms(9) by simp
    next
      case False
      then have a: "?hp a = Some d" using d by simp
      show ?thesis using D(5) [OF a] less_le_trans [OF D(6) [OF a] assms(10)] by simp
    qed
  qed
  have m: "\<exists>d. ?hp' a = Some d \<and> bi_phashBlock d = Some g" if "(g, a) \<in> set (cm_map cm)" for g a
    using that D(7) [of g a] assms(2,5) by (cases "a = p") auto
  obtain g where "bi_phashBlock b = Some g" "length g = UINT256_WIDTH" using D(9) assms(2) by (auto simp: hashed_def)
  then have ha: "hashed ?hp'" using hashed_upd [OF D(9), of b' g p] assms(5) by simp
  have "is_root ?hp' a = is_root ?hp a" for a
    using assms(2,3) by (simp add: is_root_def same_links_def)
  then have roots: "length (filter (\<lambda>i. is_root ?hp' (snd i)) (cm_map cm)) = 1" using D(8) by simp
  show ?thesis
    unfolding tree_inv_def using wt lt seq m roots ha by (simp del: fun_upd_apply) blast
qed

lemma isValid_upto_tree:
  assumes "linked_tree hp" "hp a = Some b"
  shows "\<not> isValid_upto VALID_TREE b"
proof -
  have "bi_status b = 0 \<or> bi_status b = HAVE_DATA" using assms by (auto simp: linked_tree_def)
  then show ?thesis
    by (auto simp: isValid_upto_def VALID_TREE_def VALID_MASK_def HAVE_DATA_def VALID_HEADER_def
      VALID_TRANSACTIONS_def VALID_CHAIN_def VALID_SCRIPTS_def FAILED_MASK_def FAILED_VALID_def FAILED_CHILD_def)
qed

lemma status_received:
  assumes "linked_tree hp" "hp a = Some b"
  shows "bi_status b OR HAVE_DATA = HAVE_DATA"
proof -
  have "bi_status b = 0 \<or> bi_status b = HAVE_DATA" using assms by (auto simp: linked_tree_def)
  then show ?thesis by (auto simp: HAVE_DATA_def)
qed

definition prev_linked :: "heap \<Rightarrow> BlockIndex \<Rightarrow> bool" where
  "prev_linked hp b \<longleftrightarrow> (\<forall>q. bi_pPrev b = Some q \<longrightarrow> linked hp q)"

definition received :: "Block \<Rightarrow> ChainManager \<Rightarrow> BlockIndex \<Rightarrow> BlockIndex" where
  "received blk cm b = b\<lparr>bi_numBlockTransactions := of_nat (length (b_transactions blk)), bi_status := HAVE_DATA,
     bi_numChainTransactions :=
       (if prev_linked (cm_heap cm) b
        then (case bi_pPrev b of None \<Rightarrow> 0 | Some q \<Rightarrow> bi_numChainTransactions (the (cm_heap cm q)))
             + of_nat (length (b_transactions blk)) else 0),
     bi_sequenceID := (if prev_linked (cm_heap cm) b then cm_sequence cm else bi_sequenceID b)\<rparr>"

lemma receive_loop_single:
  assumes "cm_unlinked cm = []" "cm_heap cm p = Some b"
    "(case bi_pPrev b of None \<Rightarrow> Inr 0
      | Some q \<Rightarrow> bindE (deref (cm_heap cm) (Some q)) (\<lambda>prev. Inr (bi_numChainTransactions prev))) = (Inr n :: uint32 chain_result)"
  shows "receive_loop cm [p] =
    (let hp = (cm_heap cm)(p \<mapsto> b\<lparr>bi_numChainTransactions := n + bi_numBlockTransactions b,
                                    bi_sequenceID := cm_sequence cm\<rparr>)
     in bindE (add_candidate hp (tip (cm_active cm)) p (cm_candidates cm)) (\<lambda>candidates.
        Inr (cm\<lparr>cm_heap := hp, cm_sequence := cm_sequence cm + 1, cm_candidates := candidates,
              cm_unlinked := []\<rparr>)))"
  using assms by (simp add: deref_def Let_def)

lemma add_candidate_eq:
  "t \<in> dom hp \<Longrightarrow> add_candidate hp (Some t) p cs =
     Inr (if BlockIndexWorkComparator hp p t then cs else set_insert (BlockIndexWorkComparator hp) p cs)"
  by (auto simp: add_candidate_def deref_def)

lemma receiveBlock_eq:
  assumes "tree_inv cm" "cm_heap cm p = Some b" "tip (cm_active cm) = Some t" "t \<in> dom (cm_heap cm)"
  shows "receiveBlock blk p cm = Inr (True,
    let hp = (cm_heap cm)(p \<mapsto> received blk cm b) in
    if prev_linked (cm_heap cm) b
    then cm\<lparr>cm_heap := hp, cm_sequence := cm_sequence cm + 1,
            cm_candidates := (if BlockIndexWorkComparator hp p t then cm_candidates cm
              else set_insert (BlockIndexWorkComparator hp) p (cm_candidates cm)), cm_unlinked := []\<rparr>
    else cm\<lparr>cm_heap := hp\<rparr>)"
proof -
  let ?hp = "cm_heap cm"
  note D = tree_invD [OF assms(1)]
  note st = status_received [OF D(3) assms(2)]
  have neq: "q \<noteq> p \<and> (\<exists>c. ?hp q = Some c)" if "bi_pPrev b = Some q" for q
    by (rule prev_other [OF D(2) assms(2) that])
  define b1 where "b1 = b\<lparr>bi_numBlockTransactions := of_nat (length (b_transactions blk)),
      bi_numChainTransactions := 0, bi_status := HAVE_DATA\<rparr>"
  define cm1 where "cm1 = cm\<lparr>cm_heap := ?hp(p \<mapsto> b1)\<rparr>"
  define n :: uint32 where "n = (case bi_pPrev b of None \<Rightarrow> 0 | Some q \<Rightarrow> bi_numChainTransactions (the (?hp q)))"
  have cm1: "cm_unlinked cm1 = []" "cm_heap cm1 p = Some b1" "bi_pPrev b1 = bi_pPrev b"
    using D(4) by (simp_all add: cm1_def b1_def)
  have n1: "(case bi_pPrev b1 of None \<Rightarrow> Inr 0
      | Some q \<Rightarrow> bindE (deref (cm_heap cm1) (Some q)) (\<lambda>prev. Inr (bi_numChainTransactions prev))) = (Inr n :: uint32 chain_result)"
    using neq by (auto simp: cm1(3) n_def deref_def cm1_def split: option.split)
  have start: "receiveBlock blk p cm =
      (if prev_linked ?hp b then bindE (receive_loop cm1 [p]) (\<lambda>cm. Inr (True, cm)) else Inr (True, cm1))"
  proof (cases "bi_pPrev b")
    case None
    then show ?thesis
      using assms(2) st
      by (simp add: receiveBlock_def deref_def Let_def prev_linked_def b1_def cm1_def del: receive_loop.simps)
  next
    case (Some q)
    obtain c where c: "q \<noteq> p" "?hp q = Some c" using neq [OF Some] by blast
    have "prev_linked ?hp b \<longleftrightarrow> bi_numChainTransactions c \<noteq> 0" using Some c by (auto simp: prev_linked_def linked_def)
    then show ?thesis
      using Some c assms(2) st isValid_upto_tree [OF D(3) c(2)]
      by (simp add: receiveBlock_def deref_def Let_def b1_def cm1_def del: receive_loop.simps)
  qed
  show ?thesis
  proof (cases "prev_linked ?hp b")
    case False
    then have "received blk cm b = b1" by (intro BlockIndex.equality) (simp_all add: received_def b1_def)
    then show ?thesis using False start by (simp add: cm1_def)
  next
    case True
    have r: "b1\<lparr>bi_numChainTransactions := n + bi_numBlockTransactions b1, bi_sequenceID := cm_sequence cm\<rparr>
        = received blk cm b"
      using True by (intro BlockIndex.equality) (simp_all add: received_def b1_def n_def)
    have h: "(cm_heap cm1)(p \<mapsto> received blk cm b) = ?hp(p \<mapsto> received blk cm b)" by (simp add: cm1_def)
    have t: "t \<in> dom (?hp(p \<mapsto> received blk cm b))" using assms(4) by simp
    have f: "cm_active cm1 = cm_active cm" "cm_candidates cm1 = cm_candidates cm" "cm_sequence cm1 = cm_sequence cm"
      by (simp_all add: cm1_def)
    show ?thesis
      unfolding start receive_loop_single [OF cm1(1,2) n1] r h Let_def f assms(3) add_candidate_eq [OF t]
      using True by (simp add: cm1_def)
  qed
qed

text \<open>The state in which the activation starts: \<open>m\<close> is the best candidate, and it is better than the tip or the tip.\<close>

definition ready :: "nat \<Rightarrow> ChainManager \<Rightarrow> bool" where
  "ready m cm \<longleftrightarrow> tree_inv cm \<and> activating m cm \<and> pruned cm \<and> cm_active cm \<noteq> [] \<and>
     (tip (cm_active cm) = Some m \<or> better (cm_heap cm) (tip (cm_active cm)) m) \<and>
     (\<forall>a. linked (cm_heap cm) a \<longrightarrow> work_of (cm_heap cm) a \<le> work_of (cm_heap cm) m)"

definition count_room :: "ChainManager \<Rightarrow> nat \<Rightarrow> bool" where
  "count_room cm n \<longleftrightarrow> unat (cm_sequence cm) + 1 < 2 ^ 32 \<and> 0 < n \<and> n < 2 ^ 32 \<and>
     (\<forall>a b. cm_heap cm a = Some b \<longrightarrow> unat (bi_numChainTransactions b) + n < 2 ^ 32)"

lemma nonzero_sum:
  assumes "unat (x :: uint32) + n < 2 ^ 32" "0 < n"
  shows "x + of_nat n \<noteq> 0"
proof -
  have n: "unat (of_nat n :: uint32) = n" using assms(1) by (simp only: unsigned_of_nat) (simp add: take_bit_nat_eq_self_iff)
  have "unat (x + of_nat n) = unat x + n"
    using unat_add_lem [of x "of_nat n"] assms(1) n by simp
  then show ?thesis using assms(2) by (metis add_is_0 less_irrefl unat_0)
qed

lemma received_props:
  assumes "tree_inv cm" "cm_heap cm p = Some b" "count_room cm (length (b_transactions blk))"
  shows "same_links b (received blk cm b)" "bi_chainWork (received blk cm b) = bi_chainWork b"
    "bi_phashBlock (received blk cm b) = bi_phashBlock b" "bi_status (received blk cm b) = HAVE_DATA"
    "bi_numChainTransactions (received blk cm b) \<noteq> 0 \<longleftrightarrow> prev_linked (cm_heap cm) b"
    "bi_numChainTransactions b \<noteq> 0 \<Longrightarrow> prev_linked (cm_heap cm) b"
proof -
  show "same_links b (received blk cm b)" "bi_chainWork (received blk cm b) = bi_chainWork b"
    "bi_phashBlock (received blk cm b) = bi_phashBlock b" "bi_status (received blk cm b) = HAVE_DATA"
    by (simp_all add: received_def same_links_def)
  show pl: "prev_linked (cm_heap cm) b" if "bi_numChainTransactions b \<noteq> 0"
    unfolding prev_linked_def
    using linked_path [OF tree_invD(2,3) [OF assms(1)] _ assms(2)] that assms(2) by (auto simp: linked_def)
  show "bi_numChainTransactions (received blk cm b) \<noteq> 0 \<longleftrightarrow> prev_linked (cm_heap cm) b"
  proof (cases "bi_pPrev b")
    case None
    have "(of_nat (length (b_transactions blk)) :: uint32) \<noteq> 0"
      using nonzero_sum [of 0 "length (b_transactions blk)"] assms(3) by (simp add: count_room_def)
    then show ?thesis using None by (simp add: received_def prev_linked_def)
  next
    case (Some q)
    obtain c where c: "cm_heap cm q = Some c" using prev_other [OF tree_invD(2) [OF assms(1)] assms(2) Some] by blast
    have "bi_numChainTransactions c + of_nat (length (b_transactions blk)) \<noteq> 0"
      by (rule nonzero_sum) (use assms(3) c in \<open>auto simp: count_room_def\<close>)
    then show ?thesis using Some c by (simp add: received_def)
  qed
qed

lemma linked_received:
  assumes "tree_inv cm" "cm_heap cm p = Some b" "count_room cm (length (b_transactions blk))"
  shows "linked ((cm_heap cm)(p \<mapsto> received blk cm b)) a \<longleftrightarrow>
    linked (cm_heap cm) a \<or> a = p \<and> prev_linked (cm_heap cm) b"
  using received_props(5,6) [OF assms] assms(2) by (cases "a = p") (auto simp: linked_def)

lemma next_sequence:
  assumes "unat (s :: uint32) + 1 < 2 ^ 32"
  shows "s < s + 1" "s \<le> s + 1"
proof -
  have "unat (s + 1) = unat s + 1" using unat_add_lem [of s 1] assms by simp
  then show "s < s + 1" "s \<le> s + 1" by (simp_all add: word_less_nat_alt word_le_nat_alt)
qed

lemma receiveBlock_ready:
  assumes "manager_ok cm" "cm_heap cm p = Some b" "count_room cm (length (b_transactions blk))"
  shows "\<exists>cm' m t. receiveBlock blk p cm = Inr (True, cm') \<and> ready m cm' \<and>
    cm_active cm' = cm_active cm \<and> cm_map cm' = cm_map cm \<and> cm_next cm' = cm_next cm \<and>
    work_of (cm_heap cm') = work_of (cm_heap cm) \<and> chain_of (cm_heap cm') = chain_of (cm_heap cm) \<and>
    tip (cm_active cm) = Some t \<and>
    m = (if prev_linked (cm_heap cm) b \<and> work_of (cm_heap cm) t < work_of (cm_heap cm) p then p else t) \<and>
    cm_heap cm' p = Some (received blk cm b)"
proof -
  let ?hp = "cm_heap cm" and ?r = "received blk cm b"
  let ?hp' = "?hp(p \<mapsto> ?r)" and ?lt = "BlockIndexWorkComparator ((cm_heap cm)(p \<mapsto> received blk cm b))"
  obtain t where inv: "tree_inv cm" and t: "linked ?hp t" "cm_active cm = chain_of ?hp t" "cm_candidates cm = [t]"
    "\<forall>a. linked ?hp a \<longrightarrow> work_of ?hp a \<le> work_of ?hp t"
    using assms(1) by (auto simp: manager_ok_def)
  obtain tb where tb: "?hp t = Some tb" using t(1) by (auto simp: linked_def)
  note D = tree_invD [OF inv] and R = received_props [OF inv assms(2,3)] and L = linked_received [OF inv assms(2,3)]
  have tip: "tip (cm_active cm) = Some t" using tip_chain_of [of ?hp, OF tb] t(2) by simp
  have tdom: "t \<in> dom ?hp" using tb by blast
  have ne: "cm_active cm \<noteq> []" using length_chain_of [of ?hp, OF tb] t(2) by auto
  have same: "work_of ?hp' = work_of ?hp" "chain_of ?hp' = chain_of ?hp"
    using relink(1,2) [where hp = ?hp, OF assms(2) R(1)] R(2) by simp_all
  have wt: "work_tree ?hp'" by (rule relink_tree(2) [where hp = ?hp, OF assms(2) R(1,2) D(1)])
  have cok: "chain_ok ?hp' (cm_active cm)"
    using relink_chain_ok [where hp = ?hp, OF assms(2) R(1)] chain_ok_chain_of [of ?hp, OF tb] t(2) by simp
  obtain tb' where tb': "?hp' t = Some tb'" using tb by (cases "t = p") auto
  have wok: "work_ok ?hp' t" "work_ok ?hp' p" using work_treeD(3) [OF wt] tb' by auto
  have seq: "unat (cm_sequence cm) + 1 < 2 ^ 32" using assms(3) by (simp add: count_room_def)
  show ?thesis
  proof (cases "prev_linked ?hp b")
    case False
    then have unl: "bi_numChainTransactions b = 0" "\<not> linked ?hp p" using R(6) assms(2) by (auto simp: linked_def)
    let ?cm = "cm\<lparr>cm_heap := ?hp'\<rparr>"
    have rec: "receiveBlock blk p cm = Inr (True, ?cm)"
      using receiveBlock_eq [OF inv assms(2) tip tdom, of blk] False by (simp only: Let_def if_False)
    have "?cm = cm\<lparr>cm_heap := ?hp', cm_sequence := cm_sequence cm, cm_candidates := cm_candidates cm, cm_unlinked := []\<rparr>"
      using D(4) by simp
    moreover have "tree_inv \<dots>"
      by (rule tree_inv_upd [OF inv assms(2) R(1-4)])
        (use False R(5,6) unl D(6) [OF assms(2)] in \<open>auto simp: received_def\<close>)
    ultimately have inv': "tree_inv ?cm" by simp
    have lk: "linked ?hp' a = linked ?hp a" for a using L False by auto
    have "activating t ?cm"
      using wt tree_invD(3) [OF inv'] cok t(1,3) wok(1) lk by (simp add: activating_def work.ordered_def)
    moreover have "pruned ?cm" using tip t(3) by (simp add: pruned_def work.irrefl)
    ultimately have "ready t ?cm"
      unfolding ready_def using inv' ne tip t(4) same(1) lk by (simp del: fun_upd_apply)
    then show ?thesis using rec False same tip by - (rule exI [of _ ?cm], rule exI [of _ t], rule exI [of _ t], simp)
  next
    case True
    let ?cs = "if ?lt p t then cm_candidates cm else set_insert ?lt p (cm_candidates cm)"
    let ?cm = "cm\<lparr>cm_heap := ?hp', cm_sequence := cm_sequence cm + 1, cm_candidates := ?cs, cm_unlinked := []\<rparr>"
    let ?m = "if work_of ?hp t < work_of ?hp p then p else t"
    have rec: "receiveBlock blk p cm = Inr (True, ?cm)"
      using receiveBlock_eq [OF inv assms(2) tip tdom, of blk] True by (simp only: Let_def if_True)
    have inv': "tree_inv ?cm"
      by (rule tree_inv_upd [OF inv assms(2) R(1-4)])
        (use True R(5,6) next_sequence [OF seq] in \<open>auto simp: received_def prev_linked_def\<close>)
    have lk: "linked ?hp' a \<longleftrightarrow> linked ?hp a \<or> a = p" for a using L True by auto
    have cs: "?cs = (if work_of ?hp t < work_of ?hp p then [t, p] else [t]) \<and>
        (work_of ?hp t < work_of ?hp p \<longrightarrow> ?lt t p \<and> \<not> ?lt p t)"
    proof (cases "p = t")
      case True
      then show ?thesis using t(3) by (simp add: work.irrefl del: fun_upd_apply)
    next
      case False
      have nodes: "?hp' p = Some ?r" "?hp' t = Some tb" using False tb by auto
      have "bi_sequenceID tb < bi_sequenceID ?r" using D(6) [OF tb] True by (simp add: received_def)
      moreover have w: "work_of ?hp p = val (bi_chainWork ?r)" "work_of ?hp t = val (bi_chainWork tb)"
        using work_treeD(4) [of ?hp' p ?r, OF wt nodes(1)] work_treeD(4) [of ?hp' t tb, OF wt nodes(2)] same(1)
        by simp_all
      note wf = work_treeD(2) [of ?hp' p ?r, OF wt nodes(1)] work_treeD(2) [of ?hp' t tb, OF wt nodes(2)]
      ultimately have "?lt p t \<longleftrightarrow> work_of ?hp p \<le> work_of ?hp t" "?lt t p \<longleftrightarrow> work_of ?hp t < work_of ?hp p"
        unfolding w work_comparator_key [of ?hp' p ?r t tb, OF nodes wf]
          work_comparator_key [of ?hp' t tb p ?r, OF nodes(2,1) wf(2,1)]
        by auto
      then show ?thesis using t(3) by (simp del: fun_upd_apply)
    qed
    have "activating ?m ?cm"
      using wt tree_invD(3) [OF inv'] cok cs wok lk t(1) by (auto simp: activating_def work.ordered_def)
    moreover have "pruned ?cm" using tip cs by (auto simp: pruned_def work.irrefl)
    moreover have "tip (cm_active ?cm) = Some ?m \<or> better ?hp' (tip (cm_active ?cm)) ?m"
      using tip by (simp add: better_def same(1) del: fun_upd_apply)
    moreover have "work_of ?hp' a \<le> work_of ?hp' ?m" if "linked ?hp' a" for a
      using t(4) lk that by (fastforce simp: same(1))
    ultimately have "ready ?m ?cm" unfolding ready_def using inv' ne by (simp del: fun_upd_apply)
    then show ?thesis using rec True same tip by - (rule exI [of _ ?cm], rule exI [of _ ?m], rule exI [of _ t], simp)
  qed
qed

section \<open>Activation restores the invariant\<close>

lemma tree_inv_same_tree: "tree_inv cm \<Longrightarrow> same_tree cm cm' \<Longrightarrow> tree_inv cm'"
proof -
  assume inv: "tree_inv cm" and "same_tree cm cm'"
  then obtain c cs where "cm' = cm\<lparr>cm_active := c, cm_candidates := cs\<rparr>" unfolding same_tree_def by blast
  then show ?thesis using inv unfolding tree_inv_def by simp
qed

lemma same_tree_map: "same_tree cm cm' \<Longrightarrow> cm_map cm' = cm_map cm"
  unfolding same_tree_def by (elim exE conjE) simp

lemma activateBestChain_ready:
  assumes "ready m cm"
  shows "\<exists>cm'. activateBestChain pArgs cm = Inr (True, cm') \<and> manager_ok cm' \<and>
    cm_active cm' = chain_of (cm_heap cm) m \<and> same_tree cm cm'"
proof -
  have r: "tree_inv cm" "activating m cm" "pruned cm"
    "tip (cm_active cm) = Some m \<or> better (cm_heap cm) (tip (cm_active cm)) m"
    "\<forall>a. linked (cm_heap cm) a \<longrightarrow> work_of (cm_heap cm) a \<le> work_of (cm_heap cm) m"
    using assms by (simp_all add: ready_def)
  obtain o' cm' where c: "activate_loop (activate_fuel cm) cm = Inr (o', cm')" "o' \<noteq> Some False"
    "same_tree cm cm'" "cm_active cm' = chain_of (cm_heap cm) m" "cm_candidates cm' = [m]"
    using activate_loop_ok [OF r(2-4)] by blast
  have m: "linked (cm_heap cm) m" using r(2) by (simp add: activating_def)
  then obtain b where b: "cm_heap cm m = Some b" by (auto simp: linked_def)
  have inv: "tree_inv cm'" by (rule tree_inv_same_tree [OF r(1) c(3)])
  have ne: "cm_active cm' \<noteq> []" using length_chain_of [of "cm_heap cm", OF b] c(4) by auto
  have "activateBestChain pArgs cm = Inr (True, cm')"
    using c(1,2) checkAllBlockIndexs_ok [OF inv ne]
    by (cases o') (auto simp: activateBestChain_def)
  moreover have "manager_ok cm'"
    unfolding manager_ok_def using inv c(3-5) m r(5) by (intro conjI exI [of _ m]) simp_all
  ultimately show ?thesis using c(3,4) by blast
qed

section \<open>Accepting a block\<close>

definition tip_work :: "ChainManager \<Rightarrow> nat" where
  "tip_work cm = (case tip (cm_active cm) of None \<Rightarrow> 0 | Some t \<Rightarrow> work_of (cm_heap cm) t)"

lemma manager_ok_tip:
  assumes "manager_ok cm"
  obtains t where "tip (cm_active cm) = Some t" "cm_active cm = chain_of (cm_heap cm) t" "linked (cm_heap cm) t"
    "tip_work cm = work_of (cm_heap cm) t" "cm_candidates cm = [t]"
    "\<forall>a. linked (cm_heap cm) a \<longrightarrow> work_of (cm_heap cm) a \<le> work_of (cm_heap cm) t"
proof -
  obtain t where t: "linked (cm_heap cm) t" "cm_active cm = chain_of (cm_heap cm) t" "cm_candidates cm = [t]"
    "\<forall>a. linked (cm_heap cm) a \<longrightarrow> work_of (cm_heap cm) a \<le> work_of (cm_heap cm) t"
    using assms by (auto simp: manager_ok_def)
  obtain b where "cm_heap cm t = Some b" using t(1) by (auto simp: linked_def)
  then have "tip (cm_active cm) = Some t" using tip_chain_of [of "cm_heap cm" t b] t(2) by simp
  then show thesis using that [of t] t by (simp add: tip_work_def)
qed

lemma validBlockHeader_total:
  assumes "manager_ok cm" "block_getHash sha256 blk = Inr h"
  shows "\<exists>ok. validBlockHeader (Some args) sha256 now cm blk = Inr ok \<and>
    (ok \<longrightarrow> validProofOfWork args h (h_bits (b_header blk)))"
proof -
  obtain t where t: "cm_active cm = chain_of (cm_heap cm) t" "linked (cm_heap cm) t"
    by (rule manager_ok_tip [OF assms(1)])
  have "chain_ok (cm_heap cm) (cm_active cm)" using t by (auto simp: chain_ok_def linked_def)
  moreover have "tree_ok (cm_heap cm)" using tree_invD(2) assms(1) by (simp add: manager_ok_def)
  ultimately have "\<exists>ok. validBlockTime (cm_heap cm) (cm_active cm) now x = Inr ok" for x
    using median_ok [of "cm_heap cm" "cm_active cm" 11] by (auto simp: validBlockTime_def)
  then show ?thesis using assms(2) by (auto simp: validBlockHeader_def consensus_validBlock_def)
qed

lemma validBlock_total:
  assumes "manager_ok cm" "block_getHash sha256 blk = Inr h" "BlockMerkleRoot sha256 blk = Inr rm"
  shows "\<exists>ok. validBlock (Some args) sha256 now cm blk = Inr ok \<and> (ok \<longrightarrow> b_transactions blk \<noteq> [])"
proof -
  obtain ok where "validBlockHeader (Some args) sha256 now cm blk = Inr ok"
    using validBlockHeader_total [OF assms(1,2)] by blast
  then show ?thesis
    using assms(3) by (cases rm) (auto simp: validBlock_def split: list.split)
qed

lemma block_hash_length:
  assumes "header_ok (b_header blk)" "digest_ok UINT256_WIDTH sha256" "block_getHash sha256 blk = Inr h"
  shows "length h = UINT256_WIDTH"
  using assms header_getHash_eq [OF assms(1), of sha256] by (auto simp: block_getHash_def digest_ok_def)

lemma valid_proof_good_bits:
  assumes "wf256 (ca_p_difficulty_1_target args)" "length h = UINT256_WIDTH" "validProofOfWork args h nBits"
  shows "good_bits nBits"
  using validProofOfWork_iff [OF assms(1,2)] assms(3) by (simp add: good_bits_def)

text \<open>The index of the block, found or added, in a manager that satisfies the invariant.\<close>

lemma index_for_block:
  assumes "manager_ok cm" "block_getHash sha256 blk = Inr h"
    "findBlockIndex cm (h_hashPrevBlock (b_header blk)) = Some q"
    "good_bits (h_bits (b_header blk))" "work_room cm (h_bits (b_header blk))" "count_room cm n" "length h = UINT256_WIDTH"
  shows "\<exists>p cm1 b. (case findBlockIndex cm h of Some f \<Rightarrow> Inr (f, cm) | None \<Rightarrow> addToBlockIndex sha256 blk cm)
      = Inr (p, cm1) \<and> manager_ok cm1 \<and> cm_heap cm1 p = Some b \<and> findBlockIndex cm1 h = Some p \<and>
    cm_active cm1 = cm_active cm \<and> tip_work cm1 = tip_work cm \<and> count_room cm1 n \<and>
    (\<forall>x a. findBlockIndex cm x = Some a \<longrightarrow> findBlockIndex cm1 x = Some a)"
proof (cases "findBlockIndex cm h")
  case (Some f)
  have "tree_inv cm" using assms(1) by (simp add: manager_ok_def)
  then obtain b where "cm_heap cm f = Some b" using find_in_map [OF _ Some] by blast
  then show ?thesis using Some assms(1,6) by simp
next
  case None
  have inv: "tree_inv cm" using assms(1) by (simp add: manager_ok_def)
  obtain t where t: "tip (cm_active cm) = Some t" "linked (cm_heap cm) t" by (rule manager_ok_tip [OF assms(1)])
  obtain b where b: "addToBlockIndex sha256 blk cm = Inr (cm_next cm,
      cm\<lparr>cm_heap := (cm_heap cm)(cm_next cm \<mapsto> b), cm_next := cm_next cm + 1,
         cm_map := cm_map cm @ [(h, cm_next cm)]\<rparr>)"
    "bi_phashBlock b = Some h" "bi_pPrev b = Some q" "bi_status b = 0" "bi_numChainTransactions b = 0"
    "bi_sequenceID b = 0" "wf256 (bi_chainWork b)"
    "val (bi_chainWork b) = work_of (cm_heap cm) q + 2 ^ 256 div (target_of (h_bits (b_header blk)) + 1)"
    "tree_ok ((cm_heap cm)(cm_next cm \<mapsto> b))"
    using addToBlockIndex_ok [OF inv t(2) assms(2) None assms(3-5)] by blast
  let ?cm = "cm\<lparr>cm_heap := (cm_heap cm)(cm_next cm \<mapsto> b), cm_next := cm_next cm + 1,
         cm_map := cm_map cm @ [(h, cm_next cm)]\<rparr>"
  have "0 < 2 ^ 256 div (target_of (h_bits (b_header blk)) + 1)"
    using target_not_max [of "h_bits (b_header blk)"] by (simp add: div_greater_zero_iff)
  then have "work_of (cm_heap cm) q < val (bi_chainWork b)" using b(8) by linarith
  then have ok: "manager_ok ?cm" by (rule manager_ok_add [OF assms(1) b(9,7,2-6) _ assms(7)])
  have "t \<in> dom (cm_heap cm)" using t(2) by (auto simp: linked_def)
  then have "tip_work ?cm = tip_work cm"
    using t(1) work_of_fresh [OF tree_inv_next_fresh [OF inv]] by (simp add: tip_work_def)
  moreover have "findBlockIndex ?cm h = Some (cm_next cm)"
    using None by (simp add: findBlockIndex_def map_add_def)
  moreover have "findBlockIndex cm x = Some a \<longrightarrow> findBlockIndex ?cm x = Some a" for x a
    by (simp add: findBlockIndex_def map_add_def split: option.split)
  moreover have "count_room ?cm n" using assms(6) b(5) by (auto simp: count_room_def)
  ultimately show ?thesis using None b(1) ok by (intro exI [of _ "cm_next cm"] exI [of _ ?cm] exI [of _ b]) simp
qed

lemma index_usable:
  assumes "manager_ok cm" "findBlockIndex cm h = Some f"
  shows "\<exists>b. cm_heap cm f = Some b \<and> isValid b"
proof -
  have inv: "tree_inv cm" using assms(1) by (simp add: manager_ok_def)
  obtain b where b: "cm_heap cm f = Some b" using find_in_map [OF inv assms(2)] by blast
  have "bi_status b = 0 \<or> bi_status b = HAVE_DATA" using tree_invD(3) [OF inv] b by (auto simp: linked_tree_def)
  then have "isValid b"
    by (auto simp: isValid_def HAVE_DATA_def FAILED_MASK_def FAILED_VALID_def FAILED_CHILD_def)
  then show ?thesis using b by blast
qed

text \<open>
  The blocks of the properties: the hash fields of the header have their 32 bytes, hashing the
  transactions does not throw, and the work and the counters do not overflow; the work only matters for
  a block with a valid proof. A block with the genesis hash, for which \<open>acceptBlock\<close> leaves out \<open>validBlock\<close>,
  is one that is in the tree already, as the genesis block of a node is, and has a transaction.
\<close>

definition acceptable :: "ConsensusArgs \<Rightarrow> digest \<Rightarrow> Block \<Rightarrow> base_blob \<Rightarrow> ChainManager \<Rightarrow> bool" where
  "acceptable args sha256 blk h cm \<longleftrightarrow>
     header_ok (b_header blk) \<and> digest_ok UINT256_WIDTH sha256 \<and> wf256 (ca_p_difficulty_1_target args) \<and>
     block_getHash sha256 blk = Inr h \<and>
     (isGenesisHash (Some args) h \<longrightarrow> findBlockIndex cm h \<noteq> None \<and> b_transactions blk \<noteq> []) \<and>
     (\<exists>rm. BlockMerkleRoot sha256 blk = Inr rm) \<and>
     (validProofOfWork args h (h_bits (b_header blk)) \<longrightarrow> work_room cm (h_bits (b_header blk))) \<and> count_room cm (max 1 (length (b_transactions blk)))"

lemma receive_and_activate:
  assumes "manager_ok cm" "cm_heap cm p = Some b" "findBlockIndex cm h = Some p"
    "count_room cm (length (b_transactions blk))"
  shows "\<exists>cm'. bindE (receiveBlock blk p cm) (\<lambda>(ok, cm).
      if \<not> ok then Inr (None, cm\<lparr>cm_heap := (cm_heap cm)(p := None)\<rparr>) else
      bindE (checkAllBlockIndexs pArgs cm) (\<lambda>ok.
      if \<not> ok then Inr (None, cm\<lparr>cm_heap := (cm_heap cm)(p := None)\<rparr>) else
      bindE (activateBestChain pArgs cm) (\<lambda>(ok, cm).
      if \<not> ok then Inr (None, cm\<lparr>cm_heap := (cm_heap cm)(p := None)\<rparr>)
      else Inr (Some p, cm)))) = Inr (Some p, cm') \<and>
    manager_ok cm' \<and> tip_work cm \<le> tip_work cm' \<and> findBlockIndex cm' h = Some p \<and> cm_map cm' = cm_map cm \<and>
    (linked (cm_heap cm') p \<longrightarrow> work_of (cm_heap cm') p \<le> tip_work cm') \<and>
    (if prev_linked (cm_heap cm) b \<and> tip_work cm < work_of (cm_heap cm) p
     then tip (cm_active cm') = Some p else cm_active cm' = cm_active cm)"
proof -
  obtain t0 where t0: "tip (cm_active cm) = Some t0" "cm_active cm = chain_of (cm_heap cm) t0"
    "linked (cm_heap cm) t0" "tip_work cm = work_of (cm_heap cm) t0"
    by (rule manager_ok_tip [OF assms(1)])
  obtain cm1 m t where r: "receiveBlock blk p cm = Inr (True, cm1)" "ready m cm1"
    "cm_active cm1 = cm_active cm" "cm_map cm1 = cm_map cm"
    "work_of (cm_heap cm1) = work_of (cm_heap cm)" "chain_of (cm_heap cm1) = chain_of (cm_heap cm)"
    "tip (cm_active cm) = Some t"
    "m = (if prev_linked (cm_heap cm) b \<and> work_of (cm_heap cm) t < work_of (cm_heap cm) p then p else t)"
    using receiveBlock_ready [OF assms(1,2,4)] by blast
  have tt: "t = t0" using r(7) t0(1) by simp
  have "tree_inv cm1" "cm_active cm1 \<noteq> []" using r(2) by (simp_all add: ready_def)
  note chk = checkAllBlockIndexs_ok [OF this, of pArgs]
  obtain cm' where c: "activateBestChain pArgs cm1 = Inr (True, cm')" "manager_ok cm'"
    "cm_active cm' = chain_of (cm_heap cm1) m" "same_tree cm1 cm'"
    using activateBestChain_ready [OF r(2)] by blast
  have heap: "cm_heap cm' = cm_heap cm1" "cm_map cm' = cm_map cm1"
    by (rule same_tree_heap [OF c(4)], rule same_tree_map [OF c(4)])
  obtain t' where t': "tip (cm_active cm') = Some t'" "tip_work cm' = work_of (cm_heap cm') t'"
    "\<forall>a. linked (cm_heap cm') a \<longrightarrow> work_of (cm_heap cm') a \<le> work_of (cm_heap cm') t'"
    by (rule manager_ok_tip [OF c(2)])
  have "linked (cm_heap cm1) m" using r(2) by (simp add: ready_def activating_def)
  then obtain mb where "cm_heap cm1 m = Some mb" by (auto simp: linked_def)
  then have tm: "t' = m" using tip_chain_of [of "cm_heap cm1" m mb] c(3) t'(1) by simp
  have "tip_work cm \<le> tip_work cm'"
    using t0(4) t'(2) tm tt heap(1) r(5,8) by simp
  moreover have "if prev_linked (cm_heap cm) b \<and> tip_work cm < work_of (cm_heap cm) p
     then tip (cm_active cm') = Some p else cm_active cm' = cm_active cm"
  proof (cases "prev_linked (cm_heap cm) b \<and> tip_work cm < work_of (cm_heap cm) p")
    case True
    then have "m = p" using r(8) t0(4) tt by simp
    then show ?thesis using True t'(1) tm by simp
  next
    case False
    then have "m = t0" using r(8) t0(4) tt by auto
    then have "cm_active cm' = cm_active cm" using c(3) r(6) t0(2) by simp
    then show ?thesis using False by argo
  qed
  moreover have "findBlockIndex cm' h = Some p" using assms(3) heap(2) r(4) by (simp add: findBlockIndex_def)
  moreover have "linked (cm_heap cm') p \<longrightarrow> work_of (cm_heap cm') p \<le> tip_work cm'" using t'(2,3) by simp
  moreover have "cm_map cm' = cm_map cm" using heap(2) r(4) by simp
  ultimately show ?thesis
    using c(2) unfolding r(1) bindE_simps prod.case chk c(1) not_True_eq_False if_False by blast
qed

text \<open>The second half of \<open>acceptBlock\<close>, for the index \<open>p\<close> of the block.\<close>

definition finish_block ::
  "ConsensusArgs option \<Rightarrow> Block \<Rightarrow> nat \<Rightarrow> ChainManager \<Rightarrow> (ptr \<times> ChainManager) chain_result" where
  "finish_block pArgs blk p cm =
     bindE (receiveBlock blk p cm) (\<lambda>(ok, cm).
     if \<not> ok then Inr (None, cm\<lparr>cm_heap := (cm_heap cm)(p := None)\<rparr>) else
     bindE (checkAllBlockIndexs pArgs cm) (\<lambda>ok.
     if \<not> ok then Inr (None, cm\<lparr>cm_heap := (cm_heap cm)(p := None)\<rparr>) else
     bindE (activateBestChain pArgs cm) (\<lambda>(ok, cm).
     if \<not> ok then Inr (None, cm\<lparr>cm_heap := (cm_heap cm)(p := None)\<rparr>)
     else Inr (Some p, cm))))"

text \<open>What the invariant, the best chain rule and the index of known blocks promise of a result.\<close>

definition accepts :: "base_blob \<Rightarrow> ChainManager \<Rightarrow> (ptr \<times> ChainManager) chain_result \<Rightarrow> bool" where
  "accepts h cm r \<longleftrightarrow> (\<exists>p cm'. r = Inr (p, cm') \<and> manager_ok cm' \<and> tip_work cm \<le> tip_work cm' \<and>
     (p = None \<longrightarrow> cm_active cm' = cm_active cm) \<and>
     (\<forall>q. p = Some q \<longrightarrow> findBlockIndex cm' h = Some q \<and>
        (linked (cm_heap cm') q \<longrightarrow> work_of (cm_heap cm') q \<le> tip_work cm') \<and>
        (tip (cm_active cm') = Some q \<or> cm_active cm' = cm_active cm)) \<and>
     (\<forall>x a. findBlockIndex cm x = Some a \<longrightarrow> findBlockIndex cm' x = Some a))"

lemma finish_block_accepts:
  assumes "manager_ok cm" "cm_heap cm p = Some b" "findBlockIndex cm h = Some p"
    "count_room cm (length (b_transactions blk))"
  shows "accepts h cm (finish_block pArgs blk p cm)"
proof -
  obtain cm' where c: "finish_block pArgs blk p cm = Inr (Some p, cm')" "manager_ok cm'"
    "tip_work cm \<le> tip_work cm'" "findBlockIndex cm' h = Some p" "cm_map cm' = cm_map cm"
    "linked (cm_heap cm') p \<longrightarrow> work_of (cm_heap cm') p \<le> tip_work cm'"
    "if prev_linked (cm_heap cm) b \<and> tip_work cm < work_of (cm_heap cm) p
     then tip (cm_active cm') = Some p else cm_active cm' = cm_active cm"
    using receive_and_activate [OF assms, of pArgs] unfolding finish_block_def by blast
  then show ?thesis by (auto simp: accepts_def findBlockIndex_def split: if_splits)
qed

lemma accepts_later:
  assumes "accepts h cm1 r" "cm_active cm1 = cm_active cm" "tip_work cm1 = tip_work cm"
    "\<forall>x a. findBlockIndex cm x = Some a \<longrightarrow> findBlockIndex cm1 x = Some a"
  shows "accepts h cm r"
  using assms by (fastforce simp: accepts_def)

lemma accepts_rejected: "manager_ok cm \<Longrightarrow> accepts h cm (Inr (None, cm))"
  by (simp add: accepts_def)

lemma count_room_nonempty:
  assumes "count_room cm (max 1 (length txs))" "txs \<noteq> []"
  shows "count_room cm (length txs)"
proof -
  have "max 1 (length txs) = length txs" using assms(2) by (cases txs) auto
  then show ?thesis using assms(1) by simp
qed

lemma acceptBlock_accepts:
  assumes "manager_ok cm" "acceptable args sha256 blk h cm"
  shows "accepts h cm (acceptBlock (Some args) sha256 now blk cm)"
proof -
  note acc = assms(2) [unfolded acceptable_def]
  have hash: "block_getHash sha256 blk = Inr h" using acc by simp
  have len: "length h = UINT256_WIDTH" using block_hash_length acc by blast
  let ?prev = "h_hashPrevBlock (b_header blk)"
  have known: "(case findBlockIndex cm h of None \<Rightarrow> Inr True
      | Some f \<Rightarrow> bindE (deref (cm_heap cm) (Some f)) (\<lambda>b. Inr (isValid b))) = (Inr True :: bool chain_result)"
    using index_usable [OF assms(1)] by (fastforce simp: deref_def split: option.split)
  obtain ok where ok: "validBlockHeader (Some args) sha256 now cm blk = Inr ok"
    "ok \<longrightarrow> validProofOfWork args h (h_bits (b_header blk))"
    using validBlockHeader_total [OF assms(1) hash] by blast
  note start = hash known ok(1)
  consider (rejected) "\<not> ok \<or> \<not> isGenesisHash (Some args) h \<and> findBlockIndex cm ?prev = None"
    | (genesis) p where "ok" "isGenesisHash (Some args) h" "findBlockIndex cm h = Some p"
    | (new) q where "ok" "\<not> isGenesisHash (Some args) h" "findBlockIndex cm ?prev = Some q"
    using acc
    by (cases ok; cases "isGenesisHash (Some args) h"; cases "findBlockIndex cm h"; cases "findBlockIndex cm ?prev") auto
  then show ?thesis
  proof cases
    case rejected
    then have "acceptBlock (Some args) sha256 now blk cm = Inr (None, cm)"
      using start by (auto simp: acceptBlock_def Let_def)
    then show ?thesis using accepts_rejected [OF assms(1)] by simp
  next
    case (genesis p)
    obtain b where b: "cm_heap cm p = Some b" using index_usable [OF assms(1) genesis(3)] by blast
    have "count_room cm (length (b_transactions blk))" using acc genesis(2) by (auto intro: count_room_nonempty)
    moreover have "acceptBlock (Some args) sha256 now blk cm = finish_block (Some args) blk p cm"
      using start genesis b by (simp add: acceptBlock_def Let_def finish_block_def del: fun_upd_apply)
    ultimately show ?thesis using finish_block_accepts [OF assms(1) b genesis(3)] by simp
  next
    case (new q)
    obtain qb where qb: "cm_heap cm q = Some qb" "isValid qb" using index_usable [OF assms(1) new(3)] by blast
    have pow: "validProofOfWork args h (h_bits (b_header blk))" using new(1) ok(2) by simp
    have good: "good_bits (h_bits (b_header blk))"
      by (rule valid_proof_good_bits [of args h]) (use acc len pow in auto)
    obtain p cm1 b where p: "(case findBlockIndex cm h of Some f \<Rightarrow> Inr (f, cm) | None \<Rightarrow> addToBlockIndex sha256 blk cm)
        = Inr (p, cm1)" "manager_ok cm1" "cm_heap cm1 p = Some b" "findBlockIndex cm1 h = Some p"
      "cm_active cm1 = cm_active cm" "tip_work cm1 = tip_work cm"
      "count_room cm1 (max 1 (length (b_transactions blk)))"
      "\<forall>x a. findBlockIndex cm x = Some a \<longrightarrow> findBlockIndex cm1 x = Some a"
      using index_for_block [OF assms(1) hash new(3) good _ _ len] acc pow by blast
    obtain ok2 where ok2: "validBlock (Some args) sha256 now cm1 blk = Inr ok2" "ok2 \<longrightarrow> b_transactions blk \<noteq> []"
      using validBlock_total [OF p(2) hash] acc by blast
    have eq: "acceptBlock (Some args) sha256 now blk cm =
        (if \<not> ok2 then Inr (None, cm1) else finish_block (Some args) blk p cm1)"
      using start new qb p(1) ok2(1)
      by (simp add: acceptBlock_def Let_def deref_def finish_block_def del: fun_upd_apply)
    have "accepts h cm1 (acceptBlock (Some args) sha256 now blk cm)"
      using eq ok2(2) accepts_rejected [OF p(2)] finish_block_accepts [OF p(2-4)] count_room_nonempty [OF p(7)]
      by (cases ok2) simp_all
    then show ?thesis using p(5,6,8) by (rule accepts_later)
  qed
qed

lemma acceptBlock_ok:
  assumes "manager_ok cm" "acceptable args sha256 blk h cm"
  shows "\<exists>r cm'. acceptBlock (Some args) sha256 now blk cm = Inr (r, cm') \<and> manager_ok cm' \<and>
    tip_work cm \<le> tip_work cm' \<and> (r = None \<longrightarrow> cm_active cm' = cm_active cm) \<and>
    (\<forall>p. r = Some p \<longrightarrow> findBlockIndex cm' h = Some p \<and>
       (linked (cm_heap cm') p \<longrightarrow> work_of (cm_heap cm') p \<le> tip_work cm') \<and>
       (tip (cm_active cm') = Some p \<or> cm_active cm' = cm_active cm)) \<and>
    (\<forall>x a. findBlockIndex cm x = Some a \<longrightarrow> findBlockIndex cm' x = Some a)"
  using acceptBlock_accepts [OF assms, of now] unfolding accepts_def .

section \<open>An example state\<close>

text \<open>For the witnesses: a manager with a genesis block, and a block on top of it under a constant digest.\<close>

definition zero_digest :: digest where
  "zero_digest bs = replicate 32 0"

definition example_args :: ConsensusArgs where
  "example_args = (create NORMAL)\<lparr>ca_hashBlockGenesis := replicate 32 1\<rparr>"

definition example_genesis :: BlockIndex where
  "example_genesis = example_block\<lparr>bi_phashBlock := Some (replicate 32 1), bi_status := HAVE_DATA,
     bi_chainWork := base_uint_of_u64 1, bi_numChainTransactions := 1\<rparr>"

definition example_manager :: ChainManager where
  "example_manager = \<lparr>cm_heap = [0 \<mapsto> example_genesis], cm_next = 1, cm_active = [Some 0], cm_candidates = [0],
     cm_unlinked = [], cm_map = [(replicate 32 1, 0)], cm_nodeIDs = [], cm_sequence = 1\<rparr>"

definition example_child :: Block where
  "example_child = \<lparr>b_transactions = [new_Transaction],
     b_header = new_BlockHeader\<lparr>h_hashPrevBlock := replicate 32 1, h_bits := 0x1f00ffff\<rparr>\<rparr>"

lemma example_genesis_fields:
  "bi_pPrev example_genesis = None" "bi_height example_genesis = 0" "bi_pSkip example_genesis = None"
  "bi_sequenceID example_genesis = 0" "bi_phashBlock example_genesis = Some (replicate 32 1)"
  "bi_status example_genesis = HAVE_DATA" "bi_numChainTransactions example_genesis = 1"
  "wf256 (bi_chainWork example_genesis)" "val (bi_chainWork example_genesis) = 1"
  by (simp_all add: example_genesis_def example_block_def new_BlockIndex_def Let_def)

lemma example_manager_ok: "manager_ok example_manager"
proof -
  let ?hp = "cm_heap example_manager"
  have hp: "?hp = [0 \<mapsto> example_genesis]" by (simp add: example_manager_def)
  have "tree_ok ?hp" by (simp add: hp tree_ok_def node_ok_def example_genesis_fields)
  then have "work_tree ?hp" by (simp add: work_tree_def hp example_genesis_fields)
  moreover have "linked_tree ?hp" by (simp add: linked_tree_def hp example_genesis_fields)
  ultimately have "tree_inv example_manager"
    unfolding tree_inv_def by (simp add: example_manager_def is_root_def hashed_def UINT256_WIDTH_def example_genesis_fields)
  moreover have "chain_of ?hp 0 = [Some 0]" by (simp add: chain_of_def hp example_genesis_fields)
  moreover have "linked ?hp a \<longleftrightarrow> a = 0" for a by (simp add: linked_def hp example_genesis_fields)
  ultimately show ?thesis unfolding manager_ok_def by (auto simp: example_manager_def)
qed

lemma target_1f00ffff: "target_of 0x1f00ffff = 65535 * 2 ^ 224"
proof -
  obtain x neg ovf where s: "setCompact 0x1f00ffff = (x, neg, ovf)" using prod_cases3 by blast
  then show ?thesis
    using setCompact_correct [OF s] by (simp add: target_of_def compact_mantissa_def compact_size_def)
qed

lemma example_acceptable: "acceptable example_args zero_digest example_child (replicate 32 0) example_manager"
proof -
  have ok: "header_ok (b_header example_child)"
    by (simp add: header_ok_def example_child_def new_BlockHeader_def blob_null_def UINT256_WIDTH_def)
  have d: "digest_ok 32 zero_digest" by (simp add: digest_ok_def zero_digest_def)
  have hash: "block_getHash zero_digest example_child = Inr (replicate 32 0)"
    using header_getHash_eq [OF ok] by (simp add: block_getHash_def zero_digest_def)
  have "tx_hashes zero_digest (b_transactions example_child) = Inr [replicate 32 0]"
    using tx_getHash_eq [of new_Transaction zero_digest]
    by (simp add: example_child_def new_Transaction_def MAX_SIZE_def zero_digest_def)
  then have "\<exists>rm. BlockMerkleRoot zero_digest example_child = Inr rm"
    using ComputeMerkleRoot_eq [OF d, of "[replicate 32 0]"] by (simp add: BlockMerkleRoot_def)
  moreover have "work_room example_manager (h_bits (b_header example_child))"
    by (simp add: work_room_def example_manager_def example_child_def target_1f00ffff work_of_def example_genesis_fields)
  moreover have "count_room example_manager (max 1 (length (b_transactions example_child)))"
    by (simp add: count_room_def example_manager_def example_child_def example_genesis_fields)
  moreover have "wf256 (ca_p_difficulty_1_target example_args)" by (simp add: example_args_def create_args)
  moreover have "\<not> isGenesisHash (Some example_args) (replicate 32 0)"
    by (simp add: isGenesisHash_def example_args_def blob_eq_def compare_eq_0_iff)
  ultimately show ?thesis using ok d hash by (simp add: acceptable_def UINT256_WIDTH_def)
qed

section \<open>Properties\<close>

text \<open>
  C1: \<open>acceptBlock\<close> keeps the invariant of the manager. On a manager that satisfies it, the call returns for
  every block that is \<open>acceptable\<close>: no null pointer is followed, no assertion fails, every loop ends.
  Afterwards the tree is well formed, every index has its hash, the active chain is the path to its tip,
  the tip is the only candidate, and no linked block has more work. A block need not be valid: it may
  have any proof, target, time, transactions and predecessor. It is acceptable when its hash fields have
  32 bytes, its hash and its Merkle root can be computed (hashing a transaction throws when its strings
  are too long for a buffer), the 256-bit work of the chain (for a block with a
  valid proof) and the 32-bit counters have room for it, and, if its hash is the genesis hash, it is in
  the tree already and has a transaction.
\<close>

theorem accept_block_invariant:
  assumes "manager_ok cm" "acceptable args sha256 blk h cm"
  shows "\<exists>r cm'. acceptBlock (Some args) sha256 now blk cm = Inr (r, cm') \<and> manager_ok cm'"
  using acceptBlock_ok [OF assms, of now] by blast

theorem accept_block_invariant_witness:
  "\<exists>r cm'. acceptBlock (Some example_args) zero_digest 0 example_child example_manager = Inr (r, cm') \<and> manager_ok cm'"
  by (rule accept_block_invariant [OF example_manager_ok example_acceptable])

text \<open>
  C2: the best chain rule. The work of the tip never decreases; a rejected block leaves the active
  chain as it was; an accepted block is found under its hash, has at most the work of the tip when it
  is linked, and the active chain either has it as its new tip or is unchanged.
\<close>

theorem accept_block_best_chain:
  assumes "manager_ok cm" "acceptable args sha256 blk h cm"
    and "acceptBlock (Some args) sha256 now blk cm = Inr (r, cm')"
  shows "tip_work cm \<le> tip_work cm' \<and> (case r of
      None \<Rightarrow> cm_active cm' = cm_active cm
    | Some p \<Rightarrow> findBlockIndex cm' h = Some p \<and>
        (linked (cm_heap cm') p \<longrightarrow> work_of (cm_heap cm') p \<le> tip_work cm') \<and>
        (tip (cm_active cm') = Some p \<or> cm_active cm' = cm_active cm))"
  using acceptBlock_ok [OF assms(1,2), of now] assms(3) by (auto split: option.splits)

theorem accept_block_best_chain_witness:
  "\<exists>r cm'. acceptBlock (Some example_args) zero_digest 0 example_child example_manager = Inr (r, cm') \<and>
     1 \<le> tip_work cm'"
proof -
  obtain r cm' where r: "acceptBlock (Some example_args) zero_digest 0 example_child example_manager = Inr (r, cm')"
    using acceptBlock_ok [OF example_manager_ok example_acceptable] by blast
  moreover have "tip_work example_manager = 1"
    by (simp add: tip_work_def example_manager_def tip_def work_of_def example_genesis_fields)
  ultimately show ?thesis
    using accept_block_best_chain [OF example_manager_ok example_acceptable r] by auto
qed

text \<open>
  C23: the loop of \<open>activateBestChain\<close> terminates with the best candidate as tip whenever that candidate
  is better than the tip, however deep the fork: the chunks of 32 blocks that are connected from
  their top downwards never leave the chain on another block, and only the new tip stays a candidate.
\<close>

theorem activate_best_chain_terminates:
  assumes "activating m cm" "pruned cm" "better (cm_heap cm) (tip (cm_active cm)) m"
  shows "\<exists>r cm'. activate_loop (activate_fuel cm) cm = Inr (r, cm') \<and> r \<noteq> Some False \<and>
    cm_heap cm' = cm_heap cm \<and> cm_active cm' = chain_of (cm_heap cm) m \<and> cm_candidates cm' = [m]"
proof -
  from activate_loop_ok [OF assms(1,2) disjI2 [OF assms(3)]] obtain r cm' where
    "activate_loop (activate_fuel cm) cm = Inr (r, cm')" "r \<noteq> Some False" "same_tree cm cm'"
    "cm_active cm' = chain_of (cm_heap cm) m" "cm_candidates cm' = [m]" by blast
  then show ?thesis using same_tree_heap by blast
qed

theorem activate_best_chain_terminates_witness:
  "\<exists>r cm'. activate_loop (activate_fuel (example_manager\<lparr>cm_active := []\<rparr>)) (example_manager\<lparr>cm_active := []\<rparr>)
     = Inr (r, cm') \<and> cm_candidates cm' = [0]"
proof -
  let ?cm = "example_manager\<lparr>cm_active := []\<rparr>"
  note inv = tree_invD [OF conjunct1 [OF example_manager_ok [unfolded manager_ok_def]]]
  have "work_ok (cm_heap example_manager) 0"
    by (rule work_treeD(3) [OF inv(1)]) (simp add: example_manager_def)
  then have "activating 0 ?cm"
    using inv(1,3) by (auto simp: activating_def chain_ok_def work.ordered_def linked_def example_manager_def
      example_genesis_fields)
  moreover have "pruned ?cm" "better (cm_heap ?cm) (tip (cm_active ?cm)) 0"
    by (simp_all add: pruned_def better_def tip_def)
  ultimately show ?thesis using activate_best_chain_terminates [of 0 ?cm] by blast
qed

text \<open>
  The work of a block is $2^{256}$ divided by the target plus one, and zero exactly for a target
  that is negative, zero or overflowing; the 256-bit arithmetic that computes it never wraps and
  never divides by zero.
\<close>

theorem chain_work_value:
  "\<exists>w. caculateChainWork b = Inr w \<and> wf256 w \<and>
     val w = (case setCompact (bi_bits b) of (t, neg, ovf) \<Rightarrow>
       if neg \<or> ovf \<or> val t = 0 then 0 else 2 ^ 256 div (val t + 1))"
proof -
  obtain t neg ovf where s: "setCompact (bi_bits b) = (t, neg, ovf)" using prod_cases3 by blast
  then have "target_of (bi_bits b) = val t" by (simp add: target_of_def)
  with s caculateChainWork_eq [of b] show ?thesis by (simp only: fst_conv snd_conv prod.case)
qed

text \<open>
  C36: every transaction counts as a value base, so \<open>validBlock\<close> rejects every block with more than one
  transaction: a block that carries a payment besides the base transaction is never accepted.
\<close>

theorem valid_block_single_transaction:
  assumes "1 < length (b_transactions blk)"
  shows "validBlock pArgs sha256 now cm blk \<noteq> Inr True"
proof -
  obtain x y ys where "b_transactions blk = x # y # ys"
    using assms by (metis One_nat_def length_0_conv length_Cons list.exhaust not_less_zero less_irrefl)
  then show ?thesis
    by (auto simp: validBlock_def bindE_eq_Inr isValueBase_def split: if_splits option.splits prod.splits)
qed

theorem valid_block_single_transaction_witness:
  "validBlock (Some example_args) zero_digest 0 example_manager
     (example_child\<lparr>b_transactions := [new_Transaction, new_Transaction]\<rparr>) \<noteq> Inr True"
  by (rule valid_block_single_transaction) simp

end
