(* ===== verification/Blockchain.thy ===== *)
theory Blockchain
  imports AcceptBlock
begin

text \<open>
  The node: class \<open>Blockchain\<close> of \<open>libs/blockchain/blockchain.cpp\<close> and the operations of \<open>ConsensusPow\<close>
  in \<open>consensus.cpp\<close> that call back into it, the genesis block and the search for a new block.

  A transaction is kept with the address of its object, because \<open>processNewBlock\<close> compares pointers;
  a block comes with the addresses of its transactions. \<open>bc_args\<close> is \<open>None\<close> while the consensus object
  is under construction, which is when the genesis block is accepted. The search loop reads the clock
  and, because other threads may extend the chain meanwhile, the height of the active chain in every
  round; both are functions of the round. The start of the worker threads is the subject of the
  theory on the thread pool.

  The lemmas show that the constructor establishes the invariant of the block tree manager, that it
  holds in every reachable state, and that the search ends and returns only blocks with a valid proof,
  which the manager can accept. The reachable states are those of construction, new transactions, blocks
  of the network and rounds of mining.
\<close>

section \<open>Definitions\<close>

record Blockchain =
  bc_manager :: ChainManager
  bc_args :: "ConsensusArgs option"
  bc_transactions :: "(nat \<times> Transaction) list"
  bc_nextTransaction :: nat
  bc_userHash :: string
  bc_userGas :: uint64

definition createNewTransaction :: "string \<Rightarrow> string \<Rightarrow> uint32 \<Rightarrow> Blockchain \<Rightarrow> nat \<times> Blockchain" where
  "createNewTransaction sender recipient value bc =
     (let tx = new_Transaction\<lparr>tx_value := ucast value, tx_recipient := recipient, tx_sender := sender\<rparr>;
          p = bc_nextTransaction bc
      in (p, bc\<lparr>bc_transactions := bc_transactions bc @ [(p, tx)], bc_nextTransaction := p + 1\<rparr>))"

definition erase_packed :: "nat list \<Rightarrow> (nat \<times> Transaction) list \<Rightarrow> (nat \<times> Transaction) list chain_result" where
  "erase_packed ptrs pool =
     (let n = length ptrs
      in if length pool > 0 \<and> n > 1
         then if n - 2 \<ge> length pool then Inl ChainOutOfRange
              else if fst (pool ! (n - 2)) = ptrs ! (n - 1) then Inr (drop (n - 1) pool)
              else Inr pool
         else Inr pool)"

definition processNewBlock ::
  "digest \<Rightarrow> int \<Rightarrow> nat list \<Rightarrow> Block \<Rightarrow> Blockchain \<Rightarrow> (ptr \<times> Blockchain) chain_result" where
  "processNewBlock sha256 now ptrs pBlock bc =
     bindE (acceptBlock (bc_args bc) sha256 now pBlock (bc_manager bc)) (\<lambda>(pBlockIndex, cm).
     let bc = bc\<lparr>bc_manager := cm\<rparr>
     in if pBlockIndex = None then Inr (None, bc)
        else bindE (erase_packed ptrs (bc_transactions bc)) (\<lambda>pool.
             Inr (pBlockIndex, bc\<lparr>bc_transactions := pool\<rparr>)))"

definition genesis_block :: "ConsensusArgs \<Rightarrow> digest \<Rightarrow> int \<Rightarrow> Transaction list \<Rightarrow> Block chain_result" where
  "genesis_block args sha256 now pool =
     bindE (liftE ChainCompact (getCompact False (ca_b_difficulty_1_target args))) (\<lambda>nBits.
     let header = new_BlockHeader\<lparr>h_timeval := of_int now, h_proof := 0,
                    h_hashPrevBlock := uint256S ''0'', h_bits := nBits\<rparr>;
         base = \<lparr>tx_sender = ''0'', tx_recipient = ''0'', tx_value = 0, tx_magic = 0\<rparr>;
         block = addTransactions pool \<lparr>b_transactions = [base], b_header = header\<rparr>
     in bindE (liftE ChainMerkle (BlockMerkleRoot sha256 block)) (\<lambda>(root, mutated).
        Inr (block\<lparr>b_header := header\<lparr>h_hashMerkleRoot := root\<rparr>\<rparr>)))"

definition createGenesisBlock ::
  "ConsensusArgs \<Rightarrow> digest \<Rightarrow> int \<Rightarrow> Blockchain \<Rightarrow> (ConsensusArgs \<times> Blockchain) chain_result" where
  "createGenesisBlock args sha256 now bc =
     (if chain_height (cm_active (bc_manager bc)) > 0 then Inr (args, bc)
      else bindE (genesis_block args sha256 now (map snd (bc_transactions bc))) (\<lambda>block.
           bindE (liftE ChainStream (block_getHash sha256 block)) (\<lambda>hash.
           let args = args\<lparr>ca_hashBlockGenesis := hash\<rparr>;
               ptrs = bc_nextTransaction bc # map fst (bc_transactions bc)
           in bindE (processNewBlock sha256 now ptrs block
                       (bc\<lparr>bc_nextTransaction := bc_nextTransaction bc + 1\<rparr>)) (\<lambda>(p, bc).
              Inr (args, bc)))))"

definition new_Blockchain :: "digest \<Rightarrow> int \<Rightarrow> Blockchain chain_result" where
  "new_Blockchain sha256 now =
     (let bc = \<lparr>bc_manager = new_ChainManager, bc_args = None, bc_transactions = [],
                bc_nextTransaction = 0, bc_userHash = [], bc_userGas = 0\<rparr>
      in bindE (createGenesisBlock (create NORMAL) sha256 now bc) (\<lambda>(args, bc).
         Inr (bc\<lparr>bc_args := Some args\<rparr>)))"

text \<open>
  The outer loop of \<open>build\<close>. The result is the found block, if any, with the number of tries; \<open>None\<close> for
  the block when the height of the active chain changed or the tries are used up.
\<close>

fun build_loop ::
  "nat \<Rightarrow> ConsensusArgs \<Rightarrow> digest \<Rightarrow> (nat \<Rightarrow> int) \<Rightarrow> (nat \<Rightarrow> int) \<Rightarrow> heap \<Rightarrow> chain \<Rightarrow> miner \<Rightarrow> nat \<Rightarrow> nat \<Rightarrow>
     (Block option \<times> nat) chain_result" where
  "build_loop 0 args sha256 clock height hp c m extraProof tries = Inl ChainLoop"
| "build_loop (Suc fuel) args sha256 clock height hp c m extraProof tries =
     (if chain_height c \<noteq> height extraProof then Inr (None, tries)
      else bindE (createNewBlock args sha256 hp c m (clock extraProof) 0 0 (of_nat (extraProof + 1)) (tip c)) (\<lambda>block.
           case op_divide (ca_b_difficulty_1_target args) (fst (setCompact (h_bits (b_header block)))) of
             Inl e \<Rightarrow> Inl (ChainArith e)
           | Inr _ \<Rightarrow>
               bindE (proof_search args sha256 tries (b_header block)) (\<lambda>(tries, header).
               if tries = maxTries then Inr (None, tries)
               else if h_proof header \<ge> innerLoopCount
                    then build_loop fuel args sha256 clock height hp c m (extraProof + 1) tries
                    else Inr (Some (block\<lparr>b_header := header\<rparr>), tries))))"

definition build ::
  "digest \<Rightarrow> (nat \<Rightarrow> int) \<Rightarrow> (nat \<Rightarrow> int) \<Rightarrow> int \<Rightarrow> Blockchain \<Rightarrow> (bool \<times> Blockchain) chain_result" where
  "build sha256 clock height now bc =
     (case bc_args bc of
        None \<Rightarrow> Inl NullDeref
      | Some args \<Rightarrow>
          let cm = bc_manager bc;
              m = \<lparr>mi_userHash = bc_userHash bc, mi_userGas = bc_userGas bc,
                   mi_transactions = map snd (bc_transactions bc)\<rparr>
          in bindE (build_loop maxTries args sha256 clock height (cm_heap cm) (cm_active cm) m 0 0) (\<lambda>(found, tries).
             case found of
               None \<Rightarrow> Inr (False, bc)
             | Some block \<Rightarrow>
                 let ptrs = bc_nextTransaction bc # map fst (bc_transactions bc)
                 in bindE (processNewBlock sha256 now ptrs block
                             (bc\<lparr>bc_nextTransaction := bc_nextTransaction bc + 1\<rparr>)) (\<lambda>(p, bc).
                    Inr (p \<noteq> None, bc))))"

section \<open>Merkle roots of blocks\<close>

lemma merkle_root_length:
  assumes "digest_ok 32 sha256"
  shows "\<forall>x \<in> set xs. length x = 32 \<Longrightarrow> xs \<noteq> [] \<Longrightarrow> length (merkle_root (\<lambda>a b. sha256 (a @ b)) xs) = 32"
proof (induction "\<lambda>a b. sha256 (a @ b)" xs rule: merkle_root.induct)
  case (1 xs)
  have up: "\<forall>x \<in> set (pair_up (\<lambda>a b. sha256 (a @ b)) ys). length x = 32" for ys
    using assms by (induction "\<lambda>a b. sha256 (a @ b)" ys rule: pair_up.induct) (auto simp: digest_ok_def)
  show ?case
  proof (cases "length xs \<le> 1")
    case True
    then show ?thesis using 1(2,3) by (simp add: merkle_root.simps)
  next
    case False
    then have "pair_up (\<lambda>a b. sha256 (a @ b)) xs \<noteq> []" by (cases xs; cases "tl xs") auto
    then have "length (merkle_root (\<lambda>a b. sha256 (a @ b)) (pair_up (\<lambda>a b. sha256 (a @ b)) xs)) = 32"
      using 1(1) False up by blast
    then show ?thesis using False by (subst merkle_root.simps) simp
  qed
qed

definition tx_fits :: "Transaction \<Rightarrow> bool" where
  "tx_fits tx \<longleftrightarrow> length (tx_sender tx) + length (tx_recipient tx) + 14 \<le> MAX_SIZE"

lemma tx_hashes_ok:
  assumes "digest_ok 32 sha256"
  shows "\<forall>tx \<in> set txs. tx_fits tx \<Longrightarrow>
    \<exists>hs. tx_hashes sha256 txs = Inr hs \<and> length hs = length txs \<and> (\<forall>x \<in> set hs. length x = 32)"
proof (induction txs)
  case (Cons tx txs)
  then obtain hs where "tx_hashes sha256 txs = Inr hs" "length hs = length txs" "\<forall>x \<in> set hs. length x = 32"
    by auto
  moreover have "tx_getHash sha256 tx = Inr (sha256 (sha256 (tx_bytes tx)))"
    using Cons.prems by (intro tx_getHash_eq) (simp add: tx_fits_def)
  ultimately show ?case using assms by (auto simp: digest_ok_def)
qed simp

lemma BlockMerkleRoot_total:
  assumes "digest_ok 32 sha256" "\<forall>tx \<in> set (b_transactions blk). tx_fits tx"
    "b_transactions blk \<noteq> []" "length (b_transactions blk) \<le> 2 ^ 31"
  shows "\<exists>root mutated. BlockMerkleRoot sha256 blk = Inr (root, mutated) \<and> length root = 32"
proof -
  obtain hs where hs: "tx_hashes sha256 (b_transactions blk) = Inr hs"
    "length hs = length (b_transactions blk)" "\<forall>x \<in> set hs. length x = 32"
    using tx_hashes_ok [OF assms(1,2)] by blast
  have ne: "hs \<noteq> []" using hs(2) assms(3) by auto
  have "length hs \<le> 2 ^ 31" using hs(2) assms(4) by simp
  then show ?thesis
    using ComputeMerkleRoot_eq [OF assms(1) hs(3)] merkle_root_length [OF assms(1) hs(3) ne] hs(1) ne
    by (simp add: BlockMerkleRoot_def)
qed

section \<open>The genesis block\<close>

lemma add_genesis:
  assumes "block_getHash sha256 blk = Inr h" "h \<noteq> h_hashPrevBlock (b_header blk)"
  shows "\<exists>b. addToBlockIndex sha256 blk new_ChainManager = Inr (0, new_ChainManager\<lparr>cm_heap := [0 \<mapsto> b],
      cm_next := 1, cm_map := [(h, 0)]\<rparr>) \<and>
    bi_pPrev b = None \<and> bi_height b = 0 \<and> bi_pSkip b = None \<and> bi_phashBlock b = Some h \<and> bi_status b = 0 \<and>
    wf256 (bi_chainWork b) \<and> bi_bits b = h_bits (b_header blk) \<and>
    val (bi_chainWork b) \<le> 2 ^ 256 div (target_of (h_bits (b_header blk)) + 1)"
proof -
  let ?b = "(new_BlockIndex blk)\<lparr>bi_sequenceID := 0, bi_phashBlock := Some h\<rparr>"
  have bits: "bi_bits ?b = h_bits (b_header blk)" by (simp add: new_BlockIndex_def Let_def)
  obtain w where w: "caculateChainWork ?b = Inr w" "wf256 w"
    "val w \<le> 2 ^ 256 div (target_of (h_bits (b_header blk)) + 1)"
    using caculateChainWork_eq [of ?b] unfolding bits by (auto split: if_splits)
  have zero: "wf256 (base_uint_of_u64 0)" by simp
  have sum: "wf256 (op_plus (base_uint_of_u64 0) w)" "val (op_plus (base_uint_of_u64 0) w) = val w"
    using op_add_assign_correct [OF zero w(2)] val_less_256 [OF w(2)] by (simp_all add: op_plus_def)
  have "bi_pPrev ?b = None" by (simp add: new_BlockIndex_def Let_def)
  then have "addToBlockIndex sha256 blk new_ChainManager = Inr (0, new_ChainManager\<lparr>
      cm_heap := [0 \<mapsto> ?b\<lparr>bi_chainWork := op_plus (base_uint_of_u64 0) w\<rparr>], cm_next := 1, cm_map := [(h, 0)]\<rparr>)"
    using assms w(1) by (simp add: addToBlockIndex_def new_ChainManager_def deref_def Let_def)
  then show ?thesis
    using sum w(3) bits by (intro exI [of _ "?b\<lparr>bi_chainWork := op_plus (base_uint_of_u64 0) w\<rparr>"])
      (simp add: new_BlockIndex_def Let_def VALID_UNKNOWN_def)
qed

lemma accept_genesis:
  assumes "block_getHash sha256 blk = Inr h" "h \<noteq> h_hashPrevBlock (b_header blk)"
    "b_transactions blk \<noteq> []" "length (b_transactions blk) < 2 ^ 32" "length h = UINT256_WIDTH"
  shows "\<exists>cm b. acceptBlock None sha256 now blk new_ChainManager = Inr (Some 0, cm) \<and> manager_ok cm \<and>
    cm_active cm = [Some 0] \<and> findBlockIndex cm h = Some 0 \<and> cm_heap cm = [0 \<mapsto> b] \<and> cm_sequence cm = 2 \<and>
    bi_height b = 0 \<and> bi_bits b = h_bits (b_header blk) \<and>
    bi_numChainTransactions b = of_nat (length (b_transactions blk)) \<and>
    val (bi_chainWork b) \<le> 2 ^ 256 div (target_of (h_bits (b_header blk)) + 1)"
proof -
  obtain b where b: "addToBlockIndex sha256 blk new_ChainManager = Inr (0, new_ChainManager\<lparr>cm_heap := [0 \<mapsto> b],
      cm_next := 1, cm_map := [(h, 0)]\<rparr>)" "bi_pPrev b = None" "bi_height b = 0" "bi_pSkip b = None"
    "bi_phashBlock b = Some h" "bi_status b = 0" "wf256 (bi_chainWork b)"
    "bi_bits b = h_bits (b_header blk)" "val (bi_chainWork b) \<le> 2 ^ 256 div (target_of (h_bits (b_header blk)) + 1)"
    using add_genesis [OF assms(1,2)] by blast
  let ?n = "of_nat (length (b_transactions blk)) :: uint32"
  let ?b = "b\<lparr>bi_numBlockTransactions := ?n, bi_status := HAVE_DATA, bi_numChainTransactions := ?n, bi_sequenceID := 1\<rparr>"
  let ?cm = "new_ChainManager\<lparr>cm_heap := [0 \<mapsto> ?b], cm_next := 1, cm_map := [(h, 0)], cm_sequence := 2,
      cm_candidates := [0]\<rparr>"
  have n: "?n \<noteq> 0" using nonzero_sum [of 0 "length (b_transactions blk)"] assms(3,4) by simp
  have rec: "receiveBlock blk 0 (new_ChainManager\<lparr>cm_heap := [0 \<mapsto> b], cm_next := 1, cm_map := [(h, 0)]\<rparr>) = Inr (True, ?cm)"
    using b(2,6) by (simp add: receiveBlock_def deref_def Let_def new_ChainManager_def tip_def add_candidate_def)
  have heap: "cm_heap ?cm = [0 \<mapsto> ?b]" by simp
  have "tree_ok [0 \<mapsto> ?b]" using b by (simp add: tree_ok_def node_ok_def)
  then have wt: "work_tree [0 \<mapsto> ?b]" using b by (simp add: work_tree_def)
  have lt: "linked_tree [0 \<mapsto> ?b]" using b by (simp add: linked_tree_def)
  have lk: "linked [0 \<mapsto> ?b] a \<longleftrightarrow> a = 0" for a using n by (simp add: linked_def)
  have wok: "work_ok [0 \<mapsto> ?b] 0" using b(7) by (simp add: work_ok_def)
  have inv: "tree_inv ?cm"
    unfolding tree_inv_def using wt lt b assms(5) by (simp add: is_root_def hashed_def new_ChainManager_def)
  have "activating 0 ?cm"
    using wt lt lk wok by (simp add: activating_def chain_ok_def work.ordered_def new_ChainManager_def)
  moreover have "pruned ?cm" "better (cm_heap ?cm) (tip (cm_active ?cm)) 0"
    by (simp_all add: pruned_def better_def tip_def new_ChainManager_def)
  ultimately obtain r cm where r: "activate_loop (activate_fuel ?cm) ?cm = Inr (r, cm)" "r \<noteq> Some False"
    "same_tree ?cm cm" "cm_active cm = chain_of [0 \<mapsto> ?b] 0" "cm_candidates cm = [0]"
    using activate_loop_ok [of 0 ?cm] by (auto simp del: activate_loop.simps)
  have act: "cm_active cm = [Some 0]" using r(4) b by (simp add: chain_of_def)
  have "cm_sequence cm = cm_sequence ?cm" using r(3) unfolding same_tree_def by (elim exE conjE) simp
  then have heap': "cm_heap cm = [0 \<mapsto> ?b]" "cm_map cm = [(h, 0)]" "cm_sequence cm = 2"
    using same_tree_heap [OF r(3)] same_tree_map [OF r(3)] by simp_all
  note inv' = tree_inv_same_tree [OF inv r(3)]
  have ok: "manager_ok cm" unfolding manager_ok_def using inv' lk act r(4,5) heap' by simp
  have "activateBestChain None ?cm = Inr (True, cm)"
    using r(1,2) checkAllBlockIndexs_ok [OF inv'] act
    by (cases r) (auto simp: activateBestChain_def simp del: activate_loop.simps)
  moreover have "checkAllBlockIndexs None ?cm = Inr True"
    using b by (simp add: checkAllBlockIndexs_def chain_height_def new_ChainManager_def deref_def isGenesisHash_def)
  moreover have "findBlockIndex new_ChainManager h = None" by (simp add: findBlockIndex_def new_ChainManager_def)
  ultimately have "acceptBlock None sha256 now blk new_ChainManager = Inr (Some 0, cm)"
    using assms(1) b(1) rec
    by (simp add: acceptBlock_def Let_def isGenesisHash_def validBlockHeader_def del: One_nat_def)
  then show ?thesis
    using ok act heap' b(3,8,9) by (intro exI [of _ cm] exI [of _ ?b]) (simp add: findBlockIndex_def)
qed

lemma le_val_eq_0: "le_val bs = 0 \<Longrightarrow> bs = replicate (length bs) 0"
  by (induction bs) (auto simp: unat_eq_zero)

lemma genesis_block_ok:
  assumes "digest_ok 32 sha256" "wf256 (ca_b_difficulty_1_target args)"
    "\<forall>tx \<in> set pool. tx_fits tx" "length pool < 2 ^ 31"
  shows "\<exists>blk. genesis_block args sha256 now pool = Inr blk \<and> header_ok (b_header blk) \<and>
    h_hashPrevBlock (b_header blk) = replicate 32 0 \<and> b_transactions blk \<noteq> [] \<and>
    length (b_transactions blk) = Suc (length pool) \<and>
    getCompact False (ca_b_difficulty_1_target args) = Inr (h_bits (b_header blk))"
proof -
  obtain nBits where n: "getCompact False (ca_b_difficulty_1_target args) = Inr nBits"
    using getCompact_correct [OF assms(2)] by blast
  let ?header = "new_BlockHeader\<lparr>h_timeval := of_int now, h_proof := 0, h_hashPrevBlock := uint256S ''0'', h_bits := nBits\<rparr>"
  let ?base = "\<lparr>tx_sender = ''0'', tx_recipient = ''0'', tx_value = 0, tx_magic = 0\<rparr>"
  let ?block = "addTransactions pool \<lparr>b_transactions = [?base], b_header = ?header\<rparr>"
  have txs: "b_transactions ?block = ?base # pool" by (simp add: addTransactions_def)
  have "tx_fits ?base" by (simp add: tx_fits_def MAX_SIZE_def)
  then obtain root mutated where root: "BlockMerkleRoot sha256 ?block = Inr (root, mutated)" "length root = 32"
    using BlockMerkleRoot_total [OF assms(1), of ?block] assms(3,4) txs by auto
  have zero: "uint256S ''0'' = replicate 32 0"
  proof -
    have "hex_val (hex_digits ''0'') = 0"
      by (simp add: hex_digits_def skip_0x_def isspace_def hexDigit_chars hex_val_def)
    then have "le_val (uint256S ''0'') = 0" "length (uint256S ''0'') = 32"
      using setHex_correct [of UINT256_WIDTH "''0''"] by (simp_all add: uint256S_def UINT256_WIDTH_def)
    then show ?thesis using le_val_eq_0 by metis
  qed
  have "genesis_block args sha256 now pool = Inr (?block\<lparr>b_header := ?header\<lparr>h_hashMerkleRoot := root\<rparr>\<rparr>)"
    using n root(1) by (simp add: genesis_block_def Let_def)
  then show ?thesis
    using root(2) zero txs n by (auto simp: header_ok_def UINT256_WIDTH_def)
qed

text \<open>
  The genesis block names the null hash as its predecessor. If the digest of its own header were the null
  hash, the index would become its own predecessor; that this one hash is not null is the condition of
  the constructor on the digest and the time.
\<close>

definition genesis_nonnull :: "digest \<Rightarrow> int \<Rightarrow> bool" where
  "genesis_nonnull sha256 now \<longleftrightarrow>
     (\<forall>blk. genesis_block (create NORMAL) sha256 now [] = Inr blk \<longrightarrow> block_getHash sha256 blk \<noteq> Inr (replicate 32 0))"

text \<open>The state of a node: the invariant holds, and the genesis block of the consensus arguments is in the tree.\<close>

definition bc_ok :: "Blockchain \<Rightarrow> bool" where
  "bc_ok bc \<longleftrightarrow> manager_ok (bc_manager bc) \<and> (\<exists>g. bc_args bc = Some ((create NORMAL)\<lparr>ca_hashBlockGenesis := g\<rparr>) \<and>
     length g = UINT256_WIDTH \<and> findBlockIndex (bc_manager bc) g \<noteq> None)"

text \<open>The state after the construction.\<close>

definition fresh_node :: "digest \<Rightarrow> int \<Rightarrow> Blockchain \<Rightarrow> base_blob \<Rightarrow> BlockIndex \<Rightarrow> bool" where
  "fresh_node sha256 now bc h b \<longleftrightarrow> bc_ok bc \<and> cm_active (bc_manager bc) = [Some 0] \<and>
     bc_args bc = Some ((create NORMAL)\<lparr>ca_hashBlockGenesis := h\<rparr>) \<and> findBlockIndex (bc_manager bc) h = Some 0 \<and>
     (\<exists>blk. genesis_block (create NORMAL) sha256 now [] = Inr blk \<and> block_getHash sha256 blk = Inr h) \<and>
     bc_transactions bc = [] \<and> bc_userHash bc = [] \<and> cm_heap (bc_manager bc) = [0 \<mapsto> b] \<and> cm_sequence (bc_manager bc) = 2 \<and>
     bi_height b = 0 \<and> bi_numChainTransactions b = 1 \<and>
     getCompact False (ca_b_difficulty_1_target (create NORMAL)) = Inr (bi_bits b) \<and>
     val (bi_chainWork b) \<le> 2 ^ 256 div (target_of (bi_bits b) + 1)"

lemma new_Blockchain_ok:
  assumes "digest_ok 32 sha256" "genesis_nonnull sha256 now"
  shows "\<exists>bc h b. new_Blockchain sha256 now = Inr bc \<and> fresh_node sha256 now bc h b"
proof -
  let ?bc = "\<lparr>bc_manager = new_ChainManager, bc_args = None, bc_transactions = [],
     bc_nextTransaction = 0, bc_userHash = [], bc_userGas = 0\<rparr>"
  obtain blk where blk: "genesis_block (create NORMAL) sha256 now [] = Inr blk" "header_ok (b_header blk)"
    "h_hashPrevBlock (b_header blk) = replicate 32 0" "b_transactions blk \<noteq> []"
    "length (b_transactions blk) = Suc (length ([] :: Transaction list))"
    "getCompact False (ca_b_difficulty_1_target (create NORMAL)) = Inr (h_bits (b_header blk))"
    using genesis_block_ok [OF assms(1) create_args(4), of "[]" NORMAL now] by auto
  let ?h = "sha256 (sha256 (header_bytes (b_header blk)))"
  have h: "block_getHash sha256 blk = Inr ?h" using header_getHash_eq [OF blk(2)] by (simp add: block_getHash_def)
  have len: "length ?h = UINT256_WIDTH" using assms(1) by (simp add: digest_ok_def UINT256_WIDTH_def)
  have "?h \<noteq> h_hashPrevBlock (b_header blk)" using assms(2) blk(1,3) h by (auto simp: genesis_nonnull_def)
  then obtain cm b where cm: "acceptBlock None sha256 now blk new_ChainManager = Inr (Some 0, cm)" "manager_ok cm"
    "cm_active cm = [Some 0]" "findBlockIndex cm ?h = Some 0" "cm_heap cm = [0 \<mapsto> b]" "cm_sequence cm = 2" "bi_height b = 0"
    "bi_bits b = h_bits (b_header blk)" "bi_numChainTransactions b = 1"
    "val (bi_chainWork b) \<le> 2 ^ 256 div (target_of (h_bits (b_header blk)) + 1)"
    using accept_genesis [OF h _ blk(4) _ len, of now] blk(5) by auto
  have "processNewBlock sha256 now [0] blk (?bc\<lparr>bc_nextTransaction := 1\<rparr>)
      = Inr (Some 0, ?bc\<lparr>bc_nextTransaction := 1, bc_manager := cm\<rparr>)"
    using cm(1) by (simp add: processNewBlock_def erase_packed_def Let_def)
  then have "createGenesisBlock (create NORMAL) sha256 now ?bc
      = Inr ((create NORMAL)\<lparr>ca_hashBlockGenesis := ?h\<rparr>, ?bc\<lparr>bc_nextTransaction := 1, bc_manager := cm\<rparr>)"
    using blk(1) h by (simp add: createGenesisBlock_def Let_def new_ChainManager_def chain_height_def)
  then have "new_Blockchain sha256 now = Inr (?bc\<lparr>bc_nextTransaction := 1, bc_manager := cm,
      bc_args := Some ((create NORMAL)\<lparr>ca_hashBlockGenesis := ?h\<rparr>)\<rparr>)"
    by (simp add: new_Blockchain_def Let_def)
  moreover have "fresh_node sha256 now (?bc\<lparr>bc_nextTransaction := 1, bc_manager := cm,
      bc_args := Some ((create NORMAL)\<lparr>ca_hashBlockGenesis := ?h\<rparr>)\<rparr>) ?h b"
    using cm blk(1,6) h len by (auto simp: fresh_node_def bc_ok_def)
  ultimately show ?thesis by blast
qed

section \<open>The search\<close>

lemma liftE_eq_Inr: "liftE e m = Inr y \<longleftrightarrow> m = Inr y"
  by (cases m) simp_all

lemma createNewBlock_eq:
  assumes "createNewBlock args sha256 hp c m now nBits p e pTip = Inr blk"
    "pTip = Some t" "hp t = Some tb" "bi_phashBlock tb = Some g"
  obtains header base root mutated where
    "blk = \<lparr>b_transactions = base # mi_transactions m, b_header = header\<lparr>h_hashMerkleRoot := root\<rparr>\<rparr>"
    "BlockMerkleRoot sha256 \<lparr>b_transactions = base # mi_transactions m, b_header = header\<rparr> = Inr (root, mutated)"
    "h_hashPrevBlock header = g" "tx_sender base = ''0''" "tx_recipient base = mi_userHash m"
    "(if nBits = 0 then getNextWorkTarget args hp c pTip else Inr nBits) = Inr (h_bits header)"
proof -
  have d: "deref hp pTip = Inr tb" using assms(2,3) by (simp add: deref_def)
  from assms(1) obtain nb sub where nb: "(if nBits = 0 then getNextWorkTarget args hp c pTip else Inr nBits) = Inr nb"
    and "(let header = new_BlockHeader\<lparr>h_timeval := of_int now, h_proof := p, h_hashPrevBlock := g, h_bits := nb\<rparr>;
          base = \<lparr>tx_sender = ''0'', tx_recipient = mi_userHash m, tx_value = sub - mi_userGas m, tx_magic = e\<rparr>;
          block = addTransactions (mi_transactions m) \<lparr>b_transactions = [base], b_header = header\<rparr>
      in bindE (liftE ChainMerkle (BlockMerkleRoot sha256 block)) (\<lambda>(root, mutated).
         Inr (block\<lparr>b_header := header\<lparr>h_hashMerkleRoot := root\<rparr>\<rparr>))) = Inr blk"
    unfolding createNewBlock_def d bindE_simps assms(4) option.case bindE_eq_Inr [where y = blk] by blast
  then obtain r where r: "BlockMerkleRoot sha256 \<lparr>b_transactions = \<lparr>tx_sender = ''0'', tx_recipient = mi_userHash m,
        tx_value = sub - mi_userGas m, tx_magic = e\<rparr> # mi_transactions m,
      b_header = new_BlockHeader\<lparr>h_timeval := of_int now, h_proof := p, h_hashPrevBlock := g, h_bits := nb\<rparr>\<rparr> = Inr r"
    "blk = \<lparr>b_transactions = \<lparr>tx_sender = ''0'', tx_recipient = mi_userHash m,
        tx_value = sub - mi_userGas m, tx_magic = e\<rparr> # mi_transactions m,
      b_header = (new_BlockHeader\<lparr>h_timeval := of_int now, h_proof := p, h_hashPrevBlock := g, h_bits := nb\<rparr>)
        \<lparr>h_hashMerkleRoot := fst r\<rparr>\<rparr>"
    by (auto simp: Let_def addTransactions_def bindE_eq_Inr liftE_eq_Inr)
  show thesis
    by (rule that [where mutated = "snd r", OF r(2)]) (use r(1) nb in simp_all)
qed

lemma createNewBlock_fields:
  assumes "createNewBlock args sha256 hp c m now nBits p e pTip = Inr blk"
    "pTip = Some t" "hp t = Some tb" "bi_phashBlock tb = Some g"
  shows "h_hashPrevBlock (b_header blk) = g \<and>
    (\<exists>root mutated. BlockMerkleRoot sha256 blk = Inr (root, mutated) \<and> h_hashMerkleRoot (b_header blk) = root) \<and>
    (\<exists>base. b_transactions blk = base # mi_transactions m) \<and>
    (if nBits = 0 then getNextWorkTarget args hp c pTip else Inr nBits) = Inr (h_bits (b_header blk))"
proof -
  obtain header base root mutated where
    "blk = \<lparr>b_transactions = base # mi_transactions m, b_header = header\<lparr>h_hashMerkleRoot := root\<rparr>\<rparr>"
    "BlockMerkleRoot sha256 \<lparr>b_transactions = base # mi_transactions m, b_header = header\<rparr> = Inr (root, mutated)"
    "h_hashPrevBlock header = g" "(if nBits = 0 then getNextWorkTarget args hp c pTip else Inr nBits) = Inr (h_bits header)"
    by (rule createNewBlock_eq [OF assms])
  then show ?thesis by (simp add: BlockMerkleRoot_def)
qed

lemma createNewBlock_header_ok:
  assumes "createNewBlock args sha256 hp c m now nBits p e pTip = Inr blk"
    "pTip = Some t" "hp t = Some tb" "bi_phashBlock tb = Some g" "length g = 32"
    "digest_ok 32 sha256" "\<forall>tx \<in> set (b_transactions blk). tx_fits tx" "length (mi_transactions m) < 2 ^ 31"
  shows "header_ok (b_header blk)"
proof -
  obtain root mutated base where f: "h_hashPrevBlock (b_header blk) = g"
    "BlockMerkleRoot sha256 blk = Inr (root, mutated)" "h_hashMerkleRoot (b_header blk) = root"
    "b_transactions blk = base # mi_transactions m"
    using createNewBlock_fields [OF assms(1-4)] by blast
  have "\<exists>root mutated. BlockMerkleRoot sha256 blk = Inr (root, mutated) \<and> length root = 32"
    by (rule BlockMerkleRoot_total [OF assms(6,7)]) (use f(4) assms(8) in auto)
  then have "length root = 32" using f(2) by auto
  then show ?thesis using f assms(5) by (simp add: header_ok_def UINT256_WIDTH_def)
qed

lemma createNewBlock_fits:
  assumes "createNewBlock args sha256 hp c m now nBits p e pTip = Inr blk"
    "pTip = Some t" "hp t = Some tb" "bi_phashBlock tb = Some g"
    "tx_fits \<lparr>tx_sender = ''0'', tx_recipient = mi_userHash m, tx_value = 0, tx_magic = 0\<rparr>"
    "\<forall>tx \<in> set (mi_transactions m). tx_fits tx"
  shows "\<forall>tx \<in> set (b_transactions blk). tx_fits tx"
proof -
  obtain header base root where
    "blk = \<lparr>b_transactions = base # mi_transactions m, b_header = header\<lparr>h_hashMerkleRoot := root\<rparr>\<rparr>"
    "tx_sender base = ''0''" "tx_recipient base = mi_userHash m"
    by (rule createNewBlock_eq [OF assms(1-4)])
  then show ?thesis using assms(5,6) by (simp add: tx_fits_def)
qed

lemma build_loop_found:
  assumes "digest_ok 32 sha256" "tip c = Some t" "hp t = Some tb" "bi_phashBlock tb = Some g" "length g = 32"
    "length (mi_transactions m) < 2 ^ 31" "tx_fits \<lparr>tx_sender = ''0'', tx_recipient = mi_userHash m, tx_value = 0, tx_magic = 0\<rparr>"
    "\<forall>tx \<in> set (mi_transactions m). tx_fits tx"
  shows "build_loop fuel args sha256 clock height hp c m e tries = Inr (Some blk, n) \<Longrightarrow> tries < maxTries \<Longrightarrow>
    consensus_validBlock args sha256 blk = Inr True \<and> h_hashPrevBlock (b_header blk) = g \<and>
    (\<exists>mutated. BlockMerkleRoot sha256 blk = Inr (h_hashMerkleRoot (b_header blk), mutated)) \<and>
    (\<exists>base. b_transactions blk = base # mi_transactions m) \<and> header_ok (b_header blk) \<and>
    getNextWorkTarget args hp c (tip c) = Inr (h_bits (b_header blk))"
proof (induction fuel arbitrary: e tries)
  case (Suc fuel)
  let ?rest = "\<lambda>b (tries, header). if tries = maxTries then Inr (None, tries)
      else if h_proof header \<ge> innerLoopCount then build_loop fuel args sha256 clock height hp c m (e + 1) tries
      else Inr (Some (b\<lparr>b_header := header\<rparr>), tries)"
  have "chain_height c = height e" using Suc.prems(1) by (simp split: if_splits)
  with Suc.prems(1) obtain b where b: "createNewBlock args sha256 hp c m (clock e) 0 0 (of_nat (e + 1)) (tip c) = Inr b"
    and "(case op_divide (ca_b_difficulty_1_target args) (fst (setCompact (h_bits (b_header b)))) of
        Inl e \<Rightarrow> Inl (ChainArith e) | Inr _ \<Rightarrow> bindE (proof_search args sha256 tries (b_header b)) (?rest b))
      = Inr (Some blk, n)"
    by (simp only: build_loop.simps not_True_eq_False if_False simp_thms bindE_eq_Inr) blast
  then obtain tries' hd' where s: "proof_search args sha256 tries (b_header b) = Inr (tries', hd')"
    and "?rest b (tries', hd') = Inr (Some blk, n)"
    by (simp only: bindE_eq_Inr split: sum.splits) auto
  then have tm: "tries' \<noteq> maxTries" and r: "(if h_proof hd' \<ge> innerLoopCount
      then build_loop fuel args sha256 clock height hp c m (e + 1) tries'
      else Inr (Some (b\<lparr>b_header := hd'\<rparr>), tries')) = Inr (Some blk, n)"
    by (simp_all split: if_splits)
  note f = createNewBlock_fields [OF b assms(2-4)]
  have fits: "\<forall>tx \<in> set (b_transactions b). tx_fits tx"
    by (rule createNewBlock_fits [OF b assms(2-4,7,8)])
  have ok: "header_ok (b_header b)" by (rule createNewBlock_header_ok [OF b assms(2-5,1) fits assms(6)])
  obtain p where p: "hd' = (b_header b)\<lparr>h_proof := p\<rparr>" "tries' \<le> maxTries"
    "p < innerLoopCount \<longrightarrow> (\<exists>hash. header_getHash sha256 hd' = Inr hash \<and> validProofOfWork args hash (h_bits (b_header b)))"
    using proof_search_ok [OF ok Suc.prems(2), of args sha256] s tm by auto
  show ?case
  proof (cases "h_proof hd' \<ge> innerLoopCount")
    case True
    then show ?thesis using Suc.IH [of "e + 1" tries'] r tm p(2) by simp
  next
    case False
    then have blk: "blk = b\<lparr>b_header := hd'\<rparr>" using r by simp
    have "p < innerLoopCount" using False p(1) by simp
    then have "consensus_validBlock args sha256 blk = Inr True"
      using p blk by (auto simp: consensus_validBlock_def block_getHash_def)
    moreover have "BlockMerkleRoot sha256 blk = BlockMerkleRoot sha256 b" by (simp add: blk BlockMerkleRoot_def)
    moreover have "header_ok (b_header blk)" using ok blk p(1) by (simp add: header_ok_def)
    ultimately show ?thesis using f blk p(1) by auto
  qed
qed simp

text \<open>
  The search ends: every round of the inner loop counts a try, so that the limit of tries bounds the
  rounds of both loops, and with a tree of indexes nothing on the way fails but the division by a target of zero.
\<close>

definition args_ok :: "ConsensusArgs \<Rightarrow> bool" where
  "args_ok args \<longleftrightarrow> 1 < ca_cycleBlockHeight args \<and> ca_cycleTimestamp args \<noteq> 0 \<and>
     1 < ca_subsidyHalvingInterval args \<and> wf256 (ca_p_difficulty_1_target args) \<and> wf256 (ca_b_difficulty_1_target args)"

lemma create_args_ok: "args_ok ((create t)\<lparr>ca_hashBlockGenesis := g\<rparr>)"
proof -
  have "1 < ca_cycleBlockHeight (create t)" "ca_cycleTimestamp (create t) \<noteq> 0" "1 < ca_subsidyHalvingInterval (create t)"
    by (cases t; simp add: create_def)+
  then show ?thesis by (simp add: args_ok_def create_args)
qed

lemma getNextWorkTarget_total:
  assumes "tree_ok hp" "hp t = Some tb" "bi_height tb + 1 < 2 ^ 32" "args_ok args"
  shows "\<exists>nBits. getNextWorkTarget args hp (chain_of hp t) (Some t) = Inr nBits"
  using getNextWorkTarget_eq [OF assms(1-3), of args] assms(4)
  by (auto simp: args_ok_def Let_def split: if_splits)

lemma createNewBlock_total:
  assumes "digest_ok 32 sha256" "args_ok args" "hp t = Some tb" "bi_phashBlock tb = Some g"
    "getNextWorkTarget args hp c (Some t) = Inr nBits" "length (mi_transactions m) < 2 ^ 31"
    "tx_fits \<lparr>tx_sender = ''0'', tx_recipient = mi_userHash m, tx_value = 0, tx_magic = 0\<rparr>"
    "\<forall>tx \<in> set (mi_transactions m). tx_fits tx"
  shows "\<exists>blk. createNewBlock args sha256 hp c m now 0 p e (Some t) = Inr blk \<and> h_bits (b_header blk) = nBits"
proof -
  obtain v where v: "calculateSubsidyValue args (of_int (bi_height tb + 1)) = Inr v"
    using calculateSubsidyValue_eq [of args] assms(2) by (auto simp: args_ok_def)
  let ?blk = "\<lparr>b_transactions = \<lparr>tx_sender = ''0'', tx_recipient = mi_userHash m, tx_value = v - mi_userGas m,
      tx_magic = e\<rparr> # mi_transactions m,
    b_header = new_BlockHeader\<lparr>h_timeval := of_int now, h_proof := p, h_hashPrevBlock := g, h_bits := nBits\<rparr>\<rparr>"
  obtain root mutated where "BlockMerkleRoot sha256 ?blk = Inr (root, mutated)"
    using BlockMerkleRoot_total [OF assms(1), of ?blk] assms(6-8) by (auto simp: tx_fits_def)
  then show ?thesis
    using v assms(3-5)
    by (simp add: createNewBlock_def deref_def Let_def addTransactions_def del: of_int_add)
qed

lemma build_loop_zero:
  assumes "digest_ok 32 sha256" "args_ok args" "tip c = Some t" "hp t = Some tb" "bi_phashBlock tb = Some g"
    "length (mi_transactions m) < 2 ^ 31" "tx_fits \<lparr>tx_sender = ''0'', tx_recipient = mi_userHash m, tx_value = 0, tx_magic = 0\<rparr>"
    "\<forall>tx \<in> set (mi_transactions m). tx_fits tx" "getNextWorkTarget args hp c (Some t) = Inr nBits"
  shows "chain_height c \<noteq> height e \<Longrightarrow> build_loop (Suc fuel) args sha256 clock height hp c m e tries = Inr (None, tries)"
    "chain_height c = height e \<Longrightarrow> target_of nBits = 0 \<Longrightarrow>
      build_loop (Suc fuel) args sha256 clock height hp c m e tries = Inl (ChainArith DivisionByZero)"
proof -
  obtain b where b: "createNewBlock args sha256 hp c m (clock e) 0 0 (of_nat (e + 1)) (Some t) = Inr b"
    "h_bits (b_header b) = nBits"
    using createNewBlock_total [OF assms(1,2,4,5,9,6-8)] by blast
  show "chain_height c \<noteq> height e \<Longrightarrow> build_loop (Suc fuel) args sha256 clock height hp c m e tries = Inr (None, tries)"
    by simp
  assume h: "chain_height c = height e" "target_of nBits = 0"
  have "op_divide (ca_b_difficulty_1_target args) (fst (setCompact nBits)) = Inl DivisionByZero"
    using op_div_assign_correct [OF _ wf256_setCompact, of "ca_b_difficulty_1_target args" nBits] assms(2) h(2)
    by (simp add: op_divide_def args_ok_def target_of_def)
  then show "build_loop (Suc fuel) args sha256 clock height hp c m e tries = Inl (ChainArith DivisionByZero)"
    using b h(1) assms(3) by simp
qed

lemma build_loop_ends:
  assumes "digest_ok 32 sha256" "args_ok args" "tip c = Some t" "hp t = Some tb" "bi_phashBlock tb = Some g" "length g = 32"
    "length (mi_transactions m) < 2 ^ 31" "tx_fits \<lparr>tx_sender = ''0'', tx_recipient = mi_userHash m, tx_value = 0, tx_magic = 0\<rparr>"
    "\<forall>tx \<in> set (mi_transactions m). tx_fits tx"
    "getNextWorkTarget args hp c (Some t) = Inr nBits" "target_of nBits \<noteq> 0"
  shows "tries < maxTries \<Longrightarrow> maxTries - tries \<le> fuel \<Longrightarrow>
    \<exists>found n. build_loop fuel args sha256 clock height hp c m e tries = Inr (found, n) \<and> n \<le> maxTries"
proof (induction fuel arbitrary: e tries)
  case 0
  then show ?case by (simp only: le_zero_eq diff_is_0_eq not_le [symmetric])
next
  case (Suc fuel)
  obtain b where b: "createNewBlock args sha256 hp c m (clock e) 0 0 (of_nat (e + 1)) (Some t) = Inr b"
    "h_bits (b_header b) = nBits"
    using createNewBlock_total [OF assms(1,2,4,5,10,7-9)] by blast
  obtain q where q: "op_divide (ca_b_difficulty_1_target args) (fst (setCompact nBits)) = Inr q"
    using op_div_assign_correct [OF _ wf256_setCompact, of "ca_b_difficulty_1_target args" nBits] assms(2,11)
    by (auto simp: op_divide_def args_ok_def target_of_def)
  have ok: "header_ok (b_header b)"
    by (rule createNewBlock_header_ok [OF b(1) refl assms(4-6,1) createNewBlock_fits [OF b(1) refl assms(4,5,8,9)] assms(7)])
  obtain tries' p where p: "proof_search args sha256 tries (b_header b) = Inr (tries', (b_header b)\<lparr>h_proof := p\<rparr>)"
    "tries < tries'" "tries' \<le> maxTries"
    using proof_search_ok [OF ok Suc.prems(1), of args sha256] by blast
  note step = build_loop.simps(2) [of fuel args sha256 clock height hp c m e tries] b q p(1) assms(3)
  show ?case
  proof (cases "chain_height c \<noteq> height e \<or> tries' = maxTries \<or> p < innerLoopCount")
    case True
    then show ?thesis using step p(3) Suc.prems(1) by auto
  next
    case False
    then have "build_loop (Suc fuel) args sha256 clock height hp c m e tries =
        build_loop fuel args sha256 clock height hp c m (e + 1) tries'"
      using step by (simp add: not_less)
    moreover have "tries' < maxTries" "maxTries - tries' \<le> fuel" using False p(2,3) Suc.prems by linarith+
    ultimately show ?thesis using Suc.IH [of tries' "e + 1"] by simp
  qed
qed

section \<open>Reachable states\<close>

text \<open>
  The condition for mining in the model: the pool and the user hash can be hashed, the 32-bit counters
  have room for a block with the pool, and the work for a block with the next target.
\<close>

definition mining_room :: "Blockchain \<Rightarrow> bool" where
  "mining_room bc \<longleftrightarrow>
     (let cm = bc_manager bc; txs = map snd (bc_transactions bc)
      in length txs < 2 ^ 31 \<and> tx_fits \<lparr>tx_sender = ''0'', tx_recipient = bc_userHash bc, tx_value = 0, tx_magic = 0\<rparr> \<and>
         (\<forall>tx \<in> set txs. tx_fits tx) \<and> count_room cm (Suc (length txs)) \<and>
         (\<exists>args nBits. bc_args bc = Some args \<and>
            getNextWorkTarget args (cm_heap cm) (cm_active cm) (tip (cm_active cm)) = Inr nBits \<and> work_room cm nBits))"

text \<open>
  The states of a node that is constructed at the time \<open>t0\<close>: after construction, after a new transaction,
  after a block of the network, which is any acceptable block, and after a round of mining, in which the
  search and the acceptance of what it finds are one step. A block that was mined on an older state is
  one of the acceptable blocks.
\<close>

inductive node_reachable :: "digest \<Rightarrow> int \<Rightarrow> Blockchain \<Rightarrow> bool" for sha256 t0 where
  start: "new_Blockchain sha256 t0 = Inr bc \<Longrightarrow> node_reachable sha256 t0 bc"
| transaction: "node_reachable sha256 t0 bc \<Longrightarrow>
    node_reachable sha256 t0 (snd (createNewTransaction sender recipient value bc))"
| block: "node_reachable sha256 t0 bc \<Longrightarrow> bc_args bc = Some args \<Longrightarrow>
    acceptable args sha256 blk h (bc_manager bc) \<Longrightarrow>
    processNewBlock sha256 now ptrs blk bc = Inr (p, bc') \<Longrightarrow> node_reachable sha256 t0 bc'"
| mined: "node_reachable sha256 t0 bc \<Longrightarrow> mining_room bc \<Longrightarrow>
    build sha256 clock height now bc = Inr (ok, bc') \<Longrightarrow> node_reachable sha256 t0 bc'"

inductive_cases node_reachable_block: "node_reachable sha256 t0 bc"

lemma processNewBlock_manager:
  assumes "processNewBlock sha256 now ptrs blk bc = Inr (p, bc')"
  obtains cm where "acceptBlock (bc_args bc) sha256 now blk (bc_manager bc) = Inr (p, cm)" "bc_manager bc' = cm"
    "bc_args bc' = bc_args bc"
proof -
  obtain q cm where a: "acceptBlock (bc_args bc) sha256 now blk (bc_manager bc) = Inr (q, cm)"
    using assms by (cases "acceptBlock (bc_args bc) sha256 now blk (bc_manager bc)") (auto simp: processNewBlock_def)
  then have "q = p \<and> bc_manager bc' = cm \<and> bc_args bc' = bc_args bc"
    using assms by (auto simp: processNewBlock_def Let_def bindE_eq_Inr split: if_splits)
  then show thesis using that a by simp
qed

lemma accept_keeps_node:
  assumes "bc_ok bc" "bc_args bc = Some args" "acceptable args sha256 blk h (bc_manager bc)"
  shows "\<exists>r cm. acceptBlock (bc_args bc) sha256 now blk (bc_manager bc) = Inr (r, cm) \<and>
    (\<forall>bc'. bc_manager bc' = cm \<and> bc_args bc' = bc_args bc \<longrightarrow> bc_ok bc')"
proof -
  have ok: "manager_ok (bc_manager bc)" using assms(1) by (simp add: bc_ok_def)
  obtain r cm where "acceptBlock (Some args) sha256 now blk (bc_manager bc) = Inr (r, cm)" "manager_ok cm"
    "\<forall>x a. findBlockIndex (bc_manager bc) x = Some a \<longrightarrow> findBlockIndex cm x = Some a"
    using acceptBlock_ok [OF ok assms(3), of now] by blast
  then show ?thesis using assms(1,2) by (auto simp: bc_ok_def)
qed

text \<open>A block of the node's own transactions leaves the pool without a position out of range.\<close>

lemma processNewBlock_own:
  assumes "acceptBlock (bc_args bc) sha256 now blk (bc_manager bc) = Inr (r, cm)"
  shows "\<exists>bc'. processNewBlock sha256 now (p # map fst (bc_transactions bc)) blk bc = Inr (r, bc') \<and>
    bc_manager bc' = cm \<and> bc_args bc' = bc_args bc"
proof -
  have "\<exists>pool. erase_packed (p # map fst (bc_transactions bc)) (bc_transactions bc) = Inr pool"
    by (cases "bc_transactions bc") (simp_all add: erase_packed_def Let_def)
  then show ?thesis using assms by (auto simp: processNewBlock_def Let_def)
qed

lemma bc_ok_tip:
  assumes "bc_ok bc" "bc_args bc = Some args"
  obtains t tb g where "args_ok args" "wf256 (ca_p_difficulty_1_target args)"
    "tip (cm_active (bc_manager bc)) = Some t" "cm_heap (bc_manager bc) t = Some tb" "bi_phashBlock tb = Some g" "length g = 32"
proof -
  have m: "manager_ok (bc_manager bc)" using assms by (simp add: bc_ok_def)
  obtain t where t: "tip (cm_active (bc_manager bc)) = Some t" "linked (cm_heap (bc_manager bc)) t"
    by (rule manager_ok_tip [OF m])
  obtain tb where tb: "cm_heap (bc_manager bc) t = Some tb" using t(2) by (auto simp: linked_def)
  have "hashed (cm_heap (bc_manager bc))" using m tree_invD(9) by (simp add: manager_ok_def)
  then obtain g where "bi_phashBlock tb = Some g" "length g = 32" using tb by (auto simp: hashed_def UINT256_WIDTH_def)
  moreover have "args_ok args" using assms create_args_ok [of _ NORMAL] by (auto simp: bc_ok_def)
  ultimately show thesis using that [OF _ _ t(1) tb] by (simp add: args_ok_def)
qed

lemma mined_acceptable:
  assumes "digest_ok 32 sha256" "bc_ok bc" "mining_room bc" "bc_args bc = Some args"
    "build_loop fuel args sha256 clock height (cm_heap (bc_manager bc)) (cm_active (bc_manager bc))
       \<lparr>mi_userHash = bc_userHash bc, mi_userGas = gas, mi_transactions = map snd (bc_transactions bc)\<rparr> 0 0 = Inr (Some blk, n)"
  shows "\<exists>h. acceptable args sha256 blk h (bc_manager bc)"
proof -
  let ?cm = "bc_manager bc"
  let ?m = "\<lparr>mi_userHash = bc_userHash bc, mi_userGas = gas, mi_transactions = map snd (bc_transactions bc)\<rparr>"
  obtain t tb g where t: "wf256 (ca_p_difficulty_1_target args)" "tip (cm_active ?cm) = Some t" "cm_heap ?cm t = Some tb"
    "bi_phashBlock tb = Some g" "length g = 32" by (rule bc_ok_tip [OF assms(2,4)])
  obtain nBits where room: "length (mi_transactions ?m) < 2 ^ 31"
    "tx_fits \<lparr>tx_sender = ''0'', tx_recipient = mi_userHash ?m, tx_value = 0, tx_magic = 0\<rparr>"
    "\<forall>tx \<in> set (mi_transactions ?m). tx_fits tx" "count_room ?cm (Suc (length (bc_transactions bc)))"
    "getNextWorkTarget args (cm_heap ?cm) (cm_active ?cm) (tip (cm_active ?cm)) = Inr nBits" "work_room ?cm nBits"
    using assms(3,4) by (auto simp: mining_room_def Let_def)
  have f: "\<exists>mutated. BlockMerkleRoot sha256 blk = Inr (h_hashMerkleRoot (b_header blk), mutated)"
    "\<exists>base. b_transactions blk = base # mi_transactions ?m" "header_ok (b_header blk)" "nBits = h_bits (b_header blk)"
    using build_loop_found [where hp = "cm_heap ?cm" and t = t, OF assms(1) t(2-5) room(1-3) assms(5)] room(5)
    by (auto simp: maxTries_def)
  let ?h = "sha256 (sha256 (header_bytes (b_header blk)))"
  have h: "block_getHash sha256 blk = Inr ?h" using header_getHash_eq [OF f(3)] by (simp add: block_getHash_def)
  have "findBlockIndex ?cm ?h \<noteq> None" if "isGenesisHash (Some args) ?h"
    using that assms(1,2,4) by (auto simp: bc_ok_def isGenesisHash_def blob_eq_def compare_eq_0_iff digest_ok_def UINT256_WIDTH_def)
  moreover have "max 1 (length (b_transactions blk)) = Suc (length (bc_transactions bc))" "b_transactions blk \<noteq> []" using f(2) by auto
  ultimately have "acceptable args sha256 blk ?h ?cm"
    using f(1,3,4) h t(1) room(4,6) assms(1) by (auto simp: acceptable_def UINT256_WIDTH_def)
  then show ?thesis by blast
qed

lemma work_room_target:
  assumes "work_room cm nBits" "cm_heap cm t = Some tb"
  shows "target_of nBits \<noteq> 0"
proof
  assume "target_of nBits = 0"
  moreover have "t \<in> dom (cm_heap cm)" using assms(2) by blast
  ultimately have "work_of (cm_heap cm) t + 2 ^ 256 < (2 ^ 256 :: nat)" using assms(1) unfolding work_room_def by fastforce
  then show False by simp
qed

lemma build_keeps_node:
  assumes "digest_ok 32 sha256" "bc_ok bc" "mining_room bc"
  shows "\<exists>ok bc'. build sha256 clock height now bc = Inr (ok, bc') \<and> bc_ok bc'"
proof -
  let ?cm = "bc_manager bc"
  let ?m = "\<lparr>mi_userHash = bc_userHash bc, mi_userGas = bc_userGas bc, mi_transactions = map snd (bc_transactions bc)\<rparr>"
  obtain args where args: "bc_args bc = Some args" using assms(2) by (auto simp: bc_ok_def)
  obtain t tb g where "args_ok args" "tip (cm_active ?cm) = Some t" "cm_heap ?cm t = Some tb" "bi_phashBlock tb = Some g" "length g = 32"
    by (rule bc_ok_tip [OF assms(2) args])
  note t = args this
  obtain nBits where room: "length (mi_transactions ?m) < 2 ^ 31"
    "tx_fits \<lparr>tx_sender = ''0'', tx_recipient = mi_userHash ?m, tx_value = 0, tx_magic = 0\<rparr>"
    "\<forall>tx \<in> set (mi_transactions ?m). tx_fits tx" "work_room ?cm nBits"
    "getNextWorkTarget args (cm_heap ?cm) (cm_active ?cm) (Some t) = Inr nBits"
    using assms(3) t(1,3) by (auto simp: mining_room_def Let_def)
  have tries: "0 < maxTries" by (simp add: maxTries_def)
  obtain found n where loop: "build_loop maxTries args sha256 clock height (cm_heap ?cm) (cm_active ?cm) ?m 0 0 = Inr (found, n)"
    using build_loop_ends [where hp = "cm_heap ?cm" and t = t, OF assms(1) t(2-6) room(1-3,5) work_room_target [OF room(4) t(4)] tries,
      of maxTries clock height 0] by auto
  show ?thesis
  proof (cases found)
    case None
    then show ?thesis using loop t(1) assms(2) by (intro exI [of _ False] exI [of _ bc]) (simp add: build_def Let_def)
  next
    case (Some blk)
    let ?bc = "bc\<lparr>bc_nextTransaction := bc_nextTransaction bc + 1\<rparr>"
    obtain h where "acceptable args sha256 blk h ?cm" using mined_acceptable [OF assms t(1)] loop Some by blast
    then obtain r cm where r: "acceptBlock (bc_args bc) sha256 now blk ?cm = Inr (r, cm)"
      "\<forall>bc'. bc_manager bc' = cm \<and> bc_args bc' = bc_args bc \<longrightarrow> bc_ok bc'"
      using accept_keeps_node [OF assms(2) t(1)] by blast
    then obtain bc' where "processNewBlock sha256 now (bc_nextTransaction bc # map fst (bc_transactions bc)) blk ?bc = Inr (r, bc')"
      "bc_manager bc' = cm" "bc_args bc' = bc_args bc"
      using processNewBlock_own [of ?bc sha256 now blk r cm "bc_nextTransaction bc"] by auto
    then show ?thesis using loop Some t(1) r(2) by (simp add: build_def Let_def)
  qed
qed

lemma node_reachable_ok:
  assumes "digest_ok 32 sha256" "genesis_nonnull sha256 t0"
  shows "node_reachable sha256 t0 bc \<Longrightarrow> bc_ok bc"
proof (induction rule: node_reachable.induct)
  case (start bc)
  then show ?case using new_Blockchain_ok [OF assms] by (auto simp: fresh_node_def)
next
  case (transaction bc)
  then show ?case by (simp add: createNewTransaction_def Let_def bc_ok_def)
next
  case (block bc args blk h now ptrs p bc')
  obtain cm where "acceptBlock (bc_args bc) sha256 now blk (bc_manager bc) = Inr (p, cm)" "bc_manager bc' = cm"
    "bc_args bc' = bc_args bc"
    by (rule processNewBlock_manager [OF block.hyps(4)])
  then show ?case using accept_keeps_node [OF block.IH block.hyps(2,3), of now] by auto
next
  case (mined bc clock height now ok bc')
  then show ?case using build_keeps_node [OF assms(1), of bc clock height now] by auto
qed

section \<open>Properties\<close>

text \<open>
  C3: in every state that a node reaches from its construction by new transactions, acceptable blocks of
  the network and rounds of mining, the invariant of the block tree manager holds and the genesis block
  of its consensus arguments is in the tree. In each of these states a round of mining returns and keeps
  the invariant, while there is room for it: fewer than $2^{31}$ transactions wait and each of them fits a
  buffer, the counters do not overflow, and neither does the work of the chain with that of the next
  target, which is therefore not zero. The digest is assumed to fill 32 bytes, and the hash of the genesis
  block of this node not to be the null hash, which the genesis block has as its predecessor.
\<close>

theorem node_invariant:
  assumes "digest_ok 32 sha256" "genesis_nonnull sha256 t0" "node_reachable sha256 t0 bc"
  shows "manager_ok (bc_manager bc) \<and>
    (\<exists>g. bc_args bc = Some ((create NORMAL)\<lparr>ca_hashBlockGenesis := g\<rparr>) \<and> findBlockIndex (bc_manager bc) g \<noteq> None) \<and>
    (mining_room bc \<longrightarrow> (\<exists>ok bc'. build sha256 clock height now bc = Inr (ok, bc') \<and> manager_ok (bc_manager bc')))"
proof -
  have "bc_ok bc" by (rule node_reachable_ok [OF assms])
  then show ?thesis using build_keeps_node [OF assms(1), of bc clock height now] by (auto simp: bc_ok_def)
qed

text \<open>For the witnesses: a constant digest with a small value, under which a fresh node can mine.\<close>

definition one_digest :: digest where
  "one_digest bs = 1 # replicate 31 0"

lemma one_digest_ok: "digest_ok 32 one_digest" "genesis_nonnull one_digest now"
  by (auto simp: digest_ok_def one_digest_def genesis_nonnull_def block_getHash_def header_getHash_def hash_stream_def
      bindE_eq_Inr numeral_eq_Suc)

lemma genesis_target:
  assumes "getCompact False (ca_b_difficulty_1_target (create NORMAL)) = Inr nBits"
  shows "2 ^ 239 \<le> target_of nBits"
proof -
  let ?a = "ca_b_difficulty_1_target (create NORMAL)"
  obtain x neg ovf where s: "setCompact nBits = (x, neg, ovf)" using prod_cases3 by blast
  have "val x = compact_trunc ?a" using setCompact_getCompact [OF create_args(4) assms s] by simp
  moreover have "(val ?a - compact_trunc ?a) * 2 ^ 15 \<le> val ?a" by (rule compact_close [OF create_args(4)])
  ultimately show ?thesis using s create_args(5) [of NORMAL] by (simp add: target_of_def)
qed

lemma fresh_node_room:
  assumes "fresh_node sha256 now bc h b"
  shows "mining_room bc"
proof -
  let ?cm = "bc_manager bc"
  note f = assms [unfolded fresh_node_def]
  have big: "2 ^ 239 \<le> target_of (bi_bits b)" using f genesis_target by blast
  have "2 ^ 256 div (target_of (bi_bits b) + 1) \<le> 2 ^ 256 div 2 ^ 239" using big by (intro div_le_mono2) simp_all
  then have w: "2 ^ 256 div (target_of (bi_bits b) + 1) \<le> (2 ^ 17 :: nat)" by simp
  have "val (bi_chainWork b) + 2 ^ 256 div (target_of (bi_bits b) + 1) \<le> 2 ^ 17 + 2 ^ 17" using w f by (intro add_mono) simp_all
  also have "\<dots> < (2 ^ 256 :: nat)" by simp
  finally have "work_room ?cm (bi_bits b)" using f by (simp add: work_room_def work_of_def)
  moreover have "getNextWorkTarget ((create NORMAL)\<lparr>ca_hashBlockGenesis := h\<rparr>) [0 \<mapsto> b] [Some 0] (Some 0) = Inr (bi_bits b)"
    using f by (simp add: getNextWorkTarget_def deref_def create_def)
  moreover have "tip [Some 0] = Some 0" by (simp add: tip_def)
  ultimately show ?thesis
    using f by (simp add: mining_room_def Let_def tx_fits_def MAX_SIZE_def count_room_def)
qed

theorem node_invariant_witness:
  "\<exists>bc ok bc'. node_reachable one_digest 0 bc \<and> build one_digest (\<lambda>_. 9) (\<lambda>_. 0) 9 bc = Inr (ok, bc') \<and>
     node_reachable one_digest 0 bc' \<and> manager_ok (bc_manager bc')"
proof -
  obtain bc h b where bc: "new_Blockchain one_digest 0 = Inr bc" "fresh_node one_digest 0 bc h b"
    using new_Blockchain_ok [OF one_digest_ok, of 0] by blast
  note room = fresh_node_room [OF bc(2)] and start = node_reachable.start [OF bc(1)]
  obtain ok bc' where b: "build one_digest (\<lambda>_. 9) (\<lambda>_. 0) 9 bc = Inr (ok, bc')"
    using node_invariant [OF one_digest_ok start, of "\<lambda>_. 9" "\<lambda>_. 0" 9] room by blast
  note r = node_reachable.mined [OF start room b]
  show ?thesis using start b r node_invariant [OF one_digest_ok r] by blast
qed

text \<open>
  C5: the constructor of a node accepts its own genesis block, provided that the hash of this block is not
  the null hash: it returns, the block is the active chain, it is found under its hash and that hash is
  the genesis hash of the consensus arguments.
\<close>

theorem genesis_accepted:
  assumes "digest_ok 32 sha256" "genesis_nonnull sha256 now"
  shows "\<exists>bc h. new_Blockchain sha256 now = Inr bc \<and> cm_active (bc_manager bc) = [Some 0] \<and>
    bc_args bc = Some ((create NORMAL)\<lparr>ca_hashBlockGenesis := h\<rparr>) \<and> findBlockIndex (bc_manager bc) h = Some 0 \<and>
    (\<exists>blk. genesis_block (create NORMAL) sha256 now [] = Inr blk \<and> block_getHash sha256 blk = Inr h)"
  using new_Blockchain_ok [OF assms] by (auto simp: fresh_node_def)

theorem genesis_accepted_witness:
  "\<exists>bc h. new_Blockchain one_digest 7 = Inr bc \<and> cm_active (bc_manager bc) = [Some 0] \<and> findBlockIndex (bc_manager bc) h = Some 0"
  using genesis_accepted [OF one_digest_ok, of 7] by blast

text \<open>
  C4: the search of \<open>build\<close> always ends within the code's limit of tries: it returns without a block when
  the height of the chain differs, it divides by zero when the target of the next block is zero, and
  otherwise it returns a block or none. A block that it returns has a valid proof of work for its hash,
  although the loop hashes a stream in which it overwrites the last four bytes and not the header; it
  extends the tip, and its Merkle root is the root of its transactions.
\<close>

theorem mined_block_valid:
  assumes "digest_ok 32 sha256" "args_ok args" "tree_ok hp" "hp t = Some tb" "bi_height tb + 1 < 2 ^ 32"
    "bi_phashBlock tb = Some g" "length g = 32" "length (mi_transactions m) < 2 ^ 31"
    "tx_fits \<lparr>tx_sender = ''0'', tx_recipient = mi_userHash m, tx_value = 0, tx_magic = 0\<rparr>"
    "\<forall>tx \<in> set (mi_transactions m). tx_fits tx"
  shows "\<exists>nBits. getNextWorkTarget args hp (chain_of hp t) (Some t) = Inr nBits \<and>
    (if chain_height (chain_of hp t) \<noteq> height 0
     then build_loop maxTries args sha256 clock height hp (chain_of hp t) m 0 0 = Inr (None, 0)
     else if target_of nBits = 0
     then build_loop maxTries args sha256 clock height hp (chain_of hp t) m 0 0 = Inl (ChainArith DivisionByZero)
     else \<exists>found n. build_loop maxTries args sha256 clock height hp (chain_of hp t) m 0 0 = Inr (found, n) \<and> n \<le> maxTries \<and>
       (\<forall>blk. found = Some blk \<longrightarrow> consensus_validBlock args sha256 blk = Inr True \<and> h_hashPrevBlock (b_header blk) = g \<and>
          (\<exists>mutated. BlockMerkleRoot sha256 blk = Inr (h_hashMerkleRoot (b_header blk), mutated))))"
    (is "\<exists>nBits. _ \<and> ?result nBits")
proof -
  let ?c = "chain_of hp t"
  obtain nBits where n: "getNextWorkTarget args hp ?c (Some t) = Inr nBits"
    using getNextWorkTarget_total [OF assms(3-5,2)] by blast
  have t: "tip ?c = Some t" by (rule tip_chain_of [of hp, OF assms(4)])
  note zero = build_loop_zero [where hp = hp and t = t, OF assms(1,2) t assms(4,6,8-10) n]
  note found = build_loop_found [where hp = hp and t = t, OF assms(1) t assms(4,6-10)]
  have tries: "0 < maxTries" by (simp add: maxTries_def)
  then obtain k where k: "maxTries = Suc k" by (cases maxTries) auto
  show ?thesis
  proof (intro exI [of _ nBits] conjI n, cases "chain_height ?c \<noteq> height 0 \<or> target_of nBits = 0")
    case True
    then show "?result nBits" using zero [of height 0 k clock 0, folded k] by auto
  next
    case False
    then obtain f r where r: "build_loop maxTries args sha256 clock height hp ?c m 0 0 = Inr (f, r)" "r \<le> maxTries"
      using build_loop_ends [where hp = hp and t = t, OF assms(1,2) t assms(4,6-10) n _ tries, of maxTries clock height 0] by auto
    then show "?result nBits" using False found [of maxTries args clock height 0 0 _ r] tries by auto
  qed
qed

text \<open>For the witness: the zero digest and the initial target, which the first try meets.\<close>

lemma zero_proof_valid: "validProofOfWork example_args (replicate 32 0) 0x1f00ffff"
proof -
  obtain x neg ovf where s: "setCompact 0x1f00ffff = (x, neg, ovf)" using prod_cases3 by blast
  have "\<not> neg \<and> \<not> ovf" using setCompact_correct [OF s] by (simp add: compact_mantissa_def compact_size_def)
  moreover have "le_val (replicate 32 0) = 0" by (simp add: numeral_eq_Suc)
  moreover have "wf256 (ca_p_difficulty_1_target example_args)"
    "val (ca_p_difficulty_1_target example_args) = 2 ^ 240 - 1"
    by (simp_all add: example_args_def create_args)
  ultimately show ?thesis
    using validProofOfWork_iff [of example_args "replicate 32 0" "0x1f00ffff"] s
    by (simp add: target_1f00ffff UINT256_WIDTH_def)
qed

lemma first_try_found:
  assumes "header_ok h" "h_proof h = 0" "h_bits h = 0x1f00ffff"
  shows "proof_search example_args zero_digest 0 h = Inr (1, h\<lparr>h_proof := 1\<rparr>)"
proof -
  obtain b where b: "header_serialize h new_buffer = Inr b" "search_stream h b"
    using search_stream_start [OF assms(1)] by blast
  obtain b' where "proof_step zero_digest 76 h b = Inr (h\<lparr>h_proof := 1\<rparr>, b', replicate 32 0)"
    using proof_step_eq [OF assms(1) b(2), of zero_digest] assms(2) by (auto simp: zero_digest_def)
  then have "proof_loop example_args zero_digest 76 0 h b = Inr (1, h\<lparr>h_proof := 1\<rparr>)"
    using zero_proof_valid assms(3) by (subst proof_loop.simps) simp
  moreover have "m_wpos b - 4 = 76" using b(2) by (simp add: search_stream_def)
  ultimately show ?thesis using b(1) by (simp add: proof_search_def)
qed

theorem mined_block_valid_witness:
  "\<exists>blk n. build_loop maxTries example_args zero_digest (\<lambda>_. 0) (\<lambda>_. 0) [0 \<mapsto> example_genesis\<lparr>bi_bits := 0x1f00ffff\<rparr>]
      [Some 0] \<lparr>mi_userHash = [], mi_userGas = 0, mi_transactions = []\<rparr> 0 0 = Inr (Some blk, n) \<and>
     consensus_validBlock example_args zero_digest blk = Inr True"
proof -
  let ?m = "\<lparr>mi_userHash = [], mi_userGas = 0, mi_transactions = []\<rparr>" and ?g = "example_genesis\<lparr>bi_bits := 0x1f00ffff\<rparr>"
  let ?hp = "[0 \<mapsto> ?g]"
  have d: "digest_ok 32 zero_digest" by (simp add: digest_ok_def zero_digest_def)
  have g: "bi_phashBlock ?g = Some (replicate 32 1)" "bi_height ?g = 0" by (simp_all add: example_genesis_fields)
  obtain v where v: "calculateSubsidyValue example_args 1 = Inr v"
    using calculateSubsidyValue_eq [of example_args 1] by (auto simp: example_args_def create_def)
  let ?base = "\<lparr>tx_sender = ''0'', tx_recipient = [], tx_value = v, tx_magic = 1\<rparr>"
  let ?header = "new_BlockHeader\<lparr>h_timeval := 0, h_proof := 0, h_hashPrevBlock := replicate 32 1, h_bits := 0x1f00ffff\<rparr>"
  have fits: "tx_fits ?base" by (simp add: tx_fits_def MAX_SIZE_def)
  obtain root mutated where root: "BlockMerkleRoot zero_digest \<lparr>b_transactions = [?base], b_header = ?header\<rparr> = Inr (root, mutated)"
    "length root = 32"
    using BlockMerkleRoot_total [OF d, of "\<lparr>b_transactions = [?base], b_header = ?header\<rparr>"] fits by auto
  let ?h = "?header\<lparr>h_hashMerkleRoot := root\<rparr>"
  have new: "createNewBlock example_args zero_digest ?hp [Some 0] ?m 0 0 0 1 (Some 0) =
      Inr \<lparr>b_transactions = [?base], b_header = ?h\<rparr>"
    using v root(1) g
    by (simp add: createNewBlock_def deref_def getNextWorkTarget_def Let_def addTransactions_def example_args_def create_def)
  have ok: "header_ok ?h" using root(2) by (simp add: header_ok_def UINT256_WIDTH_def)
  have search: "proof_search example_args zero_digest 0 ?h = Inr (1, ?h\<lparr>h_proof := 1\<rparr>)"
    by (rule first_try_found [OF ok]) simp_all
  have "val (fst (setCompact 0x1f00ffff)) \<noteq> 0" using target_1f00ffff by (simp add: target_of_def)
  then obtain q where q: "op_divide (ca_b_difficulty_1_target example_args) (fst (setCompact 0x1f00ffff)) = Inr q"
    using op_div_assign_correct [OF _ wf256_setCompact, of "ca_b_difficulty_1_target example_args" "0x1f00ffff"]
    by (auto simp: op_divide_def example_args_def create_args)
  have run: "build_loop maxTries example_args zero_digest (\<lambda>_. 0) (\<lambda>_. 0) ?hp [Some 0] ?m 0 0 =
      Inr (Some \<lparr>b_transactions = [?base], b_header = ?h\<lparr>h_proof := 1\<rparr>\<rparr>, 1)"
  proof -
    have "\<not> innerLoopCount \<le> 1" "1 \<noteq> maxTries" by (simp_all add: innerLoopCount_def word_le_nat_alt maxTries_def)
    then have "build_loop (Suc k) example_args zero_digest (\<lambda>_. 0) (\<lambda>_. 0) ?hp [Some 0] ?m 0 0 =
        Inr (Some \<lparr>b_transactions = [?base], b_header = ?h\<lparr>h_proof := 1\<rparr>\<rparr>, 1)" for k
      using new search q by (simp add: tip_def chain_height_def)
    moreover obtain k where "Suc k = maxTries" using \<open>1 \<noteq> maxTries\<close> by (cases maxTries) (auto simp: maxTries_def)
    ultimately show ?thesis by metis
  qed
  have "chain_of ?hp 0 = [Some 0]" "tree_ok ?hp"
    by (simp_all add: chain_of_def tree_ok_def node_ok_def example_genesis_fields)
  moreover have "args_ok example_args" by (simp add: example_args_def create_args_ok)
  moreover have "getNextWorkTarget example_args ?hp [Some 0] (Some 0) = Inr 0x1f00ffff"
    by (simp add: getNextWorkTarget_def deref_def g example_args_def create_def)
  moreover have "target_of 0x1f00ffff \<noteq> 0" by (simp add: target_1f00ffff)
  ultimately show ?thesis
    using mined_block_valid [where hp = ?hp and t = 0 and tb = ?g and args = example_args and m = ?m and height = "\<lambda>_. 0"
      and clock = "\<lambda>_. 0", OF d] run g fits
    by (simp add: tx_fits_def chain_height_def)
qed

end
