(* ===== verification/Kcp.thy ===== *)
theory Kcp
  imports Endian "HOL-Library.Signed_Division"
begin

text \<open>
  The reliable transport under the sessions: \<open>deps/kcp/ikcp.c\<close>, one definition per function, with a
  helper for each loop. This theory holds the definitions; the receiving side, the sending side and
  the connection of two endpoints have theories of their own.

  \<^item> A segment and the control block are records with the members of the C structures at their
    width; the intrusive lists are lists, and the counters beside them are kept as members.
  \<^item> The payload \<open>sg_data\<close> is the memory behind a segment. A \<open>memcpy\<close> of \<open>n\<close> bytes is \<open>take n\<close>.
  \<^item> \<open>int\<close> and \<open>IINT32\<close> members are words read with \<open>sint\<close>; signed arithmetic wraps. A \<open>long\<close> is an \<open>int\<close>
    of the logic. Integer division of signed values is \<open>sdiv\<close>.
  \<^item> The output callback receives packets in order: \<open>ikcp_flush\<close> returns their list. The buffer in
    which packets are assembled has the size with which it was allocated, \<open>kc_bufsize\<close>; a write past
    it is the error \<open>KcpOverflow\<close>, a failed \<open>assert\<close> is \<open>KcpAssert\<close>.
  \<^item> Members that a function leaves uninitialised in a new segment are 0 here; the code assigns them
    before it reads them.
  \<^item> Allocation succeeds. Logging has no effect on the state and is left out.
\<close>

type_synonym int32 = "32 word"

datatype kcp_error = KcpOverflow | KcpAssert

type_synonym 'a kcp_result = "(kcp_error, 'a) result"

section \<open>Constants and integers\<close>

definition IKCP_RTO_NDL :: uint32 where "IKCP_RTO_NDL = 30"
definition IKCP_RTO_MIN :: uint32 where "IKCP_RTO_MIN = 100"
definition IKCP_RTO_DEF :: uint32 where "IKCP_RTO_DEF = 200"
definition IKCP_RTO_MAX :: uint32 where "IKCP_RTO_MAX = 60000"
definition IKCP_CMD_PUSH :: uint32 where "IKCP_CMD_PUSH = 81"
definition IKCP_CMD_ACK :: uint32 where "IKCP_CMD_ACK = 82"
definition IKCP_CMD_WASK :: uint32 where "IKCP_CMD_WASK = 83"
definition IKCP_CMD_WINS :: uint32 where "IKCP_CMD_WINS = 84"
definition IKCP_ASK_SEND :: uint32 where "IKCP_ASK_SEND = 1"
definition IKCP_ASK_TELL :: uint32 where "IKCP_ASK_TELL = 2"
definition IKCP_WND_SND :: uint32 where "IKCP_WND_SND = 32"
definition IKCP_WND_RCV :: uint32 where "IKCP_WND_RCV = 32"
definition IKCP_MTU_DEF :: uint32 where "IKCP_MTU_DEF = 1400"
definition IKCP_INTERVAL :: uint32 where "IKCP_INTERVAL = 100"
definition IKCP_OVERHEAD :: uint32 where "IKCP_OVERHEAD = 24"
definition IKCP_DEADLINK :: uint32 where "IKCP_DEADLINK = 20"
definition IKCP_THRESH_INIT :: uint32 where "IKCP_THRESH_INIT = 2"
definition IKCP_THRESH_MIN :: uint32 where "IKCP_THRESH_MIN = 2"
definition IKCP_PROBE_INIT :: uint32 where "IKCP_PROBE_INIT = 7000"
definition IKCP_PROBE_LIMIT :: uint32 where "IKCP_PROBE_LIMIT = 120000"

lemmas kcp_consts =
  IKCP_RTO_NDL_def IKCP_RTO_MIN_def IKCP_RTO_DEF_def IKCP_RTO_MAX_def IKCP_CMD_PUSH_def
  IKCP_CMD_ACK_def IKCP_CMD_WASK_def IKCP_CMD_WINS_def IKCP_ASK_SEND_def IKCP_ASK_TELL_def
  IKCP_WND_SND_def IKCP_WND_RCV_def IKCP_MTU_DEF_def IKCP_INTERVAL_def IKCP_OVERHEAD_def
  IKCP_DEADLINK_def IKCP_THRESH_INIT_def IKCP_THRESH_MIN_def IKCP_PROBE_INIT_def IKCP_PROBE_LIMIT_def

definition imin :: "uint32 \<Rightarrow> uint32 \<Rightarrow> uint32" where
  "imin a b = (if a \<le> b then a else b)"

definition imax :: "uint32 \<Rightarrow> uint32 \<Rightarrow> uint32" where
  "imax a b = (if a \<ge> b then a else b)"

definition ibound :: "uint32 \<Rightarrow> uint32 \<Rightarrow> uint32 \<Rightarrow> uint32" where
  "ibound lower middle upper = imin (imax lower middle) upper"

definition itimediff :: "uint32 \<Rightarrow> uint32 \<Rightarrow> int" where
  "itimediff later earlier = sint (later - earlier)"

section \<open>Encoding of integers\<close>

text \<open>On a little-endian host an integer is stored as it is in memory; on other hosts byte by byte.\<close>

definition ikcp_encode8u :: "uint8 \<Rightarrow> uint8 list" where
  "ikcp_encode8u c = [c]"

definition ikcp_decode8u :: "uint8 list \<Rightarrow> uint8 \<times> uint8 list" where
  "ikcp_decode8u p = (p ! 0, drop 1 p)"

definition ikcp_encode16u :: "endian \<Rightarrow> uint16 \<Rightarrow> uint8 list" where
  "ikcp_encode16u host w =
     (case host of
        BigEndian \<Rightarrow> [ucast (w AND 255), ucast (drop_bit 8 w)]
      | LittleEndian \<Rightarrow> mem_bytes LittleEndian w)"

definition ikcp_decode16u :: "endian \<Rightarrow> uint8 list \<Rightarrow> uint16 \<times> uint8 list" where
  "ikcp_decode16u host p =
     ((case host of
         BigEndian \<Rightarrow>
           let w = ucast (p ! 1) :: uint16
           in ucast (p ! 0) + push_bit 8 w
       | LittleEndian \<Rightarrow> le_word (take 2 p)), drop 2 p)"

definition ikcp_encode32u :: "endian \<Rightarrow> uint32 \<Rightarrow> uint8 list" where
  "ikcp_encode32u host l =
     (case host of
        BigEndian \<Rightarrow> [ucast (drop_bit 0 l AND 0xff), ucast (drop_bit 8 l AND 0xff),
                      ucast (drop_bit 16 l AND 0xff), ucast (drop_bit 24 l AND 0xff)]
      | LittleEndian \<Rightarrow> mem_bytes LittleEndian l)"

definition ikcp_decode32u :: "endian \<Rightarrow> uint8 list \<Rightarrow> uint32 \<times> uint8 list" where
  "ikcp_decode32u host p =
     ((case host of
         BigEndian \<Rightarrow>
           let l = ucast (p ! 3) :: uint32;
               l = ucast (p ! 2) + push_bit 8 l;
               l = ucast (p ! 1) + push_bit 8 l
           in ucast (p ! 0) + push_bit 8 l
       | LittleEndian \<Rightarrow> le_word (take 4 p)), drop 4 p)"

section \<open>Segments and the control block\<close>

record IKCPSEG =
  sg_conv :: uint32
  sg_cmd :: uint32
  sg_frg :: uint32
  sg_wnd :: uint32
  sg_ts :: uint32
  sg_sn :: uint32
  sg_una :: uint32
  sg_len :: uint32
  sg_resendts :: uint32
  sg_rto :: uint32
  sg_fastack :: uint32
  sg_xmit :: uint32
  sg_data :: "uint8 list"

record IKCPCB =
  kc_conv :: uint32
  kc_mtu :: uint32
  kc_mss :: uint32
  kc_state :: uint32
  kc_snd_una :: uint32
  kc_snd_nxt :: uint32
  kc_rcv_nxt :: uint32
  kc_ssthresh :: uint32
  kc_rx_rttval :: int32
  kc_rx_srtt :: int32
  kc_rx_rto :: int32
  kc_rx_minrto :: int32
  kc_snd_wnd :: uint32
  kc_rcv_wnd :: uint32
  kc_rmt_wnd :: uint32
  kc_cwnd :: uint32
  kc_probe :: uint32
  kc_current :: uint32
  kc_interval :: uint32
  kc_ts_flush :: uint32
  kc_xmit :: uint32
  kc_nrcv_buf :: uint32
  kc_nsnd_buf :: uint32
  kc_nrcv_que :: uint32
  kc_nsnd_que :: uint32
  kc_nodelay :: uint32
  kc_updated :: uint32
  kc_ts_probe :: uint32
  kc_probe_wait :: uint32
  kc_dead_link :: uint32
  kc_incr :: uint32
  kc_snd_queue :: "IKCPSEG list"
  kc_rcv_queue :: "IKCPSEG list"
  kc_snd_buf :: "IKCPSEG list"
  kc_rcv_buf :: "IKCPSEG list"
  kc_acklist :: "uint32 list"
  kc_ackcount :: uint32
  kc_ackblock :: uint32
  kc_bufsize :: nat
  kc_fastresend :: int32
  kc_nocwnd :: int32
  kc_stream :: int32

definition ikcp_segment_new :: "IKCPSEG" where
  "ikcp_segment_new =
     \<lparr>sg_conv = 0, sg_cmd = 0, sg_frg = 0, sg_wnd = 0, sg_ts = 0, sg_sn = 0, sg_una = 0, sg_len = 0,
      sg_resendts = 0, sg_rto = 0, sg_fastack = 0, sg_xmit = 0, sg_data = []\<rparr>"

definition ikcp_create :: "uint32 \<Rightarrow> IKCPCB" where
  "ikcp_create conv =
     \<lparr>kc_conv = conv, kc_mtu = IKCP_MTU_DEF, kc_mss = IKCP_MTU_DEF - IKCP_OVERHEAD, kc_state = 0,
      kc_snd_una = 0, kc_snd_nxt = 0, kc_rcv_nxt = 0, kc_ssthresh = IKCP_THRESH_INIT,
      kc_rx_rttval = 0, kc_rx_srtt = 0, kc_rx_rto = IKCP_RTO_DEF, kc_rx_minrto = IKCP_RTO_MIN,
      kc_snd_wnd = IKCP_WND_SND, kc_rcv_wnd = IKCP_WND_RCV, kc_rmt_wnd = IKCP_WND_RCV, kc_cwnd = 0,
      kc_probe = 0, kc_current = 0, kc_interval = IKCP_INTERVAL, kc_ts_flush = IKCP_INTERVAL, kc_xmit = 0,
      kc_nrcv_buf = 0, kc_nsnd_buf = 0, kc_nrcv_que = 0, kc_nsnd_que = 0, kc_nodelay = 0, kc_updated = 0,
      kc_ts_probe = 0, kc_probe_wait = 0, kc_dead_link = IKCP_DEADLINK, kc_incr = 0,
      kc_snd_queue = [], kc_rcv_queue = [], kc_snd_buf = [], kc_rcv_buf = [],
      kc_acklist = [], kc_ackcount = 0, kc_ackblock = 0,
      kc_bufsize = unat ((IKCP_MTU_DEF + IKCP_OVERHEAD) * 3),
      kc_fastresend = 0, kc_nocwnd = 0, kc_stream = 0\<rparr>"

section \<open>Reading messages\<close>

fun peek_loop :: "IKCPSEG list \<Rightarrow> uint32 \<Rightarrow> uint32" where
  "peek_loop [] len = len"
| "peek_loop (seg # q) len =
     (let len = len + sg_len seg in if sg_frg seg = 0 then len else peek_loop q len)"

definition ikcp_peeksize :: "IKCPCB \<Rightarrow> int" where
  "ikcp_peeksize kcp =
     (case kc_rcv_queue kcp of
        [] \<Rightarrow> -1
      | seg # q \<Rightarrow>
          if sg_frg seg = 0 then sint (sg_len seg)
          else if kc_nrcv_que kcp < sg_frg seg + 1 then -1
          else sint (peek_loop (seg # q) 0))"

fun merge_loop ::
  "bool \<Rightarrow> IKCPSEG list \<Rightarrow> uint8 list \<Rightarrow> uint32 \<Rightarrow> uint32 \<Rightarrow> uint8 list \<times> uint32 \<times> uint32 \<times> IKCPSEG list" where
  "merge_loop ispeek [] buffer len nrcv_que = (buffer, len, nrcv_que, [])"
| "merge_loop ispeek (seg # q) buffer len nrcv_que =
     (let buffer = buffer @ take (unat (sg_len seg)) (sg_data seg);
          len = len + sg_len seg;
          nrcv_que = (if ispeek then nrcv_que else nrcv_que - 1)
      in if sg_frg seg = 0 then (buffer, len, nrcv_que, q)
         else merge_loop ispeek q buffer len nrcv_que)"

function move_ready :: "IKCPCB \<Rightarrow> IKCPCB" where
  "move_ready kcp =
     (case kc_rcv_buf kcp of
        [] \<Rightarrow> kcp
      | seg # rest \<Rightarrow>
          if sg_sn seg = kc_rcv_nxt kcp \<and> kc_nrcv_que kcp < kc_rcv_wnd kcp
          then move_ready (kcp\<lparr>kc_rcv_buf := rest, kc_nrcv_buf := kc_nrcv_buf kcp - 1,
                 kc_rcv_queue := kc_rcv_queue kcp @ [seg], kc_nrcv_que := kc_nrcv_que kcp + 1,
                 kc_rcv_nxt := kc_rcv_nxt kcp + 1\<rparr>)
          else kcp)"
  by pat_completeness auto
termination by (relation "measure (\<lambda>kcp. length (kc_rcv_buf kcp))") auto

declare move_ready.simps [simp del]

definition ikcp_recv :: "int \<Rightarrow> IKCPCB \<Rightarrow> (int \<times> uint8 list \<times> IKCPCB) kcp_result" where
  "ikcp_recv len kcp =
     (let ispeek = (len < 0);
          len = (if len < 0 then - len else len);
          peeksize = ikcp_peeksize kcp
      in if kc_rcv_queue kcp = [] then Inr (-1, [], kcp)
         else if peeksize < 0 then Inr (-2, [], kcp)
         else if peeksize > len then Inr (-3, [], kcp)
         else
           let recover = (kc_nrcv_que kcp \<ge> kc_rcv_wnd kcp);
               (buffer, len, nrcv_que, q) = merge_loop ispeek (kc_rcv_queue kcp) [] 0 (kc_nrcv_que kcp);
               kcp = kcp\<lparr>kc_rcv_queue := (if ispeek then kc_rcv_queue kcp else q), kc_nrcv_que := nrcv_que\<rparr>
           in if sint len \<noteq> peeksize then Inl KcpAssert
              else
                let kcp = move_ready kcp;
                    kcp = (if kc_nrcv_que kcp < kc_rcv_wnd kcp \<and> recover
                           then kcp\<lparr>kc_probe := kc_probe kcp OR IKCP_ASK_TELL\<rparr> else kcp)
                in Inr (sint len, buffer, kcp))"

section \<open>Writing messages\<close>

definition extend_last :: "uint8 list \<Rightarrow> int \<Rightarrow> IKCPCB \<Rightarrow> uint8 list \<times> int \<times> IKCPCB" where
  "extend_last buffer len kcp =
     (if kc_snd_queue kcp = [] then (buffer, len, kcp)
      else
        let old = last (kc_snd_queue kcp)
        in if sg_len old < kc_mss kcp
           then
             let capacity = sint (kc_mss kcp - sg_len old);
                 extend = (if len < capacity then len else capacity);
                 seg = ikcp_segment_new\<lparr>
                         sg_data := take (unat (sg_len old)) (sg_data old) @ take (nat extend) buffer,
                         sg_len := sg_len old + of_int extend, sg_frg := 0\<rparr>
             in (drop (nat extend) buffer, len - extend,
                 kcp\<lparr>kc_snd_queue := butlast (kc_snd_queue kcp) @ [seg]\<rparr>)
           else (buffer, len, kcp))"

fun fragment_loop :: "nat \<Rightarrow> uint8 list \<Rightarrow> int \<Rightarrow> IKCPCB \<Rightarrow> IKCPCB" where
  "fragment_loop 0 buffer len kcp = kcp"
| "fragment_loop (Suc i) buffer len kcp =
     (let size = (if len > sint (kc_mss kcp) then sint (kc_mss kcp) else len);
          seg = ikcp_segment_new\<lparr>sg_data := take (nat size) buffer, sg_len := of_int size,
                  sg_frg := (if kc_stream kcp = 0 then of_nat i else 0)\<rparr>
      in fragment_loop i (drop (nat size) buffer) (len - size)
           (kcp\<lparr>kc_snd_queue := kc_snd_queue kcp @ [seg], kc_nsnd_que := kc_nsnd_que kcp + 1\<rparr>))"

definition send_count :: "int \<Rightarrow> uint32 \<Rightarrow> int" where
  "send_count len mss =
     (if len \<le> sint mss then 1 else sint ((of_int len + mss - 1) div mss))"

definition ikcp_send :: "uint8 list \<Rightarrow> int \<Rightarrow> IKCPCB \<Rightarrow> (int \<times> IKCPCB) kcp_result" where
  "ikcp_send buffer len kcp =
     (if \<not> kc_mss kcp > 0 then Inl KcpAssert
      else if len < 0 then Inr (-1, kcp)
      else
        let (buffer, len, kcp) = (if kc_stream kcp \<noteq> 0 then extend_last buffer len kcp else (buffer, len, kcp))
        in if kc_stream kcp \<noteq> 0 \<and> len \<le> 0 then Inr (0, kcp)
           else
             let count = send_count len (kc_mss kcp)
             in if count > 255 then Inr (-2, kcp)
                else
                  let count = (if count = 0 then 1 else count)
                  in Inr (0, fragment_loop (nat count) buffer len kcp))"

section \<open>Acknowledgements of sent segments\<close>

definition ikcp_update_ack :: "int32 \<Rightarrow> IKCPCB \<Rightarrow> IKCPCB" where
  "ikcp_update_ack rtt kcp =
     (let kcp =
        (if kc_rx_srtt kcp = 0
         then kcp\<lparr>kc_rx_srtt := rtt, kc_rx_rttval := of_int (sint rtt sdiv 2)\<rparr>
         else
           let delta = sint (rtt - kc_rx_srtt kcp);
               delta = (if delta < 0 then - delta else delta);
               rttval = of_int ((sint (3 * kc_rx_rttval kcp) + delta) sdiv 4);
               srtt = of_int (sint (7 * kc_rx_srtt kcp + rtt) sdiv 8)
           in kcp\<lparr>kc_rx_rttval := rttval, kc_rx_srtt := (if sint srtt < 1 then 1 else srtt)\<rparr>);
          rto = kc_rx_srtt kcp + imax (kc_interval kcp) (4 * kc_rx_rttval kcp)
      in kcp\<lparr>kc_rx_rto := ibound (kc_rx_minrto kcp) rto IKCP_RTO_MAX\<rparr>)"

definition ikcp_shrink_buf :: "IKCPCB \<Rightarrow> IKCPCB" where
  "ikcp_shrink_buf kcp =
     (case kc_snd_buf kcp of
        seg # _ \<Rightarrow> kcp\<lparr>kc_snd_una := sg_sn seg\<rparr>
      | [] \<Rightarrow> kcp\<lparr>kc_snd_una := kc_snd_nxt kcp\<rparr>)"

fun ack_loop :: "uint32 \<Rightarrow> IKCPSEG list \<Rightarrow> uint32 \<Rightarrow> IKCPSEG list \<times> uint32" where
  "ack_loop sn [] nsnd_buf = ([], nsnd_buf)"
| "ack_loop sn (seg # rest) nsnd_buf =
     (if sn = sg_sn seg then (rest, nsnd_buf - 1)
      else if itimediff sn (sg_sn seg) < 0 then (seg # rest, nsnd_buf)
      else let (rest, nsnd_buf) = ack_loop sn rest nsnd_buf in (seg # rest, nsnd_buf))"

definition ikcp_parse_ack :: "uint32 \<Rightarrow> IKCPCB \<Rightarrow> IKCPCB" where
  "ikcp_parse_ack sn kcp =
     (if itimediff sn (kc_snd_una kcp) < 0 \<or> itimediff sn (kc_snd_nxt kcp) \<ge> 0 then kcp
      else let (buf, n) = ack_loop sn (kc_snd_buf kcp) (kc_nsnd_buf kcp)
           in kcp\<lparr>kc_snd_buf := buf, kc_nsnd_buf := n\<rparr>)"

fun una_loop :: "uint32 \<Rightarrow> IKCPSEG list \<Rightarrow> uint32 \<Rightarrow> IKCPSEG list \<times> uint32" where
  "una_loop una [] nsnd_buf = ([], nsnd_buf)"
| "una_loop una (seg # rest) nsnd_buf =
     (if itimediff una (sg_sn seg) > 0 then una_loop una rest (nsnd_buf - 1) else (seg # rest, nsnd_buf))"

definition ikcp_parse_una :: "uint32 \<Rightarrow> IKCPCB \<Rightarrow> IKCPCB" where
  "ikcp_parse_una una kcp =
     (let (buf, n) = una_loop una (kc_snd_buf kcp) (kc_nsnd_buf kcp)
      in kcp\<lparr>kc_snd_buf := buf, kc_nsnd_buf := n\<rparr>)"

fun fastack_loop :: "uint32 \<Rightarrow> IKCPSEG list \<Rightarrow> IKCPSEG list" where
  "fastack_loop sn [] = []"
| "fastack_loop sn (seg # rest) =
     (if itimediff sn (sg_sn seg) < 0 then seg # rest
      else (if sn \<noteq> sg_sn seg then seg\<lparr>sg_fastack := sg_fastack seg + 1\<rparr> else seg) # fastack_loop sn rest)"

definition ikcp_parse_fastack :: "uint32 \<Rightarrow> IKCPCB \<Rightarrow> IKCPCB" where
  "ikcp_parse_fastack sn kcp =
     (if itimediff sn (kc_snd_una kcp) < 0 \<or> itimediff sn (kc_snd_nxt kcp) \<ge> 0 then kcp
      else kcp\<lparr>kc_snd_buf := fastack_loop sn (kc_snd_buf kcp)\<rparr>)"

section \<open>Acknowledgements to send\<close>

text \<open>The k-th block size that the growth loop tries is \<open>8 * 2 ^ k\<close>.\<close>

function block_loop :: "nat \<Rightarrow> nat \<Rightarrow> nat" where
  "block_loop k newsize = (if 8 * 2 ^ k < newsize then block_loop (Suc k) newsize else 8 * 2 ^ k)"
  by pat_completeness auto
termination by (relation "measure (\<lambda>(k, n). n - 8 * 2 ^ k)") (auto intro: diff_less_mono2)

declare block_loop.simps [simp del]

definition ikcp_ack_push :: "uint32 \<Rightarrow> uint32 \<Rightarrow> IKCPCB \<Rightarrow> IKCPCB" where
  "ikcp_ack_push sn ts kcp =
     (let newsize = unat (kc_ackcount kcp + 1);
          kcp = (if newsize > unat (kc_ackblock kcp)
                 then let newblock = block_loop 0 newsize;
                          old = take (2 * unat (kc_ackcount kcp)) (kc_acklist kcp)
                      in kcp\<lparr>kc_acklist := old @ replicate (2 * newblock - length old) 0,
                             kc_ackblock := of_nat newblock\<rparr>
                 else kcp);
          i = unat (kc_ackcount kcp * 2)
      in kcp\<lparr>kc_acklist := (kc_acklist kcp)[i := sn, i + 1 := ts], kc_ackcount := kc_ackcount kcp + 1\<rparr>)"

definition ikcp_ack_get :: "IKCPCB \<Rightarrow> nat \<Rightarrow> uint32 \<times> uint32" where
  "ikcp_ack_get kcp p = (kc_acklist kcp ! (p * 2 + 0), kc_acklist kcp ! (p * 2 + 1))"

section \<open>Incoming packets\<close>

text \<open>The search for the place of a segment runs from the end of the receive buffer: on the reversed list.\<close>

fun rcv_insert :: "IKCPSEG \<Rightarrow> IKCPSEG list \<Rightarrow> IKCPSEG list option" where
  "rcv_insert newseg [] = Some [newseg]"
| "rcv_insert newseg (seg # front) =
     (if sg_sn seg = sg_sn newseg then None
      else if itimediff (sg_sn newseg) (sg_sn seg) > 0 then Some (newseg # seg # front)
      else map_option ((#) seg) (rcv_insert newseg front))"

definition ikcp_parse_data :: "IKCPSEG \<Rightarrow> IKCPCB \<Rightarrow> IKCPCB" where
  "ikcp_parse_data newseg kcp =
     (let sn = sg_sn newseg
      in if itimediff sn (kc_rcv_nxt kcp + kc_rcv_wnd kcp) \<ge> 0 \<or> itimediff sn (kc_rcv_nxt kcp) < 0 then kcp
         else
           let kcp = (case rcv_insert newseg (rev (kc_rcv_buf kcp)) of
                        Some buf \<Rightarrow> kcp\<lparr>kc_rcv_buf := rev buf, kc_nrcv_buf := kc_nrcv_buf kcp + 1\<rparr>
                      | None \<Rightarrow> kcp)
           in move_ready kcp)"

definition decode_seg :: "endian \<Rightarrow> uint8 list \<Rightarrow> IKCPSEG \<times> uint8 list" where
  "decode_seg host data =
     (let (conv, data) = ikcp_decode32u host data;
          (cmd, data) = ikcp_decode8u data;
          (frg, data) = ikcp_decode8u data;
          (wnd, data) = ikcp_decode16u host data;
          (ts, data) = ikcp_decode32u host data;
          (sn, data) = ikcp_decode32u host data;
          (una, data) = ikcp_decode32u host data;
          (len, data) = ikcp_decode32u host data
      in (ikcp_segment_new\<lparr>sg_conv := conv, sg_cmd := ucast cmd, sg_frg := ucast frg, sg_wnd := ucast wnd,
            sg_ts := ts, sg_sn := sn, sg_una := una, sg_len := len\<rparr>, data))"

text \<open>The largest serial number acknowledged by a packet, if it has an acknowledgement.\<close>

definition input_ack :: "IKCPSEG \<Rightarrow> uint32 option \<Rightarrow> IKCPCB \<Rightarrow> uint32 option \<times> IKCPCB" where
  "input_ack seg maxack kcp =
     (let diff = itimediff (kc_current kcp) (sg_ts seg);
          kcp = (if diff \<ge> 0 then ikcp_update_ack (of_int diff) kcp else kcp);
          kcp = ikcp_shrink_buf (ikcp_parse_ack (sg_sn seg) kcp)
      in ((case maxack of
             None \<Rightarrow> Some (sg_sn seg)
           | Some m \<Rightarrow> if itimediff (sg_sn seg) m > 0 then Some (sg_sn seg) else Some m), kcp))"

definition input_push :: "IKCPSEG \<Rightarrow> uint8 list \<Rightarrow> IKCPCB \<Rightarrow> IKCPCB" where
  "input_push seg data kcp =
     (if itimediff (sg_sn seg) (kc_rcv_nxt kcp + kc_rcv_wnd kcp) < 0
      then let kcp = ikcp_ack_push (sg_sn seg) (sg_ts seg) kcp
           in if itimediff (sg_sn seg) (kc_rcv_nxt kcp) \<ge> 0
              then ikcp_parse_data (seg\<lparr>sg_data := take (unat (sg_len seg)) data\<rparr>) kcp
              else kcp
      else kcp)"

definition input_segment ::
  "IKCPSEG \<Rightarrow> uint8 list \<Rightarrow> uint32 option \<Rightarrow> IKCPCB \<Rightarrow> uint32 option \<times> IKCPCB" where
  "input_segment seg data maxack kcp =
     (let kcp = ikcp_shrink_buf (ikcp_parse_una (sg_una seg) (kcp\<lparr>kc_rmt_wnd := sg_wnd seg\<rparr>))
      in if sg_cmd seg = IKCP_CMD_ACK then input_ack seg maxack kcp
         else if sg_cmd seg = IKCP_CMD_PUSH then (maxack, input_push seg data kcp)
         else if sg_cmd seg = IKCP_CMD_WASK then (maxack, kcp\<lparr>kc_probe := kc_probe kcp OR IKCP_ASK_TELL\<rparr>)
         else (maxack, kcp))"

lemma decode_seg_rest: "snd (decode_seg host data) = drop 24 data"
  by (simp add: decode_seg_def ikcp_decode32u_def ikcp_decode8u_def ikcp_decode16u_def Let_def)

function input_loop :: "endian \<Rightarrow> uint8 list \<Rightarrow> uint32 option \<Rightarrow> IKCPCB \<Rightarrow> int \<times> uint32 option \<times> IKCPCB" where
  "input_loop host data maxack kcp =
     (if length data < unat IKCP_OVERHEAD then (0, maxack, kcp)
      else
        let (seg, data') = decode_seg host data
        in if sg_conv seg \<noteq> kc_conv kcp then (-1, maxack, kcp)
           else if length data' < unat (sg_len seg) then (-2, maxack, kcp)
           else if sg_cmd seg \<notin> {IKCP_CMD_PUSH, IKCP_CMD_ACK, IKCP_CMD_WASK, IKCP_CMD_WINS} then (-3, maxack, kcp)
           else
             let (maxack, kcp) = input_segment seg data' maxack kcp
             in input_loop host (drop (unat (sg_len seg)) data') maxack kcp)"
  by pat_completeness auto
termination
proof (relation "measure (\<lambda>(host, data, maxack, kcp). length data)", goal_cases)
  case (2 host data maxack kcp seg_data seg data' r m k)
  then have "data' = drop 24 data" using decode_seg_rest [of host data] by (metis snd_conv)
  moreover have "length data \<ge> 24" using 2(1) by (simp add: IKCP_OVERHEAD_def)
  ultimately show ?case by simp
qed simp

declare input_loop.simps [simp del]

definition input_cwnd :: "IKCPCB \<Rightarrow> IKCPCB" where
  "input_cwnd kcp =
     (if kc_cwnd kcp < kc_rmt_wnd kcp
      then
        let mss = kc_mss kcp;
            kcp = (if kc_cwnd kcp < kc_ssthresh kcp
                   then kcp\<lparr>kc_cwnd := kc_cwnd kcp + 1, kc_incr := kc_incr kcp + mss\<rparr>
                   else
                     let kcp = (if kc_incr kcp < mss then kcp\<lparr>kc_incr := mss\<rparr> else kcp);
                         kcp = kcp\<lparr>kc_incr := kc_incr kcp + ((mss * mss) div kc_incr kcp + mss div 16)\<rparr>
                     in if (kc_cwnd kcp + 1) * mss \<le> kc_incr kcp then kcp\<lparr>kc_cwnd := kc_cwnd kcp + 1\<rparr> else kcp)
        in if kc_cwnd kcp > kc_rmt_wnd kcp
           then kcp\<lparr>kc_cwnd := kc_rmt_wnd kcp, kc_incr := kc_rmt_wnd kcp * mss\<rparr> else kcp
      else kcp)"

definition ikcp_input :: "endian \<Rightarrow> uint8 list \<Rightarrow> IKCPCB \<Rightarrow> int \<times> IKCPCB" where
  "ikcp_input host data kcp =
     (let una = kc_snd_una kcp
      in if sint (of_nat (length data) :: 32 word) < sint IKCP_OVERHEAD then (-1, kcp)
         else
           let (ret, maxack, kcp) = input_loop host data None kcp
           in if ret \<noteq> 0 then (ret, kcp)
              else
                let kcp = (case maxack of None \<Rightarrow> kcp | Some sn \<Rightarrow> ikcp_parse_fastack sn kcp);
                    kcp = (if itimediff (kc_snd_una kcp) una > 0 then input_cwnd kcp else kcp)
                in (0, kcp))"

section \<open>Outgoing packets\<close>

definition ikcp_encode_seg :: "endian \<Rightarrow> IKCPSEG \<Rightarrow> uint8 list" where
  "ikcp_encode_seg host seg =
     ikcp_encode32u host (sg_conv seg) @ ikcp_encode8u (ucast (sg_cmd seg)) @
     ikcp_encode8u (ucast (sg_frg seg)) @ ikcp_encode16u host (ucast (sg_wnd seg)) @
     ikcp_encode32u host (sg_ts seg) @ ikcp_encode32u host (sg_sn seg) @
     ikcp_encode32u host (sg_una seg) @ ikcp_encode32u host (sg_len seg)"

definition ikcp_wnd_unused :: "IKCPCB \<Rightarrow> int" where
  "ikcp_wnd_unused kcp =
     (if kc_nrcv_que kcp < kc_rcv_wnd kcp then sint (kc_rcv_wnd kcp - kc_nrcv_que kcp) else 0)"

definition ikcp_output :: "uint8 list \<Rightarrow> uint8 list list \<Rightarrow> uint8 list list" where
  "ikcp_output buf out = (if buf = [] then out else out @ [buf])"

text \<open>
  The packet under assembly and the packets that were output. \<open>flush_put\<close> outputs the packet when \<open>need\<close>
  more bytes exceed the MTU and then writes \<open>bytes\<close> into the buffer.
\<close>

type_synonym packets = "uint8 list \<times> uint8 list list"

definition flush_put :: "IKCPCB \<Rightarrow> int \<Rightarrow> uint8 list \<Rightarrow> packets \<Rightarrow> packets kcp_result" where
  "flush_put kcp need bytes pk =
     (let (buf, out) = pk;
          (buf, out) = (if int (length buf) + need > sint (kc_mtu kcp) then ([], ikcp_output buf out) else (buf, out))
      in if length buf + length bytes > kc_bufsize kcp then Inl KcpOverflow else Inr (buf @ bytes, out))"

fun flush_acks ::
  "endian \<Rightarrow> IKCPCB \<Rightarrow> nat list \<Rightarrow> IKCPSEG \<Rightarrow> packets \<Rightarrow> (IKCPSEG \<times> packets) kcp_result" where
  "flush_acks host kcp [] seg pk = Inr (seg, pk)"
| "flush_acks host kcp (i # is) seg pk =
     (let (sn, ts) = ikcp_ack_get kcp i;
          seg = seg\<lparr>sg_sn := sn, sg_ts := ts\<rparr>
      in bindE (flush_put kcp (sint IKCP_OVERHEAD) (ikcp_encode_seg host seg) pk) (\<lambda>pk.
         flush_acks host kcp is seg pk))"

definition flush_probe_timer :: "IKCPCB \<Rightarrow> IKCPCB" where
  "flush_probe_timer kcp =
     (if kc_rmt_wnd kcp = 0
      then if kc_probe_wait kcp = 0
           then kcp\<lparr>kc_probe_wait := IKCP_PROBE_INIT, kc_ts_probe := kc_current kcp + IKCP_PROBE_INIT\<rparr>
           else if itimediff (kc_current kcp) (kc_ts_probe kcp) \<ge> 0
                then let w = (if kc_probe_wait kcp < IKCP_PROBE_INIT then IKCP_PROBE_INIT else kc_probe_wait kcp);
                         w = w + w div 2;
                         w = (if w > IKCP_PROBE_LIMIT then IKCP_PROBE_LIMIT else w)
                     in kcp\<lparr>kc_probe_wait := w, kc_ts_probe := kc_current kcp + w,
                            kc_probe := kc_probe kcp OR IKCP_ASK_SEND\<rparr>
                else kcp
      else kcp\<lparr>kc_ts_probe := 0, kc_probe_wait := 0\<rparr>)"

definition flush_probe ::
  "endian \<Rightarrow> uint32 \<Rightarrow> uint32 \<Rightarrow> IKCPCB \<Rightarrow> IKCPSEG \<Rightarrow> packets \<Rightarrow> packets kcp_result" where
  "flush_probe host ask cmd kcp seg pk =
     (if kc_probe kcp AND ask \<noteq> 0
      then flush_put kcp (sint IKCP_OVERHEAD) (ikcp_encode_seg host (seg\<lparr>sg_cmd := cmd\<rparr>)) pk
      else Inr pk)"

definition flush_window :: "IKCPCB \<Rightarrow> uint32" where
  "flush_window kcp =
     (let cwnd = imin (kc_snd_wnd kcp) (kc_rmt_wnd kcp)
      in if kc_nocwnd kcp = 0 then imin (kc_cwnd kcp) cwnd else cwnd)"

function flush_move :: "uint32 \<Rightarrow> uint32 \<Rightarrow> IKCPCB \<Rightarrow> IKCPCB" where
  "flush_move wnd cwnd kcp =
     (if itimediff (kc_snd_nxt kcp) (kc_snd_una kcp + cwnd) < 0
      then (case kc_snd_queue kcp of
              [] \<Rightarrow> kcp
            | newseg # rest \<Rightarrow>
                let newseg = newseg\<lparr>sg_conv := kc_conv kcp, sg_cmd := IKCP_CMD_PUSH, sg_wnd := wnd,
                      sg_ts := kc_current kcp, sg_sn := kc_snd_nxt kcp, sg_una := kc_rcv_nxt kcp,
                      sg_resendts := kc_current kcp, sg_rto := kc_rx_rto kcp, sg_fastack := 0, sg_xmit := 0\<rparr>
                in flush_move wnd cwnd (kcp\<lparr>kc_snd_queue := rest, kc_snd_buf := kc_snd_buf kcp @ [newseg],
                     kc_nsnd_que := kc_nsnd_que kcp - 1, kc_nsnd_buf := kc_nsnd_buf kcp + 1,
                     kc_snd_nxt := kc_snd_nxt kcp + 1\<rparr>))
      else kcp)"
  by pat_completeness auto
termination by (relation "measure (\<lambda>(w, c, kcp). length (kc_snd_queue kcp))") auto

declare flush_move.simps [simp del]

text \<open>The decision whether a segment is sent: its new timers, and whether it counts as lost or as resent early.\<close>

datatype sending = Skip | First | Timeout | Fast

definition resend_segment :: "uint32 \<Rightarrow> uint32 \<Rightarrow> IKCPCB \<Rightarrow> IKCPSEG \<Rightarrow> sending \<times> IKCPSEG" where
  "resend_segment resent rtomin kcp segment =
     (let current = kc_current kcp
      in if sg_xmit segment = 0
         then (First, segment\<lparr>sg_xmit := sg_xmit segment + 1, sg_rto := kc_rx_rto kcp,
                 sg_resendts := current + kc_rx_rto kcp + rtomin\<rparr>)
         else if itimediff current (sg_resendts segment) \<ge> 0
         then let rto = sg_rto segment +
                    (if kc_nodelay kcp = 0 then kc_rx_rto kcp else of_int (sint (kc_rx_rto kcp) sdiv 2))
              in (Timeout, segment\<lparr>sg_xmit := sg_xmit segment + 1, sg_rto := rto, sg_resendts := current + rto\<rparr>)
         else if sg_fastack segment \<ge> resent
         then (Fast, segment\<lparr>sg_xmit := sg_xmit segment + 1, sg_fastack := 0,
                 sg_resendts := current + sg_rto segment\<rparr>)
         else (Skip, segment))"

definition segment_bytes :: "endian \<Rightarrow> IKCPSEG \<Rightarrow> uint8 list" where
  "segment_bytes host segment = ikcp_encode_seg host segment @ take (unat (sg_len segment)) (sg_data segment)"

text \<open>
  One round of the loop over the send buffer returns the segment, the control block, the packets, the
  number of early resends \<open>change\<close> and the flag \<open>lost\<close>.
\<close>

definition flush_segment ::
  "endian \<Rightarrow> uint32 \<Rightarrow> uint32 \<Rightarrow> uint32 \<Rightarrow> IKCPSEG \<Rightarrow> IKCPCB \<Rightarrow> packets \<Rightarrow> int32 \<Rightarrow> bool \<Rightarrow>
     (IKCPSEG \<times> IKCPCB \<times> packets \<times> int32 \<times> bool) kcp_result" where
  "flush_segment host wnd resent rtomin segment kcp pk change lost =
     (let (kind, segment) = resend_segment resent rtomin kcp segment;
          kcp = (if kind = Timeout then kcp\<lparr>kc_xmit := kc_xmit kcp + 1\<rparr> else kcp);
          change = (if kind = Fast then change + 1 else change);
          lost = (lost \<or> kind = Timeout)
      in if kind = Skip then Inr (segment, kcp, pk, change, lost)
         else
           let segment = segment\<lparr>sg_ts := kc_current kcp, sg_wnd := wnd, sg_una := kc_rcv_nxt kcp\<rparr>
           in bindE (flush_put kcp (sint (IKCP_OVERHEAD + sg_len segment)) (segment_bytes host segment) pk) (\<lambda>pk.
              Inr (segment, if sg_xmit segment \<ge> kc_dead_link kcp then kcp\<lparr>kc_state := -1\<rparr> else kcp,
                   pk, change, lost)))"

fun flush_segments ::
  "endian \<Rightarrow> uint32 \<Rightarrow> uint32 \<Rightarrow> uint32 \<Rightarrow> IKCPSEG list \<Rightarrow> IKCPCB \<Rightarrow> packets \<Rightarrow> int32 \<Rightarrow> bool \<Rightarrow>
     (IKCPSEG list \<times> IKCPCB \<times> packets \<times> int32 \<times> bool) kcp_result" where
  "flush_segments host wnd resent rtomin [] kcp pk change lost = Inr ([], kcp, pk, change, lost)"
| "flush_segments host wnd resent rtomin (segment # rest) kcp pk change lost =
     bindE (flush_segment host wnd resent rtomin segment kcp pk change lost) (\<lambda>(segment, kcp, pk, change, lost).
     bindE (flush_segments host wnd resent rtomin rest kcp pk change lost) (\<lambda>(segs, kcp, pk, change, lost).
     Inr (segment # segs, kcp, pk, change, lost)))"

definition flush_cwnd :: "uint32 \<Rightarrow> uint32 \<Rightarrow> int32 \<Rightarrow> bool \<Rightarrow> IKCPCB \<Rightarrow> IKCPCB" where
  "flush_cwnd resent cwnd change lost kcp =
     (let kcp = (if change \<noteq> 0
                 then let inflight = kc_snd_nxt kcp - kc_snd_una kcp;
                          ssthresh = inflight div 2;
                          ssthresh = (if ssthresh < IKCP_THRESH_MIN then IKCP_THRESH_MIN else ssthresh)
                      in kcp\<lparr>kc_ssthresh := ssthresh, kc_cwnd := ssthresh + resent,
                             kc_incr := (ssthresh + resent) * kc_mss kcp\<rparr>
                 else kcp);
          kcp = (if lost
                 then let ssthresh = cwnd div 2;
                          ssthresh = (if ssthresh < IKCP_THRESH_MIN then IKCP_THRESH_MIN else ssthresh)
                      in kcp\<lparr>kc_ssthresh := ssthresh, kc_cwnd := 1, kc_incr := kc_mss kcp\<rparr>
                 else kcp)
      in if kc_cwnd kcp < 1 then kcp\<lparr>kc_cwnd := 1, kc_incr := kc_mss kcp\<rparr> else kcp)"

definition ikcp_flush :: "endian \<Rightarrow> IKCPCB \<Rightarrow> (uint8 list list \<times> IKCPCB) kcp_result" where
  "ikcp_flush host kcp =
     (if kc_updated kcp = 0 then Inr ([], kcp)
      else
        let seg = ikcp_segment_new\<lparr>sg_conv := kc_conv kcp, sg_cmd := IKCP_CMD_ACK,
                    sg_wnd := of_int (ikcp_wnd_unused kcp), sg_una := kc_rcv_nxt kcp\<rparr>
        in bindE (flush_acks host kcp [0..<unat (kc_ackcount kcp)] seg ([], [])) (\<lambda>(seg, pk).
           let kcp = flush_probe_timer (kcp\<lparr>kc_ackcount := 0\<rparr>)
           in bindE (flush_probe host IKCP_ASK_SEND IKCP_CMD_WASK kcp seg pk) (\<lambda>pk.
              bindE (flush_probe host IKCP_ASK_TELL IKCP_CMD_WINS kcp seg pk) (\<lambda>pk.
              let kcp = kcp\<lparr>kc_probe := 0\<rparr>;
                  cwnd = flush_window kcp;
                  kcp = flush_move (sg_wnd seg) cwnd kcp;
                  resent = (if sint (kc_fastresend kcp) > 0 then kc_fastresend kcp else 0xffffffff);
                  rtomin = (if kc_nodelay kcp = 0 then of_int (sint (kc_rx_rto kcp) div 2 ^ 3) else 0)
              in bindE (flush_segments host (sg_wnd seg) resent rtomin (kc_snd_buf kcp) kcp pk 0 False)
                   (\<lambda>(segs, kcp, (buf, out), change, lost).
                 let kcp = kcp\<lparr>kc_snd_buf := segs\<rparr>;
                     out = (if length buf > 0 then ikcp_output buf out else out)
                 in Inr (out, flush_cwnd resent cwnd change lost kcp))))))"

section \<open>Timers and settings\<close>

definition ikcp_update :: "endian \<Rightarrow> uint32 \<Rightarrow> IKCPCB \<Rightarrow> (uint8 list list \<times> IKCPCB) kcp_result" where
  "ikcp_update host current kcp =
     (let kcp = kcp\<lparr>kc_current := current\<rparr>;
          kcp = (if kc_updated kcp = 0 then kcp\<lparr>kc_updated := 1, kc_ts_flush := kc_current kcp\<rparr> else kcp);
          slap = itimediff (kc_current kcp) (kc_ts_flush kcp);
          (slap, kcp) = (if slap \<ge> 10000 \<or> slap < -10000 then (0, kcp\<lparr>kc_ts_flush := kc_current kcp\<rparr>) else (slap, kcp))
      in if slap \<ge> 0
         then
           let kcp = kcp\<lparr>kc_ts_flush := kc_ts_flush kcp + kc_interval kcp\<rparr>;
               kcp = (if itimediff (kc_current kcp) (kc_ts_flush kcp) \<ge> 0
                      then kcp\<lparr>kc_ts_flush := kc_current kcp + kc_interval kcp\<rparr> else kcp)
           in ikcp_flush host kcp
         else Inr ([], kcp))"

text \<open>The earliest resend of a segment, \<open>None\<close> when one is due.\<close>

fun check_loop :: "uint32 \<Rightarrow> IKCPSEG list \<Rightarrow> int \<Rightarrow> int option" where
  "check_loop current [] tm_packet = Some tm_packet"
| "check_loop current (seg # rest) tm_packet =
     (let diff = itimediff (sg_resendts seg) current
      in if diff \<le> 0 then None else check_loop current rest (if diff < tm_packet then diff else tm_packet))"

definition ikcp_check :: "uint32 \<Rightarrow> IKCPCB \<Rightarrow> uint32" where
  "ikcp_check current kcp =
     (let ts_flush = kc_ts_flush kcp
      in if kc_updated kcp = 0 then current
         else
           let ts_flush = (if itimediff current ts_flush \<ge> 10000 \<or> itimediff current ts_flush < -10000
                           then current else ts_flush)
           in if itimediff current ts_flush \<ge> 0 then current
              else
                let tm_flush = itimediff ts_flush current
                in case check_loop current (kc_snd_buf kcp) 0x7fffffff of
                     None \<Rightarrow> current
                   | Some tm_packet \<Rightarrow>
                       let minimal = of_int (if tm_packet < tm_flush then tm_packet else tm_flush);
                           minimal = (if minimal \<ge> kc_interval kcp then kc_interval kcp else minimal)
                       in current + minimal)"

definition ikcp_setmtu :: "int \<Rightarrow> IKCPCB \<Rightarrow> int \<times> IKCPCB" where
  "ikcp_setmtu mtu kcp =
     (if mtu < 50 \<or> mtu < sint IKCP_OVERHEAD then (-1, kcp)
      else (0, kcp\<lparr>kc_mtu := of_int mtu, kc_mss := of_int mtu - IKCP_OVERHEAD,
                   kc_bufsize := unat ((of_int mtu + IKCP_OVERHEAD) * 3)\<rparr>))"

definition bound_interval :: "int \<Rightarrow> int" where
  "bound_interval interval = (if interval > 5000 then 5000 else if interval < 10 then 10 else interval)"

definition ikcp_interval :: "int \<Rightarrow> IKCPCB \<Rightarrow> int \<times> IKCPCB" where
  "ikcp_interval interval kcp = (0, kcp\<lparr>kc_interval := of_int (bound_interval interval)\<rparr>)"

definition ikcp_nodelay :: "int \<Rightarrow> int \<Rightarrow> int \<Rightarrow> int \<Rightarrow> IKCPCB \<Rightarrow> int \<times> IKCPCB" where
  "ikcp_nodelay nodelay interval resend nc kcp =
     (let kcp = (if nodelay \<ge> 0
                 then kcp\<lparr>kc_nodelay := of_int nodelay,
                          kc_rx_minrto := (if nodelay \<noteq> 0 then IKCP_RTO_NDL else IKCP_RTO_MIN)\<rparr>
                 else kcp);
          kcp = (if interval \<ge> 0 then kcp\<lparr>kc_interval := of_int (bound_interval interval)\<rparr> else kcp);
          kcp = (if resend \<ge> 0 then kcp\<lparr>kc_fastresend := of_int resend\<rparr> else kcp);
          kcp = (if nc \<ge> 0 then kcp\<lparr>kc_nocwnd := of_int nc\<rparr> else kcp)
      in (0, kcp))"

definition ikcp_wndsize :: "int \<Rightarrow> int \<Rightarrow> IKCPCB \<Rightarrow> int \<times> IKCPCB" where
  "ikcp_wndsize sndwnd rcvwnd kcp =
     (let kcp = (if sndwnd > 0 then kcp\<lparr>kc_snd_wnd := of_int sndwnd\<rparr> else kcp);
          kcp = (if rcvwnd > 0 then kcp\<lparr>kc_rcv_wnd := of_int rcvwnd\<rparr> else kcp)
      in (0, kcp))"

definition ikcp_waitsnd :: "IKCPCB \<Rightarrow> int" where
  "ikcp_waitsnd kcp = sint (kc_nsnd_buf kcp + kc_nsnd_que kcp)"

definition ikcp_getconv :: "endian \<Rightarrow> uint8 list \<Rightarrow> uint32" where
  "ikcp_getconv host p = fst (ikcp_decode32u host p)"

section \<open>Serial numbers\<close>

text \<open>Differences of serial numbers that are less than \<open>2 ^ 31\<close> apart are exact.\<close>

lemma itimediff_of_nat:
  assumes "int a - int b < 2 ^ 31" "- (2 ^ 31) \<le> int a - int b"
  shows "itimediff (of_nat a) (of_nat b) = int a - int b"
proof -
  have "(of_nat a - of_nat b :: uint32) = of_int (int a - int b)" by simp
  moreover have "sint (of_int (int a - int b) :: uint32) = int a - int b"
    using assms by (simp only: signed_of_int) (simp add: signed_take_bit_int_eq_self)
  ultimately show ?thesis by (simp only: itimediff_def)
qed

lemma itimediff_self [simp]: "itimediff a a = 0"
  by (simp add: itimediff_def)

lemma of_nat_word32_eq:
  "int a - int b < 2 ^ 31 \<Longrightarrow> - (2 ^ 31) \<le> int a - int b \<Longrightarrow> (of_nat a :: uint32) = of_nat b \<longleftrightarrow> a = b"
  using itimediff_of_nat [of a b] by auto

section \<open>The codec of segment headers\<close>

text \<open>The bytes on the wire are little-endian on every host, and every host reads them.\<close>

lemma ucast_byte_eq: "(ucast (w :: 'a::len word) :: uint8) = of_nat (unat w mod 256)"
  by (simp add: word_unat_eq_iff unsigned_ucast_eq take_bit_eq_mod unsigned_of_nat)

lemma unat_and_255: "unat ((w :: 'a::len word) AND 255) = unat w mod 256"
proof -
  have "w AND 255 = take_bit 8 w" by (simp only: take_bit_eq_mask) (simp add: mask_eq_exp_minus_1)
  then have "unat (w AND 255) = take_bit 8 (unat w)" by (simp only: unsigned_take_bit_eq)
  then show ?thesis by (simp add: take_bit_eq_mod)
qed

lemma encode16u_le: "ikcp_encode16u host w = le_bytes w"
proof (cases host)
  case BigEndian
  have "unat (drop_bit 8 w) = unat w div 256" by (simp only: unat_drop_bit) simp
  then show ?thesis
    by (simp add: BigEndian ikcp_encode16u_def le_bytes_def ucast_byte_eq unat_and_255 numeral_2_eq_2)
qed (simp add: ikcp_encode16u_def mem_bytes_def)

lemma encode32u_le: "ikcp_encode32u host w = le_bytes w"
proof (cases host)
  case BigEndian
  have "nat_bytes (Suc (Suc (Suc (Suc 0)))) v = [of_nat (v mod 256), of_nat (v div 256 mod 256),
      of_nat (v div 65536 mod 256), of_nat (v div 16777216 mod 256)]" for v
    by (simp add: div_mult2_eq [symmetric])
  moreover have "(4::nat) = Suc (Suc (Suc (Suc 0)))" by simp
  ultimately have "nat_bytes 4 v = [of_nat (v mod 256), of_nat (v div 256 mod 256),
      of_nat (v div 65536 mod 256), of_nat (v div 16777216 mod 256)]" for v
    by (simp only:)
  then have "le_bytes w = [of_nat (unat w mod 256), of_nat (unat w div 2 ^ 8 mod 256),
      of_nat (unat w div 2 ^ 16 mod 256), of_nat (unat w div 2 ^ 24 mod 256)]"
    by (simp add: le_bytes_def)
  then show ?thesis
    by (simp add: BigEndian ikcp_encode32u_def ucast_byte_eq unat_and_255 unat_drop_bit)
qed (simp add: ikcp_encode32u_def mem_bytes_def)

lemma decode16u_le:
  assumes "length p \<ge> 2"
  shows "ikcp_decode16u host p = (le_word (take 2 p), drop 2 p)"
proof -
  obtain a b q where "p = a # b # q" using assms by (cases p; cases "tl p") auto
  then show ?thesis
    by (cases host) (simp_all add: ikcp_decode16u_def le_word_def push_bit_eq_mult
        numeral_2_eq_2 mult.commute)
qed

lemma decode32u_le:
  assumes "length p \<ge> 4"
  shows "ikcp_decode32u host p = (le_word (take 4 p), drop 4 p)"
proof -
  obtain a b c d q where "p = a # b # c # d # q"
    using assms by (cases p; cases "tl p"; cases "tl (tl p)"; cases "tl (tl (tl p))") auto
  then show ?thesis
    by (cases host) (simp_all add: ikcp_decode32u_def le_word_def push_bit_eq_mult
        algebra_simps Let_def)
qed

lemma decode32u_bytes [simp]: "ikcp_decode32u host (le_bytes w @ rest) = (w, rest)"
  by (simp add: decode32u_le le_word_le_bytes)

lemma decode16u_bytes [simp]: "ikcp_decode16u host (le_bytes w @ rest) = (w, rest)"
  by (simp add: decode16u_le le_word_le_bytes)

lemma decode8u_bytes [simp]: "ikcp_decode8u (b # rest) = (b, rest)"
  by (simp add: ikcp_decode8u_def)

definition wire_ok :: "IKCPSEG \<Rightarrow> bool" where
  "wire_ok seg \<longleftrightarrow> unat (sg_cmd seg) < 2 ^ 8 \<and> unat (sg_frg seg) < 2 ^ 8 \<and> unat (sg_wnd seg) < 2 ^ 16"

lemma ucast_up_down:
  "unat (w :: uint32) < 2 ^ LENGTH('a::len) \<Longrightarrow> LENGTH('a) \<le> 32 \<Longrightarrow> (ucast (ucast w :: 'a word) :: uint32) = w"
  by (simp add: word_unat_eq_iff unsigned_ucast_eq unsigned_take_bit_eq take_bit_nat_eq_self)

lemma length_encode_seg [simp]: "length (ikcp_encode_seg host seg) = 24"
  by (simp add: ikcp_encode_seg_def encode32u_le encode16u_le ikcp_encode8u_def)

text \<open>The header has 8 bits for the command and the fragment number and 16 bits for the window.\<close>

lemma decode_encode_seg:
  assumes "unat (sg_cmd seg) < 2 ^ 8" "unat (sg_frg seg) < 2 ^ 8"
  shows "decode_seg host (ikcp_encode_seg host' seg @ rest) =
    (ikcp_segment_new\<lparr>sg_conv := sg_conv seg, sg_cmd := sg_cmd seg, sg_frg := sg_frg seg,
       sg_wnd := ucast (ucast (sg_wnd seg) :: uint16), sg_ts := sg_ts seg, sg_sn := sg_sn seg,
       sg_una := sg_una seg, sg_len := sg_len seg\<rparr>, rest)"
  using assms
  by (simp add: decode_seg_def ikcp_encode_seg_def encode32u_le encode16u_le ikcp_encode8u_def
      ucast_up_down Let_def)

text \<open>
  A segment header that any host encodes is decoded by any host to the same members, whatever
  follows it, as long as command and fragment number fit a byte and the window fits 16 bits.
\<close>

theorem segment_header_round_trip:
  assumes "wire_ok seg"
  shows "decode_seg host (ikcp_encode_seg host' seg @ rest) =
      (seg\<lparr>sg_resendts := 0, sg_rto := 0, sg_fastack := 0, sg_xmit := 0, sg_data := []\<rparr>, rest) \<and>
    ikcp_encode_seg host seg = ikcp_encode_seg host' seg \<and> length (ikcp_encode_seg host seg) = 24 \<and>
    ikcp_getconv host (ikcp_encode_seg host' seg @ rest) = sg_conv seg"
proof (intro conjI)
  have "(ucast (ucast (sg_wnd seg) :: uint16) :: uint32) = sg_wnd seg"
    using assms by (intro ucast_up_down) (auto simp: wire_ok_def)
  then show "decode_seg host (ikcp_encode_seg host' seg @ rest) =
      (seg\<lparr>sg_resendts := 0, sg_rto := 0, sg_fastack := 0, sg_xmit := 0, sg_data := []\<rparr>, rest)"
    using assms by (subst decode_encode_seg) (auto simp: wire_ok_def ikcp_segment_new_def)
qed (simp_all add: ikcp_encode_seg_def encode32u_le encode16u_le ikcp_encode8u_def ikcp_getconv_def)

theorem segment_header_round_trip_witness:
  "ikcp_getconv BigEndian (ikcp_encode_seg LittleEndian (ikcp_segment_new\<lparr>sg_conv := 0x11223344,
     sg_cmd := 81, sg_frg := 3, sg_wnd := 32, sg_sn := 7\<rparr>) @ [1]) = 0x11223344"
  using segment_header_round_trip [of "ikcp_segment_new\<lparr>sg_conv := 0x11223344,
     sg_cmd := 81, sg_frg := 3, sg_wnd := 32, sg_sn := 7\<rparr>" BigEndian LittleEndian "[1]"]
  by (simp add: wire_ok_def ikcp_segment_new_def)

end
