(* ===== verification/KcpStream.thy ===== *)
theory KcpStream
  imports Kcp
begin

text \<open>
  Messages and fragments. A message is cut into fragments of at most \<open>mss\<close> bytes, numbered downwards
  to 0; a connection carries the concatenation of the fragment lists of its messages, and the
  serial number of a segment is its position in that stream, modulo \<open>2 ^ 32\<close>.

  The theory defines this specification (\<open>chunks\<close>, \<open>frags\<close>, \<open>valid_frags\<close>, \<open>carries\<close>) and shows that
  \<open>ikcp_send\<close> queues exactly the fragments of a message and that the merging loop of \<open>ikcp_recv\<close>
  returns exactly a message when its fragments head the queue.
\<close>

section \<open>Specification\<close>

type_synonym fragment = "uint32 \<times> uint8 list"

function chunks :: "nat \<Rightarrow> 'a list \<Rightarrow> 'a list list" where
  "chunks m xs = (if m = 0 \<or> length xs \<le> m then [xs] else take m xs # chunks m (drop m xs))"
  by pat_completeness auto
termination by (relation "measure (\<lambda>(m, xs). length xs)") auto

declare chunks.simps [simp del]

definition number :: "uint8 list list \<Rightarrow> fragment list" where
  "number cs = zip (map of_nat (rev [0..<length cs])) cs"

definition frags :: "nat \<Rightarrow> uint8 list \<Rightarrow> fragment list" where
  "frags m msg = number (chunks m msg)"

definition valid_frags :: "fragment list \<Rightarrow> bool" where
  "valid_frags fs \<longleftrightarrow> fs \<noteq> [] \<and> length fs \<le> 255 \<and> map fst fs = map of_nat (rev [0..<length fs]) \<and>
     length (concat (map snd fs)) < 2 ^ 31"

definition message :: "fragment list \<Rightarrow> uint8 list" where
  "message fs = concat (map snd fs)"

definition content :: "IKCPSEG \<Rightarrow> fragment" where
  "content seg = (sg_frg seg, sg_data seg)"

definition seg_ok :: "IKCPSEG \<Rightarrow> bool" where
  "seg_ok seg \<longleftrightarrow> length (sg_data seg) = unat (sg_len seg)"

definition carries :: "fragment list \<Rightarrow> nat \<Rightarrow> IKCPSEG \<Rightarrow> bool" where
  "carries xs k seg \<longleftrightarrow> k < length xs \<and> sg_sn seg = of_nat k \<and> content seg = xs ! k \<and> seg_ok seg"

lemma carries_append: "carries xs k seg \<Longrightarrow> carries (xs @ ys) k seg"
  by (simp add: carries_def nth_append)

section \<open>Chunks\<close>

lemma concat_chunks [simp]: "concat (chunks m xs) = xs"
  by (induction m xs rule: chunks.induct) (subst chunks.simps, auto)

lemma chunks_ne [simp]: "chunks m xs \<noteq> []"
  by (subst chunks.simps) auto

lemma chunks_length_le: "0 < m \<Longrightarrow> c \<in> set (chunks m xs) \<Longrightarrow> length c \<le> m"
  by (induction m xs rule: chunks.induct) (subst (asm) chunks.simps, auto split: if_splits)

lemma length_chunks:
  "0 < m \<Longrightarrow> length (chunks m xs) = (if xs = [] then 1 else (length xs + m - 1) div m)"
proof (induction m xs rule: chunks.induct)
  case (1 m xs)
  show ?case
  proof (cases "length xs \<le> m")
    case True
    then have "length (chunks m xs) = 1" by (simp add: chunks.simps)
    moreover have "(length xs + m - 1) div m = 1" if "xs \<noteq> []"
      using that True \<open>0 < m\<close> by (cases xs) (auto intro!: div_nat_eqI)
    ultimately show ?thesis by simp
  next
    case False
    then have "length (chunks m (drop m xs)) = (length xs - m + m - 1) div m" using 1 by simp
    moreover have "(length xs + m - 1) div m = Suc ((length xs - m + m - 1) div m)"
      using False \<open>0 < m\<close> by (subst le_div_geq) (auto simp: add.commute)
    ultimately show ?thesis using False \<open>0 < m\<close> by (subst chunks.simps) auto
  qed
qed

lemma number_Cons: "number (c # cs) = (of_nat (length cs), c) # number cs"
  by (simp add: number_def)

lemma length_number [simp]: "length (number cs) = length cs"
  by (simp add: number_def)

lemma snd_number [simp]: "map snd (number cs) = cs"
  by (simp add: number_def)

lemma fst_number [simp]: "map fst (number cs) = map of_nat (rev [0..<length cs])"
  by (simp add: number_def)

lemma message_frags [simp]: "message (frags m msg) = msg"
  by (simp add: message_def frags_def)

lemma valid_frags_frags:
  "length (chunks m msg) \<le> 255 \<Longrightarrow> length msg < 2 ^ 31 \<Longrightarrow> valid_frags (frags m msg)"
  by (auto simp: valid_frags_def frags_def number_def)

section \<open>Sending\<close>

definition new_segment :: "fragment \<Rightarrow> IKCPSEG" where
  "new_segment f = ikcp_segment_new\<lparr>sg_data := snd f, sg_len := of_nat (length (snd f)), sg_frg := fst f\<rparr>"

lemma fragment_loop_chunks:
  assumes "0 < m" "sint (kc_mss kcp) = int m" "kc_stream kcp = 0"
  shows "fragment_loop (length (chunks m msg)) msg (int (length msg)) kcp =
    kcp\<lparr>kc_snd_queue := kc_snd_queue kcp @ map new_segment (frags m msg),
        kc_nsnd_que := kc_nsnd_que kcp + of_nat (length (chunks m msg))\<rparr>"
  using assms
proof (induction m msg arbitrary: kcp rule: chunks.induct)
  case (1 m msg)
  show ?case
  proof (cases "length msg \<le> m")
    case True
    then show ?thesis
      using 1(2-4) by (simp add: chunks.simps [of m msg] frags_def number_def new_segment_def Let_def)
  next
    case False
    let ?k = "kcp\<lparr>kc_snd_queue := kc_snd_queue kcp @ [new_segment (of_nat (length (chunks m (drop m msg))), take m msg)],
      kc_nsnd_que := kc_nsnd_que kcp + 1\<rparr>"
    have "chunks m msg = take m msg # chunks m (drop m msg)" using False 1(2) by (subst chunks.simps) auto
    moreover have "fragment_loop (length (chunks m (drop m msg))) (drop m msg) (int (length (drop m msg))) ?k =
        ?k\<lparr>kc_snd_queue := kc_snd_queue ?k @ map new_segment (frags m (drop m msg)),
           kc_nsnd_que := kc_nsnd_que ?k + of_nat (length (chunks m (drop m msg)))\<rparr>"
      using False 1(2-4) by (intro "1.IH") auto
    ultimately show ?thesis
      using False 1(2-4) by (simp add: frags_def number_Cons new_segment_def Let_def of_nat_diff)
  qed
qed

definition mss_ok :: "IKCPCB \<Rightarrow> bool" where
  "mss_ok kcp \<longleftrightarrow> 0 < unat (kc_mss kcp) \<and> unat (kc_mss kcp) < 2 ^ 31"

lemma sint_of_nat: "n < 2 ^ 31 \<Longrightarrow> sint (of_nat n :: uint32) = int n"
  using itimediff_of_nat [of n 0] by (simp add: itimediff_def)

lemma sint_small32: "unat (w :: uint32) < 2 ^ 31 \<Longrightarrow> sint w = int (unat w)"
  using sint_of_nat [of "unat w"] by simp

lemma unat_of_nat32: "n < 2 ^ 32 \<Longrightarrow> unat (of_nat n :: uint32) = n"
  by (simp add: unsigned_of_nat take_bit_nat_eq_self)

lemma send_count_chunks:
  assumes "mss_ok kcp" "length msg < 2 ^ 31"
  shows "send_count (int (length msg)) (kc_mss kcp) = int (length (chunks (unat (kc_mss kcp)) msg))"
proof -
  define m where "m = unat (kc_mss kcp)"
  have m: "0 < m" "m < 2 ^ 31" and mss: "kc_mss kcp = of_nat m"
    using assms(1) by (auto simp: mss_ok_def m_def)
  have sm: "sint (kc_mss kcp) = int m" using m(2) by (simp add: sint_small32 m_def)
  show ?thesis
  proof (cases "length msg \<le> m")
    case True
    then show ?thesis using sm by (simp add: send_count_def chunks.simps [of m] flip: m_def)
  next
    case False
    have "(of_int (int (length msg)) + kc_mss kcp - 1 :: uint32) = of_nat (length msg + m - 1)"
      using m(1) by (simp add: mss of_nat_diff)
    then have w: "(of_int (int (length msg)) + kc_mss kcp - 1) div kc_mss kcp =
        of_nat ((length msg + m - 1) div m)"
      using assms(2) m(2) by (simp only: word_arith_nat_div) (simp add: unat_of_nat32 m_def [symmetric])
    have "(length msg + m - 1) div m < 2 ^ 31"
      using assms(2) m(1) False by (simp add: div_less_iff_less_mult)
    then show ?thesis
      using False sm length_chunks [OF m(1), of msg] w
      by (auto simp: send_count_def sint_of_nat simp flip: m_def)
  qed
qed

lemma ikcp_send_eq:
  assumes "mss_ok kcp" "kc_stream kcp = 0" "length msg < 2 ^ 31"
  shows "ikcp_send msg (int (length msg)) kcp =
      (let n = length (chunks (unat (kc_mss kcp)) msg)
       in if n > 255 then Inr (-2, kcp)
          else Inr (0, kcp\<lparr>kc_snd_queue := kc_snd_queue kcp @ map new_segment (frags (unat (kc_mss kcp)) msg),
                 kc_nsnd_que := kc_nsnd_que kcp + of_nat n\<rparr>))"
proof -
  have mss: "0 < unat (kc_mss kcp)" "sint (kc_mss kcp) = int (unat (kc_mss kcp))" "\<not> \<not> 0 < kc_mss kcp"
    using assms(1) by (auto simp: mss_ok_def sint_small32 word_less_nat_alt)
  show ?thesis
    using fragment_loop_chunks [OF mss(1,2) assms(2), of msg] send_count_chunks [OF assms(1,3)] assms(2) mss(3)
    by (simp add: ikcp_send_def Let_def)
qed

text \<open>
  Without streaming, \<open>ikcp_send\<close> appends exactly the numbered fragments of the message to the
  send queue, or refuses the message and leaves the control block as it is: with -1 for a negative
  length and with -2 for more than 255 fragments.
\<close>

theorem send_queues_fragments:
  assumes "mss_ok kcp" "kc_stream kcp = 0" "length msg < 2 ^ 31"
  shows "ikcp_send msg (int (length msg)) kcp =
      (let n = length (chunks (unat (kc_mss kcp)) msg)
       in if n > 255 then Inr (-2, kcp)
          else Inr (0, kcp\<lparr>kc_snd_queue := kc_snd_queue kcp @ map new_segment (frags (unat (kc_mss kcp)) msg),
                 kc_nsnd_que := kc_nsnd_que kcp + of_nat n\<rparr>)) \<and>
    message (frags (unat (kc_mss kcp)) msg) = msg \<and>
    (\<forall>len < 0. ikcp_send msg len kcp = Inr (-1, kcp))"
  using ikcp_send_eq [OF assms] assms(1) by (simp add: ikcp_send_def mss_ok_def word_less_nat_alt)

theorem send_queues_fragments_witness:
  "ikcp_send [1, 2, 3] 3 (ikcp_create 5) =
     Inr (0, (ikcp_create 5)\<lparr>kc_snd_queue := [new_segment (0, [1, 2, 3])], kc_nsnd_que := 1\<rparr>)"
  using send_queues_fragments [of "ikcp_create 5" "[1, 2, 3]"]
  by (simp add: mss_ok_def ikcp_create_def kcp_consts chunks.simps frags_def number_def Let_def)

section \<open>Merging\<close>

lemma of_nat_eq_0_32: "n < 2 ^ 32 \<Longrightarrow> (of_nat n :: uint32) = 0 \<longleftrightarrow> n = 0"
  using unat_of_nat32 [of n] by auto

text \<open>A queue that starts with a fragment: its number and length, and what remains.\<close>

lemma head_fragment:
  assumes "map content q = f # fs @ rest" "\<forall>seg \<in> set q. seg_ok seg"
    "map fst (f # fs) = map of_nat (rev [0..<length (f # fs)])" "length fs \<le> 255"
  obtains seg q' where "q = seg # q'" "map content q' = fs @ rest" "\<forall>seg \<in> set q'. seg_ok seg"
    "sg_len seg = of_nat (length (snd f))" "take (unat (sg_len seg)) (sg_data seg) = snd f"
    "sg_frg seg = of_nat (length fs)" "sg_frg seg = 0 \<longleftrightarrow> fs = []"
    "map fst fs = map of_nat (rev [0..<length fs])"
proof -
  obtain seg q' where q: "q = seg # q'" "content seg = f" "map content q' = fs @ rest"
    using assms(1) by (cases q) auto
  have d: "sg_data seg = snd f" using q(2) by (auto simp: content_def)
  have len: "unat (sg_len seg) = length (snd f)" using assms(2) q(1) d by (simp add: seg_ok_def)
  have frg: "sg_frg seg = of_nat (length fs)" using assms(3) q(2) by (auto simp: content_def)
  have "length fs < 2 ^ 32" using assms(4) by simp
  then show thesis
    using q assms(2,3) d len frg of_nat_eq_0_32 [of "length fs"]
    by (intro that [of seg q']) (auto simp flip: len)
qed

lemma peek_loop_frags:
  assumes "map content q = fs @ rest" "\<forall>seg \<in> set q. seg_ok seg" "fs \<noteq> []"
    "map fst fs = map of_nat (rev [0..<length fs])" "length fs \<le> 255"
  shows "peek_loop q len = len + of_nat (length (message fs))"
  using assms
proof (induction fs arbitrary: q len)
  case (Cons f fs)
  from Cons.prems(1,2,4,5) obtain seg q' where q: "q = seg # q'" "map content q' = fs @ rest"
    "\<forall>seg \<in> set q'. seg_ok seg" "sg_len seg = of_nat (length (snd f))" "sg_frg seg = 0 \<longleftrightarrow> fs = []"
    "map fst fs = map of_nat (rev [0..<length fs])"
    using head_fragment [of q f fs rest] by (metis append_Cons length_Cons Suc_leD)
  show ?case
  proof (cases "fs = []")
    case False
    then have "peek_loop q' (len + sg_len seg) = len + sg_len seg + of_nat (length (message fs))"
      using Cons.prems(5) q by (intro Cons.IH) auto
    then show ?thesis using q False by (simp add: message_def)
  qed (use q in \<open>simp add: message_def\<close>)
qed simp

lemma merge_loop_frags:
  assumes "map content q = fs @ rest" "\<forall>seg \<in> set q. seg_ok seg" "fs \<noteq> []"
    "map fst fs = map of_nat (rev [0..<length fs])" "length fs \<le> 255"
  shows "merge_loop ispeek q buffer len n =
    (buffer @ message fs, len + of_nat (length (message fs)),
     (if ispeek then n else n - of_nat (length fs)), drop (length fs) q)"
  using assms
proof (induction fs arbitrary: q len n buffer)
  case (Cons f fs)
  from Cons.prems(1,2,4,5) obtain seg q' where q: "q = seg # q'" "map content q' = fs @ rest"
    "\<forall>seg \<in> set q'. seg_ok seg" "sg_len seg = of_nat (length (snd f))"
    "take (unat (sg_len seg)) (sg_data seg) = snd f" "sg_frg seg = 0 \<longleftrightarrow> fs = []"
    "map fst fs = map of_nat (rev [0..<length fs])"
    using head_fragment [of q f fs rest] by (metis append_Cons length_Cons Suc_leD)
  show ?case
  proof (cases "fs = []")
    case False
    let ?n = "if ispeek then n else n - 1"
    have "merge_loop ispeek q' (buffer @ snd f) (len + sg_len seg) ?n =
        (buffer @ snd f @ message fs, len + sg_len seg + of_nat (length (message fs)),
         (if ispeek then ?n else ?n - of_nat (length fs)), drop (length fs) q')"
      using Cons.prems(5) q False by (subst Cons.IH) auto
    then show ?thesis using q False by (simp add: message_def)
  qed (use q in \<open>simp add: message_def\<close>)
qed simp

end
