(* ===== verification/KcpReceive.thy ===== *)
theory KcpReceive
  imports KcpStream
begin

text \<open>
  The receiving side of \<open>ikcp.c\<close>. The abstract state of a receiver of the stream \<open>xs\<close> is the number \<open>M\<close> of
  segments that the application has read and the set of segments that have arrived; the receive
  queue holds the segments \<open>M ..< N\<close> and the receive buffer those after \<open>N\<close>, in order and without
  repetition. The lemmas show that every function of the receiving side keeps this relation, that
  \<open>ikcp_parse_data\<close> adds exactly the segment it gets, and that \<open>ikcp_recv\<close> returns whole messages in order.

  Serial numbers are compared modulo \<open>2 ^ 32\<close>: the relation bounds the stream and the window by \<open>2 ^ 30\<close>,
  so that all differences are exact.
\<close>

section \<open>The relation\<close>

definition rcv_at :: "fragment list \<Rightarrow> nat \<Rightarrow> nat \<Rightarrow> nat list \<Rightarrow> IKCPCB \<Rightarrow> bool" where
  "rcv_at xs M N ks kcp \<longleftrightarrow>
     length xs \<le> 2 ^ 30 \<and> unat (kc_rcv_wnd kcp) \<le> 2 ^ 30 \<and> M \<le> N \<and> N \<le> length xs \<and>
     kc_rcv_nxt kcp = of_nat N \<and>
     map content (kc_rcv_queue kcp) = take (N - M) (drop M xs) \<and> (\<forall>seg \<in> set (kc_rcv_queue kcp). seg_ok seg) \<and>
     kc_nrcv_que kcp = of_nat (N - M) \<and>
     sorted_wrt (<) ks \<and> list_all2 (carries xs) ks (kc_rcv_buf kcp) \<and> (\<forall>k \<in> set ks. N \<le> k) \<and>
     kc_nrcv_buf kcp = of_nat (length ks)"

definition received :: "nat \<Rightarrow> nat list \<Rightarrow> nat set" where
  "received N ks = {..<N} \<union> set ks"

definition settled :: "IKCPCB \<Rightarrow> bool" where
  "settled kcp \<longleftrightarrow> (case kc_rcv_buf kcp of [] \<Rightarrow> True
     | seg # _ \<Rightarrow> sg_sn seg \<noteq> kc_rcv_nxt kcp \<or> kc_nrcv_que kcp \<ge> kc_rcv_wnd kcp)"

lemma carries_diff:
  assumes "k < 2 ^ 30" "k' < 2 ^ 30" "sg_sn a = of_nat k" "sg_sn b = of_nat k'"
  shows "itimediff (sg_sn a) (sg_sn b) = int k - int k'" "sg_sn a = sg_sn b \<longleftrightarrow> k = k'"
  using itimediff_of_nat [of k k'] of_nat_word32_eq [of k k'] assms by auto

section \<open>Insertion into the receive buffer\<close>

lemma rcv_insert_spec:
  assumes "list_all2 (carries xs) ks segs" "sorted_wrt (>) ks" "carries xs k newseg" "length xs \<le> 2 ^ 30"
  shows "case rcv_insert newseg segs of
      None \<Rightarrow> k \<in> set ks
    | Some segs' \<Rightarrow> \<exists>ks'. list_all2 (carries xs) ks' segs' \<and> sorted_wrt (>) ks' \<and>
        set ks' = insert k (set ks) \<and> length ks' = Suc (length ks)"
  using assms
proof (induction ks segs rule: list_all2_induct)
  case Nil
  then show ?case by (auto intro!: exI [of _ "[k]"])
next
  case (Cons k' ks seg segs)
  have d: "itimediff (sg_sn newseg) (sg_sn seg) = int k - int k'" "sg_sn newseg = sg_sn seg \<longleftrightarrow> k = k'"
    using Cons.prems Cons.hyps(1) carries_diff [of k k' newseg seg] by (auto simp: carries_def)
  show ?case
  proof (cases "k \<ge> k'")
    case True
    have "x < k" if "x \<in> set ks" for x
      using Cons.prems(1) that True less_le_trans [of x k' k] by auto
    then show ?thesis
      using True d Cons by (auto intro!: exI [of _ "k # k' # ks"])
  next
    case False
    then have "rcv_insert newseg (seg # segs) = map_option ((#) seg) (rcv_insert newseg segs)" using d by auto
    moreover have "sorted_wrt (>) (k' # ks')" if "set ks' = insert k (set ks)" "sorted_wrt (>) ks'" for ks'
      using that Cons.prems(1) False by auto
    ultimately show ?thesis
      using Cons.IH Cons.prems Cons.hyps(1) False
      by (auto split: option.splits)
  qed
qed

section \<open>Delivery to the receive queue\<close>

lemma move_ready_frame [simp]:
  "kc_snd_queue (move_ready kcp) = kc_snd_queue kcp" "kc_snd_buf (move_ready kcp) = kc_snd_buf kcp"
  "kc_snd_nxt (move_ready kcp) = kc_snd_nxt kcp" "kc_snd_una (move_ready kcp) = kc_snd_una kcp"
  "kc_rcv_wnd (move_ready kcp) = kc_rcv_wnd kcp" "kc_conv (move_ready kcp) = kc_conv kcp"
  "kc_mss (move_ready kcp) = kc_mss kcp" "kc_mtu (move_ready kcp) = kc_mtu kcp"
  "kc_bufsize (move_ready kcp) = kc_bufsize kcp" "kc_stream (move_ready kcp) = kc_stream kcp"
  "kc_acklist (move_ready kcp) = kc_acklist kcp" "kc_ackcount (move_ready kcp) = kc_ackcount kcp"
  "kc_ackblock (move_ready kcp) = kc_ackblock kcp" "kc_nsnd_que (move_ready kcp) = kc_nsnd_que kcp"
  "kc_nsnd_buf (move_ready kcp) = kc_nsnd_buf kcp" "kc_rmt_wnd (move_ready kcp) = kc_rmt_wnd kcp"
  by (induction kcp rule: move_ready.induct; subst move_ready.simps; auto split: list.splits)+

lemma move_ready_settled: "settled (move_ready kcp)"
proof (induction kcp rule: move_ready.induct)
  case (1 kcp)
  then show ?case
    by (subst move_ready.simps) (auto simp: settled_def split: list.splits)
qed

lemma rcv_at_move:
  assumes "rcv_at xs M N (N # ks) kcp" "kc_rcv_buf kcp = seg # rest"
  shows "rcv_at xs M (Suc N) ks (kcp\<lparr>kc_rcv_buf := rest, kc_nrcv_buf := kc_nrcv_buf kcp - 1,
    kc_rcv_queue := kc_rcv_queue kcp @ [seg], kc_nrcv_que := kc_nrcv_que kcp + 1,
    kc_rcv_nxt := kc_rcv_nxt kcp + 1\<rparr>)"
proof -
  have c: "carries xs N seg" using assms by (auto simp: rcv_at_def)
  have "take (Suc N - M) (drop M xs) = take (N - M) (drop M xs) @ [content seg]"
    using c assms(1) take_Suc_conv_app_nth [of "N - M" "drop M xs"] diff_less_mono [of N "length xs" M]
    by (simp add: rcv_at_def carries_def Suc_diff_le)
  then show ?thesis
    using assms c by (auto simp: rcv_at_def carries_def Suc_diff_le Suc_le_eq)
qed

lemma move_ready_rcv_at:
  "rcv_at xs M N ks kcp \<Longrightarrow>
     \<exists>N' ks'. rcv_at xs M N' ks' (move_ready kcp) \<and> N \<le> N' \<and> received N' ks' = received N ks"
proof (induction kcp arbitrary: N ks rule: move_ready.induct)
  case (1 kcp)
  show ?case
  proof (cases "settled kcp")
    case True
    then have "move_ready kcp = kcp" by (subst move_ready.simps) (auto simp: settled_def split: list.splits)
    then show ?thesis using "1.prems" by auto
  next
    case False
    then obtain seg rest where buf: "kc_rcv_buf kcp = seg # rest" "sg_sn seg = kc_rcv_nxt kcp"
      "kc_nrcv_que kcp < kc_rcv_wnd kcp" by (auto simp: settled_def not_le split: list.splits)
    then obtain k ks' where ks: "ks = k # ks'" "carries xs k seg"
      using "1.prems" by (cases ks) (auto simp: rcv_at_def)
    have "k = N"
      using ks(2) buf(2) "1.prems" of_nat_word32_eq [of k N] by (auto simp: rcv_at_def carries_def)
    let ?k = "kcp\<lparr>kc_rcv_buf := rest, kc_nrcv_buf := kc_nrcv_buf kcp - 1,
      kc_rcv_queue := kc_rcv_queue kcp @ [seg], kc_nrcv_que := kc_nrcv_que kcp + 1,
      kc_rcv_nxt := kc_rcv_nxt kcp + 1\<rparr>"
    have "rcv_at xs M (Suc N) ks' ?k"
      using "1.prems" unfolding ks(1) \<open>k = N\<close> by (rule rcv_at_move [OF _ buf(1)])
    then obtain N' ks'' where "rcv_at xs M N' ks'' (move_ready ?k)" "Suc N \<le> N'"
      "received N' ks'' = received (Suc N) ks'"
      using "1.IH" [OF buf(1)] buf(2,3) by blast
    moreover have "move_ready kcp = move_ready ?k" using buf by (subst move_ready.simps) simp
    moreover have "received (Suc N) ks' = received N ks"
      unfolding ks(1) \<open>k = N\<close> by (auto simp: received_def less_Suc_eq)
    ultimately show ?thesis by (auto intro!: exI [of _ N'] exI [of _ ks''])
  qed
qed

section \<open>Arrival of a segment\<close>

lemma window_diff:
  assumes "rcv_at xs M N ks kcp" "k < 2 ^ 30" "sg_sn seg = of_nat k"
  shows "itimediff (sg_sn seg) (kc_rcv_nxt kcp + kc_rcv_wnd kcp) = int k - int (N + unat (kc_rcv_wnd kcp))"
    "itimediff (sg_sn seg) (kc_rcv_nxt kcp) = int k - int N"
proof -
  define w where "w = unat (kc_rcv_wnd kcp)"
  have N: "kc_rcv_nxt kcp = of_nat N" "N \<le> 2 ^ 30" "w \<le> 2 ^ 30" "kc_rcv_wnd kcp = of_nat w"
    using assms(1) by (auto simp: rcv_at_def w_def)
  have "kc_rcv_nxt kcp + kc_rcv_wnd kcp = of_nat (N + w)" by (simp add: N(1,4))
  then show "itimediff (sg_sn seg) (kc_rcv_nxt kcp + kc_rcv_wnd kcp) = int k - int (N + unat (kc_rcv_wnd kcp))"
    using assms(2) N(2,3) unfolding assms(3) w_def [symmetric] by (simp only:) (rule itimediff_of_nat, auto)
  show "itimediff (sg_sn seg) (kc_rcv_nxt kcp) = int k - int N"
    using assms(2) N(2) unfolding assms(3) N(1) by (intro itimediff_of_nat) auto
qed

lemma rcv_at_insert:
  assumes "rcv_at xs M N ks kcp" "carries xs k newseg" "N \<le> k"
  shows "\<exists>ks'. rcv_at xs M N ks' (case rcv_insert newseg (rev (kc_rcv_buf kcp)) of
      Some buf \<Rightarrow> kcp\<lparr>kc_rcv_buf := rev buf, kc_nrcv_buf := kc_nrcv_buf kcp + 1\<rparr> | None \<Rightarrow> kcp) \<and>
    set ks' = insert k (set ks)"
proof -
  have "list_all2 (carries xs) (rev ks) (rev (kc_rcv_buf kcp))" "sorted_wrt (>) (rev ks)" "length xs \<le> 2 ^ 30"
    using assms(1) by (auto simp: rcv_at_def list_all2_rev sorted_wrt_rev)
  note spec = rcv_insert_spec [OF this(1,2) assms(2) this(3)]
  show ?thesis
  proof (cases "rcv_insert newseg (rev (kc_rcv_buf kcp))")
    case None
    then show ?thesis using assms(1) spec by (auto intro!: exI [of _ ks])
  next
    case (Some buf)
    then obtain ks' where ks': "list_all2 (carries xs) ks' buf" "sorted_wrt (>) ks'"
      "set ks' = insert k (set ks)" "length ks' = Suc (length ks)" using spec by auto
    have "rcv_at xs M N (rev ks') (kcp\<lparr>kc_rcv_buf := rev buf, kc_nrcv_buf := kc_nrcv_buf kcp + 1\<rparr>)"
      using assms(1,3) ks' by (simp add: rcv_at_def list_all2_rev sorted_wrt_rev)
    then show ?thesis unfolding Some option.case using ks'(3) by (intro exI [of _ "rev ks'"] conjI) simp_all
  qed
qed

lemma parse_data_rcv_at:
  assumes "rcv_at xs M N ks kcp" "carries xs k newseg"
  shows "\<exists>N' ks'. rcv_at xs M N' ks' (ikcp_parse_data newseg kcp) \<and> N \<le> N' \<and>
    received N' ks' = received N ks \<union> (if N \<le> k \<and> k < N + unat (kc_rcv_wnd kcp) then {k} else {})"
proof -
  have "k < 2 ^ 30" "sg_sn newseg = of_nat k" using assms by (auto simp: rcv_at_def carries_def)
  note d = window_diff [OF assms(1) this]
  show ?thesis
  proof (cases "N \<le> k \<and> k < N + unat (kc_rcv_wnd kcp)")
    case True
    then obtain ks' where ks': "rcv_at xs M N ks' (case rcv_insert newseg (rev (kc_rcv_buf kcp)) of
        Some buf \<Rightarrow> kcp\<lparr>kc_rcv_buf := rev buf, kc_nrcv_buf := kc_nrcv_buf kcp + 1\<rparr> | None \<Rightarrow> kcp)"
      "set ks' = insert k (set ks)" using rcv_at_insert [OF assms] by blast
    have "received N ks' = received N ks \<union> {k}" using ks'(2) by (auto simp: received_def)
    moreover have "\<not> (itimediff (sg_sn newseg) (kc_rcv_nxt kcp + kc_rcv_wnd kcp) \<ge> 0 \<or>
        itimediff (sg_sn newseg) (kc_rcv_nxt kcp) < 0)" using True d by linarith
    ultimately show ?thesis
      using move_ready_rcv_at [OF ks'(1)] True by (simp add: ikcp_parse_data_def Let_def)
  next
    case False
    then have "itimediff (sg_sn newseg) (kc_rcv_nxt kcp + kc_rcv_wnd kcp) \<ge> 0 \<or>
        itimediff (sg_sn newseg) (kc_rcv_nxt kcp) < 0" using d by linarith
    then have "ikcp_parse_data newseg kcp = kcp" by (simp add: ikcp_parse_data_def Let_def)
    then show ?thesis using assms(1) False by auto
  qed
qed

section \<open>Reading\<close>

lemma queue_prefix:
  assumes "rcv_at xs M N ks kcp" "drop M xs = fs @ rest"
  shows "map content (kc_rcv_queue kcp) = take (N - M) fs @ take (N - M - length fs) rest"
    "length (kc_rcv_queue kcp) = N - M"
proof -
  show "map content (kc_rcv_queue kcp) = take (N - M) fs @ take (N - M - length fs) rest"
    using assms by (simp add: rcv_at_def)
  have "N - M \<le> length xs - M" using assms(1) by (simp add: rcv_at_def diff_le_mono)
  then have "length (map content (kc_rcv_queue kcp)) = N - M" using assms(1) by (simp add: rcv_at_def)
  then show "length (kc_rcv_queue kcp) = N - M" by simp
qed

lemma peeksize_message:
  assumes "rcv_at xs M N ks kcp" "drop M xs = fs @ rest" "valid_frags fs" "M < N"
  shows "ikcp_peeksize kcp = (if N - M < length fs then -1 else int (length (message fs)))"
proof -
  define n where "n = N - M"
  note q = queue_prefix [OF assms(1,2)]
  have ok: "\<forall>seg \<in> set (kc_rcv_queue kcp). seg_ok seg" and n: "kc_nrcv_que kcp = of_nat n" "n < 2 ^ 31"
    using assms(1) by (auto simp: rcv_at_def n_def)
  have v: "fs \<noteq> []" "length fs \<le> 255" "map fst fs = map of_nat (rev [0..<length fs])" "length (message fs) < 2 ^ 31"
    using assms(3) by (auto simp: valid_frags_def message_def)
  obtain seg q' where q': "kc_rcv_queue kcp = seg # q'" using q(2) assms(4) by (cases "kc_rcv_queue kcp") auto
  obtain f fs' where fs: "fs = f # fs'" using v(1) by (cases fs) auto
  have c: "content seg = f" using q(1) q' fs assms(4) by (auto simp: take_Cons')
  then have frg: "sg_frg seg = of_nat (length fs')" using v(3) fs by (auto simp: content_def)
  have lt: "kc_nrcv_que kcp < sg_frg seg + 1 \<longleftrightarrow> n < length fs"
  proof -
    have "sg_frg seg + 1 = of_nat (length fs)" using frg fs by simp
    then show ?thesis using n v(2) by (simp add: word_less_nat_alt unat_of_nat32)
  qed
  show ?thesis
  proof (cases "n < length fs")
    case True
    then have "sg_frg seg \<noteq> 0" using frg fs v(2) assms(4) of_nat_eq_0_32 [of "length fs'"] by (auto simp: n_def)
    then show ?thesis using True q' lt by (simp add: ikcp_peeksize_def n_def)
  next
    case False
    then have whole: "map content (kc_rcv_queue kcp) = fs @ take (n - length fs) rest" using q(1) by (simp add: n_def)
    have pk: "peek_loop (seg # q') 0 = of_nat (length (message fs))"
      using peek_loop_frags [OF whole ok v(1,3,2), of 0] q' by simp
    have "sg_len seg = of_nat (length (message fs))" if "sg_frg seg = 0" using pk that by (simp add: Let_def)
    then show ?thesis using False pk q' lt sint_of_nat [OF v(4)] by (auto simp: ikcp_peeksize_def n_def)
  qed
qed

lemma rcv_at_read:
  assumes "rcv_at xs M N ks kcp" "M + n \<le> N"
  shows "rcv_at xs (M + n) N ks (kcp\<lparr>kc_rcv_queue := drop n (kc_rcv_queue kcp),
    kc_nrcv_que := kc_nrcv_que kcp - of_nat n\<rparr>)"
proof -
  have "map content (drop n (kc_rcv_queue kcp)) = drop n (take (N - M) (drop M xs))"
    using assms(1) by (simp add: rcv_at_def drop_map [symmetric])
  also have "\<dots> = take (N - (M + n)) (drop (M + n) xs)" by (simp add: drop_take add.commute)
  finally have "map content (drop n (kc_rcv_queue kcp)) = take (N - (M + n)) (drop (M + n) xs)" .
  moreover have "(of_nat (N - M) - of_nat n :: uint32) = of_nat (N - (M + n))"
    using assms(2) by (simp add: of_nat_diff)
  ultimately show ?thesis using assms by (auto simp: rcv_at_def dest: in_set_dropD)
qed

lemma rcv_at_probe: "rcv_at xs M N ks (kcp\<lparr>kc_probe := p\<rparr>) = rcv_at xs M N ks kcp"
  by (simp add: rcv_at_def)

lemma recv_success:
  assumes "kc_rcv_queue kcp \<noteq> []" "ikcp_peeksize kcp = sint sz" "0 \<le> sint sz" "sint sz \<le> \<bar>len\<bar>"
    "merge_loop (len < 0) (kc_rcv_queue kcp) [] 0 (kc_nrcv_que kcp) = (buffer, sz, n, q)"
  shows "\<exists>p. ikcp_recv len kcp = Inr (sint sz, buffer, (move_ready (kcp\<lparr>kc_rcv_queue :=
    (if len < 0 then kc_rcv_queue kcp else q), kc_nrcv_que := n\<rparr>))\<lparr>kc_probe := p\<rparr>)"
proof -
  define k where "k = move_ready (kcp\<lparr>kc_rcv_queue := (if len < 0 then kc_rcv_queue kcp else q), kc_nrcv_que := n\<rparr>)"
  have len: "\<not> sint sz > (if len < 0 then - len else len)" using assms(4) by (simp add: abs_if)
  have "ikcp_recv len kcp = Inr (sint sz, buffer,
      if kc_nrcv_que k < kc_rcv_wnd k \<and> kc_nrcv_que kcp \<ge> kc_rcv_wnd kcp
      then k\<lparr>kc_probe := kc_probe k OR IKCP_ASK_TELL\<rparr> else k)"
    unfolding ikcp_recv_def Let_def assms(2,5) prod.case k_def using assms(1,3) len by (simp only: if_False) simp
  also have "(if kc_nrcv_que k < kc_rcv_wnd k \<and> kc_nrcv_que kcp \<ge> kc_rcv_wnd kcp
      then k\<lparr>kc_probe := kc_probe k OR IKCP_ASK_TELL\<rparr> else k) = k\<lparr>kc_probe :=
        (if kc_nrcv_que k < kc_rcv_wnd k \<and> kc_nrcv_que kcp \<ge> kc_rcv_wnd kcp
         then kc_probe k OR IKCP_ASK_TELL else kc_probe k)\<rparr>" by simp
  finally show ?thesis unfolding k_def [symmetric] by (rule exI)
qed

lemma recv_message:
  assumes at: "rcv_at xs M N ks kcp" and d: "drop M xs = fs @ rest" and v: "valid_frags fs"
  shows "if N = M then ikcp_recv len kcp = Inr (-1, [], kcp)
    else if N - M < length fs then ikcp_recv len kcp = Inr (-2, [], kcp)
    else if int (length (message fs)) > \<bar>len\<bar> then ikcp_recv len kcp = Inr (-3, [], kcp)
    else \<exists>kcp' N' ks'. ikcp_recv len kcp = Inr (int (length (message fs)), message fs, kcp') \<and>
      rcv_at xs (if len < 0 then M else M + length fs) N' ks' kcp' \<and> N \<le> N' \<and> received N' ks' = received N ks"
proof (cases "N - M < length fs \<or> int (length (message fs)) > \<bar>len\<bar>")
  case True
  have "N = M \<longleftrightarrow> kc_rcv_queue kcp = []" using queue_prefix(2) [OF at d] at by (auto simp: rcv_at_def)
  moreover have "M < N" if "N \<noteq> M" using at that by (simp add: rcv_at_def)
  ultimately show ?thesis
    using True peeksize_message [OF at d v] by (auto simp: ikcp_recv_def Let_def abs_if)
next
  case False
  have fs: "fs \<noteq> []" "length fs \<le> 255" "map fst fs = map of_nat (rev [0..<length fs])" "length (message fs) < 2 ^ 31"
    using v by (auto simp: valid_frags_def message_def)
  then have "0 < length fs" "length fs \<le> N - M" using False by auto
  then have lt: "M < N" "M + length fs \<le> N" by linarith+
  have ok: "\<forall>seg \<in> set (kc_rcv_queue kcp). seg_ok seg" using at by (simp add: rcv_at_def)
  have whole: "map content (kc_rcv_queue kcp) = fs @ take (N - M - length fs) rest"
    using queue_prefix(1) [OF at d] False by simp
  define k where "k = kcp\<lparr>kc_rcv_queue := (if len < 0 then kc_rcv_queue kcp else drop (length fs) (kc_rcv_queue kcp)),
      kc_nrcv_que := (if len < 0 then kc_nrcv_que kcp else kc_nrcv_que kcp - of_nat (length fs))\<rparr>"
  have "rcv_at xs (if len < 0 then M else M + length fs) N ks k"
    using rcv_at_read [OF at lt(2)] at by (cases "len < 0") (simp_all add: k_def)
  then obtain N' ks' where r: "rcv_at xs (if len < 0 then M else M + length fs) N' ks' (move_ready k)" "N \<le> N'"
    "received N' ks' = received N ks" using move_ready_rcv_at by blast
  have "\<exists>p. ikcp_recv len kcp = Inr (sint (of_nat (length (message fs)) :: uint32), message fs,
      (move_ready k)\<lparr>kc_probe := p\<rparr>)"
    unfolding k_def
  proof (rule recv_success)
    show "kc_rcv_queue kcp \<noteq> []" using whole fs(1) by auto
    show "ikcp_peeksize kcp = sint (of_nat (length (message fs)) :: uint32)"
      using peeksize_message [OF at d v lt(1)] False sint_of_nat [OF fs(4)] by simp
  qed (use False sint_of_nat [OF fs(4)] merge_loop_frags [OF whole ok fs(1,3,2), of "len < 0" "[]" 0] in simp_all)
  then obtain p where p: "ikcp_recv len kcp = Inr (int (length (message fs)), message fs, (move_ready k)\<lparr>kc_probe := p\<rparr>)"
    unfolding sint_of_nat [OF fs(4)] by (elim exE)
  define k' where "k' = (move_ready k)\<lparr>kc_probe := p\<rparr>"
  have "rcv_at xs (if len < 0 then M else M + length fs) N' ks' k'"
    using r(1) unfolding k'_def by (simp only: rcv_at_probe)
  then have "\<exists>kcp' N' ks'. ikcp_recv len kcp = Inr (int (length (message fs)), message fs, kcp') \<and>
      rcv_at xs (if len < 0 then M else M + length fs) N' ks' kcp' \<and> N \<le> N' \<and> received N' ks' = received N ks"
    using p r(2,3) unfolding k'_def [symmetric] by blast
  moreover have c: "\<not> N = M" "\<not> N - M < length fs" "\<not> int (length (message fs)) > \<bar>len\<bar>" using lt False by auto
  ultimately show ?thesis by (simp only: c if_False)
qed

end
