(* ===== verification/KcpSend.thy ===== *)
theory KcpSend
  imports KcpReceive
begin

text \<open>
  The sending side of \<open>ikcp.c\<close>. The stream \<open>xs\<close> is what the application has sent so far; the send queue
  holds its segments from \<open>n\<close> on, and the send buffer holds segments below \<open>n\<close>, each with its serial
  number, until they are acknowledged. The lemmas show that every function keeps this relation, that
  every packet of \<open>ikcp_flush\<close> is a sequence of genuine segments of the stream, that assembling packets
  never leaves the buffer while the segments fit the MTU, and how acknowledgements and timers behave.

  \<open>rcv_view\<close> and \<open>snd_view\<close> are the members that the two sides own; functions of one side leave the view of
  the other side unchanged.
\<close>

section \<open>Views\<close>

definition rcv_view :: "IKCPCB \<Rightarrow> uint32 \<times> uint32 \<times> uint32 \<times> IKCPSEG list \<times> uint32 \<times> IKCPSEG list \<times> uint32" where
  "rcv_view kcp = (kc_conv kcp, kc_rcv_wnd kcp, kc_rcv_nxt kcp, kc_rcv_queue kcp, kc_nrcv_que kcp, kc_rcv_buf kcp, kc_nrcv_buf kcp)"

definition snd_view :: "IKCPCB \<Rightarrow> uint32 \<times> int32 \<times> uint32 \<times> IKCPSEG list \<times> IKCPSEG list" where
  "snd_view kcp = (kc_conv kcp, kc_stream kcp, kc_snd_nxt kcp, kc_snd_queue kcp, kc_snd_buf kcp)"

definition mtu_view :: "IKCPCB \<Rightarrow> uint32 \<times> uint32 \<times> nat" where
  "mtu_view kcp = (kc_mtu kcp, kc_mss kcp, kc_bufsize kcp)"

lemmas views = rcv_view_def snd_view_def mtu_view_def

lemma rcv_at_view: "rcv_view kcp = rcv_view kcp' \<Longrightarrow> rcv_at xs M N ks kcp = rcv_at xs M N ks kcp'"
  by (simp add: rcv_at_def rcv_view_def)

lemma update_ack_views [simp]:
  "rcv_view (ikcp_update_ack rtt kcp) = rcv_view kcp" "snd_view (ikcp_update_ack rtt kcp) = snd_view kcp"
  "mtu_view (ikcp_update_ack rtt kcp) = mtu_view kcp"
  by (simp_all add: views ikcp_update_ack_def Let_def)

lemma shrink_buf_views [simp]:
  "rcv_view (ikcp_shrink_buf kcp) = rcv_view kcp" "snd_view (ikcp_shrink_buf kcp) = snd_view kcp"
  "mtu_view (ikcp_shrink_buf kcp) = mtu_view kcp"
  by (simp_all add: views ikcp_shrink_buf_def split: list.splits)

lemma parse_views [simp]:
  "rcv_view (ikcp_parse_ack sn kcp) = rcv_view kcp" "mtu_view (ikcp_parse_ack sn kcp) = mtu_view kcp"
  "rcv_view (ikcp_parse_una sn kcp) = rcv_view kcp" "mtu_view (ikcp_parse_una sn kcp) = mtu_view kcp"
  "rcv_view (ikcp_parse_fastack sn kcp) = rcv_view kcp" "mtu_view (ikcp_parse_fastack sn kcp) = mtu_view kcp"
  by (simp_all add: views ikcp_parse_ack_def ikcp_parse_una_def ikcp_parse_fastack_def Let_def split: prod.splits)

lemma ack_push_views [simp]:
  "rcv_view (ikcp_ack_push sn ts kcp) = rcv_view kcp" "snd_view (ikcp_ack_push sn ts kcp) = snd_view kcp"
  "mtu_view (ikcp_ack_push sn ts kcp) = mtu_view kcp"
  by (simp_all add: views ikcp_ack_push_def Let_def)

lemma parse_data_views [simp]:
  "snd_view (ikcp_parse_data seg kcp) = snd_view kcp" "mtu_view (ikcp_parse_data seg kcp) = mtu_view kcp"
  by (simp_all add: views ikcp_parse_data_def Let_def split: option.splits)

lemma input_cwnd_views [simp]:
  "rcv_view (input_cwnd kcp) = rcv_view kcp" "snd_view (input_cwnd kcp) = snd_view kcp"
  "mtu_view (input_cwnd kcp) = mtu_view kcp"
  by (simp_all add: views input_cwnd_def Let_def)

lemma input_push_views [simp]:
  "snd_view (input_push seg data kcp) = snd_view kcp" "mtu_view (input_push seg data kcp) = mtu_view kcp"
  by (simp_all add: input_push_def Let_def)

section \<open>The relation\<close>

definition snd_upto :: "fragment list \<Rightarrow> nat \<Rightarrow> IKCPCB \<Rightarrow> bool" where
  "snd_upto xs n kcp \<longleftrightarrow>
     n \<le> length xs \<and> kc_snd_nxt kcp = of_nat n \<and> map content (kc_snd_queue kcp) = drop n xs \<and>
     (\<forall>seg \<in> set (kc_snd_queue kcp). seg_ok seg) \<and>
     (\<forall>seg \<in> set (kc_snd_buf kcp). sg_conv seg = kc_conv kcp \<and> sg_cmd seg = IKCP_CMD_PUSH \<and> (\<exists>k < n. carries xs k seg)) \<and>
     (\<forall>f \<in> set xs. unat (fst f) < 256) \<and> kc_stream kcp = 0"

definition snd_at :: "fragment list \<Rightarrow> IKCPCB \<Rightarrow> bool" where
  "snd_at xs kcp \<longleftrightarrow> (\<exists>n. snd_upto xs n kcp)"

lemma snd_at_view: "snd_view kcp = snd_view kcp' \<Longrightarrow> snd_at xs kcp = snd_at xs kcp'"
  by (simp add: snd_at_def snd_upto_def snd_view_def)

text \<open>A function that only removes segments of the send buffer or changes their timers keeps the relation.\<close>

definition same_seg :: "IKCPSEG \<Rightarrow> IKCPSEG \<Rightarrow> bool" where
  "same_seg s t \<longleftrightarrow> sg_conv s = sg_conv t \<and> sg_cmd s = sg_cmd t \<and> sg_sn s = sg_sn t \<and> sg_frg s = sg_frg t \<and>
     sg_len s = sg_len t \<and> sg_data s = sg_data t"

lemma same_seg_refl [simp]: "same_seg s s"
  by (simp add: same_seg_def)

lemma carries_same: "same_seg s t \<Longrightarrow> carries xs k s = carries xs k t"
  by (simp add: same_seg_def carries_def content_def seg_ok_def)

lemma snd_at_buf:
  assumes "snd_at xs kcp" "\<forall>s \<in> set (kc_snd_buf kcp'). \<exists>t \<in> set (kc_snd_buf kcp). same_seg s t"
    "kc_conv kcp' = kc_conv kcp" "kc_stream kcp' = kc_stream kcp"
    "kc_snd_nxt kcp' = kc_snd_nxt kcp" "kc_snd_queue kcp' = kc_snd_queue kcp"
  shows "snd_at xs kcp'"
proof -
  obtain n where n: "snd_upto xs n kcp" using assms(1) by (auto simp: snd_at_def)
  have "sg_conv s = kc_conv kcp \<and> sg_cmd s = IKCP_CMD_PUSH \<and> (\<exists>k < n. carries xs k s)" if s: "s \<in> set (kc_snd_buf kcp')" for s
  proof -
    obtain t where t: "t \<in> set (kc_snd_buf kcp)" "same_seg s t" using assms(2) s by blast
    then show ?thesis using n carries_same [OF t(2)] by (simp add: snd_upto_def same_seg_def)
  qed
  then have "snd_upto xs n kcp'" using n assms(3-) by (simp add: snd_upto_def)
  then show ?thesis by (auto simp: snd_at_def)
qed

lemma una_loop_subset: "set (fst (una_loop una buf n)) \<subseteq> set buf"
  by (induction una buf n rule: una_loop.induct) auto

lemma ack_loop_subset: "set (fst (ack_loop sn buf n)) \<subseteq> set buf"
  by (induction sn buf n rule: ack_loop.induct) (auto split: prod.splits)

lemma fastack_loop_same: "s \<in> set (fastack_loop sn buf) \<Longrightarrow> \<exists>t \<in> set buf. same_seg s t"
  by (induction sn buf rule: fastack_loop.induct) (auto simp: same_seg_def split: if_splits)

lemma snd_at_subset:
  assumes "snd_at xs kcp" "set (kc_snd_buf kcp') \<subseteq> set (kc_snd_buf kcp)" "kc_conv kcp' = kc_conv kcp"
    "kc_stream kcp' = kc_stream kcp" "kc_snd_nxt kcp' = kc_snd_nxt kcp" "kc_snd_queue kcp' = kc_snd_queue kcp"
  shows "snd_at xs kcp'"
  using assms by (intro snd_at_buf [OF assms(1)]) (blast intro: same_seg_refl, auto)

lemma parse_una_eq: "ikcp_parse_una una kcp = kcp\<lparr>
    kc_snd_buf := fst (una_loop una (kc_snd_buf kcp) (kc_nsnd_buf kcp)),
    kc_nsnd_buf := snd (una_loop una (kc_snd_buf kcp) (kc_nsnd_buf kcp))\<rparr>"
  by (simp add: ikcp_parse_una_def Let_def split_beta)

lemma parse_una_snd_at: "snd_at xs kcp \<Longrightarrow> snd_at xs (ikcp_parse_una una kcp)"
  unfolding parse_una_eq by (erule snd_at_subset) (simp_all add: una_loop_subset)

lemma parse_ack_snd_at:
  assumes "snd_at xs kcp"
  shows "snd_at xs (ikcp_parse_ack sn kcp)"
proof -
  have "snd_at xs (kcp\<lparr>kc_snd_buf := fst (ack_loop sn (kc_snd_buf kcp) (kc_nsnd_buf kcp)),
      kc_nsnd_buf := snd (ack_loop sn (kc_snd_buf kcp) (kc_nsnd_buf kcp))\<rparr>)"
    by (rule snd_at_subset [OF assms]) (simp_all add: ack_loop_subset)
  then show ?thesis using assms by (simp add: ikcp_parse_ack_def Let_def split_beta)
qed

lemma parse_fastack_snd_at: "snd_at xs kcp \<Longrightarrow> snd_at xs (ikcp_parse_fastack sn kcp)"
  by (erule snd_at_buf) (auto simp: ikcp_parse_fastack_def dest: fastack_loop_same intro: same_seg_refl)

lemma shrink_buf_snd_at: "snd_at xs kcp \<Longrightarrow> snd_at xs (ikcp_shrink_buf kcp)"
  by (subst snd_at_view [of _ kcp]) simp_all

lemma input_ack_snd_at: "snd_at xs kcp \<Longrightarrow> snd_at xs (snd (input_ack seg maxack kcp))"
  unfolding input_ack_def Let_def snd_conv
  by (intro shrink_buf_snd_at parse_ack_snd_at) (simp add: snd_at_view [OF update_ack_views(2)])

lemma input_segment_snd_at:
  assumes "snd_at xs kcp"
  shows "snd_at xs (snd (input_segment seg data maxack kcp))"
proof -
  let ?k = "ikcp_shrink_buf (ikcp_parse_una (sg_una seg) (kcp\<lparr>kc_rmt_wnd := sg_wnd seg\<rparr>))"
  have "snd_at xs (kcp\<lparr>kc_rmt_wnd := sg_wnd seg\<rparr>)" using assms by (simp add: snd_at_def snd_upto_def)
  then have k: "snd_at xs ?k" by (intro shrink_buf_snd_at parse_una_snd_at)
  then have "snd_at xs (?k\<lparr>kc_probe := p\<rparr>)" for p by (simp add: snd_at_def snd_upto_def)
  moreover have "snd_at xs (input_push seg data ?k)" using k by (simp add: snd_at_view [OF input_push_views(1)])
  ultimately show ?thesis
    using k input_ack_snd_at [OF k] unfolding input_segment_def Let_def by (simp del: shrink_buf_views)
qed

text \<open>What every segment keeps, a packet keeps.\<close>

lemma input_loop_invariant:
  assumes "P kcp" "\<And>seg data maxack kcp. P kcp \<Longrightarrow> P (snd (input_segment seg data maxack kcp))"
  shows "P (snd (snd (input_loop host data maxack kcp)))"
  using assms(1)
proof (induction host data maxack kcp rule: input_loop.induct)
  case (1 host data maxack kcp)
  obtain seg data' where d: "decode_seg host data = (seg, data')" by fastforce
  obtain m k where s: "input_segment seg data' maxack kcp = (m, k)" by fastforce
  have "P k" using assms(2) [OF "1.prems", of seg data' maxack] s by simp
  then show ?case
    using "1.prems" "1.IH" [OF _ d [symmetric] _ _ _ _ s [symmetric]]
    by (subst input_loop.simps) (simp add: d s del: insert_iff)
qed

lemma ikcp_input_invariant:
  assumes "P kcp" "\<And>seg data maxack kcp. P kcp \<Longrightarrow> P (snd (input_segment seg data maxack kcp))"
    "\<And>sn kcp. P kcp \<Longrightarrow> P (ikcp_parse_fastack sn kcp)" "\<And>kcp. P kcp \<Longrightarrow> P (input_cwnd kcp)"
  shows "P (snd (ikcp_input host data kcp))"
proof -
  obtain ret maxack k where r: "input_loop host data None kcp = (ret, maxack, k)" by (metis prod_cases3)
  have k: "P k" using input_loop_invariant [of P kcp host data None] assms(1,2) r by simp
  then have "P (case maxack of None \<Rightarrow> k | Some sn \<Rightarrow> ikcp_parse_fastack sn k)"
    using assms(3) by (auto split: option.splits)
  then show ?thesis using k assms(1,4) r by (simp add: ikcp_input_def Let_def)
qed

lemma ikcp_input_snd_at: "snd_at xs kcp \<Longrightarrow> snd_at xs (snd (ikcp_input host data kcp))"
  by (rule ikcp_input_invariant)
    (auto intro: input_segment_snd_at parse_fastack_snd_at simp: snd_at_view [OF input_cwnd_views(2)])

section \<open>Sending\<close>

lemma snd_at_append:
  assumes "snd_at xs kcp" "map content segs = fs" "\<forall>seg \<in> set segs. seg_ok seg" "\<forall>f \<in> set fs. unat (fst f) < 256"
  shows "snd_at (xs @ fs) (kcp\<lparr>kc_snd_queue := kc_snd_queue kcp @ segs, kc_nsnd_que := c\<rparr>)"
proof -
  obtain n where n: "snd_upto xs n kcp" using assms(1) by (auto simp: snd_at_def)
  have "\<exists>k < n. carries (xs @ fs) k seg" if "seg \<in> set (kc_snd_buf kcp)" for seg
    using n that carries_append unfolding snd_upto_def by blast
  then have "snd_upto (xs @ fs) n (kcp\<lparr>kc_snd_queue := kc_snd_queue kcp @ segs, kc_nsnd_que := c\<rparr>)"
    using n assms(2-) by (auto simp: snd_upto_def)
  then show ?thesis by (auto simp: snd_at_def)
qed

lemma frags_small: "length (chunks m msg) \<le> 255 \<Longrightarrow> (a, d) \<in> set (frags m msg) \<Longrightarrow> unat a < 256"
  by (auto simp: frags_def number_def unat_of_nat32 dest!: set_zip_leftD)

lemma content_new_segment [simp]: "content (new_segment f) = f"
  by (simp add: content_def new_segment_def)

lemma seg_ok_new_segment: "length (snd f) < 2 ^ 32 \<Longrightarrow> seg_ok (new_segment f)"
  by (simp add: seg_ok_def new_segment_def unat_of_nat32)

section \<open>Moving segments to the send buffer\<close>

lemma flush_move_views [simp]:
  "rcv_view (flush_move wnd cwnd kcp) = rcv_view kcp" "mtu_view (flush_move wnd cwnd kcp) = mtu_view kcp"
  "kc_conv (flush_move wnd cwnd kcp) = kc_conv kcp" "kc_snd_una (flush_move wnd cwnd kcp) = kc_snd_una kcp"
  "kc_current (flush_move wnd cwnd kcp) = kc_current kcp"
  by (induction wnd cwnd kcp rule: flush_move.induct; subst flush_move.simps;
      auto simp: views Let_def split: list.splits)+

lemma snd_upto_move:
  assumes n: "snd_upto xs n kcp" and "kc_snd_queue kcp = seg # rest"
    "sg_conv seg' = kc_conv kcp" "sg_cmd seg' = IKCP_CMD_PUSH" "sg_sn seg' = kc_snd_nxt kcp"
    "content seg' = content seg" "sg_len seg' = sg_len seg"
  shows "carries xs n seg'" "n < length xs"
    "snd_upto xs (Suc n) (kcp\<lparr>kc_snd_queue := rest, kc_snd_buf := kc_snd_buf kcp @ [seg'],
     kc_nsnd_que := a, kc_nsnd_buf := b, kc_snd_nxt := kc_snd_nxt kcp + 1\<rparr>)"
proof -
  have q: "map content (kc_snd_queue kcp) = drop n xs" using n by (simp add: snd_upto_def)
  then show lt: "n < length xs" using assms(2) by (metis drop_eq_Nil list.distinct(1) list.simps(9) not_le)
  have d: "content seg = xs ! n" "map content rest = drop (Suc n) xs"
    using q assms(2) lt by (auto simp: Cons_nth_drop_Suc [symmetric])
  have "sg_data seg' = sg_data seg" using assms(6) by (simp add: content_def)
  then show c: "carries xs n seg'"
    using lt d(1) assms(2,5-) n by (simp add: carries_def seg_ok_def snd_upto_def)
  have "\<exists>k < Suc n. carries xs k seg" if "seg \<in> set (kc_snd_buf kcp)" for seg
    using n that less_SucI unfolding snd_upto_def by blast
  then show "snd_upto xs (Suc n) (kcp\<lparr>kc_snd_queue := rest, kc_snd_buf := kc_snd_buf kcp @ [seg'],
      kc_nsnd_que := a, kc_nsnd_buf := b, kc_snd_nxt := kc_snd_nxt kcp + 1\<rparr>)"
    using n lt d(2) c assms(2-4) by (auto simp: snd_upto_def)
qed

lemma snd_at_move:
  assumes "snd_at xs kcp" "kc_snd_queue kcp = seg # rest"
    "sg_conv seg' = kc_conv kcp" "sg_cmd seg' = IKCP_CMD_PUSH" "sg_sn seg' = kc_snd_nxt kcp"
    "content seg' = content seg" "sg_len seg' = sg_len seg"
  shows "snd_at xs (kcp\<lparr>kc_snd_queue := rest, kc_snd_buf := kc_snd_buf kcp @ [seg'],
     kc_nsnd_que := a, kc_nsnd_buf := b, kc_snd_nxt := kc_snd_nxt kcp + 1\<rparr>)"
  using snd_upto_move(3) [OF _ assms(2-)] assms(1) unfolding snd_at_def by blast

lemma flush_move_snd_at: "snd_at xs kcp \<Longrightarrow> snd_at xs (flush_move wnd cwnd kcp)"
proof (induction wnd cwnd kcp rule: flush_move.induct)
  case (1 wnd cwnd kcp)
  show ?case
  proof (cases "itimediff (kc_snd_nxt kcp) (kc_snd_una kcp + cwnd) < 0 \<and> kc_snd_queue kcp \<noteq> []")
    case True
    then obtain seg rest where q: "kc_snd_queue kcp = seg # rest" by (cases "kc_snd_queue kcp") auto
    show ?thesis
      using True q by (subst flush_move.simps) (simp add: Let_def, intro "1.IH" [OF _ q refl] snd_at_move [OF "1.prems" q],
        simp_all add: content_def)
  next
    case False
    then show ?thesis using "1.prems" by (subst flush_move.simps) (auto split: list.splits)
  qed
qed

section \<open>Packets\<close>

definition wire_seg :: "fragment list \<Rightarrow> uint32 \<Rightarrow> IKCPSEG \<Rightarrow> bool" where
  "wire_seg xs conv s \<longleftrightarrow> sg_conv s = conv \<and> seg_ok s \<and>
     (sg_cmd s = IKCP_CMD_PUSH \<and> (\<exists>k. carries xs k s) \<or>
      sg_cmd s \<in> {IKCP_CMD_ACK, IKCP_CMD_WASK, IKCP_CMD_WINS} \<and> sg_frg s = 0)"

definition packet_of :: "endian \<Rightarrow> fragment list \<Rightarrow> uint32 \<Rightarrow> uint8 list \<Rightarrow> bool" where
  "packet_of host xs conv p \<longleftrightarrow>
     (\<exists>segs. (\<forall>s \<in> set segs. wire_seg xs conv s) \<and> p = concat (map (segment_bytes host) segs))"

definition good_packets :: "endian \<Rightarrow> fragment list \<Rightarrow> uint32 \<Rightarrow> nat \<Rightarrow> packets \<Rightarrow> bool" where
  "good_packets host xs conv m pk \<longleftrightarrow> packet_of host xs conv (fst pk) \<and> length (fst pk) \<le> m \<and>
     (\<forall>p \<in> set (snd pk). packet_of host xs conv p \<and> p \<noteq> [] \<and> length p \<le> m)"

definition mtu_ok :: "IKCPCB \<Rightarrow> bool" where
  "mtu_ok kcp \<longleftrightarrow> 24 < unat (kc_mtu kcp) \<and> unat (kc_mtu kcp) < 2 ^ 31 \<and> unat (kc_mtu kcp) \<le> kc_bufsize kcp"

lemma packet_of_Nil: "packet_of host xs conv []"
  unfolding packet_of_def by (rule exI [of _ "[]"]) simp

lemma packet_of_append:
  assumes "packet_of host xs conv p" "wire_seg xs conv s"
  shows "packet_of host xs conv (p @ segment_bytes host s)"
proof -
  obtain segs where "\<forall>s \<in> set segs. wire_seg xs conv s" "p = concat (map (segment_bytes host) segs)"
    using assms(1) by (auto simp: packet_of_def)
  then show ?thesis using assms(2) unfolding packet_of_def by (intro exI [of _ "segs @ [s]"]) simp
qed

lemma packet_of_mono: "packet_of host xs conv p \<Longrightarrow> packet_of host (xs @ ys) conv p"
  unfolding packet_of_def wire_seg_def using carries_append by blast

lemma length_segment_bytes: "seg_ok s \<Longrightarrow> length (segment_bytes host s) = 24 + unat (sg_len s)"
  by (simp add: segment_bytes_def seg_ok_def)

lemma flush_put_good:
  assumes "mtu_ok kcp" "good_packets host xs conv (unat (kc_mtu kcp)) pk" "wire_seg xs conv s"
    "unat (sg_len s) + 24 \<le> unat (kc_mtu kcp)"
  shows "\<exists>pk'. flush_put kcp (sint (IKCP_OVERHEAD + sg_len s)) (segment_bytes host s) pk = Inr pk' \<and>
    good_packets host xs conv (unat (kc_mtu kcp)) pk'"
proof -
  define m where "m = unat (kc_mtu kcp)"
  have m: "m < 2 ^ 31" "m \<le> kc_bufsize kcp" "sint (kc_mtu kcp) = int m"
    using assms(1) sint_small32 by (auto simp: mtu_ok_def m_def)
  have need: "sint (IKCP_OVERHEAD + sg_len s) = int (length (segment_bytes host s))"
  proof -
    have "IKCP_OVERHEAD + sg_len s = of_nat (24 + unat (sg_len s))" by (simp add: IKCP_OVERHEAD_def)
    moreover have "24 + unat (sg_len s) < 2 ^ 31" using assms(4) m(1) by (simp flip: m_def)
    moreover have "seg_ok s" using assms(3) by (simp add: wire_seg_def)
    ultimately show ?thesis using length_segment_bytes [of s host] sint_of_nat [of "24 + unat (sg_len s)"] by (simp only:)
  qed
  have len: "length (segment_bytes host s) \<le> m"
    using assms(3,4) length_segment_bytes [of s host] by (simp add: wire_seg_def m_def)
  obtain buf out where pk: "pk = (buf, out)" by fastforce
  have g: "packet_of host xs conv buf" "length buf \<le> m" "\<forall>p \<in> set out. packet_of host xs conv p \<and> p \<noteq> [] \<and> length p \<le> m"
    using assms(2) by (simp_all add: good_packets_def pk m_def)
  show ?thesis
  proof (cases "length buf + length (segment_bytes host s) > m")
    case True
    then have "flush_put kcp (sint (IKCP_OVERHEAD + sg_len s)) (segment_bytes host s) pk =
        Inr (segment_bytes host s, ikcp_output buf out)"
      using len m(2,3) need by (simp add: flush_put_def pk)
    moreover have "packet_of host xs conv (segment_bytes host s)"
      using packet_of_append [OF packet_of_Nil assms(3)] by simp
    ultimately show ?thesis
      using g len unfolding m_def [symmetric] by (auto simp: good_packets_def ikcp_output_def)
  next
    case False
    then have "flush_put kcp (sint (IKCP_OVERHEAD + sg_len s)) (segment_bytes host s) pk =
        Inr (buf @ segment_bytes host s, out)"
      using m(2,3) need by (simp add: flush_put_def pk)
    then show ?thesis
      using g False packet_of_append [OF g(1) assms(3)] unfolding m_def [symmetric] by (auto simp: good_packets_def)
  qed
qed

text \<open>Acknowledgements and window commands have no payload.\<close>

definition control :: "uint32 \<Rightarrow> IKCPSEG \<Rightarrow> bool" where
  "control conv seg \<longleftrightarrow> sg_conv seg = conv \<and> sg_len seg = 0 \<and> sg_data seg = [] \<and> sg_frg seg = 0"

lemma flush_control_good:
  assumes "mtu_ok kcp" "good_packets host xs conv (unat (kc_mtu kcp)) pk" "control conv s"
    "sg_cmd s \<in> {IKCP_CMD_ACK, IKCP_CMD_WASK, IKCP_CMD_WINS}"
  shows "\<exists>pk'. flush_put kcp (sint IKCP_OVERHEAD) (ikcp_encode_seg host s) pk = Inr pk' \<and>
    good_packets host xs conv (unat (kc_mtu kcp)) pk'"
  using flush_put_good [OF assms(1,2), of s] assms
  by (simp add: control_def wire_seg_def seg_ok_def segment_bytes_def mtu_ok_def del: insert_iff)

lemma flush_acks_good:
  assumes "mtu_ok kcp"
  shows "good_packets host xs conv (unat (kc_mtu kcp)) pk \<Longrightarrow> control conv seg \<Longrightarrow> sg_cmd seg = IKCP_CMD_ACK \<Longrightarrow>
    \<exists>seg' pk'. flush_acks host kcp is seg pk = Inr (seg', pk') \<and> control conv seg' \<and>
      sg_wnd seg' = sg_wnd seg \<and> good_packets host xs conv (unat (kc_mtu kcp)) pk'"
proof (induction "is" arbitrary: seg pk)
  case (Cons i "is")
  let ?s = "seg\<lparr>sg_sn := fst (ikcp_ack_get kcp i), sg_ts := snd (ikcp_ack_get kcp i)\<rparr>"
  have s: "control conv ?s" "sg_cmd ?s = IKCP_CMD_ACK" using Cons.prems by (simp_all add: control_def)
  then obtain pk' where p: "flush_put kcp (sint IKCP_OVERHEAD) (ikcp_encode_seg host ?s) pk = Inr pk'"
    "good_packets host xs conv (unat (kc_mtu kcp)) pk'"
    using flush_control_good [OF assms Cons.prems(1) s(1)] by auto
  then show ?case using Cons.IH [OF p(2) s] by (simp add: split_beta Let_def)
qed auto

lemma flush_probe_good:
  assumes "mtu_ok kcp" "good_packets host xs conv (unat (kc_mtu kcp)) pk" "control conv seg"
    "cmd \<in> {IKCP_CMD_ACK, IKCP_CMD_WASK, IKCP_CMD_WINS}"
  shows "\<exists>pk'. flush_probe host ask cmd kcp seg pk = Inr pk' \<and> good_packets host xs conv (unat (kc_mtu kcp)) pk'"
proof (cases "kc_probe kcp AND ask = 0")
  case False
  have "control conv (seg\<lparr>sg_cmd := cmd\<rparr>)" using assms(3) by (simp add: control_def)
  then show ?thesis
    using False flush_control_good [OF assms(1,2), of "seg\<lparr>sg_cmd := cmd\<rparr>"] assms(4) by (simp add: flush_probe_def)
qed (use assms in \<open>simp add: flush_probe_def\<close>)

section \<open>Flushing\<close>

lemma resend_segment_same: "resend_segment resent rtomin kcp seg = (kind, seg') \<Longrightarrow> same_seg seg' seg"
  by (auto simp: resend_segment_def same_seg_def Let_def split: if_splits)

lemma same_seg_trans: "same_seg s t \<Longrightarrow> same_seg t u \<Longrightarrow> same_seg s u"
  by (simp add: same_seg_def)

lemma wire_same: "same_seg s t \<Longrightarrow> wire_seg xs conv t \<Longrightarrow> wire_seg xs conv s"
  using carries_same [of s t] by (auto simp: wire_seg_def same_seg_def seg_ok_def)

text \<open>The loop changes nothing of the control block but two counters.\<close>

definition counted :: "IKCPCB \<Rightarrow> IKCPCB \<Rightarrow> bool" where
  "counted kcp kcp' \<longleftrightarrow> kcp' = kcp\<lparr>kc_xmit := kc_xmit kcp', kc_state := kc_state kcp'\<rparr>"

lemma counted_refl: "counted kcp kcp"
  by (simp add: counted_def)

lemma counted_upd: "counted kcp (kcp\<lparr>kc_xmit := x\<rparr>)" "counted kcp (kcp\<lparr>kc_state := x\<rparr>)"
  by (simp_all add: counted_def)

lemma counted_trans: "counted k1 k2 \<Longrightarrow> counted k2 k3 \<Longrightarrow> counted k1 k3"
  unfolding counted_def by (erule ssubst) (erule ssubst, simp)

lemma counted_views:
  assumes "counted kcp kcp'"
  shows "rcv_view kcp' = rcv_view kcp" "snd_view kcp' = snd_view kcp" "mtu_view kcp' = mtu_view kcp"
    "kc_mtu kcp' = kc_mtu kcp" "kc_conv kcp' = kc_conv kcp" "mtu_ok kcp' = mtu_ok kcp"
  by (subst assms [unfolded counted_def], simp add: views mtu_ok_def)+

lemma flush_segment_good:
  assumes "mtu_ok kcp" "good_packets host xs conv (unat (kc_mtu kcp)) pk"
    "wire_seg xs conv seg" "unat (sg_len seg) + 24 \<le> unat (kc_mtu kcp)"
  shows "\<exists>seg' kcp' pk' change' lost'. flush_segment host wnd resent rtomin seg kcp pk change lost =
      Inr (seg', kcp', pk', change', lost') \<and>
    same_seg seg' seg \<and> counted kcp kcp' \<and> good_packets host xs conv (unat (kc_mtu kcp)) pk'"
proof -
  obtain kind seg1 where r: "resend_segment resent rtomin kcp seg = (kind, seg1)" by fastforce
  define k where "k = (if kind = Timeout then kcp\<lparr>kc_xmit := kc_xmit kcp + 1\<rparr> else kcp)"
  define s where "s = seg1\<lparr>sg_ts := kc_current k, sg_wnd := wnd, sg_una := kc_rcv_nxt k\<rparr>"
  have k: "counted kcp k" by (simp add: k_def counted_refl counted_upd)
  have same: "same_seg seg1 seg" "same_seg s seg"
    using resend_segment_same [OF r] by (simp_all add: same_seg_def s_def)
  have "wire_seg xs conv s" "unat (sg_len s) + 24 \<le> unat (kc_mtu k)"
    using wire_same [OF same(2) assms(3)] same(2) assms(4) counted_views(4) [OF k] by (simp_all add: same_seg_def)
  then obtain pk' where p: "flush_put k (sint (IKCP_OVERHEAD + sg_len s)) (segment_bytes host s) pk = Inr pk'"
    "good_packets host xs conv (unat (kc_mtu kcp)) pk'"
    using flush_put_good [of k host xs conv pk s] assms(1,2) counted_views(4,6) [OF k] by auto
  define k' where "k' = (if sg_xmit s \<ge> kc_dead_link k then k\<lparr>kc_state := -1\<rparr> else k)"
  have k': "counted kcp k'" using counted_trans [OF k] by (simp add: k'_def k counted_upd)
  have "flush_segment host wnd resent rtomin seg kcp pk change lost =
      (if kind = Skip then Inr (seg1, k, pk, change, lost)
       else Inr (s, k', pk', if kind = Fast then change + 1 else change, lost \<or> kind = Timeout))"
    unfolding flush_segment_def r Let_def prod.case k_def [symmetric] s_def [symmetric] p(1) bindE_simps k'_def [symmetric]
    by (cases kind) simp_all
  then show ?thesis using same k k' p(2) assms(2) by (cases "kind = Skip") auto
qed

lemma flush_segments_good:
  "mtu_ok kcp \<Longrightarrow> good_packets host xs conv (unat (kc_mtu kcp)) pk \<Longrightarrow>
    \<forall>s \<in> set segs. wire_seg xs conv s \<and> unat (sg_len s) + 24 \<le> unat (kc_mtu kcp) \<Longrightarrow>
    \<exists>segs' kcp' pk' change' lost'. flush_segments host wnd resent rtomin segs kcp pk change lost =
        Inr (segs', kcp', pk', change', lost') \<and>
      list_all2 same_seg segs' segs \<and> counted kcp kcp' \<and> good_packets host xs conv (unat (kc_mtu kcp)) pk'"
proof (induction segs arbitrary: kcp pk change lost)
  case Nil
  then show ?case by (simp add: counted_refl)
next
  case (Cons seg segs)
  obtain seg' kcp' pk' change' lost' where s: "flush_segment host wnd resent rtomin seg kcp pk change lost =
      Inr (seg', kcp', pk', change', lost')" "same_seg seg' seg" "counted kcp kcp'"
      "good_packets host xs conv (unat (kc_mtu kcp)) pk'"
    using flush_segment_good [OF Cons.prems(1,2), of seg] Cons.prems(3) by (metis list.set_intros(1))
  note v = counted_views [OF s(3)]
  have "mtu_ok kcp'" "good_packets host xs conv (unat (kc_mtu kcp')) pk'"
    "\<forall>s \<in> set segs. wire_seg xs conv s \<and> unat (sg_len s) + 24 \<le> unat (kc_mtu kcp')"
    using Cons.prems s(4) v by auto
  from Cons.IH [OF this, of change' lost'] obtain segs'' kcp'' pk'' change'' lost'' where
    "flush_segments host wnd resent rtomin segs kcp' pk' change' lost' = Inr (segs'', kcp'', pk'', change'', lost'')"
    "list_all2 same_seg segs'' segs" "counted kcp' kcp''" "good_packets host xs conv (unat (kc_mtu kcp)) pk''"
    using v by auto
  then show ?case using s counted_trans [OF s(3)] by simp
qed

definition fits :: "IKCPCB \<Rightarrow> bool" where
  "fits kcp \<longleftrightarrow> mtu_ok kcp \<and> unat (kc_mss kcp) + 24 = unat (kc_mtu kcp) \<and>
     (\<forall>seg \<in> set (kc_snd_queue kcp) \<union> set (kc_snd_buf kcp). unat (sg_len seg) \<le> unat (kc_mss kcp))"

lemma fits_len: "fits kcp \<Longrightarrow> seg \<in> set (kc_snd_buf kcp) \<Longrightarrow> unat (sg_len seg) + 24 \<le> unat (kc_mtu kcp)"
  unfolding fits_def by (metis UnI2 add_le_cancel_right)

lemma fits_view: "snd_view kcp = snd_view kcp' \<Longrightarrow> mtu_view kcp = mtu_view kcp' \<Longrightarrow> fits kcp = fits kcp'"
  by (simp add: fits_def mtu_ok_def views)

lemma flush_probe_timer_views [simp]:
  "rcv_view (flush_probe_timer kcp) = rcv_view kcp" "snd_view (flush_probe_timer kcp) = snd_view kcp"
  "mtu_view (flush_probe_timer kcp) = mtu_view kcp"
  by (simp_all add: views flush_probe_timer_def Let_def)

lemma flush_cwnd_views [simp]:
  "rcv_view (flush_cwnd resent cwnd change lost kcp) = rcv_view kcp"
  "snd_view (flush_cwnd resent cwnd change lost kcp) = snd_view kcp"
  "mtu_view (flush_cwnd resent cwnd change lost kcp) = mtu_view kcp"
  by (simp_all add: views flush_cwnd_def Let_def)

lemma flush_move_fits: "fits kcp \<Longrightarrow> fits (flush_move wnd cwnd kcp)"
proof (induction wnd cwnd kcp rule: flush_move.induct)
  case (1 wnd cwnd kcp)
  show ?case
  proof (cases "itimediff (kc_snd_nxt kcp) (kc_snd_una kcp + cwnd) < 0 \<and> kc_snd_queue kcp \<noteq> []")
    case True
    then obtain seg rest where q: "kc_snd_queue kcp = seg # rest" by (cases "kc_snd_queue kcp") auto
    show ?thesis
      using True q "1.prems" by (subst flush_move.simps) (simp add: Let_def, intro "1.IH" [OF _ q refl],
        auto simp: fits_def mtu_ok_def)
  next
    case False
    then show ?thesis using "1.prems" by (subst flush_move.simps) (auto split: list.splits)
  qed
qed

lemma snd_at_wire:
  assumes "snd_at xs kcp" "seg \<in> set (kc_snd_buf kcp)"
  shows "wire_seg xs (kc_conv kcp) seg"
proof -
  obtain n where "snd_upto xs n kcp" using assms(1) by (auto simp: snd_at_def)
  then have "sg_conv seg = kc_conv kcp" "sg_cmd seg = IKCP_CMD_PUSH" "\<exists>k < n. carries xs k seg"
    using assms(2) by (auto simp: snd_upto_def)
  then show ?thesis by (auto simp: wire_seg_def carries_def)
qed

lemma snd_at_resent:
  assumes "snd_at xs kcp" "fits kcp" "list_all2 same_seg segs (kc_snd_buf kcp)" "counted kcp kcp'"
  shows "snd_at xs (kcp'\<lparr>kc_snd_buf := segs\<rparr>)" "fits (kcp'\<lparr>kc_snd_buf := segs\<rparr>)"
proof -
  have same: "\<forall>s \<in> set segs. \<exists>t \<in> set (kc_snd_buf kcp). same_seg s t"
    using assms(3) by (auto simp: list_all2_conv_all_nth in_set_conv_nth) (metis nth_mem)
  note v = counted_views(2,3) [OF assms(4)]
  show "snd_at xs (kcp'\<lparr>kc_snd_buf := segs\<rparr>)"
    using same v by (intro snd_at_buf [OF assms(1)]) (simp_all add: snd_view_def)
  have "unat (sg_len s) \<le> unat (kc_mss kcp)" if "s \<in> set segs" for s
    using same that assms(2) by (auto simp: fits_def same_seg_def)
  then show "fits (kcp'\<lparr>kc_snd_buf := segs\<rparr>)"
    using assms(2) v by (auto simp: fits_def mtu_ok_def views)
qed

text \<open>
  The parts of a flush: the control block \<open>k0\<close> before segments move to the send buffer, \<open>k\<close> after it, and
  the loop over the send buffer with its results.
\<close>

lemma flush_parts:
  assumes "snd_at xs kcp" "fits kcp" "kc_updated kcp \<noteq> 0"
  obtains wnd k0 k pk resent rtomin segs k' buf out change lost where
    "snd_view k0 = snd_view kcp" "mtu_view k0 = mtu_view kcp" "rcv_view k0 = rcv_view kcp"
    "kc_snd_una k0 = kc_snd_una kcp" "flush_window k0 = flush_window kcp"
    "k = flush_move wnd (flush_window k0) k0"
    "good_packets host xs (kc_conv kcp) (unat (kc_mtu kcp)) pk"
    "flush_segments host wnd resent rtomin (kc_snd_buf k) k pk 0 False = Inr (segs, k', (buf, out), change, lost)"
    "list_all2 same_seg segs (kc_snd_buf k)" "counted k k'" "good_packets host xs (kc_conv kcp) (unat (kc_mtu kcp)) (buf, out)"
    "snd_at xs k" "fits k" "rcv_view k = rcv_view kcp" "mtu_view k = mtu_view kcp" "kc_conv k = kc_conv kcp"
    "ikcp_flush host kcp = Inr (if length buf > 0 then ikcp_output buf out else out,
       flush_cwnd resent (flush_window k0) change lost (k'\<lparr>kc_snd_buf := segs\<rparr>))"
proof -
  define m where "m = unat (kc_mtu kcp)"
  let ?good = "good_packets host xs (kc_conv kcp) m"
  define seg where "seg = ikcp_segment_new\<lparr>sg_conv := kc_conv kcp, sg_cmd := IKCP_CMD_ACK,
    sg_wnd := of_int (ikcp_wnd_unused kcp), sg_una := kc_rcv_nxt kcp\<rparr>"
  have mtu: "mtu_ok kcp" using assms(2) by (simp add: fits_def)
  have "good_packets host xs (kc_conv kcp) (unat (kc_mtu kcp)) ([], [])" by (simp add: good_packets_def packet_of_Nil)
  moreover have "control (kc_conv kcp) seg" "sg_cmd seg = IKCP_CMD_ACK"
    by (simp_all add: control_def seg_def ikcp_segment_new_def)
  ultimately obtain seg' pk1 where acks:
    "flush_acks host kcp [0..<unat (kc_ackcount kcp)] seg ([], []) = Inr (seg', pk1)"
    "control (kc_conv kcp) seg'" "?good pk1"
    using flush_acks_good [OF mtu, of host xs "kc_conv kcp" "([], [])" seg "[0..<unat (kc_ackcount kcp)]"]
    unfolding m_def by blast
  define k1 where "k1 = flush_probe_timer (kcp\<lparr>kc_ackcount := 0\<rparr>)"
  have v1: "rcv_view k1 = rcv_view kcp" "snd_view k1 = snd_view kcp" "mtu_view k1 = mtu_view kcp"
    by (simp_all add: k1_def) (simp_all add: views)
  have mtu1: "mtu_ok k1" "unat (kc_mtu k1) = m" using v1(3) mtu by (simp_all add: mtu_ok_def mtu_view_def m_def)
  obtain pk2 where wask: "flush_probe host IKCP_ASK_SEND IKCP_CMD_WASK k1 seg' pk1 = Inr pk2" "?good pk2"
    using flush_probe_good [OF mtu1(1) _ acks(2)] acks(3) mtu1(2) by blast
  obtain pk3 where wins: "flush_probe host IKCP_ASK_TELL IKCP_CMD_WINS k1 seg' pk2 = Inr pk3" "?good pk3"
    using flush_probe_good [OF mtu1(1) _ acks(2)] wask(2) mtu1(2) by blast
  define k0 where "k0 = k1\<lparr>kc_probe := 0\<rparr>"
  have v0: "snd_view k0 = snd_view kcp" "mtu_view k0 = mtu_view kcp" "rcv_view k0 = rcv_view kcp" "kc_conv k0 = kc_conv kcp"
    using v1 by (simp_all add: views k0_def)
  have w0: "kc_snd_una k0 = kc_snd_una kcp" "flush_window k0 = flush_window kcp"
    by (simp_all add: k0_def k1_def flush_probe_timer_def flush_window_def Let_def)
  define k2 where "k2 = flush_move (sg_wnd seg') (flush_window k0) k0"
  have "snd_at xs k0" "fits k0" using assms(1,2) snd_at_view [OF v0(1)] fits_view [OF v0(1,2)] by simp_all
  then have k2: "snd_at xs k2" "fits k2" "rcv_view k2 = rcv_view kcp" "mtu_view k2 = mtu_view kcp" "kc_conv k2 = kc_conv kcp"
    unfolding k2_def by (simp_all add: flush_move_snd_at flush_move_fits v0)
  define resent where "resent = (if sint (kc_fastresend k2) > 0 then kc_fastresend k2 else 0xffffffff)"
  define rtomin where "rtomin = (if kc_nodelay k2 = 0 then of_int (sint (kc_rx_rto k2) div 2 ^ 3) else (0 :: uint32))"
  have "\<forall>s \<in> set (kc_snd_buf k2). wire_seg xs (kc_conv kcp) s \<and> unat (sg_len s) + 24 \<le> unat (kc_mtu k2)"
    using snd_at_wire [OF k2(1)] fits_len [OF k2(2)] k2(5) by auto
  moreover have "mtu_ok k2" "unat (kc_mtu k2) = m" using k2(2,4) by (simp_all add: fits_def mtu_view_def m_def)
  ultimately obtain segs k3 buf out change lost where
    fl: "flush_segments host (sg_wnd seg') resent rtomin (kc_snd_buf k2) k2 pk3 0 False = Inr (segs, k3, (buf, out), change, lost)"
    "list_all2 same_seg segs (kc_snd_buf k2)" "counted k2 k3" "?good (buf, out)"
    using flush_segments_good [of k2 host xs "kc_conv kcp" pk3] wins(2) by (metis surj_pair)
  have "ikcp_flush host kcp = Inr (if length buf > 0 then ikcp_output buf out else out,
      flush_cwnd resent (flush_window k0) change lost (k3\<lparr>kc_snd_buf := segs\<rparr>))"
    unfolding ikcp_flush_def Let_def seg_def [symmetric] acks(1) bindE_simps prod.case k1_def [symmetric] wask(1) wins(1)
      k0_def [symmetric] k2_def [symmetric] resent_def [symmetric] rtomin_def [symmetric] fl(1)
    using assms(3) by simp
  then show thesis by (rule that [OF v0(1-3) w0 k2_def wins(2) [unfolded m_def] fl(1-3) fl(4) [unfolded m_def] k2])
qed

lemma flush_good:
  assumes "snd_at xs kcp" "fits kcp"
  shows "\<exists>out kcp'. ikcp_flush host kcp = Inr (out, kcp') \<and> snd_at xs kcp' \<and> fits kcp' \<and>
    rcv_view kcp' = rcv_view kcp \<and> mtu_view kcp' = mtu_view kcp \<and> kc_conv kcp' = kc_conv kcp \<and>
    (\<forall>p \<in> set out. packet_of host xs (kc_conv kcp) p \<and> p \<noteq> [] \<and> length p \<le> unat (kc_mtu kcp))"
proof (cases "kc_updated kcp = 0")
  case True
  then show ?thesis using assms by (simp add: ikcp_flush_def)
next
  case False
  from flush_parts [OF assms False, of host] obtain k0 k resent segs k' buf out change lost where
    f: "list_all2 same_seg segs (kc_snd_buf k)" "counted k k'" "good_packets host xs (kc_conv kcp) (unat (kc_mtu kcp)) (buf, out)"
    "snd_at xs k" "fits k" "rcv_view k = rcv_view kcp" "mtu_view k = mtu_view kcp" "kc_conv k = kc_conv kcp"
    "ikcp_flush host kcp = Inr (if length buf > 0 then ikcp_output buf out else out,
       flush_cwnd resent (flush_window k0) change lost (k'\<lparr>kc_snd_buf := segs\<rparr>))" by metis
  define k4 where "k4 = flush_cwnd resent (flush_window k0) change lost (k'\<lparr>kc_snd_buf := segs\<rparr>)"
  note r = snd_at_resent [OF f(4,5,1,2)]
  have v4: "snd_view k4 = snd_view (k'\<lparr>kc_snd_buf := segs\<rparr>)" "mtu_view k4 = mtu_view (k'\<lparr>kc_snd_buf := segs\<rparr>)"
    "rcv_view k4 = rcv_view (k'\<lparr>kc_snd_buf := segs\<rparr>)" by (simp_all add: k4_def)
  have "snd_at xs k4" "fits k4" using r snd_at_view [OF v4(1)] fits_view [OF v4(1,2)] by auto
  moreover have "rcv_view k4 = rcv_view kcp" "mtu_view k4 = mtu_view kcp" "kc_conv k4 = kc_conv kcp"
    using v4 counted_views [OF f(2)] f(6-8) by (simp_all add: views)
  moreover have "\<forall>p \<in> set (if length buf > 0 then ikcp_output buf out else out).
      packet_of host xs (kc_conv kcp) p \<and> p \<noteq> [] \<and> length p \<le> unat (kc_mtu kcp)"
    using f(3) by (auto simp: good_packets_def ikcp_output_def)
  ultimately show ?thesis using f(9) unfolding k4_def [symmetric] by blast
qed

section \<open>Segments fit the MTU\<close>

lemma fits_buf:
  assumes "fits kcp" "\<forall>s \<in> set (kc_snd_buf kcp'). \<exists>t \<in> set (kc_snd_buf kcp). same_seg s t"
    "mtu_view kcp' = mtu_view kcp" "kc_snd_queue kcp' = kc_snd_queue kcp"
  shows "fits kcp'"
proof -
  have "unat (sg_len s) \<le> unat (kc_mss kcp)" if "s \<in> set (kc_snd_buf kcp')" for s
    using assms(1,2) that by (auto simp: fits_def same_seg_def)
  then show ?thesis using assms(1,3,4) by (auto simp: fits_def mtu_ok_def mtu_view_def)
qed

lemma fits_subset:
  assumes "fits kcp" "set (kc_snd_buf kcp') \<subseteq> set (kc_snd_buf kcp)"
    "mtu_view kcp' = mtu_view kcp" "kc_snd_queue kcp' = kc_snd_queue kcp"
  shows "fits kcp'"
  using assms(2) by (intro fits_buf [OF assms(1) _ assms(3,4)]) (blast intro: same_seg_refl)

lemma parse_una_fits: "fits kcp \<Longrightarrow> fits (ikcp_parse_una una kcp)"
  unfolding parse_una_eq by (erule fits_subset) (simp_all add: una_loop_subset mtu_view_def)

lemma parse_ack_fits:
  assumes "fits kcp"
  shows "fits (ikcp_parse_ack sn kcp)"
proof -
  have "fits (kcp\<lparr>kc_snd_buf := fst (ack_loop sn (kc_snd_buf kcp) (kc_nsnd_buf kcp)),
      kc_nsnd_buf := snd (ack_loop sn (kc_snd_buf kcp) (kc_nsnd_buf kcp))\<rparr>)"
    by (rule fits_subset [OF assms]) (simp_all add: ack_loop_subset mtu_view_def)
  then show ?thesis using assms by (simp add: ikcp_parse_ack_def Let_def split_beta)
qed

lemma parse_fastack_fits: "fits kcp \<Longrightarrow> fits (ikcp_parse_fastack sn kcp)"
  by (erule fits_buf) (auto simp: ikcp_parse_fastack_def mtu_view_def dest: fastack_loop_same intro: same_seg_refl)

lemma shrink_buf_fits: "fits kcp \<Longrightarrow> fits (ikcp_shrink_buf kcp)"
  by (subst fits_view [of _ kcp]) simp_all

lemma input_ack_fits: "fits kcp \<Longrightarrow> fits (snd (input_ack seg maxack kcp))"
  unfolding input_ack_def Let_def snd_conv
  by (intro shrink_buf_fits parse_ack_fits) (simp add: fits_view [OF update_ack_views(2,3)])

lemma input_segment_fits:
  assumes "fits kcp"
  shows "fits (snd (input_segment seg data maxack kcp))"
proof -
  let ?k = "ikcp_shrink_buf (ikcp_parse_una (sg_una seg) (kcp\<lparr>kc_rmt_wnd := sg_wnd seg\<rparr>))"
  have "fits (kcp\<lparr>kc_rmt_wnd := sg_wnd seg\<rparr>)" using assms by (simp add: fits_def mtu_ok_def)
  then have k: "fits ?k" by (intro shrink_buf_fits parse_una_fits)
  then have "fits (?k\<lparr>kc_probe := p\<rparr>)" for p by (simp add: fits_def mtu_ok_def)
  moreover have "fits (input_push seg data ?k)" using k by (simp add: fits_view [OF input_push_views])
  ultimately show ?thesis
    using k input_ack_fits [OF k] unfolding input_segment_def Let_def by (simp del: shrink_buf_views)
qed

lemma ikcp_input_fits: "fits kcp \<Longrightarrow> fits (snd (ikcp_input host data kcp))"
  by (rule ikcp_input_invariant)
    (auto intro: input_segment_fits parse_fastack_fits simp: fits_view [OF input_cwnd_views(2,3)])

section \<open>The invariant of a sender\<close>

definition sender :: "fragment list \<Rightarrow> IKCPCB \<Rightarrow> bool" where
  "sender xs kcp \<longleftrightarrow> snd_at xs kcp \<and> fits kcp"

lemma sender_view: "snd_view kcp = snd_view kcp' \<Longrightarrow> mtu_view kcp = mtu_view kcp' \<Longrightarrow> sender xs kcp = sender xs kcp'"
  using snd_at_view [of kcp kcp'] fits_view [of kcp kcp'] by (simp add: sender_def)

lemma sender_input: "sender xs kcp \<Longrightarrow> sender xs (snd (ikcp_input host data kcp))"
  by (simp add: sender_def ikcp_input_snd_at ikcp_input_fits)

lemma sender_mss: "sender xs kcp \<Longrightarrow> mss_ok kcp \<and> kc_stream kcp = 0"
  by (auto simp: sender_def fits_def mtu_ok_def mss_ok_def snd_at_def snd_upto_def)

lemma frags_data:
  assumes "(a, d) \<in> set (frags m msg)" "0 < m"
  shows "length d \<le> m" "length d \<le> length msg"
proof -
  have d: "d \<in> set (chunks m msg)" using assms(1) by (auto simp: frags_def number_def dest: set_zip_rightD)
  then show "length d \<le> m" using chunks_length_le [OF assms(2)] by blast
  have "length d \<le> length (concat (chunks m msg))"
    unfolding length_concat using member_le_sum_list [of "length d" "map length (chunks m msg)"] d by simp
  then show "length d \<le> length msg" by simp
qed

lemma sender_send:
  assumes "sender xs kcp" "length msg < 2 ^ 31" "length (chunks (unat (kc_mss kcp)) msg) \<le> 255"
  shows "sender (xs @ frags (unat (kc_mss kcp)) msg) (kcp\<lparr>
    kc_snd_queue := kc_snd_queue kcp @ map new_segment (frags (unat (kc_mss kcp)) msg), kc_nsnd_que := c\<rparr>)"
proof -
  define m where "m = unat (kc_mss kcp)"
  have m: "0 < m" using sender_mss [OF assms(1)] by (simp add: mss_ok_def m_def)
  have ok: "seg_ok (new_segment f) \<and> unat (sg_len (new_segment f)) \<le> m" if "f \<in> set (frags m msg)" for f
  proof -
    have f: "length (snd f) \<le> m" "length (snd f) \<le> length msg" using frags_data [OF _ m, of "fst f" "snd f"] that by auto
    then have "unat (sg_len (new_segment f)) = length (snd f)"
      using assms(2) by (simp add: new_segment_def unat_of_nat32)
    then show ?thesis using f assms(2) by (simp add: seg_ok_new_segment)
  qed
  have "snd_at (xs @ frags m msg) (kcp\<lparr>kc_snd_queue := kc_snd_queue kcp @ map new_segment (frags m msg), kc_nsnd_que := c\<rparr>)"
    using assms(1,3) ok frags_small [of m msg] by (intro snd_at_append) (auto simp: sender_def m_def comp_def)
  moreover have "fits (kcp\<lparr>kc_snd_queue := kc_snd_queue kcp @ map new_segment (frags m msg), kc_nsnd_que := c\<rparr>)"
    using assms(1) ok by (auto simp: sender_def fits_def mtu_ok_def m_def [symmetric])
  ultimately show ?thesis by (simp add: sender_def m_def)
qed

text \<open>The timer leaves the queues alone before it flushes.\<close>

lemma update_cases:
  obtains u t where "ikcp_update host current kcp = ikcp_flush host (kcp\<lparr>kc_current := current, kc_updated := u, kc_ts_flush := t\<rparr>)"
  | u t where "ikcp_update host current kcp = Inr ([], kcp\<lparr>kc_current := current, kc_updated := u, kc_ts_flush := t\<rparr>)"
proof -
  define u where "u = (if kc_updated kcp = 0 then 1 else kc_updated kcp)"
  define t0 where "t0 = (if kc_updated kcp = 0 then current else kc_ts_flush kcp)"
  define far where "far = (itimediff current t0 \<ge> 10000 \<or> itimediff current t0 < -10000)"
  define t1 where "t1 = (if far then current else t0)"
  define t2 where "t2 = (if itimediff current (t1 + kc_interval kcp) \<ge> 0 then current + kc_interval kcp else t1 + kc_interval kcp)"
  define k where "k = kcp\<lparr>kc_current := current, kc_updated := u\<rparr>"
  have k: "(if kc_updated (kcp\<lparr>kc_current := current\<rparr>) = 0
      then (kcp\<lparr>kc_current := current\<rparr>)\<lparr>kc_updated := 1, kc_ts_flush := kc_current (kcp\<lparr>kc_current := current\<rparr>)\<rparr>
      else kcp\<lparr>kc_current := current\<rparr>) = k\<lparr>kc_ts_flush := t0\<rparr>" by (simp add: k_def u_def t0_def)
  have "ikcp_update host current kcp =
      (if far \<or> itimediff current t0 \<ge> 0 then ikcp_flush host (k\<lparr>kc_ts_flush := t2\<rparr>) else Inr ([], k\<lparr>kc_ts_flush := t1\<rparr>))"
    unfolding ikcp_update_def Let_def k by (simp add: far_def t1_def t2_def k_def)
  then show thesis using that unfolding k_def by (metis (no_types))
qed

lemma sender_update:
  assumes "sender xs kcp"
  shows "\<exists>out kcp'. ikcp_update host current kcp = Inr (out, kcp') \<and> sender xs kcp' \<and>
    rcv_view kcp' = rcv_view kcp \<and> mtu_view kcp' = mtu_view kcp \<and> kc_conv kcp' = kc_conv kcp \<and>
    (\<forall>p \<in> set out. packet_of host xs (kc_conv kcp) p \<and> p \<noteq> [] \<and> length p \<le> unat (kc_mtu kcp))"
proof -
  have upd: "snd_view k = snd_view kcp \<Longrightarrow> mtu_view k = mtu_view kcp \<Longrightarrow> rcv_view k = rcv_view kcp \<Longrightarrow>
    \<exists>out kcp'. ikcp_flush host k = Inr (out, kcp') \<and> sender xs kcp' \<and>
      rcv_view kcp' = rcv_view kcp \<and> mtu_view kcp' = mtu_view kcp \<and> kc_conv kcp' = kc_conv kcp \<and>
      (\<forall>p \<in> set out. packet_of host xs (kc_conv kcp) p \<and> p \<noteq> [] \<and> length p \<le> unat (kc_mtu kcp))" for k
    using flush_good [of xs k host] assms snd_at_view [of k kcp xs] fits_view [of k kcp]
    by (simp add: sender_def) (simp add: snd_view_def mtu_view_def)
  show ?thesis
  proof (cases rule: update_cases [of host current kcp])
    case (1 u t)
    then show ?thesis using upd [of "kcp\<lparr>kc_current := current, kc_updated := u, kc_ts_flush := t\<rparr>"] by (simp add: views)
  next
    case (2 u t)
    have "sender xs (kcp\<lparr>kc_current := current, kc_updated := u, kc_ts_flush := t\<rparr>) = sender xs kcp"
      by (rule sender_view) (simp_all add: views)
    then show ?thesis using 2 assms by (simp add: views)
  qed
qed

end
