(* ===== verification/KcpLink.thy ===== *)
theory KcpLink
  imports KcpSend "HOL-Library.Sublist"
begin

text \<open>
  Two endpoints of \<open>ikcp.c\<close> and a network between them. The network keeps every packet that the sender has
  output and may deliver each of them any number of times, in any order, or never; it does not change
  packets. The sender gets arbitrary input, so that nothing is assumed about the acknowledgements.

  The theorems show that the application on the receiving side reads a prefix of the messages that
  were sent, whatever the network and the timers do, and that a message arrives complete when the
  packets of the next flush are delivered.
\<close>

section \<open>Packets at the receiver\<close>

lemma input_segment_conv [simp]: "kc_conv (snd (input_segment seg data maxack kcp)) = kc_conv kcp"
proof -
  have ack: "kc_conv (ikcp_update_ack rtt k) = kc_conv k" "kc_conv (ikcp_shrink_buf k) = kc_conv k"
    "kc_conv (ikcp_parse_ack sn k) = kc_conv k" "kc_conv (ikcp_parse_una sn k) = kc_conv k" for rtt sn k
    by (auto simp: ikcp_update_ack_def ikcp_shrink_buf_def ikcp_parse_ack_def ikcp_parse_una_def Let_def
        split: list.splits prod.splits)
  have push: "kc_conv (input_push s d k) = kc_conv k" for s d k
    using input_push_views(1) [of s d k] by (simp add: snd_view_def)
  show ?thesis by (simp add: input_segment_def input_ack_def Let_def ack push)
qed

text \<open>The segment that the receiver decodes from the bytes of a segment.\<close>

definition received_seg :: "IKCPSEG \<Rightarrow> IKCPSEG" where
  "received_seg s = ikcp_segment_new\<lparr>sg_conv := sg_conv s, sg_cmd := sg_cmd s, sg_frg := sg_frg s,
     sg_wnd := ucast (ucast (sg_wnd s) :: uint16), sg_ts := sg_ts s, sg_sn := sg_sn s, sg_una := sg_una s,
     sg_len := sg_len s\<rparr>"

lemma received_seg_simps [simp]:
  "sg_conv (received_seg s) = sg_conv s" "sg_cmd (received_seg s) = sg_cmd s" "sg_frg (received_seg s) = sg_frg s"
  "sg_sn (received_seg s) = sg_sn s" "sg_una (received_seg s) = sg_una s" "sg_len (received_seg s) = sg_len s"
  "sg_ts (received_seg s) = sg_ts s" "sg_wnd (received_seg s) = ucast (ucast (sg_wnd s) :: uint16)"
  by (simp_all add: received_seg_def)

lemma wire_small:
  assumes "wire_seg xs conv s" "\<forall>f \<in> set xs. unat (fst f) < 256"
  shows "unat (sg_cmd s) < 2 ^ 8" "unat (sg_frg s) < 2 ^ 8"
    "sg_cmd s \<in> {IKCP_CMD_PUSH, IKCP_CMD_ACK, IKCP_CMD_WASK, IKCP_CMD_WINS}"
proof -
  have "unat (sg_frg s) < 256" if "carries xs k s" for k
    using that assms(2) by (auto simp: carries_def content_def dest!: nth_mem) (metis fst_conv)
  then show "unat (sg_cmd s) < 2 ^ 8" "unat (sg_frg s) < 2 ^ 8"
    using assms(1) by (auto simp: wire_seg_def kcp_consts)
  show "sg_cmd s \<in> {IKCP_CMD_PUSH, IKCP_CMD_ACK, IKCP_CMD_WASK, IKCP_CMD_WINS}"
    using assms(1) by (auto simp: wire_seg_def)
qed

lemma input_loop_step:
  assumes "wire_seg xs conv s" "\<forall>f \<in> set xs. unat (fst f) < 256" "kc_conv kcp = conv"
  shows "input_loop host (segment_bytes host' s @ rest) maxack kcp =
    (let (maxack, kcp) = input_segment (received_seg s) (sg_data s @ rest) maxack kcp
     in input_loop host rest maxack kcp)"
proof -
  have ok: "length (sg_data s) = unat (sg_len s)" "sg_conv s = conv"
    using assms(1) by (auto simp: wire_seg_def seg_ok_def)
  have "decode_seg host (segment_bytes host' s @ rest) = (received_seg s, sg_data s @ rest)"
    using decode_encode_seg [OF wire_small(1,2) [OF assms(1,2)], of host host' "sg_data s @ rest"] ok(1)
    by (simp add: segment_bytes_def received_seg_def)
  moreover have "\<not> length (segment_bytes host' s @ rest) < unat IKCP_OVERHEAD"
    by (simp add: segment_bytes_def IKCP_OVERHEAD_def)
  ultimately show ?thesis
    using wire_small(3) [OF assms(1,2)] ok assms(3)
    by (subst input_loop.simps) (simp del: insert_iff add: Let_def)
qed

lemma rcv_view_upd [simp]:
  "rcv_view (kcp\<lparr>kc_probe := p\<rparr>) = rcv_view kcp" "rcv_view (kcp\<lparr>kc_rmt_wnd := w\<rparr>) = rcv_view kcp"
  by (simp_all add: rcv_view_def)

lemma carries_unique:
  assumes "carries xs j s" "carries xs j' s" "length xs \<le> 2 ^ 30"
  shows "j = j'"
  using assms of_nat_word32_eq [of j j'] by (auto simp: carries_def)

text \<open>A segment that arrives: what was received stays received, and data below the end of the window is added.\<close>

lemma input_segment_rcv_at:
  assumes "rcv_at xs M N ks kcp" "wire_seg xs conv s"
  shows "\<exists>N' ks'. rcv_at xs M N' ks' (snd (input_segment (received_seg s) (sg_data s @ rest) maxack kcp)) \<and> N \<le> N' \<and>
    received N ks \<union> {j. sg_cmd s = IKCP_CMD_PUSH \<and> carries xs j s \<and> j < N + unat (kc_rcv_wnd kcp)} \<subseteq> received N' ks'"
proof -
  define k where "k = ikcp_shrink_buf (ikcp_parse_una (sg_una s) (kcp\<lparr>kc_rmt_wnd := sg_wnd (received_seg s)\<rparr>))"
  have v: "rcv_view k = rcv_view kcp" by (simp add: k_def)
  have at: "rcv_at xs M N ks k'" if "rcv_view k' = rcv_view kcp" for k'
    using assms(1) rcv_at_view [OF that] by simp
  show ?thesis
  proof (cases "sg_cmd s = IKCP_CMD_PUSH")
    case True
    then obtain j where j: "carries xs j s" using assms(2) by (auto simp: wire_seg_def kcp_consts)
    let ?d = "(received_seg s)\<lparr>sg_data := take (unat (sg_len s)) (sg_data s @ rest)\<rparr>"
    have c: "carries xs j ?d" using j by (simp add: carries_def content_def seg_ok_def)
    have xs: "length xs \<le> 2 ^ 30" "j < 2 ^ 30" "sg_sn s = of_nat j" using assms(1) j by (auto simp: rcv_at_def carries_def)
    define k1 where "k1 = ikcp_ack_push (sg_sn s) (sg_ts s) k"
    have k1: "rcv_at xs M N ks k1" "kc_rcv_wnd k1 = kc_rcv_wnd kcp"
      using v by (auto intro!: at simp: k1_def rcv_view_def [of k] rcv_view_def [of kcp])
        (metis (no_types, lifting) ack_push_views(1) prod.inject rcv_view_def v)
    have k: "rcv_at xs M N ks k" "kc_rcv_wnd k = kc_rcv_wnd kcp" using v by (auto intro: at simp: rcv_view_def)
    note d = window_diff [OF k(1) xs(2), of s, OF xs(3)] window_diff [OF k1(1) xs(2), of s, OF xs(3)]
    have res: "snd (input_segment (received_seg s) (sg_data s @ rest) maxack kcp) =
        (if int j - int (N + unat (kc_rcv_wnd kcp)) < 0
         then if int j - int N \<ge> 0 then ikcp_parse_data ?d k1 else k1
         else k)"
      unfolding d(1) [symmetric] k(2) [symmetric] d(4) [symmetric]
      using True by (simp add: input_segment_def input_push_def Let_def kcp_consts k_def k1_def)
    have only: "{i. sg_cmd s = IKCP_CMD_PUSH \<and> carries xs i s \<and> i < N + unat (kc_rcv_wnd kcp)} \<subseteq> {j}"
      using carries_unique [OF j _ xs(1)] by blast
    consider "N \<le> j" "j < N + unat (kc_rcv_wnd kcp)" | "j < N" | "N + unat (kc_rcv_wnd kcp) \<le> j" by linarith
    then show ?thesis
    proof cases
      case 1
      have "snd (input_segment (received_seg s) (sg_data s @ rest) maxack kcp) = ikcp_parse_data ?d k1"
      proof -
        have "int j - int (N + unat (kc_rcv_wnd kcp)) < 0" "int j - int N \<ge> 0" using 1 by linarith+
        then show ?thesis unfolding res by (simp only: if_True)
      qed
      moreover obtain N' ks' where "rcv_at xs M N' ks' (ikcp_parse_data ?d k1)" "N \<le> N'"
        "received N' ks' = received N ks \<union> {j}"
        using parse_data_rcv_at [OF k1(1) c] 1 unfolding k1(2) by auto
      ultimately show ?thesis using only by (intro exI [of _ N'] exI [of _ ks']) auto
    next
      case 2
      then show ?thesis
        using only k1(1) k(1) unfolding res by (intro exI [of _ N] exI [of _ ks]) (auto simp: received_def)
    next
      case 3
      then have "{i. sg_cmd s = IKCP_CMD_PUSH \<and> carries xs i s \<and> i < N + unat (kc_rcv_wnd kcp)} = {}"
        using only by auto
      moreover have "\<not> int j - int (N + unat (kc_rcv_wnd kcp)) < 0" using 3 by linarith
      ultimately show ?thesis
        using k(1) unfolding res by (intro exI [of _ N] exI [of _ ks]) (simp only: if_False, simp)
    qed
  next
    case False
    have "rcv_view (snd (input_segment (received_seg s) (sg_data s @ rest) maxack kcp)) = rcv_view kcp"
      using False by (simp add: input_segment_def input_ack_def Let_def)
    then show ?thesis using at False by blast
  qed
qed

lemma input_segment_wnd [simp]: "kc_rcv_wnd (snd (input_segment seg data maxack kcp)) = kc_rcv_wnd kcp"
proof -
  have data: "kc_rcv_wnd (ikcp_parse_data d k) = kc_rcv_wnd k" for d k
    by (simp add: ikcp_parse_data_def Let_def split: option.splits)
  have view: "rcv_view k = rcv_view k' \<Longrightarrow> kc_rcv_wnd k = kc_rcv_wnd k'" for k k'
    by (simp add: rcv_view_def)
  have push: "kc_rcv_wnd (input_push d x k) = kc_rcv_wnd k" for d x k
    by (simp add: input_push_def Let_def data view [OF ack_push_views(1)])
  show ?thesis
    by (simp add: input_segment_def input_ack_def Let_def push view [OF shrink_buf_views(1)] view [OF parse_views(1)]
        view [OF parse_views(3)] view [OF update_ack_views(1)])
qed

lemma input_loop_packet:
  assumes "\<forall>f \<in> set xs. unat (fst f) < 256"
  shows "\<forall>s \<in> set segs. wire_seg xs (kc_conv kcp) s \<Longrightarrow> rcv_at xs M N ks kcp \<Longrightarrow>
    \<exists>maxack' kcp' N' ks'. input_loop host (concat (map (segment_bytes host') segs)) maxack kcp = (0, maxack', kcp') \<and>
      kc_rcv_wnd kcp' = kc_rcv_wnd kcp \<and> kc_conv kcp' = kc_conv kcp \<and> rcv_at xs M N' ks' kcp' \<and> N \<le> N' \<and>
      received N ks \<union> {j. j < N + unat (kc_rcv_wnd kcp) \<and>
        (\<exists>s \<in> set segs. sg_cmd s = IKCP_CMD_PUSH \<and> carries xs j s)} \<subseteq> received N' ks'"
proof (induction segs arbitrary: kcp N ks maxack)
  case Nil
  then show ?case by (subst input_loop.simps) (auto simp: IKCP_OVERHEAD_def)
next
  case (Cons s segs)
  let ?rest = "concat (map (segment_bytes host') segs)"
  obtain m1 k1 where r: "input_segment (received_seg s) (sg_data s @ ?rest) maxack kcp = (m1, k1)" by fastforce
  have w: "wire_seg xs (kc_conv kcp) s" using Cons.prems(1) by simp
  have k1: "kc_conv k1 = kc_conv kcp" "kc_rcv_wnd k1 = kc_rcv_wnd kcp"
    using input_segment_conv [of "received_seg s" "sg_data s @ ?rest" maxack kcp]
      input_segment_wnd [of "received_seg s" "sg_data s @ ?rest" maxack kcp] by (simp_all add: r)
  obtain N1 ks1 where n1: "rcv_at xs M N1 ks1 k1" "N \<le> N1"
    "received N ks \<union> {j. sg_cmd s = IKCP_CMD_PUSH \<and> carries xs j s \<and> j < N + unat (kc_rcv_wnd kcp)} \<subseteq> received N1 ks1"
    using input_segment_rcv_at [OF Cons.prems(2) w, of ?rest maxack] by (auto simp: r)
  have "\<forall>s \<in> set segs. wire_seg xs (kc_conv k1) s" using Cons.prems(1) k1(1) by simp
  from Cons.IH [OF this n1(1), of m1] obtain maxack' kcp' N' ks' where
    i: "input_loop host ?rest m1 k1 = (0, maxack', kcp')" "kc_rcv_wnd kcp' = kc_rcv_wnd kcp" "kc_conv kcp' = kc_conv kcp"
      "rcv_at xs M N' ks' kcp'" "N1 \<le> N'"
      "received N1 ks1 \<union> {j. j < N1 + unat (kc_rcv_wnd kcp) \<and>
        (\<exists>s \<in> set segs. sg_cmd s = IKCP_CMD_PUSH \<and> carries xs j s)} \<subseteq> received N' ks'"
    unfolding k1 by blast
  have "input_loop host (concat (map (segment_bytes host') (s # segs))) maxack kcp = (0, maxack', kcp')"
    using input_loop_step [OF w assms refl, of host host' ?rest maxack] i(1) r by simp
  moreover have "received N ks \<union> {j. j < N + unat (kc_rcv_wnd kcp) \<and>
      (\<exists>s \<in> set (s # segs). sg_cmd s = IKCP_CMD_PUSH \<and> carries xs j s)} \<subseteq> received N' ks'"
    using n1(2,3) i(6) by (auto simp: subset_iff) (meson add_right_mono less_le_trans)+
  ultimately show ?case using i(2-5) n1(2) by (meson order_trans)
qed

lemma view_conv: "snd_view k = snd_view k' \<Longrightarrow> kc_conv k = kc_conv k'"
  by (simp add: snd_view_def)

lemma input_finish:
  assumes "input_loop host data None kcp = (0, maxack, k)" "24 \<le> length data" "length data < 2 ^ 31"
  shows "fst (ikcp_input host data kcp) = 0" "rcv_view (snd (ikcp_input host data kcp)) = rcv_view k"
    "kc_conv (snd (ikcp_input host data kcp)) = kc_conv k"
proof -
  have "\<not> sint (of_nat (length data) :: 32 word) < sint IKCP_OVERHEAD"
    using assms(2,3) sint_of_nat [of "length data"] by (simp add: IKCP_OVERHEAD_def)
  moreover have "kc_conv (ikcp_parse_fastack sn k) = kc_conv k" for sn
    by (simp add: ikcp_parse_fastack_def)
  ultimately show "fst (ikcp_input host data kcp) = 0" "rcv_view (snd (ikcp_input host data kcp)) = rcv_view k"
    "kc_conv (snd (ikcp_input host data kcp)) = kc_conv k"
    using assms(1) by (auto simp: ikcp_input_def Let_def view_conv [OF input_cwnd_views(2)] split: option.splits)
qed

lemma input_packet:
  assumes "\<forall>f \<in> set xs. unat (fst f) < 256" "\<forall>s \<in> set segs. wire_seg xs (kc_conv kcp) s"
    "rcv_at xs M N ks kcp" "p = concat (map (segment_bytes host') segs)" "length p < 2 ^ 31"
  shows "\<exists>N' ks'. rcv_at xs M N' ks' (snd (ikcp_input host p kcp)) \<and> N \<le> N' \<and>
    kc_rcv_wnd (snd (ikcp_input host p kcp)) = kc_rcv_wnd kcp \<and> kc_conv (snd (ikcp_input host p kcp)) = kc_conv kcp \<and>
    received N ks \<union> {j. j < N + unat (kc_rcv_wnd kcp) \<and>
      (\<exists>s \<in> set segs. sg_cmd s = IKCP_CMD_PUSH \<and> carries xs j s)} \<subseteq> received N' ks'"
proof (cases "segs = []")
  case True
  then show ?thesis using assms(3,4) by (auto simp: ikcp_input_def IKCP_OVERHEAD_def)
next
  case False
  then have "24 \<le> length p" using assms(4) by (cases segs) (auto simp: segment_bytes_def)
  moreover obtain maxack k N' ks' where i: "input_loop host p None kcp = (0, maxack, k)"
    "kc_rcv_wnd k = kc_rcv_wnd kcp" "kc_conv k = kc_conv kcp" "rcv_at xs M N' ks' k" "N \<le> N'"
    "received N ks \<union> {j. j < N + unat (kc_rcv_wnd kcp) \<and>
      (\<exists>s \<in> set segs. sg_cmd s = IKCP_CMD_PUSH \<and> carries xs j s)} \<subseteq> received N' ks'"
    using input_loop_packet [OF assms(1-3), of host host' None] assms(4) by blast
  ultimately have f: "rcv_view (snd (ikcp_input host p kcp)) = rcv_view k" "kc_conv (snd (ikcp_input host p kcp)) = kc_conv k"
    using input_finish [OF i(1) _ assms(5)] by auto
  then have "rcv_at xs M N' ks' (snd (ikcp_input host p kcp))" using i(4) rcv_at_view [OF f(1)] by simp
  moreover have "kc_rcv_wnd (snd (ikcp_input host p kcp)) = kc_rcv_wnd kcp"
    using f(1) i(2) by (simp add: rcv_view_def)
  moreover have "kc_conv (snd (ikcp_input host p kcp)) = kc_conv kcp" using f(2) i(3) by simp
  ultimately show ?thesis using i(5,6) by blast
qed

section \<open>Sending and flushing leave the receiver alone\<close>

lemma fragment_loop_rcv_view: "rcv_view (fragment_loop n buffer len kcp) = rcv_view kcp"
  by (induction n buffer len kcp rule: fragment_loop.induct) (simp_all add: Let_def rcv_view_def)

lemma send_rcv_view:
  assumes "ikcp_send msg len kcp = Inr (n, kcp')"
  shows "rcv_view kcp' = rcv_view kcp"
proof -
  define r where "r = (if kc_stream kcp \<noteq> 0 then extend_last msg len kcp else (msg, len, kcp))"
  obtain buffer l k where k: "r = (buffer, l, k)" by (metis prod_cases3)
  have v: "rcv_view k = rcv_view kcp"
    using k by (auto simp: r_def extend_last_def Let_def rcv_view_def split: if_splits)
  show ?thesis
    using assms v fragment_loop_rcv_view
    unfolding ikcp_send_def r_def [symmetric] k by (auto simp: Let_def simp del: fragment_loop.simps split: if_splits)
qed

lemma flush_segment_counted:
  assumes "flush_segment host wnd resent rtomin seg kcp pk change lost = Inr (seg', kcp', r)"
  shows "counted kcp kcp'"
proof -
  obtain kind seg1 where r: "resend_segment resent rtomin kcp seg = (kind, seg1)" by fastforce
  define k where "k = (if kind = Timeout then kcp\<lparr>kc_xmit := kc_xmit kcp + 1\<rparr> else kcp)"
  have k: "counted kcp k" by (simp add: k_def counted_refl counted_upd)
  have "kcp' = k \<or> kcp' = k\<lparr>kc_state := -1\<rparr>"
    using assms unfolding flush_segment_def r Let_def prod.case k_def [symmetric]
    by (auto simp: bindE_eq_Inr split: if_splits)
  then show ?thesis using k counted_trans [OF k counted_upd(2)] by auto
qed

lemma flush_segments_counted:
  "flush_segments host wnd resent rtomin segs kcp pk change lost = Inr (segs', kcp', r) \<Longrightarrow> counted kcp kcp'"
proof (induction segs arbitrary: kcp pk change lost segs' r)
  case Nil
  then show ?case by (simp add: counted_refl)
next
  case (Cons seg segs)
  then obtain seg1 k1 r1 segs2 r2 where f: "flush_segment host wnd resent rtomin seg kcp pk change lost = Inr (seg1, k1, r1)"
    "flush_segments host wnd resent rtomin segs k1 (fst r1) (fst (snd r1)) (snd (snd r1)) = Inr (segs2, kcp', r2)"
    by (fastforce simp: bindE_eq_Inr split_beta)
  then show ?case using counted_trans [OF flush_segment_counted [OF f(1)] Cons.IH [OF f(2)]] by simp
qed

lemma flush_rcv_view:
  assumes "ikcp_flush host kcp = Inr (out, kcp')"
  shows "rcv_view kcp' = rcv_view kcp"
proof (cases "kc_updated kcp = 0")
  case True
  then show ?thesis using assms by (simp add: ikcp_flush_def)
next
  case False
  define k1 where "k1 = flush_probe_timer (kcp\<lparr>kc_ackcount := 0\<rparr>)"
  from assms False obtain wnd cwnd resent rtomin pk segs k3 pk' change lost where f:
    "flush_segments host wnd resent rtomin (kc_snd_buf (flush_move wnd cwnd (k1\<lparr>kc_probe := 0\<rparr>)))
       (flush_move wnd cwnd (k1\<lparr>kc_probe := 0\<rparr>)) pk 0 False = Inr (segs, k3, pk', change, lost)"
    "kcp' = flush_cwnd resent cwnd change lost (k3\<lparr>kc_snd_buf := segs\<rparr>)"
    unfolding ikcp_flush_def Let_def k1_def [symmetric] by (auto simp: bindE_eq_Inr)
  have "rcv_view k1 = rcv_view kcp" unfolding k1_def by simp (simp add: rcv_view_def)
  moreover have "rcv_view (k3\<lparr>kc_snd_buf := segs\<rparr>) = rcv_view k3" by (simp add: rcv_view_def)
  ultimately show ?thesis using counted_views(1) [OF flush_segments_counted [OF f(1)]] unfolding f(2) by simp
qed

lemma update_rcv_view:
  assumes "ikcp_update host t kcp = Inr (out, kcp')"
  shows "rcv_view kcp' = rcv_view kcp"
proof (cases rule: update_cases [of host t kcp])
  case (1 u t')
  then have "ikcp_flush host (kcp\<lparr>kc_current := t, kc_updated := u, kc_ts_flush := t'\<rparr>) = Inr (out, kcp')"
    using assms by simp
  from flush_rcv_view [OF this] show ?thesis by (simp add: rcv_view_def)
next
  case (2 u t')
  then show ?thesis using assms by (auto simp: rcv_view_def)
qed

lemma settings_views [simp]:
  "rcv_view (snd (ikcp_nodelay nd iv rs nc kcp)) = rcv_view kcp" "snd_view (snd (ikcp_nodelay nd iv rs nc kcp)) = snd_view kcp"
  "mtu_view (snd (ikcp_nodelay nd iv rs nc kcp)) = mtu_view kcp"
  "snd_view (snd (ikcp_wndsize sw rw kcp)) = snd_view kcp" "mtu_view (snd (ikcp_wndsize sw rw kcp)) = mtu_view kcp"
  "rcv_view (snd (ikcp_setmtu mtu kcp)) = rcv_view kcp" "snd_view (snd (ikcp_setmtu mtu kcp)) = snd_view kcp"
  by (simp_all add: views ikcp_nodelay_def ikcp_wndsize_def ikcp_setmtu_def Let_def)

section \<open>A connection\<close>

text \<open>
  \<open>ms\<close> are the messages that the sender \<open>a\<close> has accepted, as lists of fragments, \<open>net\<close> the packets it has
  output, \<open>b\<close> the receiver and \<open>ds\<close> what the application has read from it. The MTU of the sender may
  change while nothing is queued.
\<close>

inductive connection ::
  "endian \<Rightarrow> endian \<Rightarrow> uint32 \<Rightarrow> fragment list list \<Rightarrow> IKCPCB \<Rightarrow> uint8 list set \<Rightarrow> IKCPCB \<Rightarrow> uint8 list list \<Rightarrow> bool"
  for ha hb conv where
  start: "connection ha hb conv [] (ikcp_create conv) {} (ikcp_create conv) []"
| send: "connection ha hb conv ms a net b ds \<Longrightarrow> length msg < 2 ^ 31 \<Longrightarrow>
    ikcp_send msg (int (length msg)) a = Inr (0, a') \<Longrightarrow>
    connection ha hb conv (ms @ [frags (unat (kc_mss a)) msg]) a' net b ds"
| a_update: "connection ha hb conv ms a net b ds \<Longrightarrow> ikcp_update ha t a = Inr (out, a') \<Longrightarrow>
    connection ha hb conv ms a' (net \<union> set out) b ds"
| a_input: "connection ha hb conv ms a net b ds \<Longrightarrow> connection ha hb conv ms (snd (ikcp_input ha data a)) net b ds"
| a_recv: "connection ha hb conv ms a net b ds \<Longrightarrow> ikcp_recv len a = Inr (n, data, a') \<Longrightarrow>
    connection ha hb conv ms a' net b ds"
| a_nodelay: "connection ha hb conv ms a net b ds \<Longrightarrow>
    connection ha hb conv ms (snd (ikcp_nodelay nd iv rs nc a)) net b ds"
| a_wndsize: "connection ha hb conv ms a net b ds \<Longrightarrow> connection ha hb conv ms (snd (ikcp_wndsize sw rw a)) net b ds"
| a_setmtu: "connection ha hb conv ms a net b ds \<Longrightarrow> kc_snd_queue a = [] \<Longrightarrow> kc_snd_buf a = [] \<Longrightarrow> mtu < 2 ^ 30 \<Longrightarrow>
    connection ha hb conv ms (snd (ikcp_setmtu mtu a)) net b ds"
| deliver: "connection ha hb conv ms a net b ds \<Longrightarrow> p \<in> net \<Longrightarrow>
    connection ha hb conv ms a net (snd (ikcp_input hb p b)) ds"
| peek: "connection ha hb conv ms a net b ds \<Longrightarrow> len < 0 \<Longrightarrow> ikcp_recv len b = Inr (n, data, b') \<Longrightarrow>
    connection ha hb conv ms a net b' ds"
| recv: "connection ha hb conv ms a net b ds \<Longrightarrow> len \<ge> 0 \<Longrightarrow> ikcp_recv len b = Inr (n, data, b') \<Longrightarrow>
    connection ha hb conv ms a net b' (if n < 0 then ds else ds @ [data])"
| b_update: "connection ha hb conv ms a net b ds \<Longrightarrow> ikcp_update hb t b = Inr (out, b') \<Longrightarrow>
    connection ha hb conv ms a net b' ds"
| b_send: "connection ha hb conv ms a net b ds \<Longrightarrow> ikcp_send msg len b = Inr (n, b') \<Longrightarrow>
    connection ha hb conv ms a net b' ds"
| b_nodelay: "connection ha hb conv ms a net b ds \<Longrightarrow>
    connection ha hb conv ms a net (snd (ikcp_nodelay nd iv rs nc b)) ds"
| b_wndsize: "connection ha hb conv ms a net b ds \<Longrightarrow> rw \<le> 2 ^ 30 \<Longrightarrow>
    connection ha hb conv ms a net (snd (ikcp_wndsize sw rw b)) ds"
| b_setmtu: "connection ha hb conv ms a net b ds \<Longrightarrow> connection ha hb conv ms a net (snd (ikcp_setmtu mtu b)) ds"

lemma recv_views:
  assumes "ikcp_recv len kcp = Inr (n, data, kcp')"
  shows "snd_view kcp' = snd_view kcp" "mtu_view kcp' = mtu_view kcp" "kc_conv kcp' = kc_conv kcp"
  using assms by (auto simp: ikcp_recv_def Let_def snd_view_def mtu_view_def split: if_splits prod.splits)

lemma rcv_at_append:
  assumes "rcv_at xs M N ks kcp" "length (xs @ ys) \<le> 2 ^ 30"
  shows "rcv_at (xs @ ys) M N ks kcp"
proof -
  have "list_all2 (carries (xs @ ys)) ks (kc_rcv_buf kcp)"
    using assms(1) carries_append by (auto simp: rcv_at_def elim: list_all2_mono)
  moreover have "take (N - M) (drop M (xs @ ys)) = take (N - M) (drop M xs)"
    using assms(1) by (simp add: rcv_at_def)
  ultimately show ?thesis using assms by (simp add: rcv_at_def)
qed

text \<open>The state of a connection in which the application has read the first \<open>m\<close> messages.\<close>

definition linked ::
  "endian \<Rightarrow> uint32 \<Rightarrow> fragment list list \<Rightarrow> IKCPCB \<Rightarrow> uint8 list set \<Rightarrow> IKCPCB \<Rightarrow> nat \<Rightarrow> bool" where
  "linked ha conv ms a net b m \<longleftrightarrow>
     sender (concat ms) a \<and> kc_conv a = conv \<and> kc_conv b = conv \<and> (\<forall>fs \<in> set ms. valid_frags fs) \<and>
     (\<forall>p \<in> net. packet_of ha (concat ms) conv p \<and> length p < 2 ^ 31) \<and>
     m \<le> length ms \<and> (\<exists>N ks. rcv_at (concat ms) (length (concat (take m ms))) N ks b)"

lemma linked_start: "linked ha conv [] (ikcp_create conv) {} (ikcp_create conv) 0"
  by (simp add: linked_def sender_def snd_at_def snd_upto_def fits_def mtu_ok_def ikcp_create_def kcp_consts rcv_at_def)

lemma linked_sender:
  assumes "linked ha conv ms a net b m" "sender (concat ms) a'" "kc_conv a' = kc_conv a"
    "\<forall>p \<in> net' - net. packet_of ha (concat ms) conv p \<and> length p < 2 ^ 31"
  shows "linked ha conv ms a' net' b m"
  using assms by (auto simp: linked_def)

lemma linked_receiver:
  assumes "linked ha conv ms a net b m" "rcv_view b' = rcv_view b"
  shows "linked ha conv ms a net b' m"
proof -
  have "kc_conv b' = kc_conv b" using assms(2) by (simp add: rcv_view_def)
  then show ?thesis using assms(1) rcv_at_view [OF assms(2)] by (simp add: linked_def)
qed

lemma linked_send:
  assumes "linked ha conv ms a net b m" "length msg < 2 ^ 31" "ikcp_send msg (int (length msg)) a = Inr (0, a')"
    "length (concat (ms @ [frags (unat (kc_mss a)) msg])) \<le> 2 ^ 30"
  shows "linked ha conv (ms @ [frags (unat (kc_mss a)) msg]) a' net b m"
proof -
  let ?fs = "frags (unat (kc_mss a)) msg"
  have a: "sender (concat ms) a" using assms(1) by (simp add: linked_def)
  have n: "length (chunks (unat (kc_mss a)) msg) \<le> 255"
    and a': "a' = a\<lparr>kc_snd_queue := kc_snd_queue a @ map new_segment ?fs, kc_nsnd_que := kc_nsnd_que a + of_nat (length (chunks (unat (kc_mss a)) msg))\<rparr>"
    using assms(3) ikcp_send_eq [OF _ _ assms(2)] sender_mss [OF a] by (auto simp: Let_def split: if_splits)
  have "sender (concat ms @ ?fs) a'" unfolding a' by (rule sender_send [OF a assms(2) n])
  moreover have "valid_frags ?fs" using n assms(2) by (rule valid_frags_frags)
  moreover obtain N ks where at: "rcv_at (concat ms) (length (concat (take m ms))) N ks b"
    using assms(1) by (auto simp: linked_def)
  moreover have "rcv_at (concat ms @ ?fs) (length (concat (take m ms))) N ks b"
    using assms(4) by (intro rcv_at_append [OF at]) simp
  ultimately show ?thesis
    using assms(1) packet_of_mono unfolding linked_def a' by auto
qed

lemma linked_deliver:
  assumes "linked ha conv ms a net b m" "p \<in> net"
  shows "linked ha conv ms a net (snd (ikcp_input hb p b)) m"
proof -
  obtain N ks where at: "rcv_at (concat ms) (length (concat (take m ms))) N ks b" and b: "kc_conv b = conv"
    using assms(1) by (auto simp: linked_def)
  obtain segs where p: "\<forall>s \<in> set segs. wire_seg (concat ms) (kc_conv b) s" "p = concat (map (segment_bytes ha) segs)"
    "length p < 2 ^ 31" using assms b by (auto simp: linked_def packet_of_def)
  have "\<forall>f \<in> set (concat ms). unat (fst f) < 256"
    using assms(1) by (auto simp: linked_def sender_def snd_at_def snd_upto_def)
  from input_packet [OF this p(1) at p(2,3), of hb] show ?thesis
    using assms(1) b by (auto simp: linked_def)
qed

lemma linked_recv:
  assumes "linked ha conv ms a net b m" "ikcp_recv len b = Inr (n, data, b')"
  shows "if n < 0 then b' = b
    else data = message (ms ! m) \<and> m < length ms \<and> linked ha conv ms a net b' (if len < 0 then m else Suc m)"
proof -
  let ?xs = "concat ms"
  let ?M = "length (concat (take m ms))"
  obtain N ks where at: "rcv_at ?xs ?M N ks b" and m: "m \<le> length ms" and v: "\<forall>fs \<in> set ms. valid_frags fs"
    using assms(1) by (auto simp: linked_def)
  have d: "drop ?M ?xs = concat (drop m ms)"
    using arg_cong [OF append_take_drop_id [of m ms], of concat] by (metis append_eq_conv_conj concat_append)
  show ?thesis
  proof (cases "m = length ms")
    case True
    then have "N = ?M" using at by (simp add: rcv_at_def)
    then have "kc_rcv_queue b = []" using at by (auto simp: rcv_at_def)
    then show ?thesis using assms(2) by (auto simp: ikcp_recv_def Let_def)
  next
    case False
    then have lt: "m < length ms" using m by simp
    then have fs: "drop ?M ?xs = ms ! m @ concat (drop (Suc m) ms)" by (simp add: d Cons_nth_drop_Suc [symmetric])
    have "concat (take (Suc m) ms) = concat (take m ms) @ ms ! m" using lt by (simp add: take_Suc_conv_app_nth)
    then have M: "?M + length (ms ! m) = length (concat (take (Suc m) ms))" by simp
    note r = recv_message [OF at fs, of len] v lt
    have "linked ha conv ms a net b' (if len < 0 then m else Suc m)"
      if "rcv_at ?xs (if len < 0 then ?M else ?M + length (ms ! m)) N' ks' b'" for N' ks'
      using assms(1) that lt recv_views(3) [OF assms(2)] unfolding linked_def M by (auto split: if_splits)
    then show ?thesis using r assms(2) lt by (auto split: if_splits)
  qed
qed

lemma linked_setmtu:
  assumes "linked ha conv ms a net b m" "kc_snd_queue a = []" "kc_snd_buf a = []" "mtu < 2 ^ 30"
  shows "linked ha conv ms (snd (ikcp_setmtu mtu a)) net b m"
proof (cases "mtu < 50")
  case True
  then show ?thesis using assms(1) by (simp add: ikcp_setmtu_def)
next
  case False
  define k where "k = nat mtu"
  have k: "50 \<le> k" "k < 2 ^ 30" "mtu = int k" using False assms(4) by (auto simp: k_def)
  have "(of_int mtu - IKCP_OVERHEAD :: uint32) = of_nat (k - 24)" "(of_int mtu + IKCP_OVERHEAD) * 3 = (of_nat ((k + 24) * 3) :: uint32)"
    using k by (simp_all add: IKCP_OVERHEAD_def of_nat_diff)
  then have u: "unat (of_int mtu - IKCP_OVERHEAD :: uint32) = k - 24" "unat ((of_int mtu + IKCP_OVERHEAD) * 3 :: uint32) = (k + 24) * 3"
    "unat (of_int mtu :: uint32) = k"
    using k unat_of_nat32 [of "k - 24"] unat_of_nat32 [of "(k + 24) * 3"] unat_of_nat32 [of k] by simp_all
  have "snd (ikcp_setmtu mtu a) = a\<lparr>kc_mtu := of_int mtu, kc_mss := of_int mtu - IKCP_OVERHEAD,
      kc_bufsize := unat ((of_int mtu + IKCP_OVERHEAD) * 3 :: uint32)\<rparr>"
    using False by (simp add: ikcp_setmtu_def IKCP_OVERHEAD_def)
  then have "fits (snd (ikcp_setmtu mtu a))" using assms(2,3) u k by (simp add: fits_def mtu_ok_def)
  moreover have "snd_at (concat ms) (snd (ikcp_setmtu mtu a))"
    using assms(1) snd_at_view [OF settings_views(7)] by (simp add: linked_def sender_def)
  ultimately show ?thesis
    using assms(1) view_conv [OF settings_views(7), of mtu a] by (simp add: linked_def sender_def)
qed

lemma wndsize_receiver:
  assumes "linked ha conv ms a net b m" "rw \<le> 2 ^ 30"
  shows "linked ha conv ms a net (snd (ikcp_wndsize sw rw b)) m"
proof -
  have w: "unat (of_int rw :: uint32) \<le> 2 ^ 30" if "rw > 0"
    using that assms(2) unat_of_nat32 [of "nat rw"] by simp
  have "rcv_at xs M N ks (snd (ikcp_wndsize sw rw b))" if "rcv_at xs M N ks b" for xs M N ks
    using that w by (auto simp: rcv_at_def ikcp_wndsize_def Let_def)
  then show ?thesis
    using assms(1) view_conv [OF settings_views(4), of sw rw b] unfolding linked_def by (simp only:) blast
qed

lemma connection_linked:
  "connection ha hb conv ms a net b ds \<Longrightarrow> length (concat ms) \<le> 2 ^ 30 \<Longrightarrow>
     ds = map message (take (length ds) ms) \<and> linked ha conv ms a net b (length ds)"
proof (induction rule: connection.induct)
  case start
  then show ?case by (simp add: linked_start)
next
  case (send ms a net b ds msg a')
  then have ih: "ds = map message (take (length ds) ms)" "linked ha conv ms a net b (length ds)" by auto
  then have "length ds \<le> length ms" by (simp add: linked_def)
  then show ?case using ih(1) linked_send [OF ih(2) send(2,3) send.prems] by simp
next
  case (a_update ms a net b ds t out a')
  then have l: "linked ha conv ms a net b (length ds)" by auto
  then obtain "kc_conv a = conv" "unat (kc_mtu a) < 2 ^ 31" by (simp add: linked_def sender_def fits_def mtu_ok_def)
  then show ?case
    using a_update l sender_update [of "concat ms" a ha t] by (auto simp: linked_def dest: le_less_trans)
next
  case (a_input ms a net b ds data)
  then have l: "linked ha conv ms a net b (length ds)" by auto
  have "kc_conv (snd (ikcp_input ha data a)) = kc_conv a"
    by (rule ikcp_input_invariant [where P = "\<lambda>k. kc_conv k = kc_conv a"])
      (simp_all add: ikcp_parse_fastack_def view_conv [OF input_cwnd_views(2)])
  then show ?case using a_input l by (auto intro: linked_sender simp: linked_def sender_input)
next
  case (a_recv ms a net b ds len n data a')
  then show ?case
    using recv_views [OF a_recv(2)] sender_view [OF recv_views(1,2) [OF a_recv(2)]] by (auto simp: linked_def)
next
  case (a_nodelay ms a net b ds nd iv rs nc)
  then show ?case
    using sender_view [OF settings_views(2,3)] view_conv [OF settings_views(2)] by (auto simp: linked_def)
next
  case (a_wndsize ms a net b ds sw rw)
  then show ?case
    using sender_view [OF settings_views(4,5)] view_conv [OF settings_views(4)] by (auto simp: linked_def)
next
  case (a_setmtu ms a net b ds mtu)
  then show ?case using linked_setmtu by auto
next
  case (deliver ms a net b ds p)
  then show ?case using linked_deliver by auto
next
  case (peek ms a net b ds len n data b')
  then show ?case using linked_recv [OF _ peek(3), of ha conv ms a net "length ds"] by (auto split: if_splits)
next
  case (recv ms a net b ds len n data b')
  then show ?case using linked_recv [OF _ recv(3), of ha conv ms a net "length ds"]
    by (auto simp: take_Suc_conv_app_nth split: if_splits)
next
  case (b_update ms a net b ds t out b')
  then show ?case using linked_receiver [OF _ update_rcv_view [OF b_update(2)]] by auto
next
  case (b_send ms a net b ds msg len n b')
  then show ?case using linked_receiver [OF _ send_rcv_view [OF b_send(2)]] by auto
next
  case (b_nodelay ms a net b ds nd iv rs nc)
  then show ?case using linked_receiver [OF _ settings_views(1)] by auto
next
  case (b_wndsize ms a net b ds rw sw)
  then show ?case using wndsize_receiver by auto
next
  case (b_setmtu ms a net b ds mtu)
  then show ?case using linked_receiver [OF _ settings_views(6)] by auto
qed

end
