(* ===== verification/KcpDelivery.thy ===== *)
theory KcpDelivery
  imports KcpLink
begin

text \<open>
  Delivery: a flush puts every segment that it takes from the send queue into a packet, and a receiver
  that gets the packets of a flush can read the message. Together with the settings of \<open>Session::init_kcp\<close>
  this shows that a message of up to 32 full segments arrives with the first flush of a loss-free
  connection.
\<close>

section \<open>Segments in packets\<close>

definition covers :: "endian \<Rightarrow> fragment list \<Rightarrow> uint32 \<Rightarrow> IKCPSEG set \<Rightarrow> uint8 list set \<Rightarrow> bool" where
  "covers host xs conv S ps \<longleftrightarrow> (\<forall>s \<in> S. \<exists>g. s \<in> set g \<and> (\<forall>t \<in> set g. wire_seg xs conv t) \<and>
     concat (map (segment_bytes host) g) \<in> ps)"

definition in_work :: "packets \<Rightarrow> uint8 list set" where
  "in_work pk = insert (fst pk) (set (snd pk))"

lemma segment_bytes_ne [simp]: "segment_bytes host s \<noteq> []"
proof
  assume "segment_bytes host s = []"
  then have "length (ikcp_encode_seg host s) = 0" by (simp add: segment_bytes_def)
  then show False by simp
qed

lemma group_ne: "s \<in> set g \<Longrightarrow> concat (map (segment_bytes host) g) \<noteq> []"
  by auto

lemma flush_put_covers:
  assumes "flush_put kcp need (segment_bytes host s) pk = Inr pk'" "covers host xs conv S (in_work pk)"
    "packet_of host xs conv (fst pk)" "wire_seg xs conv s"
  shows "covers host xs conv (insert s S) (in_work pk')"
proof -
  obtain buf out where pk: "pk = (buf, out)" by fastforce
  obtain g0 where g0: "\<forall>t \<in> set g0. wire_seg xs conv t" "buf = concat (map (segment_bytes host) g0)"
    using assms(3) by (auto simp: packet_of_def pk)
  from assms(1) consider "pk' = (buf @ segment_bytes host s, out)" | "pk' = (segment_bytes host s, ikcp_output buf out)"
    by (auto simp: flush_put_def pk Let_def split: if_splits)
  then show ?thesis
  proof cases
    case 1
    have "\<exists>g. x \<in> set g \<and> (\<forall>t \<in> set g. wire_seg xs conv t) \<and> concat (map (segment_bytes host) g) \<in> in_work pk'"
      if x: "x \<in> insert s S" for x
    proof (cases "x = s")
      case True
      then show ?thesis
        using g0 assms(4) by (intro exI [of _ "g0 @ [s]"]) (auto simp: 1 in_work_def)
    next
      case False
      then obtain g where g: "x \<in> set g" "\<forall>t \<in> set g. wire_seg xs conv t"
        "concat (map (segment_bytes host) g) = buf \<or> concat (map (segment_bytes host) g) \<in> set out"
        using x assms(2) by (auto simp: covers_def in_work_def pk)
      then consider "concat (map (segment_bytes host) g) = buf" | "concat (map (segment_bytes host) g) \<in> set out" by blast
      then show ?thesis
      proof cases
        case 2
        then show ?thesis using g by (intro exI [of _ g]) (auto simp: 1 in_work_def)
      qed (use g assms(4) in \<open>intro exI [of _ "g @ [s]"], auto simp: 1 in_work_def\<close>)
    qed
    then show ?thesis by (auto simp: covers_def)
  next
    case 2
    have "\<exists>g. x \<in> set g \<and> (\<forall>t \<in> set g. wire_seg xs conv t) \<and> concat (map (segment_bytes host) g) \<in> in_work pk'"
      if x: "x \<in> insert s S" for x
    proof (cases "x = s")
      case True
      then show ?thesis using assms(4) by (intro exI [of _ "[s]"]) (auto simp: 2 in_work_def)
    next
      case False
      then obtain g where g: "x \<in> set g" "\<forall>t \<in> set g. wire_seg xs conv t"
        "concat (map (segment_bytes host) g) \<in> insert buf (set out)"
        using x assms(2) by (auto simp: covers_def in_work_def pk)
      then show ?thesis
        using group_ne [OF g(1), of host] by (intro exI [of _ g]) (auto simp: 2 in_work_def ikcp_output_def)
    qed
    then show ?thesis by (auto simp: covers_def)
  qed
qed

lemma flush_segment_covers:
  assumes "flush_segment host wnd resent rtomin seg kcp pk change lost = Inr (seg', kcp', pk', r)"
    "covers host xs conv S (in_work pk)" "packet_of host xs conv (fst pk)" "wire_seg xs conv seg"
  shows "\<exists>S'. S \<subseteq> S' \<and> covers host xs conv S' (in_work pk') \<and> (sg_xmit seg = 0 \<longrightarrow> (\<exists>s' \<in> S'. same_seg s' seg))"
proof -
  obtain kind seg1 where r: "resend_segment resent rtomin kcp seg = (kind, seg1)" by fastforce
  show ?thesis
  proof (cases "kind = Skip")
    case True
    then have "sg_xmit seg \<noteq> 0" using r by (auto simp: resend_segment_def Let_def split: if_splits)
    moreover have "pk' = pk" using assms(1) True by (simp add: flush_segment_def r Let_def)
    ultimately show ?thesis using assms(2) by blast
  next
    case False
    then obtain k s' where put: "flush_put k (sint (IKCP_OVERHEAD + sg_len s')) (segment_bytes host s') pk = Inr pk'"
      and s': "same_seg s' seg1"
      using assms(1) unfolding flush_segment_def r Let_def prod.case
      by (auto simp: bindE_eq_Inr same_seg_def split: if_splits)
    then have same: "same_seg s' seg" using same_seg_trans [OF s' resend_segment_same [OF r]] by simp
    show ?thesis
      using flush_put_covers [OF put assms(2,3) wire_same [OF same assms(4)]] same
      by (intro exI [of _ "insert s' S"]) auto
  qed
qed

lemma flush_segments_covers:
  "flush_segments host wnd resent rtomin segs kcp pk change lost = Inr (segs', kcp', pk', r) \<Longrightarrow>
    mtu_ok kcp \<Longrightarrow> good_packets host xs conv (unat (kc_mtu kcp)) pk \<Longrightarrow>
    \<forall>s \<in> set segs. wire_seg xs conv s \<and> unat (sg_len s) + 24 \<le> unat (kc_mtu kcp) \<Longrightarrow>
    covers host xs conv S (in_work pk) \<Longrightarrow>
    \<exists>S'. S \<subseteq> S' \<and> covers host xs conv S' (in_work pk') \<and> (\<forall>s \<in> set segs. sg_xmit s = 0 \<longrightarrow> (\<exists>s' \<in> S'. same_seg s' s))"
proof (induction segs arbitrary: kcp pk change lost segs' r S)
  case Nil
  then show ?case by auto
next
  case (Cons seg segs)
  have seg: "wire_seg xs conv seg" "unat (sg_len seg) + 24 \<le> unat (kc_mtu kcp)" using Cons.prems(4) by auto
  obtain seg1 k1 pk1 c1 l1 where f: "flush_segment host wnd resent rtomin seg kcp pk change lost = Inr (seg1, k1, pk1, c1, l1)"
    "counted kcp k1" "good_packets host xs conv (unat (kc_mtu kcp)) pk1"
    using flush_segment_good [OF Cons.prems(2,3) seg] by metis
  obtain S1 where S1: "S \<subseteq> S1" "covers host xs conv S1 (in_work pk1)" "sg_xmit seg = 0 \<longrightarrow> (\<exists>s' \<in> S1. same_seg s' seg)"
    using flush_segment_covers [OF f(1) Cons.prems(5) _ seg(1)] Cons.prems(3) by (auto simp: good_packets_def)
  obtain segs2 r2 where rest: "flush_segments host wnd resent rtomin segs k1 pk1 c1 l1 = Inr (segs2, kcp', pk', r2)"
    using Cons.prems(1) f(1) by (auto simp: bindE_eq_Inr)
  note v = counted_views(4,6) [OF f(2)]
  from Cons.IH [OF rest _ _ _ S1(2)] obtain S' where "S1 \<subseteq> S'" "covers host xs conv S' (in_work pk')"
    "\<forall>s \<in> set segs. sg_xmit s = 0 \<longrightarrow> (\<exists>s' \<in> S'. same_seg s' s)"
    using Cons.prems(2,4) f(3) v by auto
  then show ?case using S1(1,3) by (intro exI [of _ S']) auto
qed

section \<open>All segments are taken from the send queue\<close>

definition unsent :: "fragment list \<Rightarrow> nat \<Rightarrow> IKCPSEG \<Rightarrow> bool" where
  "unsent xs k s \<longleftrightarrow> carries xs k s \<and> sg_xmit s = 0"

lemma flush_move_all:
  "snd_upto xs n kcp \<Longrightarrow> list_all2 (unsent xs) [u..<n] (kc_snd_buf kcp) \<Longrightarrow> u \<le> n \<Longrightarrow> kc_snd_una kcp = of_nat u \<Longrightarrow>
    length xs \<le> u + unat cwnd \<Longrightarrow> length xs \<le> 2 ^ 30 \<Longrightarrow> unat cwnd \<le> 2 ^ 30 \<Longrightarrow>
    list_all2 (unsent xs) [u..<length xs] (kc_snd_buf (flush_move wnd cwnd kcp))"
proof (induction wnd cwnd kcp arbitrary: n rule: flush_move.induct)
  case (1 wnd cwnd kcp)
  show ?case
  proof (cases "kc_snd_queue kcp")
    case Nil
    then have "n = length xs" using "1.prems"(1) by (simp add: snd_upto_def)
    then show ?thesis using "1.prems"(2) Nil by (subst flush_move.simps) simp
  next
    case (Cons seg rest)
    define seg' where "seg' = seg\<lparr>sg_conv := kc_conv kcp, sg_cmd := IKCP_CMD_PUSH, sg_wnd := wnd,
      sg_ts := kc_current kcp, sg_sn := kc_snd_nxt kcp, sg_una := kc_rcv_nxt kcp,
      sg_resendts := kc_current kcp, sg_rto := kc_rx_rto kcp, sg_fastack := 0, sg_xmit := 0\<rparr>"
    define k where "k = kcp\<lparr>kc_snd_queue := rest, kc_snd_buf := kc_snd_buf kcp @ [seg'],
      kc_nsnd_que := kc_nsnd_que kcp - 1, kc_nsnd_buf := kc_nsnd_buf kcp + 1, kc_snd_nxt := kc_snd_nxt kcp + 1\<rparr>"
    have n: "carries xs n seg'" "n < length xs" "snd_upto xs (Suc n) k"
      unfolding k_def using snd_upto_move [OF "1.prems"(1) Cons, of seg'] by (simp_all add: seg'_def content_def)
    define w where "w = unat cwnd"
    have w: "cwnd = of_nat w" "n < u + w" "w \<le> 2 ^ 30" using n(2) "1.prems"(5,7) by (auto simp: w_def)
    have "itimediff (of_nat n) (of_nat (u + w)) = int n - int (u + w)"
      using w(2,3) "1.prems"(3,6) n(2) by (intro itimediff_of_nat) auto
    then have lt: "itimediff (kc_snd_nxt kcp) (kc_snd_una kcp + cwnd) < 0"
      using w "1.prems"(1,4) by (simp add: snd_upto_def)
    then have "flush_move wnd cwnd kcp = flush_move wnd cwnd k"
      by (subst flush_move.simps) (simp add: Cons k_def seg'_def Let_def)
    moreover have "unsent xs n seg'" using n(1) by (simp add: unsent_def) (simp add: seg'_def)
    then have "list_all2 (unsent xs) [u..<Suc n] (kc_snd_buf k)"
      using "1.prems"(2,3) by (simp add: k_def list_all2_appendI)
    ultimately show ?thesis
      using "1.IH" [OF lt Cons refl, of "Suc n"] n(3) "1.prems"(3-7) by (simp add: k_def seg'_def)
  qed
qed

text \<open>A flush with a large enough window outputs every segment that has not been sent yet.\<close>

lemma flush_covers:
  assumes "snd_upto xs n kcp" "fits kcp" "kc_updated kcp \<noteq> 0" "list_all2 (unsent xs) [u..<n] (kc_snd_buf kcp)" "u \<le> n"
    "kc_snd_una kcp = of_nat u" "length xs \<le> u + unat (flush_window kcp)" "length xs \<le> 2 ^ 30"
    "unat (flush_window kcp) \<le> 2 ^ 30" "ikcp_flush host kcp = Inr (out, kcp')" "u \<le> j" "j < length xs"
  shows "\<exists>s g. carries xs j s \<and> sg_cmd s = IKCP_CMD_PUSH \<and> s \<in> set g \<and> (\<forall>t \<in> set g. wire_seg xs (kc_conv kcp) t) \<and>
    concat (map (segment_bytes host) g) \<in> set out"
proof -
  have at: "snd_at xs kcp" using assms(1) by (auto simp: snd_at_def)
  from flush_parts [OF at assms(2,3), of host] obtain wnd k0 k pk resent rtomin segs k' buf out' change lost where
    f: "snd_view k0 = snd_view kcp" "kc_snd_una k0 = kc_snd_una kcp" "flush_window k0 = flush_window kcp"
    "k = flush_move wnd (flush_window k0) k0" "good_packets host xs (kc_conv kcp) (unat (kc_mtu kcp)) pk"
    "flush_segments host wnd resent rtomin (kc_snd_buf k) k pk 0 False = Inr (segs, k', (buf, out'), change, lost)"
    "snd_at xs k" "fits k" "mtu_view k = mtu_view kcp" "kc_conv k = kc_conv kcp"
    "ikcp_flush host kcp = Inr (if length buf > 0 then ikcp_output buf out' else out',
       flush_cwnd resent (flush_window k0) change lost (k'\<lparr>kc_snd_buf := segs\<rparr>))" by metis
  have "snd_upto xs n k0" "kc_snd_buf k0 = kc_snd_buf kcp"
    using assms(1) f(1) by (simp_all add: snd_upto_def snd_view_def)
  then have "list_all2 (unsent xs) [u..<length xs] (kc_snd_buf k)"
    using assms(4-9) f(2,3) unfolding f(4) by (intro flush_move_all [of xs n]) simp_all
  then have seg: "unsent xs j (kc_snd_buf k ! (j - u))" "j - u < length (kc_snd_buf k)"
    using assms(11,12) by (auto simp: list_all2_conv_all_nth dest: spec [of _ "j - u"])
  have mtu: "mtu_ok k" "kc_mtu k = kc_mtu kcp" using f(8,9) by (simp_all add: fits_def mtu_view_def)
  have "\<forall>s \<in> set (kc_snd_buf k). wire_seg xs (kc_conv kcp) s \<and> unat (sg_len s) + 24 \<le> unat (kc_mtu k)"
    using snd_at_wire [OF f(7)] fits_len [OF f(8)] f(10) by auto
  then obtain S where S: "covers host xs (kc_conv kcp) S (in_work (buf, out'))"
    "\<forall>s \<in> set (kc_snd_buf k). sg_xmit s = 0 \<longrightarrow> (\<exists>s' \<in> S. same_seg s' s)"
    using flush_segments_covers [OF f(6) mtu(1), of xs "kc_conv kcp" "{}"] f(5) mtu(2) by (auto simp: covers_def)
  define s where "s = kc_snd_buf k ! (j - u)"
  have s: "s \<in> set (kc_snd_buf k)" "sg_xmit s = 0" "carries xs j s" using seg by (auto simp: s_def unsent_def)
  then obtain s' where s': "s' \<in> S" "same_seg s' s" using S(2) by blast
  obtain n' where "snd_upto xs n' k" using f(7) by (auto simp: snd_at_def)
  then have "sg_cmd s' = IKCP_CMD_PUSH" using s(1) s'(2) by (simp add: snd_upto_def same_seg_def)
  moreover have "carries xs j s'" using s(3) carries_same [OF s'(2)] by simp
  moreover obtain g where g: "s' \<in> set g" "\<forall>t \<in> set g. wire_seg xs (kc_conv kcp) t"
    "concat (map (segment_bytes host) g) \<in> in_work (buf, out')" using S(1) s'(1) by (auto simp: covers_def)
  moreover have "concat (map (segment_bytes host) g) \<in> set out"
    using g(3) group_ne [OF g(1), of host] f(11) assms(10) by (auto simp: in_work_def ikcp_output_def split: if_splits)
  ultimately show ?thesis by blast
qed

section \<open>A receiver that gets all packets\<close>

definition deliver_all :: "endian \<Rightarrow> uint8 list list \<Rightarrow> IKCPCB \<Rightarrow> IKCPCB" where
  "deliver_all host ps kcp = fold (\<lambda>p k. snd (ikcp_input host p k)) ps kcp"

lemma settled_view: "rcv_view k = rcv_view k' \<Longrightarrow> settled k = settled k'"
  by (auto simp: settled_def rcv_view_def split: list.splits)

lemma parse_data_settled: "settled kcp \<Longrightarrow> settled (ikcp_parse_data seg kcp)"
  by (simp add: ikcp_parse_data_def Let_def move_ready_settled)

lemma input_segment_settled:
  assumes "settled kcp"
  shows "settled (snd (input_segment seg data maxack kcp))"
proof -
  define k where "k = ikcp_shrink_buf (ikcp_parse_una (sg_una seg) (kcp\<lparr>kc_rmt_wnd := sg_wnd seg\<rparr>))"
  have k: "settled k'" if "rcv_view k' = rcv_view k" for k'
    using assms settled_view [of k kcp] settled_view [OF that] by (simp add: k_def)
  have "settled (input_push seg data k)"
    using k by (auto simp: input_push_def Let_def intro!: parse_data_settled)
  moreover have "settled (snd (input_ack seg maxack k))" by (rule k) (simp add: input_ack_def Let_def)
  moreover have "settled (k\<lparr>kc_probe := p\<rparr>)" for p by (rule k) simp
  ultimately show ?thesis using k unfolding input_segment_def Let_def k_def [symmetric] by simp
qed

lemma ikcp_input_settled: "settled kcp \<Longrightarrow> settled (snd (ikcp_input host data kcp))"
  by (rule ikcp_input_invariant)
    (auto intro: input_segment_settled simp: settled_view [OF input_cwnd_views(1)] settled_view [OF parse_views(5)])

lemma rcv_at_unique:
  assumes "rcv_at xs M N ks b" "rcv_at xs M N' ks' b"
  shows "N = N'" "ks = ks'"
proof -
  have "(of_nat N :: uint32) = of_nat N'" "N \<le> 2 ^ 30" "N' \<le> 2 ^ 30"
    using assms unfolding rcv_at_def by (metis, linarith, linarith)
  then show "N = N'" using of_nat_word32_eq [of N N'] by simp
  have l: "length xs \<le> 2 ^ 30" "list_all2 (carries xs) ks (kc_rcv_buf b)" "list_all2 (carries xs) ks' (kc_rcv_buf b)"
    using assms by (simp_all add: rcv_at_def)
  show "ks = ks'"
  proof (rule nth_equalityI)
    show "length ks = length ks'" using l(2,3) by (simp add: list_all2_lengthD)
    show "ks ! i = ks' ! i" if "i < length ks" for i
      using l that list_all2_nthD [OF l(2) that] list_all2_nthD2 [OF l(3), of i]
      by (intro carries_unique [OF _ _ l(1)]) (auto simp: list_all2_lengthD)
  qed
qed

definition brings :: "endian \<Rightarrow> fragment list \<Rightarrow> uint32 \<Rightarrow> uint8 list set \<Rightarrow> nat \<Rightarrow> bool" where
  "brings host xs conv ps j \<longleftrightarrow> (\<exists>s g. carries xs j s \<and> sg_cmd s = IKCP_CMD_PUSH \<and> s \<in> set g \<and>
     (\<forall>t \<in> set g. wire_seg xs conv t) \<and> concat (map (segment_bytes host) g) \<in> ps)"

lemma input_brings:
  assumes "\<forall>f \<in> set xs. unat (fst f) < 256" "rcv_at xs M N ks b" "packet_of host' xs (kc_conv b) p" "length p < 2 ^ 31"
  shows "\<exists>N' ks'. rcv_at xs M N' ks' (snd (ikcp_input host p b)) \<and> N \<le> N' \<and>
    kc_rcv_wnd (snd (ikcp_input host p b)) = kc_rcv_wnd b \<and> kc_conv (snd (ikcp_input host p b)) = kc_conv b \<and>
    received N ks \<union> {j. j < N + unat (kc_rcv_wnd b) \<and> brings host' xs (kc_conv b) {p} j} \<subseteq> received N' ks'"
proof -
  obtain segs where segs: "\<forall>s \<in> set segs. wire_seg xs (kc_conv b) s" "p = concat (map (segment_bytes host') segs)"
    using assms(3) by (auto simp: packet_of_def)
  obtain N' ks' where n: "rcv_at xs M N' ks' (snd (ikcp_input host p b))" "N \<le> N'"
    "kc_rcv_wnd (snd (ikcp_input host p b)) = kc_rcv_wnd b" "kc_conv (snd (ikcp_input host p b)) = kc_conv b"
    "received N ks \<subseteq> received N' ks'"
    using input_packet [OF assms(1) segs(1) assms(2) segs(2) assms(4), of host] by auto
  have "j \<in> received N' ks'" if j: "j < N + unat (kc_rcv_wnd b)" "brings host' xs (kc_conv b) {p} j" for j
  proof -
    obtain s g where g: "carries xs j s" "sg_cmd s = IKCP_CMD_PUSH" "s \<in> set g" "\<forall>t \<in> set g. wire_seg xs (kc_conv b) t"
      "p = concat (map (segment_bytes host') g)" using j(2) by (auto simp: brings_def)
    obtain N'' ks'' where n'': "rcv_at xs M N'' ks'' (snd (ikcp_input host p b))" "j \<in> received N'' ks''"
      using input_packet [OF assms(1) g(4) assms(2) g(5) assms(4), of host] g(1-3) j(1) by blast
    then show ?thesis using rcv_at_unique [OF n(1) n''(1)] by simp
  qed
  then show ?thesis using n by blast
qed

lemma deliver_all_received:
  assumes "\<forall>f \<in> set xs. unat (fst f) < 256"
  shows "rcv_at xs M N ks b \<Longrightarrow> settled b \<Longrightarrow> \<forall>p \<in> set ps. packet_of host' xs (kc_conv b) p \<and> length p < 2 ^ 31 \<Longrightarrow>
    \<exists>N' ks'. rcv_at xs M N' ks' (deliver_all host ps b) \<and> settled (deliver_all host ps b) \<and>
      kc_rcv_wnd (deliver_all host ps b) = kc_rcv_wnd b \<and> N \<le> N' \<and>
      received N ks \<union> {j. j < N + unat (kc_rcv_wnd b) \<and> brings host' xs (kc_conv b) (set ps) j} \<subseteq> received N' ks'"
proof (induction ps arbitrary: b N ks)
  case Nil
  then show ?case by (auto simp: deliver_all_def brings_def)
next
  case (Cons p ps)
  let ?b = "snd (ikcp_input host p b)"
  obtain N1 ks1 where n1: "rcv_at xs M N1 ks1 ?b" "N \<le> N1" "kc_rcv_wnd ?b = kc_rcv_wnd b" "kc_conv ?b = kc_conv b"
    "received N ks \<union> {j. j < N + unat (kc_rcv_wnd b) \<and> brings host' xs (kc_conv b) {p} j} \<subseteq> received N1 ks1"
    using input_brings [OF assms Cons.prems(1), of host' p host] Cons.prems(3) by auto
  obtain N' ks' where n: "rcv_at xs M N' ks' (deliver_all host ps ?b)" "settled (deliver_all host ps ?b)"
    "kc_rcv_wnd (deliver_all host ps ?b) = kc_rcv_wnd b" "N1 \<le> N'"
    "received N1 ks1 \<union> {j. j < N1 + unat (kc_rcv_wnd b) \<and> brings host' xs (kc_conv b) (set ps) j} \<subseteq> received N' ks'"
    using Cons.IH [OF n1(1) ikcp_input_settled [OF Cons.prems(2)]] Cons.prems(3) unfolding n1(3,4) by auto
  have "brings host' xs (kc_conv b) (set (p # ps)) j \<longleftrightarrow>
      brings host' xs (kc_conv b) {p} j \<or> brings host' xs (kc_conv b) (set ps) j" for j
    unfolding brings_def by auto
  then have "received N ks \<union> {j. j < N + unat (kc_rcv_wnd b) \<and> brings host' xs (kc_conv b) (set (p # ps)) j} \<subseteq> received N' ks'"
    using n1(2,5) n(5) less_le_trans [OF _ add_right_mono [OF n1(2)]] by blast
  moreover have "deliver_all host (p # ps) b = deliver_all host ps ?b" by (simp add: deliver_all_def)
  ultimately show ?case using n(1-4) n1(2) by (intro exI [of _ N'] exI [of _ ks']) auto
qed

lemma settled_all:
  assumes "rcv_at xs M N ks b" "settled b" "{..<n} \<subseteq> received N ks" "n \<le> M + unat (kc_rcv_wnd b)"
  shows "n \<le> N"
proof (rule ccontr)
  assume "\<not> n \<le> N"
  then have "N \<in> received N ks" using assms(3) by auto
  then have "N \<in> set ks" by (simp add: received_def)
  moreover have ks: "sorted_wrt (<) ks" "\<forall>k \<in> set ks. N \<le> k" using assms(1) by (auto simp: rcv_at_def)
  ultimately obtain ks' where "ks = N # ks'" by (cases ks) force+
  then obtain seg rest where "kc_rcv_buf b = seg # rest" "sg_sn seg = kc_rcv_nxt b"
    using assms(1) by (auto simp: rcv_at_def carries_def list_all2_Cons1)
  then have "kc_nrcv_que b \<ge> kc_rcv_wnd b" using assms(2) by (simp add: settled_def)
  moreover have "kc_nrcv_que b = of_nat (N - M)" "N - M < 2 ^ 32" "M \<le> N" using assms(1) by (auto simp: rcv_at_def)
  ultimately have "unat (kc_rcv_wnd b) \<le> N - M" by (metis unat_of_nat32 word_le_nat_alt)
  then show False using \<open>\<not> n \<le> N\<close> assms(4) \<open>M \<le> N\<close> by linarith
qed

section \<open>A message over a loss-free connection\<close>

text \<open>The control block of a session, as \<open>Session::init_kcp\<close> sets it up.\<close>

definition init_kcp :: "uint32 \<Rightarrow> IKCPCB" where
  "init_kcp conv = snd (ikcp_nodelay 1 10 2 1 (ikcp_create conv))"

lemma init_kcp_fields:
  "kc_conv (init_kcp conv) = conv" "kc_mss (init_kcp conv) = 1376" "kc_mtu (init_kcp conv) = 1400"
  "kc_snd_queue (init_kcp conv) = []" "kc_snd_buf (init_kcp conv) = []" "kc_snd_nxt (init_kcp conv) = 0"
  "kc_snd_una (init_kcp conv) = 0" "kc_stream (init_kcp conv) = 0" "kc_updated (init_kcp conv) = 0"
  "kc_interval (init_kcp conv) = 10" "kc_bufsize (init_kcp conv) = 4272" "flush_window (init_kcp conv) = 32"
  "kc_rcv_wnd (init_kcp conv) = 32" "kc_rcv_nxt (init_kcp conv) = 0" "kc_rcv_queue (init_kcp conv) = []"
  "kc_rcv_buf (init_kcp conv) = []" "kc_nrcv_que (init_kcp conv) = 0" "kc_nrcv_buf (init_kcp conv) = 0"
  by (simp_all add: init_kcp_def ikcp_nodelay_def ikcp_create_def kcp_consts bound_interval_def flush_window_def
      imin_def Let_def)

lemma init_sender: "sender [] (init_kcp conv)"
  by (simp add: sender_def snd_at_def snd_upto_def fits_def mtu_ok_def init_kcp_fields)

lemma init_receiver: "length xs \<le> 2 ^ 30 \<Longrightarrow> rcv_at xs 0 0 [] (init_kcp conv)" "settled (init_kcp conv)"
  by (simp_all add: rcv_at_def settled_def init_kcp_fields)

lemma first_update:
  assumes "kc_updated kcp = 0" "kc_interval kcp = 10"
  shows "ikcp_update host t kcp = ikcp_flush host (kcp\<lparr>kc_current := t, kc_updated := 1, kc_ts_flush := t + 10\<rparr>)"
proof -
  have "itimediff t (t + 10) = -10" by (simp add: itimediff_def)
  then show ?thesis using assms by (simp add: ikcp_update_def Let_def)
qed

lemma chunks_few:
  assumes "length msg \<le> 32 * 1376"
  shows "length (chunks 1376 msg) \<le> 32"
proof -
  have "(length msg + 1376 - 1) div 1376 \<le> (32 * 1376 + 1375) div 1376" using assms by (intro div_le_mono) simp
  then show ?thesis using length_chunks [of 1376 msg] by simp
qed

lemma first_flush:
  assumes "length msg \<le> 32 * 1376"
  defines "fs \<equiv> frags 1376 msg"
  shows "\<exists>a1 out a2. ikcp_send msg (int (length msg)) (init_kcp conv) = Inr (0, a1) \<and> ikcp_update host t a1 = Inr (out, a2) \<and>
    valid_frags fs \<and> (\<forall>f \<in> set fs. unat (fst f) < 256) \<and>
    (\<forall>p \<in> set out. packet_of host fs conv p \<and> p \<noteq> [] \<and> length p \<le> 1400) \<and> (\<forall>j < length fs. brings host fs conv (set out) j)"
proof -
  let ?a = "init_kcp conv"
  have n: "length (chunks 1376 msg) \<le> 32" using chunks_few [OF assms(1)] .
  have mss: "unat (kc_mss ?a) = 1376" by (simp add: init_kcp_fields)
  define a1 where "a1 = ?a\<lparr>kc_snd_queue := map new_segment fs, kc_nsnd_que := kc_nsnd_que ?a + of_nat (length (chunks 1376 msg))\<rparr>"
  have send: "ikcp_send msg (int (length msg)) ?a = Inr (0, a1)"
    using ikcp_send_eq [of ?a msg] n assms(1) mss by (simp add: mss_ok_def init_kcp_fields a1_def fs_def Let_def)
  have snd1: "sender fs a1"
    using sender_send [OF init_sender, of msg conv] n assms(1) unfolding mss a1_def fs_def by (simp add: init_kcp_fields)
  define k where "k = a1\<lparr>kc_current := t, kc_updated := 1, kc_ts_flush := t + 10\<rparr>"
  have upd: "ikcp_update host t a1 = ikcp_flush host k"
    unfolding k_def by (rule first_update) (simp_all add: a1_def init_kcp_fields)
  have w: "flush_window k = flush_window ?a" by (simp add: k_def a1_def flush_window_def Let_def)
  have k: "kc_conv k = conv" "kc_snd_una k = 0" "kc_snd_nxt k = 0" "kc_snd_buf k = []" "kc_updated k = 1" "flush_window k = 32"
    using w init_kcp_fields [of conv] by (simp_all add: k_def a1_def)
  have "sender fs k" using snd1 sender_view [of k a1 fs] by (simp add: k_def views)
  then have at: "snd_at fs k" "fits k" by (simp_all add: sender_def)
  have seg: "map content (kc_snd_queue k) = fs" by (simp add: k_def a1_def comp_def)
  obtain n' where n': "snd_upto fs n' k" using at(1) by (auto simp: snd_at_def)
  then have "drop n' fs = fs" "n' \<le> length fs" using seg by (simp_all add: snd_upto_def)
  from arg_cong [OF this(1), of length] this(2) have "n' = 0" by simp
  then have s0: "snd_upto fs 0 k" using n' by simp
  have len: "length fs \<le> 32" using n by (simp add: fs_def frags_def)
  obtain out a2 where fl: "ikcp_flush host k = Inr (out, a2)"
    "\<forall>p \<in> set out. packet_of host fs (kc_conv k) p \<and> p \<noteq> [] \<and> length p \<le> unat (kc_mtu k)"
    using flush_good [OF at, of host] by blast
  have "brings host fs conv (set out) j" if "j < length fs" for j
    using flush_covers [OF s0 at(2), of 0 host out a2 j] k fl(1) len that by (simp add: brings_def)
  moreover have "valid_frags fs" using n assms(1) by (auto simp: fs_def intro!: valid_frags_frags)
  moreover have "\<forall>f \<in> set fs. unat (fst f) < 256" using s0 by (simp add: snd_upto_def)
  moreover have "kc_mtu k = 1400" by (simp add: k_def a1_def init_kcp_fields)
  ultimately show ?thesis using send upd fl k(1) by (intro exI [of _ a1] exI [of _ out] exI [of _ a2]) auto
qed

lemma delivered_message:
  assumes "length msg \<le> 32 * 1376" "int (length msg) \<le> len"
  shows "\<exists>a1 out a2 b. ikcp_send msg (int (length msg)) (init_kcp conv) = Inr (0, a1) \<and> ikcp_update ha t a1 = Inr (out, a2) \<and>
    ikcp_recv len (deliver_all hb out (init_kcp conv)) = Inr (int (length msg), msg, b)"
proof -
  define fs where "fs = frags 1376 msg"
  obtain a1 out a2 where f: "ikcp_send msg (int (length msg)) (init_kcp conv) = Inr (0, a1)" "ikcp_update ha t a1 = Inr (out, a2)"
    "valid_frags fs" "\<forall>f \<in> set fs. unat (fst f) < 256" "\<forall>p \<in> set out. packet_of ha fs conv p \<and> p \<noteq> [] \<and> length p \<le> 1400"
    "\<forall>j < length fs. brings ha fs conv (set out) j"
    using first_flush [OF assms(1), of conv ha t] unfolding fs_def by blast
  have len: "length fs \<le> 32" using chunks_few [OF assms(1)] by (simp add: fs_def frags_def)
  let ?b = "deliver_all hb out (init_kcp conv)"
  have wnd: "unat (kc_rcv_wnd (init_kcp conv)) = 32" by (simp add: init_kcp_fields)
  have small: "length p < 2 ^ 31" if "p \<in> set out" for p using f(5) that by (auto intro: le_less_trans)
  have "rcv_at fs 0 0 [] (init_kcp conv)" using len by (intro init_receiver(1)) simp
  from deliver_all_received [OF f(4) this init_receiver(2), of out ha hb] f(5) small obtain N ks where
    b: "rcv_at fs 0 N ks ?b" "settled ?b" "kc_rcv_wnd ?b = kc_rcv_wnd (init_kcp conv)"
      "{j. j < 32 \<and> brings ha fs conv (set out) j} \<subseteq> received N ks"
    unfolding wnd init_kcp_fields(1) by auto
  have "{..<length fs} \<subseteq> received N ks" using b(4) f(6) len by (auto simp: subset_iff)
  then have "length fs \<le> N" using b(1-3) len wnd by (intro settled_all [of fs 0 N ks ?b]) simp_all
  then have "N = length fs" using b(1) by (simp add: rcv_at_def)
  moreover have "length fs > 0" using f(3) by (simp add: valid_frags_def)
  moreover have "message fs = msg" by (simp add: fs_def)
  ultimately have "\<exists>b. ikcp_recv len ?b = Inr (int (length msg), msg, b)"
    using recv_message [OF b(1), of fs "[]" len] f(3) assms(2) by (auto split: if_splits)
  then show ?thesis using f(1,2) by blast
qed

text \<open>
  C9: over a loss-free connection with the settings of a session, a message of up to 32 full segments
  that is sent arrives with the first flush: the receiver gets its packets and the next \<open>ikcp_recv\<close> with
  a large enough buffer returns the message, whatever the byte orders of the hosts and the clock.
\<close>

theorem message_arrives:
  assumes "length msg \<le> 32 * 1376" "int (length msg) \<le> len"
  shows "\<exists>a1 out a2 b. ikcp_send msg (int (length msg)) (init_kcp conv) = Inr (0, a1) \<and> ikcp_update ha t a1 = Inr (out, a2) \<and>
    ikcp_recv len (deliver_all hb out (init_kcp conv)) = Inr (int (length msg), msg, b)"
  using assms by (rule delivered_message)

theorem message_arrives_witness:
  "\<exists>a1 out a2 b. ikcp_send [1, 2, 3] 3 (init_kcp 7) = Inr (0, a1) \<and> ikcp_update LittleEndian 5000 a1 = Inr (out, a2) \<and>
    ikcp_recv 32768 (deliver_all BigEndian out (init_kcp 7)) = Inr (3, [1, 2, 3], b)"
  using message_arrives [of "[1, 2, 3]" 32768 7 LittleEndian 5000 BigEndian] by simp

section \<open>Messages arrive in order\<close>

lemma connection_deliver_all:
  "connection ha hb conv ms a net b ds \<Longrightarrow> set ps \<subseteq> net \<Longrightarrow> connection ha hb conv ms a net (deliver_all hb ps b) ds"
  by (induction ps arbitrary: b) (auto simp: deliver_all_def intro: connection.deliver)

lemma connection_example:
  "\<exists>a net b. connection LittleEndian BigEndian 7 [frags 1376 [1, 2, 3]] a net b [[1, 2, 3]]"
proof -
  obtain a1 out a2 b where e: "ikcp_send [1, 2, 3] 3 (init_kcp 7) = Inr (0, a1)" "ikcp_update LittleEndian 5000 a1 = Inr (out, a2)"
    "ikcp_recv 32768 (deliver_all BigEndian out (init_kcp 7)) = Inr (3, [1, 2, 3], b)"
    using delivered_message [of "[1, 2, 3]" 32768 7 LittleEndian 5000 BigEndian] by auto
  have "connection LittleEndian BigEndian 7 [] (init_kcp 7) {} (init_kcp 7) []"
    unfolding init_kcp_def by (intro connection.a_nodelay connection.b_nodelay connection.start)
  then have "connection LittleEndian BigEndian 7 [frags 1376 [1, 2, 3]] a1 {} (init_kcp 7) []"
    using connection.send [of LittleEndian BigEndian 7 "[]" "init_kcp 7" "{}" "init_kcp 7" "[]" "[1, 2, 3]" a1] e(1)
    by (simp add: init_kcp_fields)
  then have "connection LittleEndian BigEndian 7 [frags 1376 [1, 2, 3]] a2 (set out) (init_kcp 7) []"
    using connection.a_update [OF _ e(2)] by fastforce
  then have "connection LittleEndian BigEndian 7 [frags 1376 [1, 2, 3]] a2 (set out) (deliver_all BigEndian out (init_kcp 7)) []"
    by (rule connection_deliver_all) simp
  from connection.recv [OF this _ e(3)] show ?thesis by auto
qed

text \<open>
  C8: whatever packets of the sender the network loses, repeats or reorders, whatever the sender gets as
  acknowledgements and whenever the two sides run their timers, the application on the receiving side
  reads a prefix of the messages that were sent: none is lost, changed, repeated or out of order before
  the last one read. This holds for streams of up to \<open>2 ^ 30\<close> segments.
\<close>

theorem messages_in_order:
  assumes "connection ha hb conv ms a net b ds" "length (concat ms) \<le> 2 ^ 30"
  shows "prefix ds (map message ms)"
proof -
  have "ds = map message (take (length ds) ms)" using connection_linked [OF assms] by blast
  then have "ds = take (length ds) (map message ms)" by (simp add: take_map)
  then show ?thesis by (metis take_is_prefix)
qed

theorem messages_in_order_witness:
  "\<exists>a net b. connection LittleEndian BigEndian 7 [frags 1376 [1, 2, 3]] a net b [[1, 2, 3]] \<and>
     prefix [[1, 2, 3]] (map message [frags 1376 [1, 2, 3]])"
proof -
  obtain a net b where "connection LittleEndian BigEndian 7 [frags 1376 [1, 2, 3]] a net b [[1, 2, 3]]"
    using connection_example by blast
  moreover have "length (concat [frags 1376 [1, 2, 3]]) \<le> 2 ^ 30" by (simp add: frags_def chunks.simps)
  ultimately show ?thesis using messages_in_order by blast
qed

end
