(* ===== verification/KcpControl.thy ===== *)
theory KcpControl
  imports KcpDelivery
begin

text \<open>
  Timers, acknowledgement list, buffer and limits of \<open>ikcp.c\<close>: the growing array of acknowledgements is a
  list of pairs, the retransmission timeout stays within its bounds, \<open>ikcp_check\<close> never skips a flush, and
  packets are assembled inside the buffer as long as every queued segment fits the MTU, which a later
  \<open>ikcp_setmtu\<close> can break.
\<close>

section \<open>The acknowledgement list\<close>

definition acks :: "IKCPCB \<Rightarrow> (uint32 \<times> uint32) list" where
  "acks kcp = map (ikcp_ack_get kcp) [0..<unat (kc_ackcount kcp)]"

definition acks_ok :: "IKCPCB \<Rightarrow> bool" where
  "acks_ok kcp \<longleftrightarrow> length (kc_acklist kcp) = 2 * unat (kc_ackblock kcp) \<and> kc_ackcount kcp \<le> kc_ackblock kcp"

lemma block_loop_bounds: "newsize \<le> block_loop k newsize" "block_loop k newsize \<le> max (8 * 2 ^ k) (2 * newsize)"
  by (induction k newsize rule: block_loop.induct; subst block_loop.simps; auto)+

lemma block_loop_of_nat:
  assumes "newsize \<le> 2 ^ 30"
  shows "unat (of_nat (block_loop 0 newsize) :: uint32) = block_loop 0 newsize"
  using block_loop_bounds(2) [of 0 newsize] assms by (intro unat_of_nat32) auto

text \<open>
  The acknowledgement list is an array of pairs that grows by doubling. \<open>ikcp_ack_push\<close> appends one
  pair to the list it represents and keeps the array large enough, for up to \<open>2 ^ 30\<close> pairs.
\<close>

theorem ack_list_refinement:
  assumes "acks_ok kcp" "unat (kc_ackcount kcp) < 2 ^ 30"
  shows "acks (ikcp_ack_push sn ts kcp) = acks kcp @ [(sn, ts)] \<and> acks_ok (ikcp_ack_push sn ts kcp)"
proof -
  define n where "n = unat (kc_ackcount kcp)"
  have n: "unat (kc_ackcount kcp + 1) = Suc n" "unat (kc_ackcount kcp * 2) = n * 2"
    using assms(2) unat_of_nat32 [of "Suc n"] unat_of_nat32 [of "n * 2"] by (simp_all add: n_def add.commute)
  define al where "al = (if Suc n > unat (kc_ackblock kcp)
    then take (2 * n) (kc_acklist kcp) @ replicate (2 * block_loop 0 (Suc n) - length (take (2 * n) (kc_acklist kcp))) 0
    else kc_acklist kcp)"
  define blk where "blk = (if Suc n > unat (kc_ackblock kcp) then of_nat (block_loop 0 (Suc n)) else kc_ackblock kcp)"
  have le: "n \<le> unat (kc_ackblock kcp)" "length (kc_acklist kcp) = 2 * unat (kc_ackblock kcp)"
    using assms(1) by (auto simp: acks_ok_def word_le_nat_alt n_def)
  have blk: "length al = 2 * unat blk" "Suc n \<le> unat blk"
    using le block_loop_bounds(1) [of "Suc n" 0] block_loop_of_nat [of "Suc n"] assms(2)
    by (auto simp: al_def blk_def n_def)
  have push: "ikcp_ack_push sn ts kcp = kcp\<lparr>kc_acklist := al[n * 2 := sn, n * 2 + 1 := ts], kc_ackblock := blk,
      kc_ackcount := kc_ackcount kcp + 1\<rparr>"
    by (simp add: ikcp_ack_push_def n Let_def al_def blk_def n_def [symmetric])
  have old: "al ! i = kc_acklist kcp ! i" if "i < 2 * n" for i
    using that le by (simp add: al_def nth_append)
  have get: "ikcp_ack_get (ikcp_ack_push sn ts kcp) i = (if i = n then (sn, ts) else ikcp_ack_get kcp i)" if "i \<le> n" for i
    using that blk old by (auto simp: ikcp_ack_get_def push nth_list_update)
  have cnt: "unat (kc_ackcount (ikcp_ack_push sn ts kcp)) = Suc n" using n(1) by (simp add: push)
  have "acks (ikcp_ack_push sn ts kcp) = acks kcp @ [(sn, ts)]"
    unfolding acks_def cnt n_def [symmetric] by (simp add: get)
  moreover have "acks_ok (ikcp_ack_push sn ts kcp)"
    using blk cnt by (simp add: acks_ok_def push word_le_nat_alt)
  ultimately show ?thesis by simp
qed

theorem ack_list_refinement_witness:
  "acks (ikcp_ack_push 7 1000 (ikcp_create 1)) = [(7, 1000)]"
  using ack_list_refinement [of "ikcp_create 1" 7 1000] by (simp add: acks_ok_def acks_def ikcp_create_def)

section \<open>Timers\<close>

text \<open>
  After every round trip sample, however large or however often the signed averages wrap, the
  retransmission timeout lies between the configured minimum and 60 seconds.
\<close>

theorem rto_bounds:
  assumes "kc_rx_minrto kcp \<le> IKCP_RTO_MAX"
  shows "kc_rx_minrto kcp \<le> kc_rx_rto (ikcp_update_ack rtt kcp) \<and> kc_rx_rto (ikcp_update_ack rtt kcp) \<le> IKCP_RTO_MAX \<and>
    kc_rx_minrto (ikcp_update_ack rtt kcp) = kc_rx_minrto kcp"
  using assms by (auto simp: ikcp_update_ack_def ibound_def imin_def imax_def Let_def)

theorem rto_bounds_witness: "kc_rx_rto (ikcp_update_ack 0x7fffffff (init_kcp 1)) \<le> 60000"
  using rto_bounds [of "init_kcp 1" "0x7fffffff"]
  by (simp add: init_kcp_def ikcp_nodelay_def ikcp_create_def kcp_consts bound_interval_def Let_def)

lemma check_loop_bounds:
  "check_loop current segs tm = Some m \<Longrightarrow> 0 < tm \<Longrightarrow> 0 < m \<and> m \<le> tm"
  by (induction current segs tm rule: check_loop.induct) (fastforce simp: Let_def split: if_splits)+

lemma sint_of_int32: "- (2 ^ 31) \<le> i \<Longrightarrow> i < 2 ^ 31 \<Longrightarrow> sint (of_int i :: uint32) = i"
  by (simp only: signed_of_int) (simp add: signed_take_bit_int_eq_self)

lemma itimediff_swap:
  assumes "itimediff a b < 0" "- 10000 \<le> itimediff a b"
  shows "itimediff b a = - itimediff a b"
proof -
  have "itimediff b a = sint (of_int (- itimediff a b) :: uint32)" by (simp add: itimediff_def)
  also have "\<dots> = - itimediff a b" using assms by (intro sint_of_int32) auto
  finally show ?thesis .
qed

lemma check_later:
  assumes "kc_updated kcp \<noteq> 0" "unat (kc_interval kcp) < 2 ^ 31" "ikcp_check t kcp \<noteq> t"
  obtains d where "itimediff (ikcp_check t kcp) t = d" "0 < d" "d \<le> int (unat (kc_interval kcp))"
    "itimediff t (kc_ts_flush kcp) < 0" "- 10000 \<le> itimediff t (kc_ts_flush kcp)" "d \<le> itimediff (kc_ts_flush kcp) t"
proof -
  define f where "f = kc_ts_flush kcp"
  have f: "itimediff t f < 0" "- 10000 \<le> itimediff t f" "itimediff t f < 10000"
    using assms(1,3) by (auto simp: ikcp_check_def Let_def f_def split: if_splits)
  then obtain m where m: "check_loop t (kc_snd_buf kcp) 0x7fffffff = Some m"
    using assms(1,3) by (cases "check_loop t (kc_snd_buf kcp) 0x7fffffff") (auto simp: ikcp_check_def Let_def f_def)
  then have mb: "0 < m" "m \<le> 0x7fffffff" using check_loop_bounds by fastforce+
  define e where "e = (if m < itimediff f t then m else itimediff f t)"
  have e: "0 < e" "e \<le> itimediff f t" "e \<le> 10000" using f mb itimediff_swap [of t f] by (auto simp: e_def)
  define w where "w = (if (of_int e :: uint32) \<ge> kc_interval kcp then kc_interval kcp else of_int e)"
  have check: "ikcp_check t kcp = t + w"
    using assms(1) f m by (simp add: ikcp_check_def Let_def w_def e_def f_def [symmetric])
  have ue: "unat (of_int e :: uint32) = nat e" using e unat_of_nat32 [of "nat e"] by simp
  define v where "v = unat w"
  have v: "v \<le> nat e" "v \<le> unat (kc_interval kcp)" using ue by (auto simp: v_def w_def word_le_nat_alt)
  have "w \<noteq> 0" using check assms(3) by auto
  then have pos: "0 < v" by (simp add: v_def unat_gt_0)
  have "itimediff (t + w) t = int v"
    using v(2) assms(2) sint_small32 [of w] unfolding itimediff_def v_def by (simp only: add_diff_cancel_left')
  moreover have "int v \<le> int (unat (kc_interval kcp))" using v(2) by (simp only: of_nat_le_iff)
  ultimately show thesis
    using that [of "int v"] pos v(1) e(1,2) f(1,2) unfolding f_def check by linarith
qed

text \<open>
  \<open>ikcp_check\<close> names a time at most one interval ahead, and until that time \<open>ikcp_update\<close> outputs nothing
  and only stores the clock: a caller that sleeps until then misses no flush.
\<close>

theorem check_misses_nothing:
  assumes "kc_updated kcp \<noteq> 0" "unat (kc_interval kcp) < 2 ^ 31"
    "0 \<le> itimediff t' t" "itimediff t' t < itimediff (ikcp_check t kcp) t"
  shows "ikcp_update host t' kcp = Inr ([], kcp\<lparr>kc_current := t'\<rparr>) \<and>
    itimediff (ikcp_check t kcp) t \<le> int (unat (kc_interval kcp))"
proof -
  have "ikcp_check t kcp \<noteq> t" using assms(3,4) by auto
  from check_later [OF assms(1,2) this] obtain d where d: "itimediff (ikcp_check t kcp) t = d" "d \<le> int (unat (kc_interval kcp))"
    "itimediff t (kc_ts_flush kcp) < 0" "- 10000 \<le> itimediff t (kc_ts_flush kcp)" "d \<le> itimediff (kc_ts_flush kcp) t" by metis
  define D where "D = itimediff (kc_ts_flush kcp) t"
  have D: "D \<le> 10000" "itimediff t' t < D" using itimediff_swap [OF d(3,4)] d(1,4,5) assms(4) by (auto simp: D_def)
  have "itimediff t' (kc_ts_flush kcp) = sint (of_int (itimediff t' t - D) :: uint32)"
    by (simp add: itimediff_def D_def)
  also have "\<dots> = itimediff t' t - D" using D assms(3) by (intro sint_of_int32) auto
  finally have "itimediff t' (kc_ts_flush kcp) < 0" "\<not> itimediff t' (kc_ts_flush kcp) < -10000"
    using D assms(3) by linarith+
  then show ?thesis using assms(1) d(1,2) by (simp add: ikcp_update_def Let_def)
qed

theorem check_misses_nothing_witness:
  "ikcp_update LittleEndian 1005 ((init_kcp 7)\<lparr>kc_updated := 1, kc_ts_flush := 1010\<rparr>) =
     Inr ([], (init_kcp 7)\<lparr>kc_updated := 1, kc_ts_flush := 1010, kc_current := 1005\<rparr>)"
proof -
  have "ikcp_check 1003 ((init_kcp 7)\<lparr>kc_updated := 1, kc_ts_flush := 1010\<rparr>) = 1010"
    by (simp add: ikcp_check_def init_kcp_fields itimediff_def Let_def)
  then show ?thesis
    using check_misses_nothing [of "(init_kcp 7)\<lparr>kc_updated := 1, kc_ts_flush := 1010\<rparr>" 1005 1003 LittleEndian]
    by (simp add: init_kcp_fields itimediff_def)
qed

section \<open>The packet buffer\<close>

text \<open>
  C10: a control block whose queued segments fit the MTU stays so under messages, packets and flushes, and
  assembling packets never writes outside of the buffer: \<open>ikcp_update\<close> returns, and every packet it outputs
  has at least one byte and at most as many as the MTU.
\<close>

theorem update_memory_safe:
  assumes "sender xs kcp"
  shows "(\<exists>out kcp'. ikcp_update host t kcp = Inr (out, kcp') \<and> sender xs kcp' \<and>
      (\<forall>p \<in> set out. 0 < length p \<and> length p \<le> unat (kc_mtu kcp))) \<and>
    sender xs (snd (ikcp_input host data kcp)) \<and>
    (\<forall>msg kcp'. length msg < 2 ^ 31 \<longrightarrow> ikcp_send msg (int (length msg)) kcp = Inr (0, kcp') \<longrightarrow>
      sender (xs @ frags (unat (kc_mss kcp)) msg) kcp')"
proof (intro conjI allI impI)
  show "\<exists>out kcp'. ikcp_update host t kcp = Inr (out, kcp') \<and> sender xs kcp' \<and>
      (\<forall>p \<in> set out. 0 < length p \<and> length p \<le> unat (kc_mtu kcp))"
    using sender_update [OF assms, of host t] by fastforce
  show "sender xs (snd (ikcp_input host data kcp))" using assms by (rule sender_input)
  fix msg kcp' assume msg: "length msg < 2 ^ 31" "ikcp_send msg (int (length msg)) kcp = Inr (0, kcp')"
  then show "sender (xs @ frags (unat (kc_mss kcp)) msg) kcp'"
    using ikcp_send_eq [OF _ _ msg(1), of kcp] sender_mss [OF assms] sender_send [OF assms msg(1)]
    by (auto simp: Let_def split: if_splits)
qed

theorem update_memory_safe_witness:
  "\<exists>kcp1 out kcp'. ikcp_send (replicate 5000 1) 5000 (init_kcp 7) = Inr (0, kcp1) \<and>
     sender (frags 1376 (replicate 5000 1)) kcp1 \<and> ikcp_update BigEndian 5 kcp1 = Inr (out, kcp') \<and>
     sender (frags 1376 (replicate 5000 1)) kcp'"
proof -
  have "length (replicate 5000 (1 :: uint8)) \<le> 32 * 1376" by simp
  then obtain kcp1 where s: "ikcp_send (replicate 5000 1) 5000 (init_kcp 7) = Inr (0, kcp1)"
    using first_flush [of "replicate 5000 1" 7 BigEndian 5] by auto
  have "unat (kc_mss (init_kcp 7)) = 1376" by (simp add: init_kcp_fields)
  then have "sender (frags 1376 (replicate 5000 1)) kcp1"
    using update_memory_safe [OF init_sender, of BigEndian 5 7 "[]"] s by (auto dest!: spec [of _ "replicate 5000 1"])
  then show ?thesis using s update_memory_safe [of "frags 1376 (replicate 5000 1)" kcp1 BigEndian 5 "[]"] by blast
qed

text \<open>
  \<open>ikcp_setmtu\<close> replaces the buffer by a smaller one and leaves the queued segments as they are. A message
  of one full segment that is queued before the MTU is lowered to 50 makes the next flush write past the
  end of the new buffer.
\<close>

theorem setmtu_overflow:
  "\<exists>kcp1. ikcp_send (replicate 1376 b) 1376 (init_kcp conv) = Inr (0, kcp1) \<and>
     ikcp_update host t (snd (ikcp_setmtu 50 kcp1)) = Inl KcpOverflow"
proof -
  define msg where "msg = replicate 1376 b"
  have chunks: "chunks 1376 msg = [msg]" by (simp add: chunks.simps msg_def)
  define kcp1 where "kcp1 = (init_kcp conv)\<lparr>kc_snd_queue := [new_segment (0, msg)], kc_nsnd_que := 1\<rparr>"
  have ns: "kc_nsnd_que (init_kcp conv) = 0"
    by (simp add: init_kcp_def ikcp_nodelay_def ikcp_create_def Let_def)
  have send: "ikcp_send msg 1376 (init_kcp conv) = Inr (0, kcp1)"
    using ikcp_send_eq [of "init_kcp conv" msg] chunks
    by (simp add: mss_ok_def init_kcp_fields msg_def [symmetric] frags_def number_def kcp1_def ns Let_def)
      (simp add: msg_def)
  define k where "k = (snd (ikcp_setmtu 50 kcp1))\<lparr>kc_current := t, kc_updated := 1, kc_ts_flush := t + 10\<rparr>"
  have upd: "ikcp_update host t (snd (ikcp_setmtu 50 kcp1)) = ikcp_flush host k"
    unfolding k_def by (rule first_update) (simp_all add: kcp1_def ikcp_setmtu_def init_kcp_fields kcp_consts)
  have init: "kc_ackcount (init_kcp conv) = 0" "kc_rmt_wnd (init_kcp conv) = 32" "kc_probe (init_kcp conv) = 0"
    "kc_nodelay (init_kcp conv) = 1" "kc_snd_wnd (init_kcp conv) = 32" "kc_nocwnd (init_kcp conv) = 1"
    by (simp_all add: init_kcp_def ikcp_nodelay_def ikcp_create_def kcp_consts Let_def)
  have k: "kc_updated k = 1" "kc_ackcount k = 0" "kc_probe k = 0" "kc_rmt_wnd k = 32" "kc_snd_queue k = [new_segment (0, msg)]"
    "kc_snd_buf k = []" "kc_snd_una k = 0" "kc_snd_nxt k = 0" "kc_mtu k = 50" "kc_bufsize k = 222" "flush_window k = 32"
    by (simp_all add: k_def kcp1_def ikcp_setmtu_def init init_kcp_fields kcp_consts flush_window_def imin_def)
  define k1 where "k1 = k\<lparr>kc_ackcount := 0, kc_ts_probe := 0, kc_probe_wait := 0\<rparr>"
  have timer: "flush_probe_timer (k\<lparr>kc_ackcount := 0\<rparr>) = k1" using k(4) by (simp add: flush_probe_timer_def k1_def)
  have w: "flush_window (k1\<lparr>kc_probe := 0\<rparr>) = 32" using k(11) by (simp add: k1_def flush_window_def Let_def split: if_splits)
  have move: "\<exists>s. kc_snd_buf (flush_move wnd 32 (k1\<lparr>kc_probe := 0\<rparr>)) = [s] \<and> sg_data s = msg \<and> sg_len s = 1376 \<and> sg_xmit s = 0"
    for wnd
    using k by (subst flush_move.simps) (simp add: k1_def itimediff_def Let_def, subst flush_move.simps,
      simp add: itimediff_def new_segment_def msg_def)
  have put: "flush_put kk (sint (IKCP_OVERHEAD + 1376)) (segment_bytes host s) ([], []) = Inl KcpOverflow"
    if "sg_data s = msg" "sg_len s = 1376" "mtu_view kk = mtu_view k" for kk s
    using that k(9,10) by (simp add: flush_put_def segment_bytes_def msg_def mtu_view_def)
  have seg: "flush_segments host wnd resent rtomin [s] kk ([], []) 0 False = Inl KcpOverflow"
    if "sg_data s = msg" "sg_len s = 1376" "sg_xmit s = 0" "mtu_view kk = mtu_view k" for wnd resent rtomin s kk
    using that by (simp add: flush_segment_def resend_segment_def put Let_def)
  have mv: "mtu_view (flush_move wnd 32 (k1\<lparr>kc_probe := 0\<rparr>)) = mtu_view k" for wnd
    by simp (simp add: k1_def mtu_view_def)
  define ack where "ack = ikcp_segment_new\<lparr>sg_conv := kc_conv k, sg_cmd := IKCP_CMD_ACK,
    sg_wnd := of_int (ikcp_wnd_unused k), sg_una := kc_rcv_nxt k\<rparr>"
  have acks: "flush_acks host k [0..<unat (kc_ackcount k)] ack ([], []) = Inr (ack, ([], []))" by (simp add: k(2))
  have probe: "flush_probe host ask cmd k1 ack ([], []) = Inr ([], [])" for ask cmd by (simp add: flush_probe_def k1_def k(3))
  obtain s where s: "kc_snd_buf (flush_move (sg_wnd ack) 32 (k1\<lparr>kc_probe := 0\<rparr>)) = [s]" "sg_data s = msg" "sg_len s = 1376" "sg_xmit s = 0"
    using move by blast
  have "ikcp_flush host k = Inl KcpOverflow"
    unfolding ikcp_flush_def Let_def ack_def [symmetric] acks bindE_simps prod.case timer probe w s(1) seg [OF s(2-4) mv]
    using k(1) by simp
  then show ?thesis using send upd unfolding msg_def by (intro exI [of _ kcp1]) simp
qed

end
