(* ===== verification/KcpBounds.thy ===== *)
theory KcpBounds
  imports KcpDelivery
begin

text \<open>
  What arbitrary datagrams can do to a receiver. \<open>rcv_bounded\<close> says that the receive queue is within the window
  of 32 segments and that every segment of the queue and of the buffer is as long as its header says and
  shorter than the receive buffer of the network interface. Every datagram keeps it, whatever its bytes
  are, and under it \<open>ikcp_recv\<close> returns without a failed assertion and never more bytes than it was given
  room for.
\<close>

definition small_seg :: "IKCPSEG \<Rightarrow> bool" where
  "small_seg seg \<longleftrightarrow> seg_ok seg \<and> unat (sg_len seg) < 2 ^ 15"

definition rcv_bounded :: "IKCPCB \<Rightarrow> bool" where
  "rcv_bounded kcp \<longleftrightarrow> kc_rcv_wnd kcp = 32 \<and> kc_nrcv_que kcp = of_nat (length (kc_rcv_queue kcp)) \<and>
     length (kc_rcv_queue kcp) \<le> 32 \<and> (\<forall>seg \<in> set (kc_rcv_queue kcp) \<union> set (kc_rcv_buf kcp). small_seg seg)"

lemma rcv_bounded_view: "rcv_view k = rcv_view k' \<Longrightarrow> rcv_bounded k = rcv_bounded k'"
  by (simp add: rcv_bounded_def rcv_view_def)

lemma init_bounded: "rcv_bounded (init_kcp conv)"
  by (simp add: rcv_bounded_def init_kcp_fields)

section \<open>Datagrams\<close>

lemma move_ready_bounded: "rcv_bounded kcp \<Longrightarrow> rcv_bounded (move_ready kcp)"
proof (induction kcp rule: move_ready.induct)
  case (1 kcp)
  show ?case
  proof (cases "settled kcp")
    case True
    then show ?thesis
      using "1.prems" by (subst move_ready.simps) (auto simp: settled_def split: list.splits)
  next
    case False
    then obtain seg rest where b: "kc_rcv_buf kcp = seg # rest" "sg_sn seg = kc_rcv_nxt kcp" "kc_nrcv_que kcp < kc_rcv_wnd kcp"
      by (auto simp: settled_def split: list.splits)
    let ?k = "kcp\<lparr>kc_rcv_buf := rest, kc_nrcv_buf := kc_nrcv_buf kcp - 1, kc_rcv_queue := kc_rcv_queue kcp @ [seg],
      kc_nrcv_que := kc_nrcv_que kcp + 1, kc_rcv_nxt := kc_rcv_nxt kcp + 1\<rparr>"
    define q where "q = length (kc_rcv_queue kcp)"
    have "q \<le> 32" "kc_nrcv_que kcp = of_nat q" "kc_rcv_wnd kcp = 32" using "1.prems" by (simp_all add: rcv_bounded_def q_def)
    then have "q < 32" using b(3) unat_of_nat32 [of q] by (simp add: word_less_nat_alt)
    then have "rcv_bounded ?k" using "1.prems" b(1) by (auto simp: rcv_bounded_def q_def)
    then show ?thesis using "1.IH" [OF b(1)] b by (subst move_ready.simps) simp
  qed
qed

lemma rcv_insert_set: "rcv_insert s segs = Some segs' \<Longrightarrow> set segs' = insert s (set segs)"
  by (induction segs arbitrary: segs') (auto split: if_splits)

lemma parse_data_bounded:
  assumes "rcv_bounded kcp" "small_seg seg"
  shows "rcv_bounded (ikcp_parse_data seg kcp)"
proof -
  define k where "k = (case rcv_insert seg (rev (kc_rcv_buf kcp)) of
    Some buf \<Rightarrow> kcp\<lparr>kc_rcv_buf := rev buf, kc_nrcv_buf := kc_nrcv_buf kcp + 1\<rparr> | None \<Rightarrow> kcp)"
  have "rcv_bounded k"
  proof (cases "rcv_insert seg (rev (kc_rcv_buf kcp))")
    case None
    then show ?thesis using assms(1) by (simp add: k_def)
  next
    case (Some buf)
    then have "set buf = insert seg (set (kc_rcv_buf kcp))" using rcv_insert_set by fastforce
    then show ?thesis using assms Some by (auto simp: k_def rcv_bounded_def)
  qed
  then show ?thesis
    using assms(1) move_ready_bounded [of k] unfolding ikcp_parse_data_def Let_def k_def [symmetric] by simp
qed

text \<open>
  A property of the receiving side that every short segment keeps is kept by every datagram that is shorter
  than the receive buffer.
\<close>

lemma input_segment_rcv:
  assumes view: "\<And>k k'. rcv_view k = rcv_view k' \<Longrightarrow> P k = P k'"
    and data: "\<And>seg k. P k \<Longrightarrow> small_seg seg \<Longrightarrow> P (ikcp_parse_data seg k)"
    and "P kcp" "unat (sg_len seg) \<le> length data" "length data < 2 ^ 15"
  shows "P (snd (input_segment seg data maxack kcp))"
proof -
  define k where "k = ikcp_shrink_buf (ikcp_parse_una (sg_una seg) (kcp\<lparr>kc_rmt_wnd := sg_wnd seg\<rparr>))"
  have k: "P k'" if "rcv_view k' = rcv_view k" for k'
    using assms(3) view [of k kcp] view [OF that] by (simp add: k_def)
  have "small_seg (seg\<lparr>sg_data := take (unat (sg_len seg)) data\<rparr>)"
    using assms(4,5) by (simp add: small_seg_def seg_ok_def)
  then have "P (input_push seg data k)"
    using k by (auto simp: input_push_def Let_def intro!: data)
  moreover have "P (snd (input_ack seg maxack k))" by (rule k) (simp add: input_ack_def Let_def)
  moreover have "P (k\<lparr>kc_probe := p\<rparr>)" for p by (rule k) simp
  ultimately show ?thesis using k unfolding input_segment_def Let_def k_def [symmetric] by simp
qed

lemma input_loop_rcv:
  assumes view: "\<And>k k'. rcv_view k = rcv_view k' \<Longrightarrow> P k = P k'"
    and data: "\<And>seg k. P k \<Longrightarrow> small_seg seg \<Longrightarrow> P (ikcp_parse_data seg k)"
  shows "P kcp \<Longrightarrow> length data < 2 ^ 15 \<Longrightarrow> P (snd (snd (input_loop host data maxack kcp)))"
proof (induction host data maxack kcp rule: input_loop.induct)
  case (1 host data maxack kcp)
  obtain seg data' where d: "decode_seg host data = (seg, data')" by fastforce
  then have len: "length data' < 2 ^ 15" using decode_seg_rest [of host data] "1.prems"(2) by simp
  obtain m k where s: "input_segment seg data' maxack kcp = (m, k)" by fastforce
  have "P k" if "unat (sg_len seg) \<le> length data'"
    using input_segment_rcv [of P, OF view assms(2) "1.prems"(1) that len, of maxack] s by simp
  then show ?case
    using "1.prems"(1) "1.IH" [OF _ d [symmetric] _ _ _ _ s [symmetric]] len
    by (subst input_loop.simps) (simp add: d s del: insert_iff)
qed

lemma ikcp_input_rcv:
  assumes view: "\<And>k k'. rcv_view k = rcv_view k' \<Longrightarrow> P k = P k'"
    and data: "\<And>seg k. P k \<Longrightarrow> small_seg seg \<Longrightarrow> P (ikcp_parse_data seg k)"
    and "P kcp" "length data < 2 ^ 15"
  shows "P (snd (ikcp_input host data kcp))"
proof -
  obtain ret maxack k where r: "input_loop host data None kcp = (ret, maxack, k)" by (metis prod_cases3)
  have k: "P k" using input_loop_rcv [of P, OF assms, of host None] r by simp
  have "P (case maxack of None \<Rightarrow> k | Some sn \<Rightarrow> ikcp_parse_fastack sn k)"
    using k view [OF parse_views(5), of _ k] by (simp split: option.splits)
  then show ?thesis
    using k assms(3) r view [OF input_cwnd_views(1)] by (simp add: ikcp_input_def Let_def)
qed

lemma ikcp_input_bounded: "rcv_bounded kcp \<Longrightarrow> length data < 2 ^ 15 \<Longrightarrow> rcv_bounded (snd (ikcp_input host data kcp))"
  by (rule ikcp_input_rcv [where P = rcv_bounded]) (erule rcv_bounded_view | erule (1) parse_data_bounded | assumption)+

lemma ikcp_input_conv: "kc_conv (snd (ikcp_input host data kcp)) = kc_conv kcp"
  by (rule ikcp_input_invariant [where P = "\<lambda>k. kc_conv k = kc_conv kcp"])
    (simp_all add: ikcp_parse_fastack_def view_conv [OF input_cwnd_views(2)])

section \<open>Reading\<close>

lemma merge_loop_spec:
  "merge_loop False q buffer len n = (buffer', len', n', q') \<Longrightarrow>
     \<forall>seg \<in> set q. small_seg seg \<Longrightarrow> length buffer = unat len \<Longrightarrow> length buffer + 2 ^ 15 * length q < 2 ^ 31 \<Longrightarrow>
     n = of_nat (length q) \<Longrightarrow>
     len' = peek_loop q len \<and> length buffer' = unat len' \<and> length buffer' < 2 ^ 31 \<and> n' = of_nat (length q') \<and>
     set q' \<subseteq> set q \<and> length q' \<le> length q"
proof (induction q arbitrary: buffer len n)
  case Nil
  then show ?case by simp
next
  case (Cons seg q)
  define l where "l = unat (sg_len seg)"
  define b where "b = buffer @ take l (sg_data seg)"
  have l: "l < 2 ^ 15" "length (sg_data seg) = l" using Cons.prems(2) by (simp_all add: small_seg_def seg_ok_def l_def)
  have b: "length b = length buffer + l" by (simp add: b_def l)
  have "unat (len + sg_len seg) = unat len + l"
    using l(1) Cons.prems(3,4) by (simp add: unat_add_lem [THEN iffD1] l_def)
  then have ub: "length b = unat (len + sg_len seg)" using b Cons.prems(3) by simp
  have bound: "length b + 2 ^ 15 * length q < 2 ^ 31" using b l(1) Cons.prems(4) by simp
  have n: "n - 1 = of_nat (length q)" using Cons.prems(5) by simp
  show ?case
  proof (cases "sg_frg seg = 0")
    case True
    then show ?thesis using Cons.prems(1) ub bound n by (auto simp: b_def l_def Let_def)
  next
    case False
    have "merge_loop False q b (len + sg_len seg) (n - 1) = (buffer', len', n', q')"
      using Cons.prems(1) False by (simp add: b_def l_def Let_def)
    from Cons.IH [OF this _ ub bound n] show ?thesis using Cons.prems(2) False by (auto simp: Let_def)
  qed
qed

lemma peeksize_loop:
  assumes "kc_rcv_queue kcp \<noteq> []" "ikcp_peeksize kcp \<ge> 0"
  shows "ikcp_peeksize kcp = sint (peek_loop (kc_rcv_queue kcp) 0)"
  using assms by (auto simp: ikcp_peeksize_def Let_def neq_Nil_conv split: if_splits)

lemma ikcp_recv_bounded:
  assumes "rcv_bounded kcp" "0 \<le> room"
  shows "\<exists>n bytes kcp'. ikcp_recv room kcp = Inr (n, bytes, kcp') \<and> rcv_bounded kcp' \<and>
    (n < 0 \<and> bytes = [] \<or> n = int (length bytes) \<and> n \<le> room)"
proof (cases "kc_rcv_queue kcp = [] \<or> ikcp_peeksize kcp < 0 \<or> ikcp_peeksize kcp > room")
  case True
  then show ?thesis using assms by (auto simp: ikcp_recv_def Let_def)
next
  case False
  obtain buffer len n q where m: "merge_loop False (kc_rcv_queue kcp) [] 0 (kc_nrcv_que kcp) = (buffer, len, n, q)"
    by (metis prod_cases4)
  have "len = peek_loop (kc_rcv_queue kcp) 0 \<and> length buffer = unat len \<and> length buffer < 2 ^ 31 \<and> n = of_nat (length q) \<and>
      set q \<subseteq> set (kc_rcv_queue kcp) \<and> length q \<le> length (kc_rcv_queue kcp)"
    using assms(1) by (intro merge_loop_spec [OF m]) (simp_all add: rcv_bounded_def)
  then have s: "ikcp_peeksize kcp = sint len" "length buffer = unat len" "length buffer < 2 ^ 31" "n = of_nat (length q)"
    "set q \<subseteq> set (kc_rcv_queue kcp)" "length q \<le> length (kc_rcv_queue kcp)"
    using peeksize_loop [of kcp] False by auto
  then have len: "sint len = int (length buffer)" using sint_of_nat [of "length buffer"] by simp
  let ?k = "kcp\<lparr>kc_rcv_queue := q, kc_nrcv_que := n\<rparr>"
  have "rcv_bounded ?k" using assms(1) s(4-6) by (auto simp: rcv_bounded_def)
  then have b: "rcv_bounded (move_ready ?k)" by (rule move_ready_bounded)
  obtain p where "ikcp_recv room kcp = Inr (sint len, buffer, (move_ready ?k)\<lparr>kc_probe := p\<rparr>)"
    using recv_success [of kcp len room buffer n q] False s(1) m assms(2) len by auto
  moreover have "rcv_bounded ((move_ready ?k)\<lparr>kc_probe := p\<rparr>)" using b rcv_bounded_view [OF rcv_view_upd(1)] by simp
  ultimately show ?thesis using len s(1) False by auto
qed

section \<open>Messages that are too long\<close>

text \<open>The next message in the queue is complete and longer than the room that the reader offers.\<close>

definition blocked :: "nat \<Rightarrow> IKCPCB \<Rightarrow> bool" where
  "blocked room kcp \<longleftrightarrow> rcv_bounded kcp \<and> int room < ikcp_peeksize kcp \<and> (\<exists>seg \<in> set (kc_rcv_queue kcp). sg_frg seg = 0)"

lemma blocked_view: "rcv_view k = rcv_view k' \<Longrightarrow> blocked room k = blocked room k'"
  using rcv_bounded_view [of k k'] by (auto simp: blocked_def ikcp_peeksize_def rcv_view_def split: list.splits)

lemma blocked_recv: "blocked room kcp \<Longrightarrow> ikcp_recv (int room) kcp = Inr (-3, [], kcp)"
  by (auto simp: blocked_def ikcp_recv_def Let_def)

lemma peek_loop_append: "\<exists>seg \<in> set q. sg_frg seg = 0 \<Longrightarrow> peek_loop (q @ r) len = peek_loop q len"
  by (induction q arbitrary: len) (auto simp: Let_def)

lemma blocked_append:
  assumes "blocked room kcp" "kc_rcv_queue kcp' = kc_rcv_queue kcp @ q" "rcv_bounded kcp'"
  shows "blocked room kcp'"
proof -
  obtain seg rest where c: "kc_rcv_queue kcp = seg # rest" using assms(1) by (cases "kc_rcv_queue kcp") (auto simp: blocked_def)
  define n where "n = length (kc_rcv_queue kcp)"
  define n' where "n' = length (kc_rcv_queue kcp')"
  have n: "kc_nrcv_que kcp = of_nat n" "kc_nrcv_que kcp' = of_nat n'" "n \<le> n'" "n' \<le> 32"
    using assms by (simp_all add: blocked_def rcv_bounded_def n_def n'_def)
  then have "kc_nrcv_que kcp \<le> kc_nrcv_que kcp'" using unat_of_nat32 [of n] unat_of_nat32 [of n'] by (simp add: word_le_nat_alt)
  then have "ikcp_peeksize kcp' = ikcp_peeksize kcp"
    using assms(1,2) peek_loop_append [of "seg # rest" q 0] by (auto simp: blocked_def ikcp_peeksize_def c simp del: peek_loop.simps split: if_splits)
  then show ?thesis using assms by (auto simp: blocked_def)
qed

lemma move_ready_queue: "\<exists>q. kc_rcv_queue (move_ready kcp) = kc_rcv_queue kcp @ q"
proof (induction kcp rule: move_ready.induct)
  case (1 kcp)
  then show ?case by (subst move_ready.simps) (auto split: list.splits)
qed

lemma parse_data_blocked:
  assumes "blocked room kcp" "small_seg seg"
  shows "blocked room (ikcp_parse_data seg kcp)"
proof -
  have "\<exists>q. kc_rcv_queue (ikcp_parse_data seg kcp) = kc_rcv_queue kcp @ q"
    using move_ready_queue [of kcp] move_ready_queue [of "kcp\<lparr>kc_rcv_buf := b, kc_nrcv_buf := c\<rparr>" for b c]
    by (auto simp: ikcp_parse_data_def Let_def split: option.splits)
  moreover have "rcv_bounded (ikcp_parse_data seg kcp)" using assms by (intro parse_data_bounded) (simp_all add: blocked_def)
  ultimately show ?thesis using blocked_append [OF assms(1)] by blast
qed

lemma ikcp_input_blocked: "blocked room kcp \<Longrightarrow> length data < 2 ^ 15 \<Longrightarrow> blocked room (snd (ikcp_input host data kcp))"
  by (rule ikcp_input_rcv [where P = "blocked room"]) (erule blocked_view | erule (1) parse_data_blocked | assumption)+

end
