(* ===== verification/ConnectPacket.thy ===== *)
theory ConnectPacket
  imports ByteBuffer
begin

text \<open>
  The control packets of the network layer: class \<open>ConnectPacket\<close> of \<open>libs/network/connect_packet.cpp\<close>.
  A packet is written into a new buffer and recognised in the receive buffer, where \<open>data()\<close> is the first
  byte of the vector and \<open>length()\<close> the number of bytes of the datagram; \<open>memcmp\<close> compares the characters
  of the literal without its terminator. The receive buffer is longer than the literals, so that the
  comparison stays inside of it.

  The lemmas show which bytes the packets have, that the three kinds exclude each other, and when reading
  a session id fails.
\<close>

section \<open>Definitions\<close>

definition CMD_P2PCLOUDS_CONNECT_PACKET :: string where
  "CMD_P2PCLOUDS_CONNECT_PACKET = ''p2pclouds_connect_package hello''"

definition CMD_P2PCLOUDS_CONNECT_ACK_PACKET :: string where
  "CMD_P2PCLOUDS_CONNECT_ACK_PACKET = ''p2pclouds_connect_back_package ack:''"

definition CMD_P2PCLOUDS_DISCONNECT_PACKET :: string where
  "CMD_P2PCLOUDS_DISCONNECT_PACKET = ''p2pclouds_disconnect_package request''"

lemmas cmd_consts = CMD_P2PCLOUDS_CONNECT_PACKET_def CMD_P2PCLOUDS_CONNECT_ACK_PACKET_def
  CMD_P2PCLOUDS_DISCONNECT_PACKET_def

definition sizeof_literal :: "string \<Rightarrow> nat" where
  "sizeof_literal s = length s + 1"

definition starts_with :: "ByteBuffer \<Rightarrow> string \<Rightarrow> bool" where
  "starts_with datas s = (take (sizeof_literal s - 1) (m_data datas) = str_bytes s)"

definition isConnectPacket :: "ByteBuffer \<Rightarrow> bool" where
  "isConnectPacket datas =
     (bb_length datas = sizeof_literal CMD_P2PCLOUDS_CONNECT_PACKET \<and> starts_with datas CMD_P2PCLOUDS_CONNECT_PACKET)"

definition makeConnectPacket :: "ByteBuffer bb_result" where
  "makeConnectPacket = put_string CMD_P2PCLOUDS_CONNECT_PACKET new_buffer"

definition is_connect_ack_packet :: "ByteBuffer \<Rightarrow> bool" where
  "is_connect_ack_packet datas =
     (bb_length datas > sizeof_literal CMD_P2PCLOUDS_CONNECT_ACK_PACKET \<and>
      starts_with datas CMD_P2PCLOUDS_CONNECT_ACK_PACKET)"

definition make_connect_ack_packet :: "uint32 \<Rightarrow> ByteBuffer bb_result" where
  "make_connect_ack_packet sessionID =
     bindE (put_string CMD_P2PCLOUDS_CONNECT_ACK_PACKET new_buffer) (append_word sessionID)"

definition get_sessionid_from_connect_ack_packet :: "ByteBuffer \<Rightarrow> (uint32 \<times> ByteBuffer) bb_result" where
  "get_sessionid_from_connect_ack_packet datas = bindE (read_skip_string datas) read_word"

definition is_disconnect_packet :: "ByteBuffer \<Rightarrow> bool" where
  "is_disconnect_packet datas =
     (bb_length datas > sizeof_literal CMD_P2PCLOUDS_DISCONNECT_PACKET \<and>
      starts_with datas CMD_P2PCLOUDS_DISCONNECT_PACKET)"

definition make_disconnect_packet :: "uint32 \<Rightarrow> ByteBuffer bb_result" where
  "make_disconnect_packet sessionID =
     bindE (put_string CMD_P2PCLOUDS_DISCONNECT_PACKET new_buffer) (append_word sessionID)"

definition get_sessionid_from_disconnect_packet :: "ByteBuffer \<Rightarrow> (uint32 \<times> ByteBuffer) bb_result" where
  "get_sessionid_from_disconnect_packet datas = bindE (read_skip_string datas) read_word"

section \<open>The bytes of a packet\<close>

text \<open>The buffer after a datagram was received into it.\<close>

definition holds :: "uint8 list \<Rightarrow> ByteBuffer \<Rightarrow> bool" where
  "holds dg b \<longleftrightarrow> m_rpos b = 0 \<and> m_wpos b = length dg \<and> length dg \<le> bb_size b \<and> take (length dg) (m_data b) = dg"

lemma holds_wf:
  assumes "holds dg b"
  shows "bb_wf b" "unread b = dg" "bb_length b = length dg" "starts_with b s \<longleftrightarrow> take (length s) (m_data b) = str_bytes s"
  using assms by (simp_all add: holds_def bb_wf_def unread_def bb_length_def starts_with_def sizeof_literal_def)

lemma length_str_bytes [simp]: "length (str_bytes s) = length s"
  by (simp add: str_bytes_def)

lemma holds_starts_with:
  assumes "holds dg b" "length s \<le> length dg"
  shows "starts_with b s \<longleftrightarrow> take (length s) dg = str_bytes s"
proof -
  have "take (length s) (m_data b) = take (length s) (take (length dg) (m_data b))" using assms(2) by simp
  also have "\<dots> = take (length s) dg" using assms(1) by (simp add: holds_def)
  finally show ?thesis using holds_wf(4) [OF assms(1)] by simp
qed

text \<open>A new packet fills its buffer, which \<open>sendPacket\<close> takes from the first byte.\<close>

definition fills :: "uint8 list \<Rightarrow> ByteBuffer bb_result \<Rightarrow> bool" where
  "fills bs r \<longleftrightarrow> (\<exists>b. r = Inr b \<and> holds bs b)"

lemma appends_fills: "appends new_buffer bs r \<Longrightarrow> fills bs r"
proof -
  assume "appends new_buffer bs r"
  then obtain b where b: "r = Inr b" "bb_wf b" "unread b = bs" "m_rpos b = 0"
    by (auto simp: appends_def) (simp add: new_buffer_def)
  then have "take (m_wpos b) (m_data b) = bs" "m_wpos b \<le> bb_size b" by (simp_all add: unread_eq bb_wf_def)
  moreover have "m_wpos b = length bs" using calculation by (auto simp: bb_size_def)
  ultimately show ?thesis using b by (auto simp: fills_def holds_def)
qed

lemma cmd_lengths [simp]: "length CMD_P2PCLOUDS_CONNECT_PACKET = 31" "length CMD_P2PCLOUDS_CONNECT_ACK_PACKET = 35"
  "length CMD_P2PCLOUDS_DISCONNECT_PACKET = 36"
  by (simp_all add: cmd_consts)

lemma cmd_ok: "str_ok CMD_P2PCLOUDS_CONNECT_PACKET" "str_ok CMD_P2PCLOUDS_CONNECT_ACK_PACKET"
  "str_ok CMD_P2PCLOUDS_DISCONNECT_PACKET"
  by (simp_all add: cmd_consts str_ok_def)

lemma make_id_packet:
  assumes "str_ok s" "length s < 100"
  shows "fills (str_bytes s @ 0 # le_bytes (w :: uint32)) (bindE (put_string s new_buffer) (append_word w))"
proof -
  have "appends new_buffer ((str_bytes s @ [0]) @ le_bytes w) (bindE (put_string s new_buffer) (append_word w))"
  proof (rule appends_bind)
    show "appends new_buffer (str_bytes s @ [0]) (put_string s new_buffer)"
      using assms by (intro str.put_appends) (simp_all add: MAX_SIZE_def)
    fix b' assume "bb_wf b'" "bb_size b' \<le> bb_size new_buffer + length (str_bytes s @ [0])"
    then show "appends b' (le_bytes w) (append_word w b')"
      using assms(2) by (intro u32.put_appends) (simp_all add: MAX_SIZE_def)
  qed
  then show ?thesis by (intro appends_fills) simp
qed

definition connect_bytes :: "uint8 list" where
  "connect_bytes = str_bytes CMD_P2PCLOUDS_CONNECT_PACKET @ [0]"

definition ack_bytes :: "uint32 \<Rightarrow> uint8 list" where
  "ack_bytes sessionID = str_bytes CMD_P2PCLOUDS_CONNECT_ACK_PACKET @ 0 # le_bytes sessionID"

definition disconnect_bytes :: "uint32 \<Rightarrow> uint8 list" where
  "disconnect_bytes sessionID = str_bytes CMD_P2PCLOUDS_DISCONNECT_PACKET @ 0 # le_bytes sessionID"

lemma make_packets:
  "fills connect_bytes makeConnectPacket" "fills (ack_bytes sid) (make_connect_ack_packet sid)"
  "fills (disconnect_bytes sid) (make_disconnect_packet sid)"
proof -
  have "appends new_buffer (str_bytes CMD_P2PCLOUDS_CONNECT_PACKET @ [0]) (put_string CMD_P2PCLOUDS_CONNECT_PACKET new_buffer)"
    by (intro str.put_appends) (simp_all add: cmd_ok MAX_SIZE_def)
  then show "fills connect_bytes makeConnectPacket"
    unfolding makeConnectPacket_def connect_bytes_def by (rule appends_fills)
  show "fills (ack_bytes sid) (make_connect_ack_packet sid)"
    unfolding make_connect_ack_packet_def ack_bytes_def by (intro make_id_packet cmd_ok) simp
  show "fills (disconnect_bytes sid) (make_disconnect_packet sid)"
    unfolding make_disconnect_packet_def disconnect_bytes_def by (intro make_id_packet cmd_ok) simp
qed

section \<open>Recognising packets\<close>

datatype packet_kind = Connect | ConnectAck | Disconnect | Other

text \<open>The kind of a datagram by its bytes alone.\<close>

definition kind_of :: "uint8 list \<Rightarrow> packet_kind" where
  "kind_of dg =
     (if length dg = 32 \<and> take 31 dg = str_bytes CMD_P2PCLOUDS_CONNECT_PACKET then Connect
      else if length dg > 36 \<and> take 35 dg = str_bytes CMD_P2PCLOUDS_CONNECT_ACK_PACKET then ConnectAck
      else if length dg > 37 \<and> take 36 dg = str_bytes CMD_P2PCLOUDS_DISCONNECT_PACKET then Disconnect
      else Other)"

text \<open>The literals differ at their twelfth and twentieth byte.\<close>

lemma cmd_differ:
  assumes "take 36 dg = str_bytes CMD_P2PCLOUDS_DISCONNECT_PACKET"
  shows "take 35 dg \<noteq> str_bytes CMD_P2PCLOUDS_CONNECT_ACK_PACKET"
proof
  assume "take 35 dg = str_bytes CMD_P2PCLOUDS_CONNECT_ACK_PACKET"
  then have "take 35 dg ! 10 = str_bytes CMD_P2PCLOUDS_CONNECT_ACK_PACKET ! 10" by simp
  moreover have "take 36 dg ! 10 = str_bytes CMD_P2PCLOUDS_DISCONNECT_PACKET ! 10" using assms by simp
  ultimately show False by (simp add: cmd_consts str_bytes_def)
qed

lemma kind_of_holds:
  assumes "holds dg b"
  shows "isConnectPacket b \<longleftrightarrow> kind_of dg = Connect" "is_connect_ack_packet b \<longleftrightarrow> kind_of dg = ConnectAck"
    "is_disconnect_packet b \<longleftrightarrow> kind_of dg = Disconnect"
proof -
  note s = holds_starts_with [OF assms] holds_wf(3) [OF assms]
  show "isConnectPacket b \<longleftrightarrow> kind_of dg = Connect"
    using s(1) [of CMD_P2PCLOUDS_CONNECT_PACKET] by (auto simp: isConnectPacket_def kind_of_def sizeof_literal_def s(2))
  show "is_connect_ack_packet b \<longleftrightarrow> kind_of dg = ConnectAck"
    using s(1) [of CMD_P2PCLOUDS_CONNECT_ACK_PACKET] by (auto simp: is_connect_ack_packet_def kind_of_def sizeof_literal_def s(2))
  show "is_disconnect_packet b \<longleftrightarrow> kind_of dg = Disconnect"
    using s(1) [of CMD_P2PCLOUDS_DISCONNECT_PACKET] cmd_differ [of dg]
    by (auto simp: is_disconnect_packet_def kind_of_def sizeof_literal_def s(2))
qed

text \<open>A datagram whose fifth byte is not the letter l is no control packet: that byte is the command of a KCP segment.\<close>

lemma kind_of_other:
  assumes "length dg > 4" "dg ! 4 \<noteq> 108"
  shows "kind_of dg = Other"
proof -
  have "take n dg \<noteq> str_bytes s" if "n > 4" "str_bytes s ! 4 = 108" for n s
    using assms that by (metis nth_take)
  moreover have "str_bytes CMD_P2PCLOUDS_CONNECT_PACKET ! 4 = 108" "str_bytes CMD_P2PCLOUDS_CONNECT_ACK_PACKET ! 4 = 108"
    "str_bytes CMD_P2PCLOUDS_DISCONNECT_PACKET ! 4 = 108" by (simp_all add: cmd_consts str_bytes_def)
  ultimately show ?thesis by (simp add: kind_of_def)
qed

lemma kinds: "kind_of connect_bytes = Connect" "kind_of (ack_bytes sid) = ConnectAck"
  "kind_of (disconnect_bytes sid) = Disconnect"
  using cmd_differ [of "disconnect_bytes sid"]
  by (simp_all add: kind_of_def connect_bytes_def ack_bytes_def disconnect_bytes_def)

section \<open>Reading the session id\<close>

definition after_string :: "uint8 list \<Rightarrow> uint8 list" where
  "after_string bs = drop 1 (dropWhile (\<lambda>c. c \<noteq> 0 \<and> isascii c) bs)"

lemma get_string_loop_after:
  "bb_wf b \<Longrightarrow> \<exists>v' b'. get_string_loop v b = Inr (v', b') \<and> bb_wf b' \<and> unread b' = after_string (unread b) \<and>
    m_data b' = m_data b \<and> m_wpos b' = m_wpos b"
proof (induction v b rule: get_string_loop.induct)
  case (1 v b)
  show ?case
  proof (cases "unread b")
    case Nil
    then have "bb_length b = 0" using "1.prems" length_unread [of b] by simp
    then show ?thesis using "1.prems" Nil by (simp add: get_string_loop.simps after_string_def)
  next
    case (Cons c cs)
    let ?b = "b\<lparr>m_rpos := m_rpos b + 1\<rparr>"
    note r = read_byte_Cons [OF "1.prems" Cons]
    show ?thesis
    proof (cases "c = 0 \<or> \<not> isascii c")
      case True
      then show ?thesis using r Cons by (subst get_string_loop.simps) (auto simp: after_string_def)
    next
      case False
      then show ?thesis
        using "1.IH" [OF r(4,1) refl False r(2)] r Cons by (subst get_string_loop.simps) (auto simp: after_string_def)
    qed
  qed
qed

lemma get_sessionid:
  assumes "holds dg b"
  shows "\<exists>e b'. get_sessionid_from_connect_ack_packet b =
      (if length (after_string dg) < 4 then Inl e else Inr (le_word (take 4 (after_string dg)), b')) \<and> e \<noteq> OutOfRange \<and>
    m_data b' = m_data b"
proof -
  obtain v b1 where g: "get_string b = Inr (v, b1)" "bb_wf b1" "unread b1 = after_string dg" "m_data b1 = m_data b"
    using get_string_loop_after [OF holds_wf(1) [OF assms], of "[]"] holds_wf(2) [OF assms] by (auto simp: get_string_def)
  define n where "n = length (after_string dg)"
  show ?thesis
    unfolding get_sessionid_from_connect_ack_packet_def read_skip_string_def g(1) n_def [symmetric]
    using read_word_eq [OF g(2), where 'a = 32] g(4)
    by (intro exI [of _ "Exception False (m_rpos b1) 4 n"] exI [of _ "b1\<lparr>m_rpos := m_rpos b1 + 4\<rparr>"])
      (simp add: n_def g(3) Let_def)
qed

lemma after_string_append:
  assumes "str_ok s"
  shows "after_string (str_bytes s @ 0 # rest) = rest"
proof -
  have "\<forall>c \<in> set (str_bytes s). c \<noteq> 0 \<and> isascii c"
    using assms char_byte
    by (auto simp: str_ok_def str_bytes_def list_all_iff isascii_def word_less_nat_alt unat_eq_0 [symmetric] simp del: unat_eq_0)
  then show ?thesis by (simp add: after_string_def dropWhile_append2)
qed

lemma after_packets [simp]: "after_string (ack_bytes sid) = le_bytes sid" "after_string (disconnect_bytes sid) = le_bytes sid"
  by (simp_all add: ack_bytes_def disconnect_bytes_def after_string_append cmd_ok)

end
