(* ===== verification/Network.thy ===== *)
theory Network
  imports ConnectPacket KcpDelivery
begin

text \<open>
  Sessions and the network interface: classes \<open>Session\<close> and \<open>NetworkInterface\<close> of \<open>libs/network\<close>, and the event
  callbacks of the applications.

  \<^item> The interface is a record with the members of the class: the flag \<open>stopped_\<close>, whether the socket is
    open, the endpoint and the buffer of the last datagram, the table \<open>sessions_\<close> (a sorted association list,
    as \<open>std::map\<close> iterates), the callback and the static session counter of \<open>handleConnectPacket\<close>. The flags
    \<open>ni_receiving\<close> and \<open>ni_timing\<close> say that a receive operation and a timer are outstanding.
  \<^item> \<open>ni_sent\<close> is the sequence of datagrams given to the socket and \<open>ni_events\<close> the sequence of callbacks.
    Endpoints are compared only: their type is a parameter.
  \<^item> A session lives in the table; a handler that gets a session and calls back stores what the callback
    made of it. The callback gets the session and the received buffer; it may send on the session, as the
    applications do, and does not call the interface. It keeps no reference, so that a session that
    leaves the table is destroyed.
  \<^item> Times are the milliseconds of \<open>getTimeStamp\<close>, one argument for each reading of the clock.
  \<^item> An exception, a failed assertion and a write past the receive buffer are values of \<open>net_error\<close>. Sending
    on a closed socket throws; a destructor that throws terminates the program. Errors of the operating
    system on an open socket are not modelled.
\<close>

section \<open>Definitions\<close>

datatype net_error =
    BufferError bb_error
  | KcpError kcp_error
  | AssertionFailed
  | BadFunctionCall
  | NullPointer
  | SystemError
  | Terminated

type_synonym 'a net_result = "(net_error, 'a) result"

definition bufferE :: "'a bb_result \<Rightarrow> 'a net_result" where
  "bufferE r = map_sum BufferError id r"

definition kcpE :: "'a kcp_result \<Rightarrow> 'a net_result" where
  "kcpE r = map_sum KcpError id r"

datatype NetEventType = NetConnect | NetDisconnect | NetRcvMsg | NetLagNotify | NetTimeout | NetCountOfEventType

fun netEventType2Str :: "NetEventType \<Rightarrow> string" where
  "netEventType2Str NetConnect = ''NetConnect''"
| "netEventType2Str NetDisconnect = ''NetDisconnect''"
| "netEventType2Str NetRcvMsg = ''NetRcvMsg''"
| "netEventType2Str NetLagNotify = ''NetLagNotify''"
| "netEventType2Str NetTimeout = ''NetTimeout''"
| "netEventType2Str _ = ''NetEventUnknown''"

definition P2PCLOUDS_CONNECTION_TIMEOUT_TIME :: uint64 where
  "P2PCLOUDS_CONNECTION_TIMEOUT_TIME = 10 * 1000"

record 'ep Session =
  s_remoteEndpoint :: 'ep
  s_id :: uint32
  s_kcp :: IKCPCB
  s_lastRecvTime :: uint64

type_synonym 'ep event_callback =
  "'ep Session \<Rightarrow> NetEventType \<Rightarrow> ByteBuffer option \<Rightarrow> ('ep Session \<times> ByteBuffer option) net_result"

record 'ep NetworkInterface =
  ni_open :: bool
  ni_stopped :: bool
  ni_receiving :: bool
  ni_timing :: bool
  ni_remoteEndpoint :: 'ep
  ni_buffer :: ByteBuffer
  ni_sessions :: "(uint32 \<times> 'ep Session) list"
  ni_event_callback :: "'ep event_callback option"
  ni_next_id :: uint32
  ni_sent :: "(uint8 list \<times> 'ep) list"
  ni_events :: "(uint32 \<times> NetEventType \<times> uint8 list option) list"

text \<open>\<open>std::map\<close>: insertion of a key, replacement of the object behind a key, removal.\<close>

fun sm_insert :: "'k::linorder \<Rightarrow> 'v \<Rightarrow> ('k \<times> 'v) list \<Rightarrow> ('k \<times> 'v) list" where
  "sm_insert k v [] = [(k, v)]"
| "sm_insert k v ((k', v') # m) =
     (if k < k' then (k, v) # (k', v') # m else if k = k' then (k, v) # m else (k', v') # sm_insert k v m)"

definition sm_erase :: "'k \<Rightarrow> ('k \<times> 'v) list \<Rightarrow> ('k \<times> 'v) list" where
  "sm_erase k m = filter (\<lambda>kv. fst kv \<noteq> k) m"

subsection \<open>Sending and callbacks of the interface\<close>

definition send_to :: "uint8 list \<Rightarrow> 'ep \<Rightarrow> 'ep NetworkInterface \<Rightarrow> 'ep NetworkInterface net_result" where
  "send_to bytes endpoint ni =
     (if ni_open ni then Inr (ni\<lparr>ni_sent := ni_sent ni @ [(bytes, endpoint)]\<rparr>) else Inl SystemError)"

definition sendPacket :: "ByteBuffer \<Rightarrow> 'ep \<Rightarrow> 'ep NetworkInterface \<Rightarrow> 'ep NetworkInterface net_result" where
  "sendPacket datas endpoint ni = send_to (take (bb_length datas) (m_data datas)) endpoint ni"

definition callEventCallbackFunc ::
  "'ep Session \<Rightarrow> NetEventType \<Rightarrow> ByteBuffer option \<Rightarrow> 'ep NetworkInterface \<Rightarrow>
     ('ep Session \<times> ByteBuffer option \<times> 'ep NetworkInterface) net_result" where
  "callEventCallbackFunc pSession event_type pdatas ni =
     (case ni_event_callback ni of
        None \<Rightarrow> Inl BadFunctionCall
      | Some cb \<Rightarrow>
          bindE (cb pSession event_type pdatas) (\<lambda>(s, b).
          Inr (s, b, ni\<lparr>ni_events := ni_events ni @ [(s_id pSession, event_type, map_option unread pdatas)]\<rparr>)))"

definition setEventCallback :: "'ep event_callback \<Rightarrow> 'ep NetworkInterface \<Rightarrow> 'ep NetworkInterface" where
  "setEventCallback cb ni = ni\<lparr>ni_event_callback := Some cb\<rparr>"

subsection \<open>Sessions\<close>

definition create_session :: "uint32 \<Rightarrow> 'ep \<Rightarrow> uint64 \<Rightarrow> 'ep Session" where
  "create_session sessionID remoteEndpoint now =
     \<lparr>s_remoteEndpoint = remoteEndpoint, s_id = sessionID, s_kcp = init_kcp sessionID, s_lastRecvTime = now\<rparr>"

text \<open>The random number is an argument.\<close>

definition createNewSessionID :: "uint32 \<Rightarrow> uint32 \<Rightarrow> uint32" where
  "createNewSessionID arrayIndex rnd =
     (let sessionID = 0; index = push_bit 16 arrayIndex; sessionID = sessionID OR index in sessionID OR rnd)"

definition session_finalise :: "'ep Session \<Rightarrow> 'ep NetworkInterface \<Rightarrow> 'ep NetworkInterface net_result" where
  "session_finalise s ni =
     bindE (bufferE (make_disconnect_packet (s_id s))) (\<lambda>packet. sendPacket packet (s_remoteEndpoint s) ni)"

definition destroy_session :: "'ep Session \<Rightarrow> 'ep NetworkInterface \<Rightarrow> 'ep NetworkInterface net_result" where
  "destroy_session s ni = (case session_finalise s ni of Inl _ \<Rightarrow> Inl Terminated | Inr ni \<Rightarrow> Inr ni)"

definition sendPacketKCP :: "ByteBuffer \<Rightarrow> 'ep Session \<Rightarrow> 'ep Session net_result" where
  "sendPacketKCP datas s =
     bindE (kcpE (ikcp_send (take (bb_length datas) (m_data datas)) (int_cast (bb_length datas)) (s_kcp s)))
       (\<lambda>(sentSize, kcp). Inr (s\<lparr>s_kcp := kcp\<rparr>))"

definition isTimeout :: "uint64 \<Rightarrow> uint64 \<Rightarrow> 'ep Session \<Rightarrow> bool" where
  "isTimeout timeStamp now s =
     (if s_lastRecvTime s = 0 then False
      else (if timeStamp = 0 then now else timeStamp) - s_lastRecvTime s > P2PCLOUDS_CONNECTION_TIMEOUT_TIME)"

definition handTimeout ::
  "'ep Session \<Rightarrow> 'ep NetworkInterface \<Rightarrow> ('ep Session \<times> 'ep NetworkInterface) net_result" where
  "handTimeout s ni = bindE (callEventCallbackFunc s NetDisconnect None ni) (\<lambda>(s, _, ni). Inr (s, ni))"

fun output_all :: "uint8 list list \<Rightarrow> 'ep Session \<Rightarrow> 'ep NetworkInterface \<Rightarrow> 'ep NetworkInterface net_result" where
  "output_all [] s ni = Inr ni"
| "output_all (buf # out) s ni = bindE (send_to buf (s_remoteEndpoint s) ni) (output_all out s)"

definition session_update ::
  "endian \<Rightarrow> uint64 \<Rightarrow> uint64 \<Rightarrow> 'ep Session \<Rightarrow> 'ep NetworkInterface \<Rightarrow>
     (bool \<times> 'ep Session \<times> 'ep NetworkInterface) net_result" where
  "session_update host timeStamp now s ni =
     bindE (kcpE (ikcp_update host (ucast (timeStamp AND 0xffffffff)) (s_kcp s))) (\<lambda>(out, kcp).
     bindE (output_all out s ni) (\<lambda>ni.
     let s = s\<lparr>s_kcp := kcp\<rparr>
     in if isTimeout 0 now s then bindE (handTimeout s ni) (\<lambda>(s, ni). Inr (False, s, ni))
        else Inr (True, s, ni)))"

definition session_input ::
  "endian \<Rightarrow> uint64 \<Rightarrow> ByteBuffer \<Rightarrow> 'ep \<Rightarrow> 'ep Session \<Rightarrow> 'ep NetworkInterface \<Rightarrow>
     ('ep Session \<times> ByteBuffer \<times> 'ep NetworkInterface) net_result" where
  "session_input host now datas remoteEndpoint s ni =
     (let s = s\<lparr>s_lastRecvTime := now, s_remoteEndpoint := remoteEndpoint\<rparr>;
          s = s\<lparr>s_kcp := snd (ikcp_input host (take (bb_length datas) (m_data datas)) (s_kcp s))\<rparr>;
          datas = set_wpos 0 datas
      in bindE (kcpE (ikcp_recv (int_cast (bb_size datas)) (s_kcp s))) (\<lambda>(bytes_recvd, bytes, kcp).
         if length bytes > bb_size datas then Inl (BufferError OutOfRange)
         else
           let s = s\<lparr>s_kcp := kcp\<rparr>;
               datas = datas\<lparr>m_data := overwrite (m_data datas) 0 bytes\<rparr>
           in if bytes_recvd \<le> 0 then Inr (s, datas, ni)
              else if \<not> bytes_recvd < int (bb_size datas) then Inl AssertionFailed
              else
                let datas = set_wpos bytes_recvd datas
                in bindE (callEventCallbackFunc s NetRcvMsg (Some datas) ni) (\<lambda>(s, b, ni).
                   Inr (s, (case b of None \<Rightarrow> datas | Some b \<Rightarrow> b), ni))))"

subsection \<open>The table of sessions\<close>

definition findSession :: "uint32 \<Rightarrow> 'ep NetworkInterface \<Rightarrow> 'ep Session option" where
  "findSession sessionID ni = map_of (ni_sessions ni) sessionID"

definition addSession :: "uint32 \<Rightarrow> 'ep Session \<Rightarrow> 'ep NetworkInterface \<Rightarrow> bool \<times> 'ep NetworkInterface" where
  "addSession sessionID session ni =
     (if map_of (ni_sessions ni) sessionID \<noteq> None then (False, ni)
      else (True, ni\<lparr>ni_sessions := sm_insert sessionID session (ni_sessions ni)\<rparr>))"

definition removeSession :: "uint32 \<Rightarrow> 'ep NetworkInterface \<Rightarrow> 'ep NetworkInterface" where
  "removeSession sessionID ni = ni\<lparr>ni_sessions := sm_erase sessionID (ni_sessions ni)\<rparr>"

text \<open>The session object behind a key of the table has changed.\<close>

definition store_session :: "uint32 \<Rightarrow> 'ep Session \<Rightarrow> 'ep NetworkInterface \<Rightarrow> 'ep NetworkInterface" where
  "store_session sessionID session ni = ni\<lparr>ni_sessions := sm_insert sessionID session (ni_sessions ni)\<rparr>"

text \<open>The callback for a session of the table, which is then removed and destroyed.\<close>

definition drop_session ::
  "uint32 \<Rightarrow> 'ep Session \<Rightarrow> 'ep NetworkInterface \<Rightarrow> 'ep NetworkInterface net_result" where
  "drop_session sessionID session ni =
     bindE (callEventCallbackFunc session NetDisconnect None ni) (\<lambda>(session, _, ni).
     destroy_session session (removeSession sessionID ni))"

definition disconnect :: "uint32 \<Rightarrow> 'ep NetworkInterface \<Rightarrow> 'ep NetworkInterface net_result" where
  "disconnect sessionID ni =
     (case findSession sessionID ni of None \<Rightarrow> Inr ni | Some session \<Rightarrow> drop_session sessionID session ni)"

definition connect :: "'ep \<Rightarrow> 'ep NetworkInterface \<Rightarrow> 'ep NetworkInterface net_result" where
  "connect remoteEndpoint ni = bindE (bufferE makeConnectPacket) (\<lambda>packet. sendPacket packet remoteEndpoint ni)"

subsection \<open>Start and stop\<close>

definition UDP_BUFFER_SIZE :: nat where
  "UDP_BUFFER_SIZE = 1024 * 32"

definition new_NetworkInterface :: "'ep \<Rightarrow> 'ep NetworkInterface net_result" where
  "new_NetworkInterface noEndpoint =
     bindE (bufferE (data_resize UDP_BUFFER_SIZE new_buffer)) (\<lambda>buffer.
     Inr \<lparr>ni_open = True, ni_stopped = True, ni_receiving = False, ni_timing = False, ni_remoteEndpoint = noEndpoint,
          ni_buffer = buffer, ni_sessions = [], ni_event_callback = None, ni_next_id = 1, ni_sent = [], ni_events = []\<rparr>)"

definition hookAsyncReceive :: "'ep NetworkInterface \<Rightarrow> 'ep NetworkInterface" where
  "hookAsyncReceive ni = (if ni_stopped ni then ni else ni\<lparr>ni_receiving := True\<rparr>)"

definition hookUpdateTimer :: "'ep NetworkInterface \<Rightarrow> 'ep NetworkInterface" where
  "hookUpdateTimer ni = (if ni_stopped ni then ni else ni\<lparr>ni_timing := True\<rparr>)"

definition ni_initialize :: "'ep NetworkInterface \<Rightarrow> bool \<times> 'ep NetworkInterface" where
  "ni_initialize ni = (let ni = ni\<lparr>ni_stopped := False\<rparr> in (True, hookUpdateTimer (hookAsyncReceive ni)))"

fun destroy_all :: "'ep Session list \<Rightarrow> 'ep NetworkInterface \<Rightarrow> 'ep NetworkInterface net_result" where
  "destroy_all [] ni = Inr ni"
| "destroy_all (s # ss) ni = bindE (destroy_session s ni) (destroy_all ss)"

definition stopAll :: "'ep NetworkInterface \<Rightarrow> 'ep NetworkInterface net_result" where
  "stopAll ni =
     (let ni = ni\<lparr>ni_stopped := True\<rparr>;
          ni = (if ni_open ni then ni\<lparr>ni_open := False\<rparr> else ni)
      in destroy_all (map snd (ni_sessions ni)) (ni\<lparr>ni_sessions := []\<rparr>))"

definition ni_finalise :: "'ep NetworkInterface \<Rightarrow> (bool \<times> 'ep NetworkInterface) net_result" where
  "ni_finalise ni = bindE (stopAll ni) (\<lambda>ni. Inr (True, ni))"

subsection \<open>Handlers\<close>

text \<open>The loop of the timer over the sessions of the table; \<open>now k\<close> is the clock when session \<open>k\<close> is checked.\<close>

fun update_sessions ::
  "endian \<Rightarrow> uint64 \<Rightarrow> (uint32 \<Rightarrow> uint64) \<Rightarrow> (uint32 \<times> 'ep Session) list \<Rightarrow> 'ep NetworkInterface \<Rightarrow>
     'ep NetworkInterface net_result" where
  "update_sessions host timeStamp now [] ni = Inr ni"
| "update_sessions host timeStamp now ((k, s) # rest) ni =
     bindE (session_update host timeStamp (now k) s ni) (\<lambda>(alive, s, ni).
     bindE (if alive then Inr (store_session k s ni) else destroy_session s (removeSession k ni))
       (update_sessions host timeStamp now rest))"

definition handleUpdateTimer ::
  "endian \<Rightarrow> uint64 \<Rightarrow> (uint32 \<Rightarrow> uint64) \<Rightarrow> 'ep NetworkInterface \<Rightarrow> 'ep NetworkInterface net_result" where
  "handleUpdateTimer host timeStamp now ni =
     (let ni = hookUpdateTimer (ni\<lparr>ni_timing := False\<rparr>)
      in update_sessions host timeStamp now (ni_sessions ni) ni)"

text \<open>
  The end of both connection handlers: the session is added to the table and reported. A session that
  was not added is destroyed when the handler returns.
\<close>

definition report_session :: "'ep Session \<Rightarrow> 'ep NetworkInterface \<Rightarrow> 'ep NetworkInterface net_result" where
  "report_session session ni =
     (let (added, ni) = addSession (s_id session) session ni
      in bindE (callEventCallbackFunc session NetConnect None ni) (\<lambda>(session, _, ni).
         if added then Inr (store_session (s_id session) session ni) else destroy_session session ni))"

definition handleConnectPacket :: "uint64 \<Rightarrow> 'ep NetworkInterface \<Rightarrow> 'ep NetworkInterface net_result" where
  "handleConnectPacket now ni =
     (let session = create_session (ni_next_id ni) (ni_remoteEndpoint ni) now;
          ni = ni\<lparr>ni_next_id := ni_next_id ni + 1\<rparr>
      in bindE (bufferE (make_connect_ack_packet (s_id session))) (\<lambda>packet.
         bindE (send_to (take (m_wpos packet) (m_data packet)) (ni_remoteEndpoint ni) ni) (report_session session)))"

definition handleConnectAckPacket :: "uint64 \<Rightarrow> 'ep NetworkInterface \<Rightarrow> 'ep NetworkInterface net_result" where
  "handleConnectAckPacket now ni =
     bindE (bufferE (get_sessionid_from_connect_ack_packet (ni_buffer ni))) (\<lambda>(sessionID, buffer).
     report_session (create_session sessionID (ni_remoteEndpoint ni) now) (ni\<lparr>ni_buffer := buffer\<rparr>))"

definition handleDisconnectPacket :: "'ep NetworkInterface \<Rightarrow> 'ep NetworkInterface net_result" where
  "handleDisconnectPacket ni =
     bindE (bufferE (get_sessionid_from_connect_ack_packet (ni_buffer ni))) (\<lambda>(sessionID, buffer).
     let ni = ni\<lparr>ni_buffer := buffer\<rparr>
     in case findSession sessionID ni of None \<Rightarrow> Inr ni | Some session \<Rightarrow> drop_session sessionID session ni)"

definition handlePacketKCP :: "endian \<Rightarrow> uint64 \<Rightarrow> 'ep NetworkInterface \<Rightarrow> 'ep NetworkInterface net_result" where
  "handlePacketKCP host now ni =
     (let sessionID = ikcp_getconv host (m_data (ni_buffer ni))
      in case findSession sessionID ni of
           None \<Rightarrow> Inr ni
         | Some session \<Rightarrow>
             if s_remoteEndpoint session \<noteq> ni_remoteEndpoint ni then Inr ni
             else bindE (session_input host now (ni_buffer ni) (ni_remoteEndpoint ni) session ni)
                    (\<lambda>(session, buffer, ni). Inr (store_session sessionID session (ni\<lparr>ni_buffer := buffer\<rparr>))))"

definition handleReceiveFrom ::
  "endian \<Rightarrow> uint64 \<Rightarrow> bool \<Rightarrow> nat \<Rightarrow> 'ep NetworkInterface \<Rightarrow> 'ep NetworkInterface net_result" where
  "handleReceiveFrom host now error bytes_recvd ni =
     (if \<not> error \<and> bytes_recvd > 0
      then if \<not> bytes_recvd < bb_size (ni_buffer ni) then Inl AssertionFailed
           else
             let ni = ni\<lparr>ni_buffer := set_wpos (int_cast bytes_recvd) (set_rpos 0 (ni_buffer ni))\<rparr>
             in bindE (if isConnectPacket (ni_buffer ni) then handleConnectPacket now ni
                       else if is_connect_ack_packet (ni_buffer ni) then handleConnectAckPacket now ni
                       else if is_disconnect_packet (ni_buffer ni) then handleDisconnectPacket ni
                       else handlePacketKCP host now ni)
                  (\<lambda>ni. Inr (hookAsyncReceive ni))
      else Inr (hookAsyncReceive ni))"

text \<open>
  The completion of a receive operation: the socket writes a datagram to the vector of the buffer, cut to
  its size, sets the endpoint and calls the handler.
\<close>

definition receive ::
  "endian \<Rightarrow> uint64 \<Rightarrow> uint8 list \<Rightarrow> 'ep \<Rightarrow> 'ep NetworkInterface \<Rightarrow> 'ep NetworkInterface net_result" where
  "receive host now dg endpoint ni =
     (let b = ni_buffer ni; bytes = take (bb_size b) dg
      in handleReceiveFrom host now False (length bytes)
           (ni\<lparr>ni_receiving := False, ni_remoteEndpoint := endpoint,
               ni_buffer := b\<lparr>m_data := overwrite (m_data b) 0 bytes\<rparr>\<rparr>))"

subsection \<open>The callbacks of the applications\<close>

text \<open>\<open>App::netEventCallback\<close>, and the one that \<open>P2pCloudsApp\<close> and \<open>TestApp\<close> override it with.\<close>

definition app_netEventCallback :: "'ep event_callback" where
  "app_netEventCallback pSession event_type pdatas = Inr (pSession, pdatas)"

definition netEventCallback :: "'ep event_callback" where
  "netEventCallback pSession event_type pdatas =
     bindE (if event_type = NetRcvMsg
            then (case pdatas of
                    None \<Rightarrow> Inl NullPointer
                  | Some b \<Rightarrow> bindE (bufferE (get_string b)) (\<lambda>(msg, b). Inr (Some b)))
            else Inr pdatas) (\<lambda>pdatas.
     bindE (bufferE (put_string ''hello'' new_buffer)) (\<lambda>packet.
     bindE (sendPacketKCP packet pSession) (\<lambda>pSession. Inr (pSession, pdatas))))"

definition initNetworkInterfaces :: "'ep event_callback \<Rightarrow> 'ep \<Rightarrow> (bool \<times> 'ep NetworkInterface) net_result" where
  "initNetworkInterfaces cb noEndpoint =
     bindE (new_NetworkInterface noEndpoint) (\<lambda>ni. Inr (ni_initialize (setEventCallback cb ni)))"

end
