(* ===== verification/NetworkInvariant.thy ===== *)
theory NetworkInvariant
  imports Network KcpBounds
begin

text \<open>
  The invariant of the network interface. The table of sessions is a sorted map from ids to sessions whose
  id and KCP conversation are the key, every session is within the bounds of \<open>rcv_bounded\<close> and \<open>sender\<close>, and
  the receive buffer keeps its size. The locale \<open>ordered_map\<close> states what the interface needs of its table, and
  \<open>event_handler\<close> what it needs of the callback of the application; the handlers are verified in the
  latter once for every callback that fulfils it, and both are interpreted on the definitions of the
  program.
\<close>

section \<open>The table\<close>

locale ordered_map =
  fixes inv :: "'m \<Rightarrow> bool" and lookup :: "'m \<Rightarrow> 'k \<Rightarrow> 'v option"
    and insert :: "'k \<Rightarrow> 'v \<Rightarrow> 'm \<Rightarrow> 'm" and erase :: "'k \<Rightarrow> 'm \<Rightarrow> 'm"
  assumes insert_inv: "inv m \<Longrightarrow> inv (insert k v m)" and erase_inv: "inv m \<Longrightarrow> inv (erase k m)"
    and lookup_insert: "inv m \<Longrightarrow> lookup (insert k v m) = (lookup m)(k \<mapsto> v)"
    and lookup_erase: "inv m \<Longrightarrow> lookup (erase k m) = (lookup m)(k := None)"
begin

definition all_entries :: "('k \<Rightarrow> 'v \<Rightarrow> bool) \<Rightarrow> 'm \<Rightarrow> bool" where
  "all_entries P m \<longleftrightarrow> inv m \<and> (\<forall>k v. lookup m k = Some v \<longrightarrow> P k v)"

lemma all_insert: "all_entries P m \<Longrightarrow> P k v \<Longrightarrow> all_entries P (insert k v m)"
  by (simp add: all_entries_def insert_inv lookup_insert)

lemma all_erase: "all_entries P m \<Longrightarrow> all_entries P (erase k m)"
  by (simp add: all_entries_def erase_inv lookup_erase)

lemma lookup_insert_erase: "inv m \<Longrightarrow> lookup (erase k (insert k v m)) = lookup (erase k m)"
  by (simp add: insert_inv lookup_insert lookup_erase)

end

definition sm_sorted :: "('k::linorder \<times> 'v) list \<Rightarrow> bool" where
  "sm_sorted m = sorted_wrt (<) (map fst m)"

lemma sm_insert_keys: "fst ` set (sm_insert k v m) = insert k (fst ` set m)"
  by (induction k v m rule: sm_insert.induct) auto

lemma sm_insert_sorted: "sm_sorted m \<Longrightarrow> sm_sorted (sm_insert k v m)"
proof (induction k v m rule: sm_insert.induct)
  case (2 k v k' v' m)
  then show ?case using sm_insert_keys [of k v m] by (auto simp: sm_sorted_def)
qed (simp add: sm_sorted_def)

lemma map_of_small: "\<forall>x \<in> fst ` set m. k < x \<Longrightarrow> map_of m (k :: 'k::linorder) = None"
  by (metis less_irrefl map_of_eq_None_iff)

lemma map_of_sm_insert: "sm_sorted m \<Longrightarrow> map_of (sm_insert k v m) = (map_of m)(k \<mapsto> v)"
  by (induction k v m rule: sm_insert.induct) (auto simp: sm_sorted_def fun_eq_iff)

lemma map_of_sm_erase: "map_of (sm_erase k m) = (map_of m)(k := None)"
  by (induction m) (auto simp: sm_erase_def fun_eq_iff)

lemma sm_erase_sorted: "sm_sorted m \<Longrightarrow> sm_sorted (sm_erase k m)"
  by (simp add: sm_sorted_def sm_erase_def sorted_wrt_map sorted_wrt_filter)

lemma sm_insert_twice [simp]: "sm_insert k v' (sm_insert k v m) = sm_insert k v' m"
  by (induction k v m rule: sm_insert.induct) auto

interpretation sm: ordered_map "sm_sorted :: ('k::linorder \<times> 'v) list \<Rightarrow> bool" map_of sm_insert sm_erase
  by unfold_locales (simp_all add: sm_insert_sorted map_of_sm_insert map_of_sm_erase sm_erase_sorted)

lemma all_entries_list:
  "sm.all_entries P m \<longleftrightarrow> sm_sorted m \<and> (\<forall>(k, v) \<in> set m. P k v)"
proof -
  have "distinct (map fst m)" if "sm_sorted m" using that by (auto simp: sm_sorted_def strict_sorted_iff)
  then show ?thesis by (auto simp: sm.all_entries_def)
qed

section \<open>Sessions\<close>

definition ses_ok :: "uint32 \<Rightarrow> 'ep Session \<Rightarrow> bool" where
  "ses_ok k s \<longleftrightarrow> s_id s = k \<and> kc_conv (s_kcp s) = k \<and> rcv_bounded (s_kcp s) \<and> (\<exists>xs. sender xs (s_kcp s))"

definition keeps :: "'ep Session \<Rightarrow> 'ep Session \<Rightarrow> bool" where
  "keeps s s' \<longleftrightarrow> s_id s' = s_id s \<and> s_remoteEndpoint s' = s_remoteEndpoint s \<and> s_lastRecvTime s' = s_lastRecvTime s \<and>
     rcv_view (s_kcp s') = rcv_view (s_kcp s)"

lemma keeps_refl [simp]: "keeps s s"
  by (simp add: keeps_def)

lemma create_session_ok: "ses_ok k (create_session k ep now)"
  using init_sender by (auto simp: ses_ok_def create_session_def init_kcp_fields init_bounded)

lemma rcv_view_conv: "rcv_view k = rcv_view k' \<Longrightarrow> kc_conv k = kc_conv k'"
  by (simp add: rcv_view_def)

text \<open>Sending on a session succeeds or refuses the message, and leaves the receiving side alone.\<close>

lemma sendPacketKCP_ok:
  assumes "ses_ok k s" "bb_wf datas" "bb_length datas < 2 ^ 31" "m_rpos datas = 0"
  shows "\<exists>s'. sendPacketKCP datas s = Inr s' \<and> keeps s s' \<and> ses_ok k s'"
proof -
  define msg where "msg = take (bb_length datas) (m_data datas)"
  have len: "length msg = bb_length datas" "msg = unread datas" using length_unread [OF assms(2)] assms(4) by (simp_all add: msg_def unread_def)
  obtain xs where xs: "sender xs (s_kcp s)" using assms(1) by (auto simp: ses_ok_def)
  obtain r kcp where send: "ikcp_send msg (int (length msg)) (s_kcp s) = Inr (r, kcp)"
    "\<exists>ys. sender ys kcp" "kc_conv kcp = kc_conv (s_kcp s)"
  proof (cases "length (chunks (unat (kc_mss (s_kcp s))) msg) > 255")
    case True
    then show thesis using that [of "-2" "s_kcp s"] ikcp_send_eq [of "s_kcp s" msg] sender_mss [OF xs] assms(3) len xs by auto
  next
    case False
    then show thesis
      using that ikcp_send_eq [of "s_kcp s" msg] sender_mss [OF xs] assms(3) len sender_send [OF xs, of msg] by (auto simp: Let_def)
  qed
  note v = send_rcv_view [OF send(1)]
  have "sendPacketKCP datas s = Inr (s\<lparr>s_kcp := kcp\<rparr>)"
    using send(1) assms(3) len(1) by (simp add: sendPacketKCP_def kcpE_def msg_def int_cast_small)
  moreover have "rcv_bounded kcp" using assms(1) rcv_bounded_view [OF v] by (simp add: ses_ok_def)
  ultimately show ?thesis using send(2,3) v assms(1) by (simp add: ses_ok_def keeps_def)
qed

section \<open>The contract of a callback\<close>

definition good_arg :: "NetEventType \<Rightarrow> ByteBuffer option \<Rightarrow> bool" where
  "good_arg ev b = (case b of None \<Rightarrow> ev \<noteq> NetRcvMsg | Some d \<Rightarrow> bb_wf d \<and> bb_size d = UDP_BUFFER_SIZE)"

definition net_ok :: "'ep NetworkInterface \<Rightarrow> bool" where
  "net_ok ni \<longleftrightarrow> sm.all_entries ses_ok (ni_sessions ni) \<and> bb_size (ni_buffer ni) = UDP_BUFFER_SIZE"

lemma destroy_session_open:
  assumes "ni_open ni"
  shows "destroy_session s ni = Inr (ni\<lparr>ni_sent := ni_sent ni @ [(disconnect_bytes (s_id s), s_remoteEndpoint s)]\<rparr>)"
proof -
  obtain b where b: "make_disconnect_packet (s_id s) = Inr b" "holds (disconnect_bytes (s_id s)) b"
    using make_packets(3) [of "s_id s"] by (auto simp: fills_def)
  then have "take (bb_length b) (m_data b) = disconnect_bytes (s_id s)"
    using holds_wf(3) [OF b(2)] by (simp add: holds_def)
  then show ?thesis
    using b(1) assms by (simp add: destroy_session_def session_finalise_def bufferE_def sendPacket_def send_to_def)
qed

lemma destroy_session_closed:
  assumes "\<not> ni_open ni"
  shows "destroy_session s ni = Inl Terminated"
proof -
  obtain b where "make_disconnect_packet (s_id s) = Inr b" using make_packets(3) [of "s_id s"] by (auto simp: fills_def)
  then show ?thesis
    using assms by (simp add: destroy_session_def session_finalise_def bufferE_def sendPacket_def send_to_def)
qed

locale event_handler =
  fixes cb :: "'ep event_callback"
  assumes handles: "ses_ok k s \<Longrightarrow> good_arg ev b \<Longrightarrow>
    \<exists>s' b'. cb s ev b = Inr (s', b') \<and> keeps s s' \<and> ses_ok k s' \<and> (\<forall>d. b' = Some d \<longrightarrow> bb_size d = UDP_BUFFER_SIZE)"
begin

definition ready :: "'ep NetworkInterface \<Rightarrow> bool" where
  "ready ni \<longleftrightarrow> net_ok ni \<and> ni_event_callback ni = Some cb \<and> ni_open ni"

lemma call:
  assumes "ni_event_callback ni = Some cb" "ses_ok k s" "good_arg ev b"
  shows "\<exists>s' b'. callEventCallbackFunc s ev b ni =
      Inr (s', b', ni\<lparr>ni_events := ni_events ni @ [(k, ev, map_option unread b)]\<rparr>) \<and>
    keeps s s' \<and> ses_ok k s' \<and> (\<forall>d. b' = Some d \<longrightarrow> bb_size d = UDP_BUFFER_SIZE)"
  using handles [OF assms(2,3)] assms(1,2) by (auto simp: callEventCallbackFunc_def ses_ok_def)

lemma drop_session_eq:
  assumes "ready ni" "ses_ok k s"
  shows "drop_session k s ni = Inr (ni\<lparr>ni_sessions := sm_erase k (ni_sessions ni),
    ni_events := ni_events ni @ [(k, NetDisconnect, None)],
    ni_sent := ni_sent ni @ [(disconnect_bytes k, s_remoteEndpoint s)]\<rparr>)"
proof -
  have cb: "ni_event_callback ni = Some cb" "ni_open ni" using assms(1) by (simp_all add: ready_def)
  obtain s' b' where "callEventCallbackFunc s NetDisconnect None ni =
      Inr (s', b', ni\<lparr>ni_events := ni_events ni @ [(k, NetDisconnect, map_option unread None)]\<rparr>)" "keeps s s'" "ses_ok k s'"
    using call [OF cb(1) assms(2), of NetDisconnect None] by (auto simp: good_arg_def)
  then show ?thesis
    using cb(2) assms(2) by (simp add: drop_session_def removeSession_def destroy_session_open ses_ok_def keeps_def)
qed

lemma report_session_new:
  assumes "ready ni" "ses_ok k s" "findSession k ni = None"
  shows "\<exists>s'. report_session s ni = Inr (ni\<lparr>ni_sessions := sm_insert k s' (ni_sessions ni),
    ni_events := ni_events ni @ [(k, NetConnect, None)]\<rparr>) \<and> keeps s s' \<and> ses_ok k s'"
proof -
  have sid: "s_id s = k" using assms(2) by (simp add: ses_ok_def)
  let ?ni = "ni\<lparr>ni_sessions := sm_insert k s (ni_sessions ni)\<rparr>"
  have cb: "ni_event_callback ?ni = Some cb" using assms(1) by (simp add: ready_def)
  obtain s' b' where "callEventCallbackFunc s NetConnect None ?ni =
      Inr (s', b', ?ni\<lparr>ni_events := ni_events ni @ [(k, NetConnect, None)]\<rparr>)" "keeps s s'" "ses_ok k s'"
    using call [OF cb assms(2), of NetConnect None] by (auto simp: good_arg_def)
  then show ?thesis
    using assms(3) sid by (intro exI [of _ s'])
      (simp add: report_session_def addSession_def findSession_def store_session_def keeps_def)
qed

lemma report_session_twice:
  assumes "ready ni" "ses_ok k s" "findSession k ni = Some t"
  shows "report_session s ni = Inr (ni\<lparr>ni_events := ni_events ni @ [(k, NetConnect, None)],
    ni_sent := ni_sent ni @ [(disconnect_bytes k, s_remoteEndpoint s)]\<rparr>)"
proof -
  have cb: "ni_event_callback ni = Some cb" "ni_open ni" using assms(1) by (simp_all add: ready_def)
  obtain s' b' where "callEventCallbackFunc s NetConnect None ni =
      Inr (s', b', ni\<lparr>ni_events := ni_events ni @ [(k, NetConnect, None)]\<rparr>)" "keeps s s'" "ses_ok k s'"
    using call [OF cb(1) assms(2), of NetConnect None] by (auto simp: good_arg_def)
  then show ?thesis
    using assms(2,3) cb(2)
    by (simp add: report_session_def addSession_def findSession_def destroy_session_open keeps_def ses_ok_def)
qed

end

section \<open>Datagrams\<close>

text \<open>The interface when the handler of a datagram starts.\<close>

definition arrived :: "uint8 list \<Rightarrow> 'ep \<Rightarrow> 'ep NetworkInterface \<Rightarrow> 'ep NetworkInterface" where
  "arrived dg endpoint ni = ni\<lparr>ni_receiving := False, ni_remoteEndpoint := endpoint,
     ni_buffer := \<lparr>m_rpos = 0, m_wpos = length dg, m_data = overwrite (m_data (ni_buffer ni)) 0 dg\<rparr>\<rparr>"

definition handle_kind :: "packet_kind \<Rightarrow> endian \<Rightarrow> uint64 \<Rightarrow> 'ep NetworkInterface \<Rightarrow> 'ep NetworkInterface net_result" where
  "handle_kind kind host now ni = (case kind of
     Connect \<Rightarrow> handleConnectPacket now ni | ConnectAck \<Rightarrow> handleConnectAckPacket now ni
   | Disconnect \<Rightarrow> handleDisconnectPacket ni | Other \<Rightarrow> handlePacketKCP host now ni)"

lemma arrived_buffer:
  assumes "length dg \<le> bb_size (ni_buffer ni)"
  shows "holds dg (ni_buffer (arrived dg ep ni))" "bb_size (ni_buffer (arrived dg ep ni)) = bb_size (ni_buffer ni)"
  using assms overwrite_simps(1,3) [of 0 dg "m_data (ni_buffer ni)"] by (simp_all add: arrived_def holds_def bb_size_def)

lemma arrived_simps [simp]:
  "ni_sessions (arrived dg ep ni) = ni_sessions ni" "ni_event_callback (arrived dg ep ni) = ni_event_callback ni"
  "ni_open (arrived dg ep ni) = ni_open ni" "ni_remoteEndpoint (arrived dg ep ni) = ep" "ni_events (arrived dg ep ni) = ni_events ni"
  "ni_sent (arrived dg ep ni) = ni_sent ni" "ni_next_id (arrived dg ep ni) = ni_next_id ni"
  "ni_stopped (arrived dg ep ni) = ni_stopped ni" "ni_timing (arrived dg ep ni) = ni_timing ni"
  "findSession k (arrived dg ep ni) = findSession k ni"
  by (simp_all add: arrived_def findSession_def)

lemma receive_eq:
  assumes "bb_size (ni_buffer ni) = UDP_BUFFER_SIZE" "dg \<noteq> []" "length dg < UDP_BUFFER_SIZE"
  shows "receive host now dg ep ni = bindE (handle_kind (kind_of dg) host now (arrived dg ep ni)) (\<lambda>ni. Inr (hookAsyncReceive ni))"
proof -
  have h: "holds dg (ni_buffer (arrived dg ep ni))" using assms by (intro arrived_buffer) simp
  have size: "length (overwrite (m_data (ni_buffer ni)) 0 dg) = UDP_BUFFER_SIZE"
    using assms arrived_buffer(2) [of dg ni ep] by (simp add: arrived_def bb_size_def)
  have nonempty: "0 < length dg" "m_data (ni_buffer ni) \<noteq> []" "dg \<noteq> []"
    using assms by (auto simp: bb_size_def UDP_BUFFER_SIZE_def)
  have cast: "int_cast (length dg) = int (length dg)" using assms(3) by (intro int_cast_small) (simp add: UDP_BUFFER_SIZE_def)
  have "set_wpos (int (length dg)) (set_rpos 0 ((ni_buffer ni)\<lparr>m_data := overwrite (m_data (ni_buffer ni)) 0 dg\<rparr>)) =
      ni_buffer (arrived dg ep ni)" by (simp add: arrived_def set_wpos_def set_rpos_def)
  then have a: "(ni\<lparr>ni_receiving := False, ni_remoteEndpoint := ep, ni_buffer := (ni_buffer ni)\<lparr>m_data := overwrite (m_data (ni_buffer ni)) 0 dg\<rparr>\<rparr>)
      \<lparr>ni_buffer := set_wpos (int_cast (length dg)) (set_rpos 0 ((ni_buffer ni)\<lparr>m_data := overwrite (m_data (ni_buffer ni)) 0 dg\<rparr>))\<rparr> =
      arrived dg ep ni" by (simp add: cast arrived_def)
  have "receive host now dg ep ni =
      bindE (if isConnectPacket (ni_buffer (arrived dg ep ni)) then handleConnectPacket now (arrived dg ep ni)
             else if is_connect_ack_packet (ni_buffer (arrived dg ep ni)) then handleConnectAckPacket now (arrived dg ep ni)
             else if is_disconnect_packet (ni_buffer (arrived dg ep ni)) then handleDisconnectPacket (arrived dg ep ni)
             else handlePacketKCP host now (arrived dg ep ni)) (\<lambda>ni. Inr (hookAsyncReceive ni))"
    using assms(1,3) nonempty size a by (simp add: receive_def handleReceiveFrom_def Let_def bb_size_def)
  also have "\<dots> = bindE (handle_kind (kind_of dg) host now (arrived dg ep ni)) (\<lambda>ni. Inr (hookAsyncReceive ni))"
    unfolding kind_of_holds [OF h] by (cases "kind_of dg") (simp_all add: handle_kind_def)
  finally show ?thesis .
qed

lemma receive_long:
  assumes "bb_size (ni_buffer ni) = UDP_BUFFER_SIZE" "length dg \<ge> UDP_BUFFER_SIZE"
  shows "receive host now dg ep ni = Inl AssertionFailed"
proof -
  have "length (take UDP_BUFFER_SIZE dg) = UDP_BUFFER_SIZE" "UDP_BUFFER_SIZE > 0" using assms(2) by (simp_all add: UDP_BUFFER_SIZE_def)
  then show ?thesis
    using assms(1) overwrite_simps(1) [of 0 "take UDP_BUFFER_SIZE dg" "m_data (ni_buffer ni)"]
    by (auto simp: receive_def handleReceiveFrom_def Let_def bb_size_def)
qed

end
