(* ===== verification/NetworkSafety.thy ===== *)
theory NetworkSafety
  imports NetworkInvariant
begin

text \<open>
  The handlers of the network interface, verified for every callback that fulfils the contract
  \<open>event_handler\<close>: what each of them does to the table, the events and the datagrams sent, and that they keep
  the invariant whatever a datagram contains. The datagrams that make a handler fail are named exactly.
\<close>

text \<open>
  The datagrams that make the handler fail: one that fills the buffer, a control packet without a complete
  id, and one that completes a message of exactly the size of the buffer.
\<close>

definition fatal :: "endian \<Rightarrow> uint8 list \<Rightarrow> 'ep \<Rightarrow> 'ep NetworkInterface \<Rightarrow> bool" where
  "fatal host dg ep ni \<longleftrightarrow> UDP_BUFFER_SIZE \<le> length dg \<or>
     kind_of dg \<in> {ConnectAck, Disconnect} \<and> length (after_string dg) < 4 \<or>
     dg \<noteq> [] \<and> kind_of dg = Other \<and> (\<exists>s bytes kcp. findSession (ikcp_getconv host (m_data (ni_buffer (arrived dg ep ni)))) ni = Some s \<and>
       s_remoteEndpoint s = ep \<and> ikcp_recv (int UDP_BUFFER_SIZE) (snd (ikcp_input host dg (s_kcp s))) = Inr (int UDP_BUFFER_SIZE, bytes, kcp))"

text \<open>The next receive operation is outstanding unless the interface was stopped; the timer is not touched.\<close>

definition goes_on :: "'ep NetworkInterface \<Rightarrow> 'ep NetworkInterface \<Rightarrow> bool" where
  "goes_on ni ni' \<longleftrightarrow> ni_stopped ni' = ni_stopped ni \<and> ni_timing ni' = ni_timing ni \<and> (ni_stopped ni \<or> ni_receiving ni')"

context event_handler
begin

lemma ready_upd [simp]:
  "ready (ni\<lparr>ni_events := e\<rparr>) = ready ni" "ready (ni\<lparr>ni_sent := out\<rparr>) = ready ni" "ready (ni\<lparr>ni_next_id := i\<rparr>) = ready ni"
  "ready (ni\<lparr>ni_receiving := r\<rparr>) = ready ni" "ready (ni\<lparr>ni_timing := r\<rparr>) = ready ni" "ready (ni\<lparr>ni_remoteEndpoint := ep\<rparr>) = ready ni"
  by (simp_all add: ready_def net_ok_def)

lemma ready_buffer: "ready ni \<Longrightarrow> bb_size b = UDP_BUFFER_SIZE \<Longrightarrow> ready (ni\<lparr>ni_buffer := b\<rparr>)"
  by (simp add: ready_def net_ok_def)

lemma ready_insert: "ready ni \<Longrightarrow> ses_ok k s \<Longrightarrow> ready (ni\<lparr>ni_sessions := sm_insert k s (ni_sessions ni)\<rparr>)"
  by (simp add: ready_def net_ok_def sm.all_insert)

lemma ready_erase: "ready ni \<Longrightarrow> ready (ni\<lparr>ni_sessions := sm_erase k (ni_sessions ni)\<rparr>)"
  by (simp add: ready_def net_ok_def sm.all_erase)

lemma ready_find: "ready ni \<Longrightarrow> findSession k ni = Some s \<Longrightarrow> ses_ok k s"
  by (simp add: ready_def net_ok_def sm.all_entries_def findSession_def)

lemma ready_arrived: "ready ni \<Longrightarrow> length dg < UDP_BUFFER_SIZE \<Longrightarrow> ready (arrived dg ep ni)"
  using arrived_buffer(2) [of dg ni ep] by (simp add: ready_def net_ok_def)

section \<open>Connections\<close>

lemma handleConnectPacket_new:
  assumes "ready ni" "findSession (ni_next_id ni) ni = None"
  defines "k \<equiv> ni_next_id ni"
  shows "\<exists>s. handleConnectPacket now ni = Inr (ni\<lparr>ni_next_id := k + 1, ni_sent := ni_sent ni @ [(ack_bytes k, ni_remoteEndpoint ni)],
      ni_sessions := sm_insert k s (ni_sessions ni), ni_events := ni_events ni @ [(k, NetConnect, None)]\<rparr>) \<and>
    keeps (create_session k (ni_remoteEndpoint ni) now) s \<and> ses_ok k s"
proof -
  obtain b where b: "make_connect_ack_packet k = Inr b" "holds (ack_bytes k) b"
    using make_packets(2) [of k] by (auto simp: fills_def)
  let ?ni = "ni\<lparr>ni_next_id := k + 1, ni_sent := ni_sent ni @ [(ack_bytes k, ni_remoteEndpoint ni)]\<rparr>"
  have "ni_open ni" using assms(1) by (simp add: ready_def)
  then have "handleConnectPacket now ni = report_session (create_session k (ni_remoteEndpoint ni) now) ?ni"
    using b by (simp add: handleConnectPacket_def bufferE_def send_to_def holds_def k_def create_session_def Let_def)
  moreover have "ready ?ni" "findSession k ?ni = None" using assms by (simp_all add: findSession_def)
  ultimately show ?thesis
    using report_session_new [OF _ create_session_ok [of k "ni_remoteEndpoint ni" now], of ?ni] by simp
qed

lemma handleConnectPacket_taken:
  assumes "ready ni" "findSession (ni_next_id ni) ni = Some t"
  defines "k \<equiv> ni_next_id ni"
  shows "handleConnectPacket now ni = Inr (ni\<lparr>ni_next_id := k + 1,
      ni_sent := ni_sent ni @ [(ack_bytes k, ni_remoteEndpoint ni), (disconnect_bytes k, ni_remoteEndpoint ni)],
      ni_events := ni_events ni @ [(k, NetConnect, None)]\<rparr>)"
proof -
  obtain b where b: "make_connect_ack_packet k = Inr b" "holds (ack_bytes k) b"
    using make_packets(2) [of k] by (auto simp: fills_def)
  let ?ni = "ni\<lparr>ni_next_id := k + 1, ni_sent := ni_sent ni @ [(ack_bytes k, ni_remoteEndpoint ni)]\<rparr>"
  have "ni_open ni" using assms(1) by (simp add: ready_def)
  then have "handleConnectPacket now ni = report_session (create_session k (ni_remoteEndpoint ni) now) ?ni"
    using b by (simp add: handleConnectPacket_def bufferE_def send_to_def holds_def k_def create_session_def Let_def)
  moreover have "ready ?ni" "findSession k ?ni = Some t" using assms by (simp_all add: findSession_def)
  ultimately show ?thesis
    using report_session_twice [OF _ create_session_ok [of k "ni_remoteEndpoint ni" now], of ?ni t]
    by (simp add: create_session_def)
qed

text \<open>Reading the id of a control packet from the buffer.\<close>

lemma read_id:
  assumes "holds dg (ni_buffer ni)" "ready ni"
  obtains e where "length (after_string dg) < 4" "get_sessionid_from_connect_ack_packet (ni_buffer ni) = Inl e"
  | b where "4 \<le> length (after_string dg)" "bb_size b = UDP_BUFFER_SIZE" "ready (ni\<lparr>ni_buffer := b\<rparr>)"
      "get_sessionid_from_connect_ack_packet (ni_buffer ni) = Inr (le_word (take 4 (after_string dg)), b)"
proof -
  obtain e b where g: "get_sessionid_from_connect_ack_packet (ni_buffer ni) =
      (if length (after_string dg) < 4 then Inl e else Inr (le_word (take 4 (after_string dg)), b))" "m_data b = m_data (ni_buffer ni)"
    using get_sessionid [OF assms(1)] by blast
  then have "bb_size b = UDP_BUFFER_SIZE" using assms(2) by (simp add: ready_def net_ok_def bb_size_def)
  then show thesis using that g(1) ready_buffer [OF assms(2)] by (cases "length (after_string dg) < 4") auto
qed

section \<open>Messages\<close>

lemma session_input_cases:
  assumes "ready ni" "ses_ok k s" "holds dg b" "bb_size b = UDP_BUFFER_SIZE" "length dg < UDP_BUFFER_SIZE"
  shows "\<exists>n bytes kcp. ikcp_recv (int UDP_BUFFER_SIZE) (snd (ikcp_input host dg (s_kcp s))) = Inr (n, bytes, kcp) \<and>
    (if n = int UDP_BUFFER_SIZE then session_input host now b ep s ni = Inl AssertionFailed
     else \<exists>s' b'. session_input host now b ep s ni =
         Inr (s', b', if n \<le> 0 then ni else ni\<lparr>ni_events := ni_events ni @ [(k, NetRcvMsg, Some bytes)]\<rparr>) \<and>
       ses_ok k s' \<and> s_remoteEndpoint s' = ep \<and> s_lastRecvTime s' = now \<and> rcv_view (s_kcp s') = rcv_view kcp \<and>
       bb_size b' = UDP_BUFFER_SIZE)"
proof -
  define k1 where "k1 = snd (ikcp_input host dg (s_kcp s))"
  define s1 where "s1 = s\<lparr>s_lastRecvTime := now, s_remoteEndpoint := ep, s_kcp := k1\<rparr>"
  define b1 where "b1 = set_wpos 0 b"
  have ses: "s_id s = k" "kc_conv (s_kcp s) = k" "rcv_bounded (s_kcp s)" using assms(2) by (simp_all add: ses_ok_def)
  obtain xs where xs: "sender xs k1" using assms(2) sender_input unfolding ses_ok_def k1_def by blast
  have k1: "rcv_bounded k1" "kc_conv k1 = k"
    using assms(5) ses ikcp_input_bounded [OF ses(3), of dg host] by (simp_all add: k1_def ikcp_input_conv UDP_BUFFER_SIZE_def)
  have cast: "int_cast UDP_BUFFER_SIZE = int UDP_BUFFER_SIZE" by (rule int_cast_small) (simp add: UDP_BUFFER_SIZE_def)
  obtain n bytes kcp where r: "ikcp_recv (int UDP_BUFFER_SIZE) k1 = Inr (n, bytes, kcp)" "rcv_bounded kcp"
    "n < 0 \<and> bytes = [] \<or> n = int (length bytes) \<and> n \<le> int UDP_BUFFER_SIZE"
    using ikcp_recv_bounded [OF k1(1), of "int UDP_BUFFER_SIZE"] by auto
  define b2 where "b2 = b1\<lparr>m_data := overwrite (m_data b1) 0 bytes\<rparr>"
  have len: "length bytes \<le> UDP_BUFFER_SIZE" using r(3) by auto
  have size: "bb_size b1 = UDP_BUFFER_SIZE" using assms(4) by (simp add: b1_def set_wpos_def bb_size_def)
  then have size2: "bb_size b2 = UDP_BUFFER_SIZE" "take (length bytes) (m_data b2) = bytes" "m_rpos b2 = 0"
    using len overwrite_simps(1,3) [of 0 bytes "m_data b1"] assms(3) by (simp_all add: b2_def bb_size_def b1_def set_wpos_def holds_def)
  have ok: "ses_ok k (s1\<lparr>s_kcp := kcp\<rparr>)"
    using r(2) ses k1(2) recv_views [OF r(1)] xs sender_view [OF recv_views(1,2) [OF r(1)], of xs] by (auto simp: ses_ok_def s1_def)
  have eq: "session_input host now b ep s ni =
      (if n \<le> 0 then Inr (s1\<lparr>s_kcp := kcp\<rparr>, b2, ni)
       else if \<not> n < int UDP_BUFFER_SIZE then Inl AssertionFailed
       else bindE (callEventCallbackFunc (s1\<lparr>s_kcp := kcp\<rparr>) NetRcvMsg (Some (set_wpos n b2)) ni) (\<lambda>(s, b, ni).
         Inr (s, (case b of None \<Rightarrow> set_wpos n b2 | Some b \<Rightarrow> b), ni)))"
    using r(1) len holds_wf(3) [OF assms(3)] assms(3) size size2(1)
    by (simp add: session_input_def holds_def b1_def [symmetric] k1_def [symmetric] s1_def [symmetric] kcpE_def cast b2_def [symmetric] Let_def)
  consider "n = int UDP_BUFFER_SIZE" | "n \<le> 0" | "0 < n" "n < int UDP_BUFFER_SIZE" using r(3) by linarith
  then show ?thesis
  proof cases
    case 1
    then show ?thesis using r(1) eq by (auto simp: k1_def UDP_BUFFER_SIZE_def)
  next
    case 2
    then show ?thesis using r(1) eq ok size2(1) by (auto simp: k1_def s1_def UDP_BUFFER_SIZE_def)
  next
    case 3
    define b3 where "b3 = set_wpos n b2"
    have n: "n = int (length bytes)" using 3 r(3) by auto
    then have b3: "holds bytes b3" "bb_size b3 = UDP_BUFFER_SIZE" using size2 len by (simp_all add: b3_def holds_def set_wpos_def bb_size_def)
    have cb: "ni_event_callback ni = Some cb" using assms(1) by (simp add: ready_def)
    obtain s' b' where c: "callEventCallbackFunc (s1\<lparr>s_kcp := kcp\<rparr>) NetRcvMsg (Some b3) ni =
        Inr (s', b', ni\<lparr>ni_events := ni_events ni @ [(k, NetRcvMsg, map_option unread (Some b3))]\<rparr>)"
      "keeps (s1\<lparr>s_kcp := kcp\<rparr>) s'" "ses_ok k s'" "\<forall>d. b' = Some d \<longrightarrow> bb_size d = UDP_BUFFER_SIZE"
      using call [OF cb ok, of NetRcvMsg "Some b3"] holds_wf(1) [OF b3(1)] b3(2) by (auto simp: good_arg_def)
    have "session_input host now b ep s ni = Inr (s', (case b' of None \<Rightarrow> b3 | Some b \<Rightarrow> b),
        ni\<lparr>ni_events := ni_events ni @ [(k, NetRcvMsg, Some bytes)]\<rparr>)"
      using eq 3 c(1) holds_wf(2) [OF b3(1)] unfolding b3_def by simp
    moreover have "bb_size (case b' of None \<Rightarrow> b3 | Some b \<Rightarrow> b) = UDP_BUFFER_SIZE" using c(4) b3(2) by (auto split: option.splits)
    ultimately show ?thesis using r(1) 3 c(2,3) by (auto simp: k1_def keeps_def s1_def)
  qed
qed

section \<open>Every datagram\<close>

text \<open>A handler returns with the invariant and leaves the flags of the interface alone, or it fails exactly under a condition.\<close>

definition handles_unless :: "bool \<Rightarrow> 'ep NetworkInterface \<Rightarrow> 'ep NetworkInterface net_result \<Rightarrow> bool" where
  "handles_unless failing ni r \<longleftrightarrow> (case r of
     Inl e \<Rightarrow> failing
   | Inr ni' \<Rightarrow> \<not> failing \<and> ready ni' \<and> ni_stopped ni' = ni_stopped ni \<and> ni_timing ni' = ni_timing ni)"

lemma connect_handles: "ready ni \<Longrightarrow> handles_unless False ni (handleConnectPacket now ni)"
proof (cases "findSession (ni_next_id ni) ni")
  case None
  assume r: "ready ni"
  obtain s where s: "handleConnectPacket now ni = Inr (ni\<lparr>ni_next_id := ni_next_id ni + 1, ni_sent := ni_sent ni @ [(ack_bytes (ni_next_id ni), ni_remoteEndpoint ni)],
      ni_sessions := sm_insert (ni_next_id ni) s (ni_sessions ni), ni_events := ni_events ni @ [(ni_next_id ni, NetConnect, None)]\<rparr>)"
    "ses_ok (ni_next_id ni) s" using handleConnectPacket_new [OF r None, of now] by blast
  have "ready (ni\<lparr>ni_next_id := i, ni_sent := out, ni_sessions := sm_insert (ni_next_id ni) s (ni_sessions ni)\<rparr>)" for i out
    using ready_insert [of "ni\<lparr>ni_next_id := i, ni_sent := out\<rparr>"] r s(2) by simp
  then show ?thesis by (simp add: s(1) handles_unless_def)
next
  case (Some t)
  assume "ready ni"
  then show ?thesis using handleConnectPacket_taken [OF _ Some, of now] by (simp add: handles_unless_def)
qed

lemma report_handles:
  assumes "ready ni" "ses_ok k s"
  shows "handles_unless False ni (report_session s ni)"
proof (cases "findSession k ni")
  case None
  obtain s' where s: "report_session s ni = Inr (ni\<lparr>ni_sessions := sm_insert k s' (ni_sessions ni),
      ni_events := ni_events ni @ [(k, NetConnect, None)]\<rparr>)" "ses_ok k s'"
    using report_session_new [OF assms None] by blast
  then show ?thesis using ready_insert [OF assms(1) s(2)] by (simp add: handles_unless_def)
next
  case (Some t)
  then show ?thesis using report_session_twice [OF assms] assms(1) by (simp add: handles_unless_def)
qed

lemma drop_handles: "ready ni \<Longrightarrow> ses_ok k s \<Longrightarrow> handles_unless False ni (drop_session k s ni)"
  using ready_erase [of ni k] by (simp add: drop_session_eq handles_unless_def)

lemma handles_unless_trans: "handles_unless False ni r \<Longrightarrow> ni_stopped ni = ni_stopped ni0 \<Longrightarrow> ni_timing ni = ni_timing ni0 \<Longrightarrow>
    handles_unless False ni0 r"
  by (auto simp: handles_unless_def split: sum.splits)

lemma ack_handles:
  assumes "ready ni" "holds dg (ni_buffer ni)"
  shows "handles_unless (length (after_string dg) < 4) ni (handleConnectAckPacket now ni)"
proof (cases rule: read_id [OF assms(2,1)])
  case (2 b)
  have "handles_unless False (ni\<lparr>ni_buffer := b\<rparr>) (report_session (create_session (le_word (take 4 (after_string dg))) (ni_remoteEndpoint ni) now) (ni\<lparr>ni_buffer := b\<rparr>))"
    by (rule report_handles [OF 2(3) create_session_ok])
  then show ?thesis
    using 2 by (auto intro: handles_unless_trans simp: handleConnectAckPacket_def bufferE_def)
qed (simp add: handleConnectAckPacket_def bufferE_def handles_unless_def)

lemma disconnect_handles:
  assumes "ready ni" "holds dg (ni_buffer ni)"
  shows "handles_unless (length (after_string dg) < 4) ni (handleDisconnectPacket ni)"
proof (cases rule: read_id [OF assms(2,1)])
  case (2 b)
  define k :: uint32 where "k = le_word (take 4 (after_string dg))"
  show ?thesis
  proof (cases "findSession k (ni\<lparr>ni_buffer := b\<rparr>)")
    case None
    then show ?thesis using 2 by (simp add: handleDisconnectPacket_def bufferE_def handles_unless_def k_def [symmetric] Let_def)
  next
    case (Some s)
    have "handles_unless False (ni\<lparr>ni_buffer := b\<rparr>) (drop_session k s (ni\<lparr>ni_buffer := b\<rparr>))"
      by (rule drop_handles [OF 2(3) ready_find [OF 2(3) Some]])
    then show ?thesis
      using 2 Some by (auto intro: handles_unless_trans simp: handleDisconnectPacket_def bufferE_def k_def [symmetric] Let_def)
  qed
qed (simp add: handleDisconnectPacket_def bufferE_def handles_unless_def)

lemma kcp_handles:
  assumes "ready ni" "holds dg (ni_buffer ni)" "length dg < UDP_BUFFER_SIZE"
  shows "handles_unless (\<exists>s bytes kcp. findSession (ikcp_getconv host (m_data (ni_buffer ni))) ni = Some s \<and> s_remoteEndpoint s = ni_remoteEndpoint ni \<and>
      ikcp_recv (int UDP_BUFFER_SIZE) (snd (ikcp_input host dg (s_kcp s))) = Inr (int UDP_BUFFER_SIZE, bytes, kcp)) ni
    (handlePacketKCP host now ni)"
proof -
  define k where "k = ikcp_getconv host (m_data (ni_buffer ni))"
  show ?thesis
  proof (cases "\<exists>s. findSession k ni = Some s \<and> s_remoteEndpoint s = ni_remoteEndpoint ni")
    case False
    then show ?thesis
      using assms(1) by (auto simp: handlePacketKCP_def k_def [symmetric] handles_unless_def Let_def split: option.splits)
  next
    case True
    then obtain s where s: "findSession k ni = Some s" "s_remoteEndpoint s = ni_remoteEndpoint ni" by blast
    have size: "bb_size (ni_buffer ni) = UDP_BUFFER_SIZE" using assms(1) by (simp add: ready_def net_ok_def)
    define r where "r = session_input host now (ni_buffer ni) (ni_remoteEndpoint ni) s ni"
    have h: "handlePacketKCP host now ni = bindE r (\<lambda>(session, buffer, ni). Inr (store_session k session (ni\<lparr>ni_buffer := buffer\<rparr>)))"
      using s by (simp add: handlePacketKCP_def k_def [symmetric] r_def Let_def)
    obtain n bytes kcp where c: "ikcp_recv (int UDP_BUFFER_SIZE) (snd (ikcp_input host dg (s_kcp s))) = Inr (n, bytes, kcp)"
      "if n = int UDP_BUFFER_SIZE then r = Inl AssertionFailed
       else \<exists>s' b'. r = Inr (s', b', if n \<le> 0 then ni else ni\<lparr>ni_events := ni_events ni @ [(k, NetRcvMsg, Some bytes)]\<rparr>) \<and>
         ses_ok k s' \<and> s_remoteEndpoint s' = ni_remoteEndpoint ni \<and> s_lastRecvTime s' = now \<and> rcv_view (s_kcp s') = rcv_view kcp \<and>
         bb_size b' = UDP_BUFFER_SIZE"
      using session_input_cases [OF assms(1) ready_find [OF assms(1) s(1)] assms(2) size assms(3), of host now "ni_remoteEndpoint ni"]
      unfolding r_def [symmetric] by (elim exE conjE) (rule that)
    show ?thesis
    proof (cases "n = int UDP_BUFFER_SIZE")
      case True
      then show ?thesis using c s h by (auto simp: handles_unless_def k_def [symmetric])
    next
      case False
      define ni1 where "ni1 = (if n \<le> 0 then ni else ni\<lparr>ni_events := ni_events ni @ [(k, NetRcvMsg, Some bytes)]\<rparr>)"
      obtain s' b' where s': "r = Inr (s', b', ni1)" "ses_ok k s'" "bb_size b' = UDP_BUFFER_SIZE"
        using c(2) False unfolding ni1_def by (simp only: if_False) blast
      have "ready (ni1\<lparr>ni_buffer := b'\<rparr>)" using assms(1) s'(3) by (intro ready_buffer) (simp_all add: ni1_def)
      moreover have "ni_stopped ni1 = ni_stopped ni" "ni_timing ni1 = ni_timing ni" by (simp_all add: ni1_def)
      ultimately show ?thesis
        using ready_insert [of "ni1\<lparr>ni_buffer := b'\<rparr>" k s'] h s' False c(1) s(1)
        by (auto simp: handles_unless_def store_session_def k_def [symmetric])
    qed
  qed
qed

lemma receive_handles:
  assumes "ready ni"
  shows "case receive host now dg ep ni of Inl e \<Rightarrow> fatal host dg ep ni | Inr ni' \<Rightarrow> \<not> fatal host dg ep ni \<and> ready ni' \<and> goes_on ni ni'"
proof -
  have size: "bb_size (ni_buffer ni) = UDP_BUFFER_SIZE" using assms by (simp add: ready_def net_ok_def)
  consider "dg = []" | "UDP_BUFFER_SIZE \<le> length dg" | "dg \<noteq> []" "length dg < UDP_BUFFER_SIZE" by linarith
  then show ?thesis
  proof cases
    case 1
    have "overwrite d 0 [] = d" for d :: "uint8 list" by (simp add: overwrite_def)
    moreover have "kind_of [] = Other" by (simp add: kind_of_def)
    ultimately show ?thesis
      using assms 1 by (simp add: receive_def handleReceiveFrom_def hookAsyncReceive_def fatal_def goes_on_def UDP_BUFFER_SIZE_def Let_def)
  next
    case 2
    then show ?thesis using receive_long [OF size 2] by (simp add: fatal_def)
  next
    case 3
    let ?ni = "arrived dg ep ni"
    have r: "ready ?ni" using ready_arrived [OF assms 3(2)] .
    have h: "holds dg (ni_buffer ?ni)" using 3(2) size by (intro arrived_buffer) simp
    have "handles_unless (fatal host dg ep ni) ?ni (handle_kind (kind_of dg) host now ?ni)"
      using 3 connect_handles [OF r, of now] ack_handles [OF r h, of now] disconnect_handles [OF r h] kcp_handles [OF r h 3(2), of host now]
      by (cases "kind_of dg") (simp_all add: handle_kind_def fatal_def)
    then show ?thesis
      unfolding receive_eq [OF size 3]
      by (cases "handle_kind (kind_of dg) host now ?ni") (auto simp: handles_unless_def goes_on_def hookAsyncReceive_def)
  qed
qed

section \<open>The timer\<close>

lemma output_all_open: "ni_open ni \<Longrightarrow> output_all out s ni = Inr (ni\<lparr>ni_sent := ni_sent ni @ map (\<lambda>p. (p, s_remoteEndpoint s)) out\<rparr>)"
  by (induction out arbitrary: ni) (simp_all add: send_to_def)

lemma session_update_ok:
  assumes "ready ni" "ses_ok k s"
  shows "\<exists>s' out. session_update host t now s ni = Inr (\<not> isTimeout 0 now s, s', ni\<lparr>ni_sent := ni_sent ni @ out,
      ni_events := ni_events ni @ (if isTimeout 0 now s then [(k, NetDisconnect, None)] else [])\<rparr>) \<and> ses_ok k s' \<and> keeps s s'"
proof -
  obtain xs where xs: "sender xs (s_kcp s)" using assms(2) by (auto simp: ses_ok_def)
  obtain out kcp where u: "ikcp_update host (ucast (t AND 0xffffffff)) (s_kcp s) = Inr (out, kcp)" "sender xs kcp"
    "rcv_view kcp = rcv_view (s_kcp s)"
    using sender_update [OF xs, of host "ucast (t AND 0xffffffff)"] by blast
  let ?s = "s\<lparr>s_kcp := kcp\<rparr>" and ?out = "map (\<lambda>p. (p, s_remoteEndpoint s)) out"
  let ?ni = "ni\<lparr>ni_sent := ni_sent ni @ ?out\<rparr>"
  have ok: "ses_ok k ?s" "keeps s ?s"
    using assms(2) u(2,3) rcv_bounded_view [OF u(3)] rcv_view_conv [OF u(3)] by (auto simp: ses_ok_def keeps_def)
  have open_: "ni_open ni" using assms(1) by (simp add: ready_def)
  have t: "isTimeout 0 now ?s = isTimeout 0 now s" by (simp add: isTimeout_def)
  show ?thesis
  proof (cases "isTimeout 0 now s")
    case False
    then show ?thesis
      using u(1) ok t open_ by (intro exI [of _ ?s] exI [of _ ?out]) (simp add: session_update_def kcpE_def output_all_open Let_def)
  next
    case True
    have cb: "ni_event_callback ?ni = Some cb" using assms(1) by (simp add: ready_def)
    obtain s' b' where c: "callEventCallbackFunc ?s NetDisconnect None ?ni =
        Inr (s', b', ?ni\<lparr>ni_events := ni_events ni @ [(k, NetDisconnect, None)]\<rparr>)" "keeps ?s s'" "ses_ok k s'"
      using call [OF cb ok(1), of NetDisconnect None] by (auto simp: good_arg_def)
    then have "keeps s s'" using ok(2) by (simp add: keeps_def)
    then show ?thesis
      using u(1) c t True open_
      by (intro exI [of _ s'] exI [of _ ?out]) (simp add: session_update_def kcpE_def output_all_open handTimeout_def Let_def)
  qed
qed

definition timer_result :: "(uint32 \<Rightarrow> uint64) \<Rightarrow> (uint32 \<times> 'ep Session) list \<Rightarrow> 'ep NetworkInterface \<Rightarrow> 'ep NetworkInterface \<Rightarrow> bool" where
  "timer_result now ss ni ni' \<longleftrightarrow>
     ready ni' \<and> ni_stopped ni' = ni_stopped ni \<and> ni_receiving ni' = ni_receiving ni \<and> ni_timing ni' = ni_timing ni \<and>
     ni_events ni' = ni_events ni @ map (\<lambda>(k, s). (k, NetDisconnect, None)) (filter (\<lambda>(k, s). isTimeout 0 (now k) s) ss) \<and>
     (\<forall>k. case map_of ss k of None \<Rightarrow> findSession k ni' = findSession k ni
        | Some s \<Rightarrow> if isTimeout 0 (now k) s then findSession k ni' = None else \<exists>s'. findSession k ni' = Some s' \<and> keeps s s')"

lemma timer_step:
  assumes "ready ni" "ses_ok k s"
  shows "\<exists>ni'. bindE (session_update host t (now k) s ni) (\<lambda>(alive, s, ni).
      if alive then Inr (store_session k s ni) else destroy_session s (removeSession k ni)) = Inr ni' \<and> timer_result now [(k, s)] ni ni'"
proof -
  let ?to = "isTimeout 0 (now k) s"
  obtain s' out where u: "session_update host t (now k) s ni = Inr (\<not> ?to, s', ni\<lparr>ni_sent := ni_sent ni @ out,
      ni_events := ni_events ni @ (if ?to then [(k, NetDisconnect, None)] else [])\<rparr>)" "ses_ok k s'" "keeps s s'"
    using session_update_ok [OF assms, of host t "now k"] by blast
  have r: "ready ni" "ni_open ni" "sm_sorted (ni_sessions ni)" using assms(1) by (simp_all add: ready_def net_ok_def sm.all_entries_def)
  show ?thesis
  proof (cases ?to)
    case True
    then show ?thesis
      using u(1) r ready_erase [OF r(1), of k]
      by (simp add: removeSession_def destroy_session_open timer_result_def findSession_def sm.lookup_erase ready_def net_ok_def)
  next
    case False
    then show ?thesis
      using u(1,3) r ready_insert [OF r(1) u(2)]
      by (simp add: store_session_def timer_result_def findSession_def sm.lookup_insert ready_def net_ok_def)
  qed
qed

lemma timer_result_trans:
  assumes "timer_result now [(k, s)] ni ni1" "timer_result now ss ni1 ni'" "k \<notin> fst ` set ss"
  shows "timer_result now ((k, s) # ss) ni ni'"
proof -
  have "map_of ss k = None" using assms(3) by (simp add: map_of_eq_None_iff)
  then have "case map_of ((k, s) # ss) j of None \<Rightarrow> findSession j ni' = findSession j ni
        | Some s \<Rightarrow> if isTimeout 0 (now j) s then findSession j ni' = None else \<exists>s'. findSession j ni' = Some s' \<and> keeps s s'" for j
    using assms(1,2) unfolding timer_result_def by (cases "j = k") (auto split: option.splits dest!: spec [of _ j])
  then show ?thesis using assms(1,2) by (auto simp: timer_result_def)
qed

lemma update_sessions_ok:
  "ready ni \<Longrightarrow> \<forall>(k, s) \<in> set ss. ses_ok k s \<Longrightarrow> distinct (map fst ss) \<Longrightarrow>
    \<exists>ni'. update_sessions host t now ss ni = Inr ni' \<and> timer_result now ss ni ni'"
proof (induction ss arbitrary: ni)
  case Nil
  then show ?case by (simp add: timer_result_def)
next
  case (Cons ks ss)
  obtain k s where ks: "ks = (k, s)" by fastforce
  then have s: "ses_ok k s" using Cons.prems(2) by simp
  obtain ni1 where ni1: "bindE (session_update host t (now k) s ni) (\<lambda>(alive, s, ni).
      if alive then Inr (store_session k s ni) else destroy_session s (removeSession k ni)) = Inr ni1"
    "timer_result now [(k, s)] ni ni1" using timer_step [OF Cons.prems(1) s, of host t now] by blast
  then have "ready ni1" by (simp add: timer_result_def)
  then obtain ni' where ni': "update_sessions host t now ss ni1 = Inr ni'" "timer_result now ss ni1 ni'"
    using Cons.IH [of ni1] Cons.prems by auto
  have "update_sessions host t now (ks # ss) ni = bindE (bindE (session_update host t (now k) s ni) (\<lambda>(alive, s, ni).
      if alive then Inr (store_session k s ni) else destroy_session s (removeSession k ni))) (update_sessions host t now ss)"
    by (simp add: ks bindE_def split: sum.splits prod.splits)
  then show ?case using ni1 ni' timer_result_trans [OF ni1(2) ni'(2)] Cons.prems(3) by (auto simp: ks)
qed

lemma handleUpdateTimer_ok:
  assumes "ready ni"
  shows "\<exists>ni'. handleUpdateTimer host t now ni = Inr ni' \<and>
    timer_result now (ni_sessions ni) (ni\<lparr>ni_timing := \<not> ni_stopped ni\<rparr>) ni'"
proof -
  have hook: "hookUpdateTimer (ni\<lparr>ni_timing := False\<rparr>) = ni\<lparr>ni_timing := \<not> ni_stopped ni\<rparr>" by (simp add: hookUpdateTimer_def)
  have "sm.all_entries ses_ok (ni_sessions ni)" using assms by (simp add: ready_def net_ok_def)
  then have "\<forall>(k, s) \<in> set (ni_sessions ni). ses_ok k s" "distinct (map fst (ni_sessions ni))"
    by (auto simp: all_entries_list sm_sorted_def strict_sorted_iff)
  then show ?thesis
    using update_sessions_ok [of "ni\<lparr>ni_timing := \<not> ni_stopped ni\<rparr>" "ni_sessions ni" host t now] assms
    by (simp add: handleUpdateTimer_def hook)
qed

end

section \<open>The callbacks of the applications fulfil the contract\<close>

lemma hello_packet: "fills (str_bytes ''hello'' @ [0]) (put_string ''hello'' new_buffer)"
  by (intro appends_fills str.put_appends) (simp_all add: str_ok_def MAX_SIZE_def)

interpretation app: event_handler app_netEventCallback
  by unfold_locales (auto simp: app_netEventCallback_def good_arg_def split: option.splits)

interpretation hello: event_handler netEventCallback
proof
  fix k :: uint32 and s :: "'a Session" and ev b
  assume s: "ses_ok k s" and b: "good_arg ev b"
  obtain packet where p: "put_string ''hello'' new_buffer = Inr packet" "holds (str_bytes ''hello'' @ [0]) packet"
    using hello_packet by (auto simp: fills_def)
  obtain s' where s': "sendPacketKCP packet s = Inr s'" "keeps s s'" "ses_ok k s'"
    using sendPacketKCP_ok [OF s, of packet] holds_wf [OF p(2)] p(2) by (auto simp: holds_def)
  define r where "r = (if ev = NetRcvMsg
    then (case b of None \<Rightarrow> Inl NullPointer | Some b \<Rightarrow> bindE (bufferE (get_string b)) (\<lambda>(msg, b). Inr (Some b))) else Inr b)"
  have r: "\<exists>b'. r = Inr b' \<and> (\<forall>d. b' = Some d \<longrightarrow> bb_size d = UDP_BUFFER_SIZE)"
  proof (cases b)
    case (Some d)
    have wf: "bb_wf d" "bb_size d = UDP_BUFFER_SIZE" using b Some by (simp_all add: good_arg_def)
    obtain v d' where "get_string d = Inr (v, d')" "m_data d' = m_data d"
      using get_string_loop_after [OF wf(1), of "[]"] by (auto simp: get_string_def)
    then show ?thesis using Some wf(2) by (simp add: r_def bufferE_def bb_size_def)
  qed (use b in \<open>simp add: r_def good_arg_def\<close>)
  then show "\<exists>s' b'. netEventCallback s ev b = Inr (s', b') \<and> keeps s s' \<and> ses_ok k s' \<and> (\<forall>d. b' = Some d \<longrightarrow> bb_size d = UDP_BUFFER_SIZE)"
    using p(1) s' unfolding netEventCallback_def r_def [symmetric] by (auto simp: bufferE_def)
qed

section \<open>Start and stop\<close>

lemma initNetworkInterfaces_eq:
  "\<exists>ni. initNetworkInterfaces cb ep = Inr (True, ni) \<and> net_ok ni \<and> ni_event_callback ni = Some cb \<and> ni_open ni \<and>
    \<not> ni_stopped ni \<and> ni_receiving ni \<and> ni_timing ni \<and> ni_sessions ni = [] \<and> ni_next_id ni = 1 \<and> ni_sent ni = [] \<and> ni_events ni = []"
proof -
  have "sm.all_entries ses_ok []" by (simp add: sm.all_entries_def sm_sorted_def)
  then show ?thesis
    by (simp add: initNetworkInterfaces_def new_NetworkInterface_def data_resize_def bufferE_def UDP_BUFFER_SIZE_def ni_initialize_def
        setEventCallback_def hookAsyncReceive_def hookUpdateTimer_def net_ok_def bb_size_def Let_def)
qed

lemma stopAll_eq:
  "stopAll ni = (if ni_sessions ni = [] then Inr (ni\<lparr>ni_stopped := True, ni_open := False, ni_sessions := []\<rparr>) else Inl Terminated)"
  by (cases "ni_sessions ni") (simp_all add: stopAll_def destroy_session_closed Let_def)

end
