(* ===== verification/NetworkDelivery.thy ===== *)
theory NetworkDelivery
  imports NetworkSafety
begin

text \<open>
  The network layer as a whole: reachable states of the interface, the connection of two interfaces and the
  delivery of a message from a session of one to the application of the other, through the KCP control
  blocks of both. The properties are stated for the callback of the applications.
\<close>

section \<open>KCP packets at the interface\<close>

lemma packet_header:
  assumes "packet_of host' xs conv p" "p \<noteq> []" "\<forall>f \<in> set xs. unat (fst f) < 256"
  shows "ikcp_getconv host (p @ rest) = conv" "kind_of p = Other"
proof -
  obtain segs where segs: "\<forall>s \<in> set segs. wire_seg xs conv s" "p = concat (map (segment_bytes host') segs)"
    using assms(1) by (auto simp: packet_of_def)
  then obtain s segs' where s: "segs = s # segs'" using assms(2) by (cases segs) auto
  then have w: "wire_seg xs conv s" using segs(1) by simp
  define r where "r = sg_data s @ concat (map (segment_bytes host') segs')"
  have p: "p = ikcp_encode_seg host' s @ r" using segs(2) w by (simp add: s r_def segment_bytes_def wire_seg_def seg_ok_def)
  have conv: "sg_conv s = conv" using w by (simp add: wire_seg_def)
  obtain q where q: "p = le_bytes conv @ (ucast (sg_cmd s) :: uint8) # q"
    by (simp add: p ikcp_encode_seg_def encode32u_le ikcp_encode8u_def conv)
  then show "ikcp_getconv host (p @ rest) = conv" by (simp add: ikcp_getconv_def)
  have "p ! 4 = ucast (sg_cmd s)" using nth_append_length [of "le_bytes conv" "ucast (sg_cmd s)" q] by (simp add: q)
  then have "p ! 4 \<noteq> 108" using wire_small(3) [OF w assms(3)] by (auto simp: kcp_consts)
  then show "kind_of p = Other" by (intro kind_of_other) (simp_all add: p)
qed

section \<open>Delivery to the application\<close>

fun receive_all :: "endian \<Rightarrow> uint64 \<Rightarrow> uint8 list list \<Rightarrow> 'ep \<Rightarrow> 'ep NetworkInterface \<Rightarrow> 'ep NetworkInterface net_result" where
  "receive_all host now [] ep ni = Inr ni"
| "receive_all host now (p # ps) ep ni = bindE (receive host now p ep ni) (receive_all host now ps ep)"

context event_handler
begin

lemma session_packet:
  assumes "ready ni" "findSession k ni = Some s" "s_remoteEndpoint s = ep"
    and p: "packet_of host' xs k p" "p \<noteq> []" "\<forall>f \<in> set xs. unat (fst f) < 256" "length p < UDP_BUFFER_SIZE"
    and recv: "ikcp_recv (int UDP_BUFFER_SIZE) (snd (ikcp_input host p (s_kcp s))) = Inr (n, bytes, kcp)" "n \<noteq> int UDP_BUFFER_SIZE"
  shows "\<exists>ni' s'. receive host now p ep ni = Inr ni' \<and> ready ni' \<and> findSession k ni' = Some s' \<and> s_remoteEndpoint s' = ep \<and>
    rcv_view (s_kcp s') = rcv_view kcp \<and> ni_events ni' = ni_events ni @ (if n \<le> 0 then [] else [(k, NetRcvMsg, Some bytes)])"
proof -
  let ?ni = "arrived p ep ni"
  have size: "bb_size (ni_buffer ni) = UDP_BUFFER_SIZE" "sm_sorted (ni_sessions ni)"
    using assms(1) by (simp_all add: ready_def net_ok_def sm.all_entries_def)
  have r: "ready ?ni" and h: "holds p (ni_buffer ?ni)" and size': "bb_size (ni_buffer ?ni) = UDP_BUFFER_SIZE"
    using ready_arrived [OF assms(1) p(4)] arrived_buffer [of p ni ep] p(4) size by simp_all
  have "m_data (ni_buffer ?ni) = p @ drop (length p) (m_data (ni_buffer ni))" by (simp add: arrived_def overwrite_def)
  then have conv: "ikcp_getconv host (m_data (ni_buffer ?ni)) = k" using packet_header(1) [OF p(1-3)] by simp
  have kind: "kind_of p = Other" by (rule packet_header(2) [OF p(1-3)])
  define ni1 where "ni1 = (if n \<le> 0 then ?ni else ?ni\<lparr>ni_events := ni_events ?ni @ [(k, NetRcvMsg, Some bytes)]\<rparr>)"
  obtain s' b' where i: "session_input host now (ni_buffer ?ni) ep s ?ni = Inr (s', b', ni1)"
    "ses_ok k s'" "s_remoteEndpoint s' = ep" "rcv_view (s_kcp s') = rcv_view kcp" "bb_size b' = UDP_BUFFER_SIZE"
    using session_input_cases [OF r ready_find [OF assms(1,2)] h size' p(4), of host now ep] recv unfolding ni1_def by auto
  have ni1: "ready ni1" "ni_sessions ni1 = ni_sessions ni" "ni_events ni1 = ni_events ni @ (if n \<le> 0 then [] else [(k, NetRcvMsg, Some bytes)])"
    using r by (simp_all add: ni1_def)
  define ni2 where "ni2 = store_session k s' (ni1\<lparr>ni_buffer := b'\<rparr>)"
  have ni2: "ready ni2" "findSession k ni2 = Some s'" "ni_events ni2 = ni_events ni1"
    using ready_insert [OF ready_buffer [OF ni1(1) i(5)] i(2)] size(2) ni1(2)
    by (simp_all add: ni2_def store_session_def findSession_def sm.lookup_insert)
  have "handlePacketKCP host now ?ni = Inr ni2"
    using i(1) conv assms(2,3) by (simp add: handlePacketKCP_def ni2_def Let_def)
  then have "receive host now p ep ni = Inr (hookAsyncReceive ni2)"
    using receive_eq [OF size(1) p(2,4)] kind by (simp add: handle_kind_def)
  moreover have "ready (hookAsyncReceive ni2)" "findSession k (hookAsyncReceive ni2) = Some s'" "ni_events (hookAsyncReceive ni2) = ni_events ni1"
    using ni2 by (simp_all add: hookAsyncReceive_def findSession_def)
  ultimately show ?thesis using i ni1(3) by auto
qed

text \<open>The session has not read the message yet, and it has read it.\<close>

definition waiting ::
  "fragment list \<Rightarrow> uint32 \<Rightarrow> 'ep \<Rightarrow> nat \<Rightarrow> nat list \<Rightarrow> 'ep NetworkInterface \<Rightarrow> bool" where
  "waiting fs k ep N ks ni \<longleftrightarrow> ready ni \<and> N < length fs \<and> (\<exists>s. findSession k ni = Some s \<and> s_remoteEndpoint s = ep \<and>
     rcv_at fs 0 N ks (s_kcp s) \<and> settled (s_kcp s))"

definition delivered :: "fragment list \<Rightarrow> uint32 \<Rightarrow> 'ep \<Rightarrow> 'ep NetworkInterface \<Rightarrow> bool" where
  "delivered fs k ep ni \<longleftrightarrow> ready ni \<and> (\<exists>s ks. findSession k ni = Some s \<and> s_remoteEndpoint s = ep \<and>
     rcv_at fs (length fs) (length fs) ks (s_kcp s))"

definition good_message :: "endian \<Rightarrow> fragment list \<Rightarrow> uint32 \<Rightarrow> uint8 list list \<Rightarrow> bool" where
  "good_message host fs k ps \<longleftrightarrow> valid_frags fs \<and> (\<forall>f \<in> set fs. unat (fst f) < 256) \<and>
     0 < length (message fs) \<and> length (message fs) < UDP_BUFFER_SIZE \<and>
     (\<forall>p \<in> set ps. packet_of host fs k p \<and> p \<noteq> [] \<and> length p < UDP_BUFFER_SIZE)"

lemma waiting_step:
  assumes "waiting fs k ep N ks ni" "good_message host' fs k [p]"
  shows "\<exists>ni'. receive host now p ep ni = Inr ni' \<and>
    (ni_events ni' = ni_events ni \<and> (\<exists>N' ks'. waiting fs k ep N' ks' ni' \<and> N \<le> N' \<and>
       received N ks \<union> {j. j < N + 32 \<and> brings host' fs k {p} j} \<subseteq> received N' ks') \<or>
     ni_events ni' = ni_events ni @ [(k, NetRcvMsg, Some (message fs))] \<and> delivered fs k ep ni')"
proof -
  obtain s where s: "ready ni" "N < length fs" "findSession k ni = Some s" "s_remoteEndpoint s = ep" "rcv_at fs 0 N ks (s_kcp s)" "settled (s_kcp s)"
    using assms(1) by (auto simp: waiting_def)
  have g: "valid_frags fs" "\<forall>f \<in> set fs. unat (fst f) < 256" "0 < length (message fs)" "length (message fs) < UDP_BUFFER_SIZE"
    "packet_of host' fs k p" "p \<noteq> []" "length p < UDP_BUFFER_SIZE" using assms(2) by (simp_all add: good_message_def)
  have ok: "kc_conv (s_kcp s) = k" "kc_rcv_wnd (s_kcp s) = 32"
    using ready_find [OF s(1,3)] by (simp_all add: ses_ok_def rcv_bounded_def)
  define k1 where "k1 = snd (ikcp_input host p (s_kcp s))"
  have "length p < 2 ^ 31" using g(7) by (simp add: UDP_BUFFER_SIZE_def)
  then obtain N' ks' where n: "rcv_at fs 0 N' ks' k1" "N \<le> N'"
    "received N ks \<union> {j. j < N + 32 \<and> brings host' fs k {p} j} \<subseteq> received N' ks'"
    using input_brings [OF g(2) s(5), of host' p host] g(5) by (auto simp: k1_def ok)
  have settled: "settled k1" using ikcp_input_settled [OF s(6)] by (simp add: k1_def)
  note recv = recv_message [OF n(1), of fs "[]" "int UDP_BUFFER_SIZE"]
  show ?thesis
  proof (cases "N' < length fs")
    case True
    then obtain n0 where r: "ikcp_recv (int UDP_BUFFER_SIZE) k1 = Inr (n0, [], k1)" "n0 < 0" using recv g(1) by (cases "N' = 0") auto
    then obtain ni' s' where f: "receive host now p ep ni = Inr ni'" "ready ni'" "findSession k ni' = Some s'" "s_remoteEndpoint s' = ep"
      "rcv_view (s_kcp s') = rcv_view k1" "ni_events ni' = ni_events ni"
      using session_packet [OF s(1,3,4) g(5,6,2,7), of host n0 "[]" k1 now] by (auto simp: k1_def)
    then have "waiting fs k ep N' ks' ni'"
      using True n(1) settled rcv_at_view [OF f(5)] settled_view [OF f(5)] by (auto simp: waiting_def)
    then show ?thesis using f(1,6) n(2,3) by blast
  next
    case False
    then have N': "N' = length fs" "0 < N'" using n(1) s(2) by (auto simp: rcv_at_def)
    then obtain kcp N2 ks2 where r: "ikcp_recv (int UDP_BUFFER_SIZE) k1 = Inr (int (length (message fs)), message fs, kcp)"
      "rcv_at fs (length fs) N2 ks2 kcp" using recv g(1,4) by auto
    then obtain ni' s' where f: "receive host now p ep ni = Inr ni'" "ready ni'" "findSession k ni' = Some s'" "s_remoteEndpoint s' = ep"
      "rcv_view (s_kcp s') = rcv_view kcp" "ni_events ni' = ni_events ni @ [(k, NetRcvMsg, Some (message fs))]"
      using session_packet [OF s(1,3,4) g(5,6,2,7), of host "int (length (message fs))" "message fs" kcp now] g(3,4) by (auto simp: k1_def)
    have "N2 = length fs" using r(2) by (simp add: rcv_at_def)
    then have "delivered fs k ep ni'" using f r(2) rcv_at_view [OF f(5)] by (auto simp: delivered_def)
    then show ?thesis using f(1,6) by blast
  qed
qed

lemma delivered_step:
  assumes "delivered fs k ep ni" "good_message host' fs k [p]"
  shows "\<exists>ni'. receive host now p ep ni = Inr ni' \<and> ni_events ni' = ni_events ni \<and> delivered fs k ep ni'"
proof -
  obtain s ks where s: "ready ni" "findSession k ni = Some s" "s_remoteEndpoint s = ep" "rcv_at fs (length fs) (length fs) ks (s_kcp s)"
    using assms(1) by (auto simp: delivered_def)
  have g: "\<forall>f \<in> set fs. unat (fst f) < 256" "packet_of host' fs k p" "p \<noteq> []" "length p < UDP_BUFFER_SIZE"
    using assms(2) by (simp_all add: good_message_def)
  have conv: "kc_conv (s_kcp s) = k" using ready_find [OF s(1,2)] by (simp add: ses_ok_def)
  define k1 where "k1 = snd (ikcp_input host p (s_kcp s))"
  have "length p < 2 ^ 31" using g(4) by (simp add: UDP_BUFFER_SIZE_def)
  then obtain N' ks' where n: "rcv_at fs (length fs) N' ks' k1"
    using input_brings [OF g(1) s(4), of host' p host] g(2) by (auto simp: k1_def conv)
  then have n': "rcv_at fs (length fs) (length fs) ks' k1" "kc_rcv_queue k1 = []" by (auto simp: rcv_at_def)
  then have "ikcp_recv (int UDP_BUFFER_SIZE) k1 = Inr (-1, [], k1)" by (simp add: ikcp_recv_def)
  then obtain ni' s' where f: "receive host now p ep ni = Inr ni'" "ready ni'" "findSession k ni' = Some s'" "s_remoteEndpoint s' = ep"
    "rcv_view (s_kcp s') = rcv_view k1" "ni_events ni' = ni_events ni"
    using session_packet [OF s(1-3) g(2,3,1,4), of host "-1" "[]" k1 now] by (auto simp: k1_def)
  then show ?thesis using n'(1) rcv_at_view [OF f(5)] by (auto simp: delivered_def)
qed

lemma good_message_Cons: "good_message host fs k (p # ps) \<longleftrightarrow> good_message host fs k [p] \<and> good_message host fs k ps"
  by (auto simp: good_message_def)

lemma delivered_all:
  "delivered fs k ep ni \<Longrightarrow> good_message host' fs k ps \<Longrightarrow>
    \<exists>ni'. receive_all host now ps ep ni = Inr ni' \<and> ni_events ni' = ni_events ni \<and> delivered fs k ep ni'"
proof (induction ps arbitrary: ni)
  case (Cons p ps)
  then have g: "good_message host' fs k [p]" "good_message host' fs k ps" using good_message_Cons [of host' fs k p ps] by auto
  obtain ni1 where "receive host now p ep ni = Inr ni1" "ni_events ni1 = ni_events ni" "delivered fs k ep ni1"
    using delivered_step [OF Cons.prems(1) g(1), of host now] by blast
  then show ?case using Cons.IH [of ni1] g(2) by auto
qed simp

lemma waiting_all:
  "waiting fs k ep N ks ni \<Longrightarrow> good_message host' fs k ps \<Longrightarrow>
    \<exists>ni'. receive_all host now ps ep ni = Inr ni' \<and>
    ((\<exists>N' ks'. waiting fs k ep N' ks' ni' \<and> received N ks \<union> {j. j < N + 32 \<and> brings host' fs k (set ps) j} \<subseteq> received N' ks') \<or>
     ni_events ni' = ni_events ni @ [(k, NetRcvMsg, Some (message fs))] \<and> delivered fs k ep ni')"
proof (induction ps arbitrary: ni N ks)
  case Nil
  then show ?case by (auto simp: brings_def)
next
  case (Cons p ps)
  then have g: "good_message host' fs k [p]" "good_message host' fs k ps" using good_message_Cons [of host' fs k p ps] by auto
  obtain ni1 where r: "receive host now p ep ni = Inr ni1" and c:
    "ni_events ni1 = ni_events ni \<and> (\<exists>N' ks'. waiting fs k ep N' ks' ni1 \<and> N \<le> N' \<and>
       received N ks \<union> {j. j < N + 32 \<and> brings host' fs k {p} j} \<subseteq> received N' ks') \<or>
     ni_events ni1 = ni_events ni @ [(k, NetRcvMsg, Some (message fs))] \<and> delivered fs k ep ni1"
    using waiting_step [OF Cons.prems(1) g(1), of host now] by blast
  from c show ?case
  proof (elim disjE conjE exE)
    fix N1 ks1
    assume w: "waiting fs k ep N1 ks1 ni1" "N \<le> N1" "received N ks \<union> {j. j < N + 32 \<and> brings host' fs k {p} j} \<subseteq> received N1 ks1"
      and e: "ni_events ni1 = ni_events ni"
    have b: "brings host' fs k (set (p # ps)) j \<longleftrightarrow> brings host' fs k {p} j \<or> brings host' fs k (set ps) j" for j
      unfolding brings_def by auto
    have sub: "received N ks \<union> {j. j < N + 32 \<and> brings host' fs k (set (p # ps)) j} \<subseteq>
        received N1 ks1 \<union> {j. j < N1 + 32 \<and> brings host' fs k (set ps) j}"
      using w(2,3) unfolding b by auto
    obtain ni' where ni': "receive_all host now ps ep ni1 = Inr ni'"
      "(\<exists>N' ks'. waiting fs k ep N' ks' ni' \<and> received N1 ks1 \<union> {j. j < N1 + 32 \<and> brings host' fs k (set ps) j} \<subseteq> received N' ks') \<or>
       ni_events ni' = ni_events ni1 @ [(k, NetRcvMsg, Some (message fs))] \<and> delivered fs k ep ni'"
      using Cons.IH [OF w(1) g(2)] by blast
    have "receive_all host now (p # ps) ep ni = Inr ni'" using r ni'(1) by simp
    moreover note ni'(2) [unfolded e]
    ultimately show ?thesis using subset_trans [OF sub] by blast
  next
    assume "ni_events ni1 = ni_events ni @ [(k, NetRcvMsg, Some (message fs))]" "delivered fs k ep ni1"
    then show ?thesis using delivered_all [OF _ g(2), of ep ni1 host now] r by auto
  qed
qed

lemma message_event:
  assumes "ready ni" "findSession k ni = Some s" "s_remoteEndpoint s = ep" "rcv_view (s_kcp s) = rcv_view (init_kcp k)"
    "0 < length msg" "length msg < UDP_BUFFER_SIZE"
  shows "\<exists>a1 out a2 ni'. ikcp_send msg (int (length msg)) (init_kcp k) = Inr (0, a1) \<and> ikcp_update ha t a1 = Inr (out, a2) \<and>
    receive_all hb now out ep ni = Inr ni' \<and> ni_events ni' = ni_events ni @ [(k, NetRcvMsg, Some msg)]"
proof -
  define fs where "fs = frags 1376 msg"
  have msg: "length msg \<le> 32 * 1376" using assms(6) by (simp add: UDP_BUFFER_SIZE_def)
  obtain a1 out a2 where f: "ikcp_send msg (int (length msg)) (init_kcp k) = Inr (0, a1)" "ikcp_update ha t a1 = Inr (out, a2)"
    "valid_frags fs" "\<forall>f \<in> set fs. unat (fst f) < 256" "\<forall>p \<in> set out. packet_of ha fs k p \<and> p \<noteq> [] \<and> length p \<le> 1400"
    "\<forall>j < length fs. brings ha fs k (set out) j"
    using first_flush [OF msg, of k ha t] unfolding fs_def by blast
  have len: "length fs \<le> 32" "0 < length fs" "message fs = msg"
    using chunks_few [OF msg] f(3) by (simp_all add: fs_def frags_def [of _ msg] valid_frags_def) (simp add: frags_def [symmetric])
  have g: "good_message ha fs k out"
    using f(3-5) len(3) assms(5,6) by (auto simp: good_message_def UDP_BUFFER_SIZE_def dest: bspec intro: le_less_trans [of _ 1400])
  have "rcv_at fs 0 0 [] (init_kcp k)" using len(1) by (intro init_receiver(1)) simp
  then have "waiting fs k ep 0 [] ni"
    using assms(1-4) len(2) rcv_at_view [OF assms(4)] settled_view [OF assms(4)] init_receiver(2) by (auto simp: waiting_def)
  from waiting_all [OF this g, of hb now] obtain ni' where r: "receive_all hb now out ep ni = Inr ni'" and c:
    "(\<exists>N' ks'. waiting fs k ep N' ks' ni' \<and> received 0 [] \<union> {j. j < 0 + 32 \<and> brings ha fs k (set out) j} \<subseteq> received N' ks') \<or>
     ni_events ni' = ni_events ni @ [(k, NetRcvMsg, Some (message fs))] \<and> delivered fs k ep ni'" by blast
  from c show ?thesis
  proof (elim disjE conjE exE)
    fix N' ks'
    assume w: "waiting fs k ep N' ks' ni'" "received 0 [] \<union> {j. j < 0 + 32 \<and> brings ha fs k (set out) j} \<subseteq> received N' ks'"
    then obtain s' where s': "ready ni'" "findSession k ni' = Some s'" "rcv_at fs 0 N' ks' (s_kcp s')" "settled (s_kcp s')" "N' < length fs"
      by (auto simp: waiting_def)
    have "kc_rcv_wnd (s_kcp s') = 32" using ready_find [OF s'(1,2)] by (simp add: ses_ok_def rcv_bounded_def)
    moreover have "{..<length fs} \<subseteq> received N' ks'" using w(2) f(6) len(1) by auto
    ultimately have "length fs \<le> N'" using s'(3,4) len(1) by (intro settled_all [of fs 0 N' ks' "s_kcp s'"]) simp_all
    then show ?thesis using s'(5) by simp
  next
    assume "ni_events ni' = ni_events ni @ [(k, NetRcvMsg, Some (message fs))]"
    then show ?thesis using f(1,2) r len(3) by auto
  qed
qed

end

section \<open>Reachable interfaces\<close>

text \<open>
  The states of an interface that an application with the callback \<open>cb\<close> has started, between two handlers
  of the event loop.
\<close>

inductive net_reachable :: "endian \<Rightarrow> 'ep event_callback \<Rightarrow> 'ep NetworkInterface \<Rightarrow> bool" for host cb where
  started: "initNetworkInterfaces cb ep = Inr (True, ni) \<Longrightarrow> net_reachable host cb ni"
| datagram: "net_reachable host cb ni \<Longrightarrow> receive host now dg ep ni = Inr ni' \<Longrightarrow> net_reachable host cb ni'"
| timer: "net_reachable host cb ni \<Longrightarrow> handleUpdateTimer host t now ni = Inr ni' \<Longrightarrow> net_reachable host cb ni'"
| connecting: "net_reachable host cb ni \<Longrightarrow> connect ep ni = Inr ni' \<Longrightarrow> net_reachable host cb ni'"
| disconnecting: "net_reachable host cb ni \<Longrightarrow> disconnect k ni = Inr ni' \<Longrightarrow> net_reachable host cb ni'"

lemma connect_open:
  assumes "ni_open ni"
  shows "connect ep ni = Inr (ni\<lparr>ni_sent := ni_sent ni @ [(connect_bytes, ep)]\<rparr>)"
proof -
  obtain b where b: "makeConnectPacket = Inr b" "holds connect_bytes b" using make_packets(1) by (auto simp: fills_def)
  then have "take (bb_length b) (m_data b) = connect_bytes" using holds_wf(3) [OF b(2)] by (simp add: holds_def)
  then show ?thesis using assms unfolding connect_def b(1) by (simp add: bufferE_def sendPacket_def send_to_def)
qed

definition looping :: "'ep NetworkInterface \<Rightarrow> bool" where
  "looping ni \<longleftrightarrow> \<not> ni_stopped ni \<and> ni_receiving ni \<and> ni_timing ni"

context event_handler
begin

lemma disconnect_ok:
  assumes "ready ni"
  shows "\<exists>ni'. disconnect k ni = Inr ni' \<and> ready ni' \<and> findSession k ni' = None \<and> (looping ni \<longrightarrow> looping ni')"
proof (cases "findSession k ni")
  case None
  then show ?thesis using assms by (simp add: disconnect_def)
next
  case (Some s)
  have "sm_sorted (ni_sessions ni)" using assms by (simp add: ready_def net_ok_def sm.all_entries_def)
  then show ?thesis
    using drop_session_eq [OF assms ready_find [OF assms Some]] ready_erase [OF assms, of k] Some
    by (simp add: disconnect_def findSession_def sm.lookup_erase looping_def)
qed

lemma reachable_ready: "net_reachable host cb ni \<Longrightarrow> ready ni \<and> looping ni"
proof (induction rule: net_reachable.induct)
  case (started ep ni)
  then show ?case using initNetworkInterfaces_eq [of cb ep] by (auto simp: ready_def looping_def)
next
  case (datagram ni now dg ep ni')
  then show ?case using receive_handles [where ni = ni and host = host and now = now and dg = dg and ep = ep] by (auto simp: goes_on_def looping_def)
next
  case (timer ni t now ni')
  then show ?case using handleUpdateTimer_ok [where ni = ni and host = host and t = t and now = now] by (auto simp: timer_result_def looping_def)
next
  case (connecting ni ep ni')
  then have "ni_open ni" by (simp add: ready_def)
  from connect_open [OF this, of ep] show ?case using connecting by (auto simp: looping_def)
next
  case (disconnecting ni k ni')
  then show ?case using disconnect_ok [of ni k] by auto
qed

end

end
