(* ===== verification/NetworkBlocking.thy ===== *)
theory NetworkBlocking
  imports NetworkDelivery
begin

text \<open>
  Messages that are longer than the receive buffer with which a session reads. They arrive complete in the
  receive queue of the session, stay there, and keep every later message of the session from the
  application, whatever the event loop does, as long as the session lives.
\<close>

section \<open>The life of a session\<close>

text \<open>One step of the event loop, or of the application between two handlers.\<close>

inductive net_step :: "endian \<Rightarrow> 'ep NetworkInterface \<Rightarrow> 'ep NetworkInterface \<Rightarrow> bool" for host where
  by_datagram: "receive host now dg ep ni = Inr ni' \<Longrightarrow> net_step host ni ni'"
| by_timer: "handleUpdateTimer host t now ni = Inr ni' \<Longrightarrow> net_step host ni ni'"
| by_connect: "connect ep ni = Inr ni' \<Longrightarrow> net_step host ni ni'"
| by_disconnect: "disconnect j ni = Inr ni' \<Longrightarrow> net_step host ni ni'"

text \<open>
  The later states in which the session \<open>k\<close> is still in the table. No handler both removes a session and adds
  one with the same id, so that it is the same session throughout.
\<close>

inductive lives :: "endian \<Rightarrow> uint32 \<Rightarrow> 'ep NetworkInterface \<Rightarrow> 'ep NetworkInterface \<Rightarrow> bool" for host k ni where
  lives_now: "lives host k ni ni"
| lives_step: "lives host k ni ni1 \<Longrightarrow> net_step host ni1 ni2 \<Longrightarrow> findSession k ni2 \<noteq> None \<Longrightarrow> lives host k ni ni2"

text \<open>The events with which the application gets a message of the session.\<close>

definition messages :: "uint32 \<Rightarrow> (uint32 \<times> NetEventType \<times> uint8 list option) list \<Rightarrow>
    (uint32 \<times> NetEventType \<times> uint8 list option) list" where
  "messages k events = filter (\<lambda>(i, ev, d). i = k \<and> ev = NetRcvMsg) events"

lemma messages_append [simp]: "messages k (es @ es') = messages k es @ messages k es'"
  by (simp add: messages_def)

lemma messages_other: "ev \<noteq> NetRcvMsg \<or> i \<noteq> k \<Longrightarrow> messages k [(i, ev, d)] = []"
  by (auto simp: messages_def)

text \<open>A step that gives no message to the application and leaves the session blocked or removes it.\<close>

definition quiet :: "uint32 \<Rightarrow> 'ep NetworkInterface \<Rightarrow> 'ep NetworkInterface \<Rightarrow> bool" where
  "quiet k ni ni' \<longleftrightarrow> messages k (ni_events ni') = messages k (ni_events ni) \<and>
     (\<forall>s. findSession k ni' = Some s \<longrightarrow> blocked UDP_BUFFER_SIZE (s_kcp s))"

context event_handler
begin

definition stuck :: "uint32 \<Rightarrow> 'ep NetworkInterface \<Rightarrow> bool" where
  "stuck k ni \<longleftrightarrow> ready ni \<and> (\<exists>s. findSession k ni = Some s \<and> blocked UDP_BUFFER_SIZE (s_kcp s))"

lemma ready_table: "ready ni \<Longrightarrow> sm_sorted (ni_sessions ni)"
  by (simp add: ready_def net_ok_def sm.all_entries_def)

lemma quiet_report:
  assumes "stuck k ni" "ses_ok j s" "report_session s ni = Inr ni'"
  shows "quiet k ni ni'"
proof (cases "findSession j ni")
  case None
  then have "j \<noteq> k" using assms(1) by (auto simp: stuck_def)
  moreover obtain s' where "ni' = ni\<lparr>ni_sessions := sm_insert j s' (ni_sessions ni), ni_events := ni_events ni @ [(j, NetConnect, None)]\<rparr>"
    using report_session_new [OF _ assms(2) None] assms(1,3) by (auto simp: stuck_def)
  ultimately show ?thesis
    using assms(1) ready_table [of ni] by (auto simp: quiet_def stuck_def findSession_def sm.lookup_insert messages_other)
next
  case (Some t)
  then show ?thesis
    using report_session_twice [OF _ assms(2) Some] assms(1,3) by (auto simp: quiet_def stuck_def findSession_def messages_other)
qed

lemma quiet_drop:
  assumes "stuck k ni" "findSession j ni = Some s" "drop_session j s ni = Inr ni'"
  shows "quiet k ni ni'"
proof -
  have r: "ready ni" using assms(1) by (simp add: stuck_def)
  show ?thesis
    using drop_session_eq [OF r ready_find [OF r assms(2)]] assms(1,3) ready_table [OF r]
    by (auto simp: quiet_def stuck_def findSession_def sm.lookup_erase messages_other split: if_splits)
qed

lemma quiet_connect:
  assumes "stuck k ni" "handleConnectPacket now ni = Inr ni'"
  shows "quiet k ni ni'"
proof (cases "findSession (ni_next_id ni) ni")
  case None
  then have "ni_next_id ni \<noteq> k" using assms(1) by (auto simp: stuck_def)
  then show ?thesis
    using handleConnectPacket_new [OF _ None, of now] assms ready_table [of ni]
    by (auto simp: quiet_def stuck_def findSession_def sm.lookup_insert messages_other)
next
  case (Some t)
  then show ?thesis
    using handleConnectPacket_taken [OF _ Some, of now] assms by (auto simp: quiet_def stuck_def findSession_def messages_other)
qed

lemma stuck_buffer: "stuck k ni \<Longrightarrow> ready (ni\<lparr>ni_buffer := b\<rparr>) \<Longrightarrow> stuck k (ni\<lparr>ni_buffer := b\<rparr>)"
  by (simp add: stuck_def findSession_def)

lemma quiet_buffer: "quiet k (ni\<lparr>ni_buffer := b\<rparr>) ni' = quiet k ni ni'"
  by (simp add: quiet_def)

lemma quiet_ack:
  assumes "stuck k ni" "holds dg (ni_buffer ni)" "handleConnectAckPacket now ni = Inr ni'"
  shows "quiet k ni ni'"
proof -
  have r: "ready ni" using assms(1) by (simp add: stuck_def)
  show ?thesis
  proof (cases rule: read_id [OF assms(2) r])
    case (2 b)
    then show ?thesis
      using assms(3) quiet_report [OF stuck_buffer [OF assms(1) 2(3)] create_session_ok]
      by (auto simp: handleConnectAckPacket_def bufferE_def quiet_buffer)
  qed (use assms(3) in \<open>simp add: handleConnectAckPacket_def bufferE_def\<close>)
qed

lemma quiet_disconnect_packet:
  assumes "stuck k ni" "holds dg (ni_buffer ni)" "handleDisconnectPacket ni = Inr ni'"
  shows "quiet k ni ni'"
proof -
  have r: "ready ni" using assms(1) by (simp add: stuck_def)
  show ?thesis
  proof (cases rule: read_id [OF assms(2) r])
    case (2 b)
    note st = stuck_buffer [OF assms(1) 2(3)]
    have "quiet k (ni\<lparr>ni_buffer := b\<rparr>) (ni\<lparr>ni_buffer := b\<rparr>)" using st by (auto simp: quiet_def stuck_def)
    then show ?thesis
      using assms(3) 2(4) quiet_drop [OF st]
      by (auto simp: handleDisconnectPacket_def bufferE_def quiet_buffer Let_def split: option.splits)
  qed (use assms(3) in \<open>simp add: handleDisconnectPacket_def bufferE_def\<close>)
qed

lemma quiet_kcp:
  assumes "stuck k ni" "holds dg (ni_buffer ni)" "length dg < UDP_BUFFER_SIZE" "handlePacketKCP host now ni = Inr ni'"
  shows "quiet k ni ni'"
proof -
  define j where "j = ikcp_getconv host (m_data (ni_buffer ni))"
  have r: "ready ni" and refl: "quiet k ni ni" using assms(1) by (auto simp: stuck_def quiet_def)
  have size: "bb_size (ni_buffer ni) = UDP_BUFFER_SIZE" using r by (simp add: ready_def net_ok_def)
  show ?thesis
  proof (cases "\<exists>s. findSession j ni = Some s \<and> s_remoteEndpoint s = ni_remoteEndpoint ni")
    case False
    then have "ni' = ni" using assms(4) by (auto simp: handlePacketKCP_def j_def [symmetric] Let_def split: option.splits if_splits)
    then show ?thesis using refl by simp
  next
    case True
    then obtain s where s: "findSession j ni = Some s" "s_remoteEndpoint s = ni_remoteEndpoint ni" by blast
    obtain n bytes kcp s' b' where c: "ikcp_recv (int UDP_BUFFER_SIZE) (snd (ikcp_input host dg (s_kcp s))) = Inr (n, bytes, kcp)"
      "rcv_view (s_kcp s') = rcv_view kcp"
      "ni' = store_session j s' ((if n \<le> 0 then ni else ni\<lparr>ni_events := ni_events ni @ [(j, NetRcvMsg, Some bytes)]\<rparr>)\<lparr>ni_buffer := b'\<rparr>)"
      using session_input_cases [OF r ready_find [OF r s(1)] assms(2) size assms(3), of host now "ni_remoteEndpoint ni"] assms(4) s
      by (fastforce simp: handlePacketKCP_def j_def [symmetric] Let_def split: if_splits)
    show ?thesis
    proof (cases "j = k")
      case True
      have b: "blocked UDP_BUFFER_SIZE (s_kcp s)" using assms(1) s(1) True by (auto simp: stuck_def)
      then have b': "blocked UDP_BUFFER_SIZE (snd (ikcp_input host dg (s_kcp s)))"
        using assms(3) by (intro ikcp_input_blocked) (simp_all add: UDP_BUFFER_SIZE_def)
      then have n: "n = - 3" "kcp = snd (ikcp_input host dg (s_kcp s))" using blocked_recv [OF b'] c(1) by simp_all
      then have "blocked UDP_BUFFER_SIZE (s_kcp s')" using b' blocked_view [OF c(2)] by simp
      then show ?thesis
        using c(3) n(1) True ready_table [OF r] by (simp add: quiet_def store_session_def findSession_def sm.lookup_insert)
    next
      case False
      then show ?thesis
        using c(3) refl ready_table [OF r]
        by (auto simp: quiet_def store_session_def findSession_def sm.lookup_insert messages_other)
    qed
  qed
qed

lemma quiet_receive:
  assumes "stuck k ni" "receive host now dg ep ni = Inr ni'"
  shows "quiet k ni ni'"
proof -
  have r: "ready ni" using assms(1) by (simp add: stuck_def)
  have size: "bb_size (ni_buffer ni) = UDP_BUFFER_SIZE" using r by (simp add: ready_def net_ok_def)
  consider "dg = []" | "UDP_BUFFER_SIZE \<le> length dg" | "dg \<noteq> []" "length dg < UDP_BUFFER_SIZE" by linarith
  then show ?thesis
  proof cases
    case 1
    then have "findSession k ni' = findSession k ni \<and> ni_events ni' = ni_events ni"
      using assms(2) by (auto simp: receive_def handleReceiveFrom_def hookAsyncReceive_def findSession_def Let_def split: if_splits)
    then show ?thesis using assms(1) by (auto simp: quiet_def stuck_def)
  next
    case 2
    then show ?thesis using receive_long [OF size 2] assms(2) by simp
  next
    case 3
    let ?ni = "arrived dg ep ni"
    have st: "stuck k ?ni" using assms(1) ready_arrived [OF r 3(2)] by (simp add: stuck_def)
    have h: "holds dg (ni_buffer ?ni)" using 3(2) size by (intro arrived_buffer) simp
    obtain ni1 where ni1: "handle_kind (kind_of dg) host now ?ni = Inr ni1" "ni' = hookAsyncReceive ni1"
      using assms(2) unfolding receive_eq [OF size 3] by (auto simp: bindE_eq_Inr)
    have "quiet k ?ni ni1"
      using ni1(1) quiet_connect [OF st] quiet_ack [OF st h] quiet_disconnect_packet [OF st h] quiet_kcp [OF st h 3(2)]
      by (cases "kind_of dg") (auto simp: handle_kind_def)
    then show ?thesis by (simp add: ni1(2) quiet_def hookAsyncReceive_def findSession_def)
  qed
qed

lemma quiet_timer:
  assumes "stuck k ni" "handleUpdateTimer host t now ni = Inr ni'"
  shows "quiet k ni ni'"
proof -
  have r: "ready ni" using assms(1) by (simp add: stuck_def)
  obtain s where s: "findSession k ni = Some s" "blocked UDP_BUFFER_SIZE (s_kcp s)" using assms(1) by (auto simp: stuck_def)
  have t: "timer_result now (ni_sessions ni) (ni\<lparr>ni_timing := \<not> ni_stopped ni\<rparr>) ni'"
    using handleUpdateTimer_ok [OF r, of host t now] assms(2) by auto
  have "messages k (map (\<lambda>(k, s). (k, NetDisconnect, None)) ss) = []" for ss :: "(uint32 \<times> 'a Session) list"
    by (induction ss) (auto simp: messages_def)
  then have "messages k (ni_events ni') = messages k (ni_events ni)" using t by (simp add: timer_result_def)
  moreover have "blocked UDP_BUFFER_SIZE (s_kcp s')" if "findSession k ni' = Some s'" for s'
  proof -
    have "keeps s s'" using t s(1) that unfolding timer_result_def findSession_def by (auto dest!: spec [of _ k] split: if_splits)
    then show ?thesis using s(2) blocked_view [of "s_kcp s'" "s_kcp s"] by (simp add: keeps_def)
  qed
  ultimately show ?thesis by (simp add: quiet_def)
qed

lemma quiet_step:
  assumes "stuck k ni" "net_step host ni ni'"
  shows "quiet k ni ni' \<and> ready ni'"
proof -
  have r: "ready ni" using assms(1) by (simp add: stuck_def)
  from assms(2) show ?thesis
  proof cases
    case (by_datagram now dg ep)
    then show ?thesis
      using quiet_receive [OF assms(1)] receive_handles [where ni = ni and host = host and now = now and dg = dg and ep = ep] r by auto
  next
    case (by_timer t now)
    then show ?thesis
      using quiet_timer [OF assms(1)] handleUpdateTimer_ok [where ni = ni and host = host and t = t and now = now] r
      by (auto simp: timer_result_def)
  next
    case (by_connect ep)
    moreover have "ni_open ni" using r by (simp add: ready_def)
    ultimately show ?thesis
      using connect_open [of ni ep] assms(1) r by (auto simp: quiet_def stuck_def findSession_def)
  next
    case (by_disconnect j)
    moreover have "quiet k ni ni" using assms(1) by (auto simp: stuck_def quiet_def)
    ultimately show ?thesis
      using disconnect_ok [OF r, of j] quiet_drop [OF assms(1)] by (auto simp: disconnect_def split: option.splits)
  qed
qed

lemma stuck_forever: "lives host k ni ni' \<Longrightarrow> stuck k ni \<Longrightarrow> stuck k ni' \<and> messages k (ni_events ni') = messages k (ni_events ni)"
proof (induction rule: lives.induct)
  case (lives_step ni1 ni2)
  then have "quiet k ni1 ni2 \<and> ready ni2" by (intro quiet_step) simp_all
  then show ?case using lives_step by (auto simp: quiet_def stuck_def)
qed simp

section \<open>Arrival\<close>

text \<open>A message that is too long has arrived up to some fragments, and no read has succeeded.\<close>

definition arriving :: "fragment list \<Rightarrow> uint32 \<Rightarrow> 'ep \<Rightarrow> nat \<Rightarrow> nat list \<Rightarrow> 'ep NetworkInterface \<Rightarrow> bool" where
  "arriving fs k ep N ks ni \<longleftrightarrow> ready ni \<and> (\<exists>s. findSession k ni = Some s \<and> s_remoteEndpoint s = ep \<and>
     rcv_at fs 0 N ks (s_kcp s) \<and> settled (s_kcp s))"

definition long_message :: "endian \<Rightarrow> fragment list \<Rightarrow> uint32 \<Rightarrow> uint8 list list \<Rightarrow> bool" where
  "long_message host fs k ps \<longleftrightarrow> valid_frags fs \<and> (\<forall>f \<in> set fs. unat (fst f) < 256) \<and> UDP_BUFFER_SIZE < length (message fs) \<and>
     (\<forall>p \<in> set ps. packet_of host fs k p \<and> p \<noteq> [] \<and> length p < UDP_BUFFER_SIZE)"

lemma recv_too_long:
  assumes "rcv_at fs 0 N ks kcp" "valid_frags fs" "length (message fs) > UDP_BUFFER_SIZE"
  shows "\<exists>n < 0. ikcp_recv (int UDP_BUFFER_SIZE) kcp = Inr (n, [], kcp)"
  using recv_message [OF assms(1), of fs "[]" "int UDP_BUFFER_SIZE"] assms(2,3) by (auto split: if_splits)

lemma arriving_step:
  assumes "arriving fs k ep N ks ni" "long_message host' fs k [p]"
  shows "\<exists>ni' N' ks'. receive host now p ep ni = Inr ni' \<and> ni_events ni' = ni_events ni \<and> arriving fs k ep N' ks' ni' \<and> N \<le> N' \<and>
    received N ks \<union> {j. j < N + 32 \<and> brings host' fs k {p} j} \<subseteq> received N' ks'"
proof -
  obtain s where s: "ready ni" "findSession k ni = Some s" "s_remoteEndpoint s = ep" "rcv_at fs 0 N ks (s_kcp s)" "settled (s_kcp s)"
    using assms(1) by (auto simp: arriving_def)
  have g: "valid_frags fs" "\<forall>f \<in> set fs. unat (fst f) < 256" "UDP_BUFFER_SIZE < length (message fs)"
    "packet_of host' fs k p" "p \<noteq> []" "length p < UDP_BUFFER_SIZE" using assms(2) by (simp_all add: long_message_def)
  have ok: "kc_conv (s_kcp s) = k" "kc_rcv_wnd (s_kcp s) = 32"
    using ready_find [OF s(1,2)] by (simp_all add: ses_ok_def rcv_bounded_def)
  define k1 where "k1 = snd (ikcp_input host p (s_kcp s))"
  have "length p < 2 ^ 31" using g(6) by (simp add: UDP_BUFFER_SIZE_def)
  then obtain N' ks' where n: "rcv_at fs 0 N' ks' k1" "N \<le> N'"
    "received N ks \<union> {j. j < N + 32 \<and> brings host' fs k {p} j} \<subseteq> received N' ks'"
    using input_brings [OF g(2) s(4), of host' p host] g(4) by (auto simp: k1_def ok)
  have settled: "settled k1" using ikcp_input_settled [OF s(5)] by (simp add: k1_def)
  obtain n0 where r: "ikcp_recv (int UDP_BUFFER_SIZE) k1 = Inr (n0, [], k1)" "n0 < 0" using recv_too_long [OF n(1) g(1,3)] by blast
  then obtain ni' s' where f: "receive host now p ep ni = Inr ni'" "ready ni'" "findSession k ni' = Some s'" "s_remoteEndpoint s' = ep"
    "rcv_view (s_kcp s') = rcv_view k1" "ni_events ni' = ni_events ni"
    using session_packet [OF s(1-3) g(4,5,2,6), of host n0 "[]" k1 now] by (auto simp: k1_def)
  then have "arriving fs k ep N' ks' ni'"
    using n(1) settled rcv_at_view [OF f(5)] settled_view [OF f(5)] by (auto simp: arriving_def)
  then show ?thesis using f(1,6) n(2,3) by blast
qed

lemma long_message_Cons: "long_message host fs k (p # ps) \<longleftrightarrow> long_message host fs k [p] \<and> long_message host fs k ps"
  by (auto simp: long_message_def)

lemma arriving_all:
  "arriving fs k ep N ks ni \<Longrightarrow> long_message host' fs k ps \<Longrightarrow>
    \<exists>ni' N' ks'. receive_all host now ps ep ni = Inr ni' \<and> ni_events ni' = ni_events ni \<and> arriving fs k ep N' ks' ni' \<and>
      received N ks \<union> {j. j < N + 32 \<and> brings host' fs k (set ps) j} \<subseteq> received N' ks'"
proof (induction ps arbitrary: ni N ks)
  case Nil
  then show ?case by (auto simp: brings_def)
next
  case (Cons p ps)
  then have g: "long_message host' fs k [p]" "long_message host' fs k ps" using long_message_Cons [of host' fs k p ps] by auto
  obtain ni1 N1 ks1 where r: "receive host now p ep ni = Inr ni1" "ni_events ni1 = ni_events ni" "arriving fs k ep N1 ks1 ni1" "N \<le> N1"
    "received N ks \<union> {j. j < N + 32 \<and> brings host' fs k {p} j} \<subseteq> received N1 ks1"
    using arriving_step [OF Cons.prems(1) g(1), of host now] by blast
  obtain ni' N' ks' where ni': "receive_all host now ps ep ni1 = Inr ni'" "ni_events ni' = ni_events ni1" "arriving fs k ep N' ks' ni'"
    "received N1 ks1 \<union> {j. j < N1 + 32 \<and> brings host' fs k (set ps) j} \<subseteq> received N' ks'"
    using Cons.IH [OF r(3) g(2)] by blast
  have "brings host' fs k (set (p # ps)) j \<longleftrightarrow> brings host' fs k {p} j \<or> brings host' fs k (set ps) j" for j
    unfolding brings_def by auto
  then have "received N ks \<union> {j. j < N + 32 \<and> brings host' fs k (set (p # ps)) j} \<subseteq>
      received N1 ks1 \<union> {j. j < N1 + 32 \<and> brings host' fs k (set ps) j}"
    using r(4,5) by auto
  note subset_trans [OF this ni'(4)]
  moreover have "receive_all host now (p # ps) ep ni = Inr ni'" "ni_events ni' = ni_events ni" using r(1,2) ni'(1,2) by simp_all
  ultimately show ?case using ni'(3) by blast
qed

end

lemma too_long_blocked:
  assumes "rcv_at fs 0 (length fs) ks kcp" "rcv_bounded kcp" "valid_frags fs" "length (message fs) > UDP_BUFFER_SIZE"
  shows "blocked UDP_BUFFER_SIZE kcp \<and> concat (map sg_data (kc_rcv_queue kcp)) = message fs"
proof -
  have v: "fs \<noteq> []" "map fst fs = map of_nat (rev [0..<length fs])" using assms(3) by (auto simp: valid_frags_def)
  have q: "map content (kc_rcv_queue kcp) = fs" using assms(1) by (simp add: rcv_at_def)
  have "(0 :: uint32) \<in> set (map fst fs)" unfolding v(2) using v(1) by force
  then have "\<exists>seg \<in> set (kc_rcv_queue kcp). sg_frg seg = 0" unfolding q [symmetric] by (auto simp: content_def)
  moreover have "ikcp_peeksize kcp = int (length (message fs))"
    using peeksize_message [OF assms(1), of fs "[]"] v(1) assms(3) by simp
  moreover have "concat (map sg_data (kc_rcv_queue kcp)) = message (map content (kc_rcv_queue kcp))"
    by (simp add: message_def content_def comp_def)
  ultimately show ?thesis using assms(2,4) q by (simp add: blocked_def)
qed

context event_handler
begin

lemma long_message_arrives:
  assumes "ready ni" "findSession k ni = Some s" "s_remoteEndpoint s = ep" "rcv_view (s_kcp s) = rcv_view (init_kcp k)"
    "UDP_BUFFER_SIZE < length msg" "length msg \<le> 32 * 1376"
  shows "\<exists>a1 out a2 ni' s'. ikcp_send msg (int (length msg)) (init_kcp k) = Inr (0, a1) \<and> ikcp_update ha t a1 = Inr (out, a2) \<and>
    receive_all hb now out ep ni = Inr ni' \<and> ni_events ni' = ni_events ni \<and> stuck k ni' \<and>
    findSession k ni' = Some s' \<and> concat (map sg_data (kc_rcv_queue (s_kcp s'))) = msg"
proof -
  define fs where "fs = frags 1376 msg"
  obtain a1 out a2 where f: "ikcp_send msg (int (length msg)) (init_kcp k) = Inr (0, a1)" "ikcp_update ha t a1 = Inr (out, a2)"
    "valid_frags fs" "\<forall>f \<in> set fs. unat (fst f) < 256" "\<forall>p \<in> set out. packet_of ha fs k p \<and> p \<noteq> [] \<and> length p \<le> 1400"
    "\<forall>j < length fs. brings ha fs k (set out) j"
    using first_flush [OF assms(6), of k ha t] unfolding fs_def by blast
  have len: "length fs \<le> 32" "message fs = msg"
    using chunks_few [OF assms(6)] by (simp_all add: fs_def frags_def [of _ msg]) (simp add: frags_def [symmetric])
  have g: "long_message ha fs k out"
    using f(3-5) len(2) assms(5) by (auto simp: long_message_def UDP_BUFFER_SIZE_def dest: bspec intro: le_less_trans [of _ 1400])
  have "rcv_at fs 0 0 [] (init_kcp k)" using len(1) by (intro init_receiver(1)) simp
  then have "arriving fs k ep 0 [] ni"
    using assms(1-4) rcv_at_view [OF assms(4)] settled_view [OF assms(4)] init_receiver(2) by (auto simp: arriving_def)
  from arriving_all [OF this g, of hb now] obtain ni' N ks where r: "receive_all hb now out ep ni = Inr ni'" "ni_events ni' = ni_events ni"
    "arriving fs k ep N ks ni'" "received 0 [] \<union> {j. j < 0 + 32 \<and> brings ha fs k (set out) j} \<subseteq> received N ks" by blast
  then obtain s' where s': "ready ni'" "findSession k ni' = Some s'" "rcv_at fs 0 N ks (s_kcp s')" "settled (s_kcp s')"
    by (auto simp: arriving_def)
  have ok: "kc_rcv_wnd (s_kcp s') = 32" "rcv_bounded (s_kcp s')" using ready_find [OF s'(1,2)] by (simp_all add: ses_ok_def rcv_bounded_def)
  have "{..<length fs} \<subseteq> received N ks" using r(4) f(6) len(1) by auto
  then have "length fs \<le> N" using s'(3,4) len(1) ok(1) by (intro settled_all [of fs 0 N ks "s_kcp s'"]) simp_all
  then have "N = length fs" using s'(3) by (simp add: rcv_at_def)
  then show ?thesis
    using too_long_blocked [of fs ks "s_kcp s'"] s' ok(2) f(1-3) r(1,2) assms(5) len(2) by (auto simp: stuck_def)
qed

end

end
