(* ===== verification/NetworkProperties.thy ===== *)
theory NetworkProperties
  imports NetworkBlocking
begin

text \<open>
  The properties of the network layer, for an interface with the callback \<open>netEventCallback\<close> of the
  applications: they follow from the facts of the locale \<open>event_handler\<close> at its interpretation \<open>hello\<close>.
\<close>

section \<open>Examples\<close>

text \<open>A server that has just been started, and one that has accepted its first client; endpoints are ports.\<close>

definition server :: "nat NetworkInterface" where
  "server = (case initNetworkInterfaces netEventCallback 0 of Inr (_, ni) \<Rightarrow> ni)"

lemma server_facts:
  "net_reachable host netEventCallback server" "findSession k server = None" "ni_next_id server = 1" "ni_events server = []" "ni_sent server = []"
  "ni_sessions server = []"
proof -
  obtain ni where ni: "initNetworkInterfaces netEventCallback (0 :: nat) = Inr (True, ni)" "ni_sessions ni = []" "ni_next_id ni = 1"
    "ni_events ni = []" "ni_sent ni = []"
    using initNetworkInterfaces_eq [of netEventCallback "0 :: nat"] by blast
  then show "net_reachable host netEventCallback server" by (auto simp: server_def intro: net_reachable.started)
  show "findSession k server = None" "ni_next_id server = 1" "ni_events server = []" "ni_sent server = []" "ni_sessions server = []"
    using ni by (simp_all add: server_def findSession_def)
qed

section \<open>Control datagrams\<close>

lemma packet_sizes: "length connect_bytes = 32" "length (ack_bytes k) = 40" "length (disconnect_bytes k) = 41"
  by (simp_all add: connect_bytes_def ack_bytes_def disconnect_bytes_def)

lemma control_datagram:
  assumes "hello.ready ni" "0 < length dg" "length dg < UDP_BUFFER_SIZE"
  shows "receive host now dg ep ni = bindE (handle_kind (kind_of dg) host now (arrived dg ep ni)) (\<lambda>ni. Inr (hookAsyncReceive ni))"
  using assms by (intro receive_eq) (auto simp: hello.ready_def net_ok_def)

lemma control_arrived:
  assumes "hello.ready ni" "length dg < UDP_BUFFER_SIZE"
  shows "hello.ready (arrived dg ep ni)" "holds dg (ni_buffer (arrived dg ep ni))"
  using assms hello.ready_arrived [OF assms] by (simp_all add: hello.ready_def net_ok_def arrived_buffer)

lemma ready_sorted: "hello.ready ni \<Longrightarrow> sm_sorted (ni_sessions ni)"
  by (simp add: hello.ready_def net_ok_def sm.all_entries_def)

lemma hook_simps [simp]:
  "findSession k (hookAsyncReceive ni) = findSession k ni" "ni_events (hookAsyncReceive ni) = ni_events ni"
  "ni_sent (hookAsyncReceive ni) = ni_sent ni" "ni_next_id (hookAsyncReceive ni) = ni_next_id ni"
  by (simp_all add: hookAsyncReceive_def findSession_def)

lemma connect_datagram:
  assumes "hello.ready ni" "findSession (ni_next_id ni) ni = None"
  defines "k \<equiv> ni_next_id ni"
  shows "\<exists>ni' s. receive host now connect_bytes ep ni = Inr ni' \<and> findSession k ni' = Some s \<and> keeps (create_session k ep now) s \<and>
    ni_sent ni' = ni_sent ni @ [(ack_bytes k, ep)] \<and> ni_events ni' = ni_events ni @ [(k, NetConnect, None)] \<and> ni_next_id ni' = k + 1"
proof -
  have len: "0 < length connect_bytes" "length connect_bytes < UDP_BUFFER_SIZE" by (simp_all add: packet_sizes UDP_BUFFER_SIZE_def)
  note c = control_datagram [OF assms(1) len, of host now ep]
  obtain s where "handleConnectPacket now (arrived connect_bytes ep ni) =
      Inr ((arrived connect_bytes ep ni)\<lparr>ni_next_id := k + 1, ni_sent := ni_sent ni @ [(ack_bytes k, ep)],
        ni_sessions := sm_insert k s (ni_sessions ni), ni_events := ni_events ni @ [(k, NetConnect, None)]\<rparr>)"
    "keeps (create_session k ep now) s"
    using hello.handleConnectPacket_new [OF control_arrived(1) [OF assms(1) len(2), of ep], of now] assms(2) by (auto simp: k_def)
  then show ?thesis
    using c ready_sorted [OF assms(1)]
    by (simp add: kinds handle_kind_def) (simp add: findSession_def sm.lookup_insert)
qed

lemma le_word_id [simp]: "le_word (le_bytes (k :: uint32)) = k"
  using le_word_le_bytes [of k] by simp

lemma id_datagram:
  assumes "hello.ready ni" "dg = ack_bytes k \<or> dg = disconnect_bytes k"
  obtains b where "hello.ready ((arrived dg ep ni)\<lparr>ni_buffer := b\<rparr>)"
    "get_sessionid_from_connect_ack_packet (ni_buffer (arrived dg ep ni)) = Inr (k, b)"
proof -
  have len: "length dg < UDP_BUFFER_SIZE" using assms(2) by (auto simp: packet_sizes UDP_BUFFER_SIZE_def)
  note c = control_arrived [OF assms(1) len, of ep]
  have a: "after_string dg = le_bytes k" using assms(2) by auto
  show thesis
    by (rule hello.read_id [OF c(2,1)]) (use a that in \<open>auto\<close>)
qed

lemma ack_datagram:
  assumes "hello.ready ni" "findSession k ni = None"
  shows "\<exists>ni' s. receive host now (ack_bytes k) ep ni = Inr ni' \<and> findSession k ni' = Some s \<and> keeps (create_session k ep now) s \<and>
    ni_sent ni' = ni_sent ni \<and> ni_events ni' = ni_events ni @ [(k, NetConnect, None)]"
proof -
  have len: "0 < length (ack_bytes k)" "length (ack_bytes k) < UDP_BUFFER_SIZE" by (simp_all add: packet_sizes UDP_BUFFER_SIZE_def)
  note c = control_datagram [OF assms(1) len, of host now ep]
  obtain b where b: "hello.ready ((arrived (ack_bytes k) ep ni)\<lparr>ni_buffer := b\<rparr>)"
    "get_sessionid_from_connect_ack_packet (ni_buffer (arrived (ack_bytes k) ep ni)) = Inr (k, b)" using id_datagram [OF assms(1)] by blast
  define ni1 where "ni1 = (arrived (ack_bytes k) ep ni)\<lparr>ni_buffer := b\<rparr>"
  have ni1: "hello.ready ni1" "findSession k ni1 = None" "ni_sessions ni1 = ni_sessions ni" "ni_events ni1 = ni_events ni" "ni_sent ni1 = ni_sent ni"
    using b(1) assms(2) by (simp_all add: ni1_def findSession_def)
  have h: "receive host now (ack_bytes k) ep ni = bindE (report_session (create_session k ep now) ni1) (\<lambda>ni. Inr (hookAsyncReceive ni))"
    using c b(2) by (simp add: kinds handle_kind_def handleConnectAckPacket_def bufferE_def ni1_def)
  obtain s where "report_session (create_session k ep now) ni1 = Inr (ni1\<lparr>ni_sessions := sm_insert k s (ni_sessions ni1),
      ni_events := ni_events ni1 @ [(k, NetConnect, None)]\<rparr>)" "keeps (create_session k ep now) s"
    using hello.report_session_new [OF ni1(1) create_session_ok ni1(2)] by blast
  then show ?thesis
    using h ni1 ready_sorted [OF assms(1)] by simp (simp add: findSession_def sm.lookup_insert)
qed

lemma first_client:
  obtains ni s where "net_reachable LittleEndian netEventCallback ni" "findSession 1 ni = Some s" "s_remoteEndpoint s = (7 :: nat)"
    "rcv_view (s_kcp s) = rcv_view (init_kcp 1)" "ni_events ni = [(1, NetConnect, None)]" "s_lastRecvTime s = 5"
proof -
  have "hello.ready server" using hello.reachable_ready [OF server_facts(1)] by simp
  then obtain ni s where "receive LittleEndian 5 connect_bytes 7 server = Inr ni" "findSession 1 ni = Some s" "keeps (create_session 1 7 5) s"
    "ni_events ni = [(1, NetConnect, None)]"
    using connect_datagram [of server LittleEndian 5 7] by (auto simp: server_facts)
  then show thesis
    using that [of ni s] net_reachable.datagram [OF server_facts(1)] by (auto simp: keeps_def create_session_def)
qed

section \<open>The event loop\<close>

text \<open>
  C11: whatever datagrams arrive and however the timer fires, between two handlers every session is stored
  under its own id, which is also its KCP conversation, within the bounds that keep reading and flushing
  inside of their buffers; the receive buffer keeps its size, a receive operation and the timer are
  outstanding, and the timer, a connect and a disconnect succeed.
\<close>

theorem network_invariant:
  assumes "net_reachable host netEventCallback ni"
  shows "sm_sorted (ni_sessions ni) \<and> (\<forall>k s. findSession k ni = Some s \<longrightarrow> ses_ok k s) \<and>
    bb_size (ni_buffer ni) = UDP_BUFFER_SIZE \<and> ni_open ni \<and> \<not> ni_stopped ni \<and> ni_receiving ni \<and> ni_timing ni \<and>
    (\<exists>ni'. handleUpdateTimer host t now ni = Inr ni') \<and> (\<exists>ni'. connect ep ni = Inr ni') \<and>
    (\<exists>ni'. disconnect k ni = Inr ni' \<and> findSession k ni' = None)"
proof -
  have r: "hello.ready ni" "looping ni" using hello.reachable_ready [OF assms] by simp_all
  then have "net_ok ni" "ni_open ni" by (simp_all add: hello.ready_def)
  then show ?thesis
    using r(2) hello.handleUpdateTimer_ok [OF r(1), of host t now] connect_open [of ni ep] hello.disconnect_ok [OF r(1), of k]
    by (auto simp: net_ok_def sm.all_entries_def looping_def findSession_def)
qed

theorem network_invariant_witness:
  "\<exists>ni s. net_reachable LittleEndian netEventCallback ni \<and> findSession 1 ni = Some (s :: nat Session) \<and> ses_ok 1 s \<and> ni_receiving ni \<and>
     (\<exists>ni'. disconnect 1 ni = Inr ni' \<and> findSession 1 ni' = None)"
proof -
  obtain ni s where n: "net_reachable LittleEndian netEventCallback ni" "findSession 1 ni = Some (s :: nat Session)" using first_client by blast
  then show ?thesis using network_invariant [OF n(1), of 0 "\<lambda>_. 0" 0 1] by blast
qed

text \<open>
  C14: the datagrams that make the handler throw or fail an assertion, exactly: a datagram that fills the
  receive buffer of 32768 bytes; a datagram that starts like an acknowledgement or a disconnect packet and
  has fewer than four bytes after its string; and a KCP packet that completes a message of exactly 32768
  bytes. Nothing catches the exception in the event loop, so that one malformed datagram from anywhere
  stops the application.
\<close>

theorem datagram_failures:
  assumes "net_reachable host netEventCallback ni"
  shows "(\<exists>e. receive host now dg ep ni = Inl e) \<longleftrightarrow> fatal host dg ep ni"
  using hello.receive_handles [where ni = ni and host = host and now = now and dg = dg and ep = ep] hello.reachable_ready [OF assms]
  by (auto split: sum.splits)

theorem datagram_failures_witness:
  "\<exists>e. receive LittleEndian 0 (str_bytes (CMD_P2PCLOUDS_CONNECT_ACK_PACKET @ ''??'')) 7 server = Inl e"
proof -
  have k: "kind_of (str_bytes (CMD_P2PCLOUDS_CONNECT_ACK_PACKET @ ''??'')) = ConnectAck"
    by (simp add: kind_of_def str_bytes_def)
  have "length (after_string (str_bytes (CMD_P2PCLOUDS_CONNECT_ACK_PACKET @ ''??''))) < 4"
    by (simp add: after_string_def str_bytes_def cmd_consts isascii_def)
  then have "fatal LittleEndian (str_bytes (CMD_P2PCLOUDS_CONNECT_ACK_PACKET @ ''??'')) 7 server" using k by (simp add: fatal_def)
  then show ?thesis using datagram_failures [OF server_facts(1)] by blast
qed

text \<open>
  C15: a firing timer removes exactly the sessions whose last datagram is more than ten seconds old, where
  the age is the difference of two unsigned 64-bit times, and reports each of them as disconnected, in the
  order of their ids; the others stay with their id, endpoint and time.
\<close>

theorem timer_expires_sessions:
  assumes "net_reachable host netEventCallback ni"
  shows "\<exists>ni'. handleUpdateTimer host t now ni = Inr ni' \<and>
    (\<forall>k s. findSession k ni = Some s \<longrightarrow>
      (if s_lastRecvTime s \<noteq> 0 \<and> now k - s_lastRecvTime s > 10000 then findSession k ni' = None
       else \<exists>s'. findSession k ni' = Some s' \<and> s_id s' = k \<and> s_remoteEndpoint s' = s_remoteEndpoint s \<and> s_lastRecvTime s' = s_lastRecvTime s)) \<and>
    ni_events ni' = ni_events ni @ map (\<lambda>(k, s). (k, NetDisconnect, None))
      (filter (\<lambda>(k, s). s_lastRecvTime s \<noteq> 0 \<and> now k - s_lastRecvTime s > 10000) (ni_sessions ni))"
proof -
  have t: "isTimeout 0 n s \<longleftrightarrow> s_lastRecvTime s \<noteq> 0 \<and> n - s_lastRecvTime s > 10000" for n and s :: "'a Session"
    by (simp add: isTimeout_def P2PCLOUDS_CONNECTION_TIMEOUT_TIME_def)
  have r: "hello.ready ni" using hello.reachable_ready [OF assms] by simp
  obtain ni' where ni': "handleUpdateTimer host t now ni = Inr ni'"
    "hello.timer_result now (ni_sessions ni) (ni\<lparr>ni_timing := \<not> ni_stopped ni\<rparr>) ni'"
    using hello.handleUpdateTimer_ok [OF r] by blast
  have s: "s_id s = k" if "findSession k ni = Some s" for k s using hello.ready_find [OF r that] by (simp add: ses_ok_def)
  have "if s_lastRecvTime s \<noteq> 0 \<and> now k - s_lastRecvTime s > 10000 then findSession k ni' = None
      else \<exists>s'. findSession k ni' = Some s' \<and> s_id s' = k \<and> s_remoteEndpoint s' = s_remoteEndpoint s \<and> s_lastRecvTime s' = s_lastRecvTime s"
    if k: "findSession k ni = Some s" for k s
  proof -
    have "if isTimeout 0 (now k) s then findSession k ni' = None else \<exists>s'. findSession k ni' = Some s' \<and> keeps s s'"
      using ni'(2) k unfolding hello.timer_result_def findSession_def by (auto dest!: spec [of _ k])
    then show ?thesis unfolding t using s [OF k] by (auto simp: keeps_def split: if_splits)
  qed
  then show ?thesis using ni' by (auto simp: hello.timer_result_def t)
qed

theorem timer_expires_sessions_witness:
  "\<exists>ni ni'. net_reachable LittleEndian netEventCallback (ni :: nat NetworkInterface) \<and> findSession 1 ni \<noteq> None \<and>
     handleUpdateTimer LittleEndian 20005 (\<lambda>_. 20005) ni = Inr ni' \<and> findSession 1 ni' = None \<and>
     (1, NetDisconnect, None) \<in> set (ni_events ni')"
proof -
  obtain ni s where n: "net_reachable LittleEndian netEventCallback ni" "findSession 1 ni = Some s" "s_remoteEndpoint s = (7 :: nat)"
    "s_lastRecvTime s = 5" using first_client by blast
  have "(1, s) \<in> set (ni_sessions ni)" using n(2) by (simp add: findSession_def map_of_SomeD)
  moreover have "(20005 :: uint64) - s_lastRecvTime s > 10000" "s_lastRecvTime s \<noteq> 0" by (simp_all add: n(4))
  ultimately show ?thesis
    using timer_expires_sessions [OF n(1), of 20005 "\<lambda>_. 20005"] n(1,2) by force
qed

section \<open>Connections\<close>

text \<open>
  C13: a client connects to a server, when the id that the server assigns is not the id of another session
  on either side: the server answers with its next id, and when both datagrams have arrived, both sides
  hold a session with that id, each with the endpoint of the other and a fresh receiver, and both
  applications have got the event. (The server counts its ids up, so that they are free on its side until
  the counter wraps or it connects to others itself; the client may hold the id from another server, which
  is the case of the collision below.)
\<close>

theorem connection_established:
  assumes "net_reachable ha netEventCallback a" "net_reachable hb netEventCallback b"
    and "ni_next_id b = k" "findSession k b = None" "findSession k a = None"
  shows "\<exists>a1 a2 b1 sa sb. connect epB a = Inr a1 \<and> ni_sent a1 = ni_sent a @ [(connect_bytes, epB)] \<and>
    receive hb t connect_bytes epA b = Inr b1 \<and> ni_sent b1 = ni_sent b @ [(ack_bytes k, epA)] \<and>
    receive ha t' (ack_bytes k) epB a1 = Inr a2 \<and>
    findSession k a2 = Some sa \<and> s_id sa = k \<and> s_remoteEndpoint sa = epB \<and> rcv_view (s_kcp sa) = rcv_view (init_kcp k) \<and>
    findSession k b1 = Some sb \<and> s_id sb = k \<and> s_remoteEndpoint sb = epA \<and> rcv_view (s_kcp sb) = rcv_view (init_kcp k) \<and>
    ni_events a2 = ni_events a @ [(k, NetConnect, None)] \<and> ni_events b1 = ni_events b @ [(k, NetConnect, None)]"
proof -
  have r: "hello.ready a" "hello.ready b" using hello.reachable_ready assms(1,2) by blast+
  define a1 where "a1 = a\<lparr>ni_sent := ni_sent a @ [(connect_bytes, epB)]\<rparr>"
  have a1: "connect epB a = Inr a1" "hello.ready a1" "findSession k a1 = None" "ni_events a1 = ni_events a"
    using connect_open [of a epB] r(1) assms(5) by (simp_all add: a1_def findSession_def) (simp add: hello.ready_def)
  obtain b1 sb where b1: "receive hb t connect_bytes epA b = Inr b1" "findSession k b1 = Some sb" "keeps (create_session k epA t) sb"
    "ni_sent b1 = ni_sent b @ [(ack_bytes k, epA)]" "ni_events b1 = ni_events b @ [(k, NetConnect, None)]"
    using connect_datagram [OF r(2), of hb t epA] assms(3,4) by auto
  obtain a2 sa where a2: "receive ha t' (ack_bytes k) epB a1 = Inr a2" "findSession k a2 = Some sa" "keeps (create_session k epB t') sa"
    "ni_events a2 = ni_events a1 @ [(k, NetConnect, None)]"
    using ack_datagram [OF a1(2,3), of ha t' epB] by blast
  show ?thesis
    using a1 a2 b1 by (intro exI [of _ a1] exI [of _ a2] exI [of _ b1] exI [of _ sa] exI [of _ sb])
      (simp add: keeps_def create_session_def a1_def)
qed

theorem connection_established_witness:
  "\<exists>b1 sb. receive LittleEndian 5 connect_bytes 7 server = Inr b1 \<and> findSession 1 b1 = Some sb \<and> s_remoteEndpoint sb = 7"
  using connection_established [OF server_facts(1) server_facts(1) server_facts(3) server_facts(2,2), of 8 LittleEndian 5 7 BigEndian 6] by blast

text \<open>
  C18: an acknowledgement with the id of an existing session, as any two servers that count from 1 send
  them to a client: the old session stays, the new one is reported as connected although it is not stored,
  and the sender is told to disconnect.
\<close>

theorem session_id_collision:
  assumes "net_reachable host netEventCallback ni" "findSession k ni = Some s"
  shows "\<exists>ni'. receive host now (ack_bytes k) ep ni = Inr ni' \<and> findSession k ni' = Some s \<and>
    ni_events ni' = ni_events ni @ [(k, NetConnect, None)] \<and> ni_sent ni' = ni_sent ni @ [(disconnect_bytes k, ep)]"
proof -
  have r: "hello.ready ni" using hello.reachable_ready [OF assms(1)] by simp
  have len: "0 < length (ack_bytes k)" "length (ack_bytes k) < UDP_BUFFER_SIZE" by (simp_all add: packet_sizes UDP_BUFFER_SIZE_def)
  note c = control_datagram [OF r len, of host now ep]
  obtain b where b: "hello.ready ((arrived (ack_bytes k) ep ni)\<lparr>ni_buffer := b\<rparr>)"
    "get_sessionid_from_connect_ack_packet (ni_buffer (arrived (ack_bytes k) ep ni)) = Inr (k, b)" using id_datagram [OF r] by blast
  have "findSession k ((arrived (ack_bytes k) ep ni)\<lparr>ni_buffer := b\<rparr>) = Some s" using assms(2) by (simp add: findSession_def)
  from hello.report_session_twice [OF b(1) create_session_ok this, of ep now] show ?thesis
    using c b(2) assms(2)
    by (simp add: kinds handle_kind_def handleConnectAckPacket_def bufferE_def create_session_def) (simp add: findSession_def)
qed

theorem session_id_collision_witness:
  "\<exists>ni ni' s. net_reachable LittleEndian netEventCallback ni \<and> findSession 1 ni = Some s \<and> s_remoteEndpoint s = (7 :: nat) \<and>
    receive LittleEndian 9 (ack_bytes 1) 8 ni = Inr ni' \<and> findSession 1 ni' = Some s \<and>
    ni_events ni' = [(1, NetConnect, None), (1, NetConnect, None)]"
proof -
  obtain ni s where n: "net_reachable LittleEndian netEventCallback ni" "findSession 1 ni = Some s" "s_remoteEndpoint s = (7 :: nat)"
    "ni_events ni = [(1, NetConnect, None)]" using first_client by blast
  then show ?thesis using session_id_collision [OF n(1,2), of 9 8] by auto
qed

text \<open>
  A disconnect packet with the id of a session removes the session and reports it as disconnected,
  whatever endpoint the packet comes from: the handler does not compare it with that of the session.
\<close>

theorem disconnect_from_anywhere:
  assumes "net_reachable host netEventCallback ni" "findSession k ni = Some s"
  shows "\<exists>ni'. receive host now (disconnect_bytes k) ep ni = Inr ni' \<and> findSession k ni' = None \<and>
    (\<forall>j. j \<noteq> k \<longrightarrow> findSession j ni' = findSession j ni) \<and>
    ni_events ni' = ni_events ni @ [(k, NetDisconnect, None)] \<and> ni_sent ni' = ni_sent ni @ [(disconnect_bytes k, s_remoteEndpoint s)]"
proof -
  have r: "hello.ready ni" using hello.reachable_ready [OF assms(1)] by simp
  have len: "0 < length (disconnect_bytes k)" "length (disconnect_bytes k) < UDP_BUFFER_SIZE" by (simp_all add: packet_sizes UDP_BUFFER_SIZE_def)
  note c = control_datagram [OF r len, of host now ep]
  obtain b where b: "hello.ready ((arrived (disconnect_bytes k) ep ni)\<lparr>ni_buffer := b\<rparr>)"
    "get_sessionid_from_connect_ack_packet (ni_buffer (arrived (disconnect_bytes k) ep ni)) = Inr (k, b)" using id_datagram [OF r] by blast
  have f: "findSession k ((arrived (disconnect_bytes k) ep ni)\<lparr>ni_buffer := b\<rparr>) = Some s" using assms(2) by (simp add: findSession_def)
  from hello.drop_session_eq [OF b(1) hello.ready_find [OF b(1) f]] show ?thesis
    using c b(2) f ready_sorted [OF r]
    by (simp add: kinds handle_kind_def handleDisconnectPacket_def bufferE_def) (simp add: findSession_def sm.lookup_erase)
qed

theorem disconnect_from_anywhere_witness:
  "\<exists>ni ni'. net_reachable LittleEndian netEventCallback ni \<and> receive LittleEndian 9 (disconnect_bytes 1) (666 :: nat) ni = Inr ni' \<and>
    findSession 1 ni' = None"
proof -
  obtain ni s where n: "net_reachable LittleEndian netEventCallback ni" "findSession 1 ni = Some s" "s_remoteEndpoint s = (7 :: nat)"
    using first_client by blast
  then show ?thesis using disconnect_from_anywhere [OF n(1,2), of 9 666] by blast
qed

text \<open>
  C16: the three kinds of control packet are recognised as what they are and as nothing else, and the id is
  read back, wherever the datagram is received into a buffer that is large enough, whatever older bytes
  follow it. No packet that KCP outputs is taken for a control packet.
\<close>

theorem control_packets_round_trip:
  assumes "holds connect_bytes bc" "holds (ack_bytes k) ba" "holds (disconnect_bytes k) bd"
    and "packet_of host xs k p" "p \<noteq> []" "\<forall>f \<in> set xs. unat (fst f) < 256" "holds p bp"
  shows "(\<exists>m. makeConnectPacket = Inr m \<and> take (m_wpos m) (m_data m) = connect_bytes) \<and>
    isConnectPacket bc \<and> \<not> is_connect_ack_packet bc \<and> \<not> is_disconnect_packet bc \<and>
    (\<exists>m. make_connect_ack_packet k = Inr m \<and> take (m_wpos m) (m_data m) = ack_bytes k) \<and>
    \<not> isConnectPacket ba \<and> is_connect_ack_packet ba \<and> \<not> is_disconnect_packet ba \<and>
    (\<exists>b. get_sessionid_from_connect_ack_packet ba = Inr (k, b)) \<and>
    (\<exists>m. make_disconnect_packet k = Inr m \<and> take (m_wpos m) (m_data m) = disconnect_bytes k) \<and>
    \<not> isConnectPacket bd \<and> \<not> is_connect_ack_packet bd \<and> is_disconnect_packet bd \<and>
    (\<exists>b. get_sessionid_from_disconnect_packet bd = Inr (k, b)) \<and>
    \<not> isConnectPacket bp \<and> \<not> is_connect_ack_packet bp \<and> \<not> is_disconnect_packet bp"
proof -
  have m: "\<exists>m. r = Inr m \<and> take (m_wpos m) (m_data m) = bs" if "fills bs r" for bs r
    using that by (auto simp: fills_def holds_def)
  note read = get_sessionid [OF assms(2)] get_sessionid [OF assms(3)]
  have "\<exists>b. get_sessionid_from_connect_ack_packet ba = Inr (k, b)" "\<exists>b. get_sessionid_from_connect_ack_packet bd = Inr (k, b)"
    using read by auto
  moreover have "get_sessionid_from_disconnect_packet bd = get_sessionid_from_connect_ack_packet bd"
    by (simp add: get_sessionid_from_disconnect_packet_def get_sessionid_from_connect_ack_packet_def)
  moreover note m [OF make_packets(1)] m [OF make_packets(2) [of k]] m [OF make_packets(3) [of k]]
  moreover note packet_header(2) [OF assms(4-6)]
  ultimately show ?thesis
    by (simp add: kind_of_holds [OF assms(1)] kind_of_holds [OF assms(2)] kind_of_holds [OF assms(3)] kind_of_holds [OF assms(7)] kinds)
qed

lemma holds_plain: "holds dg \<lparr>m_rpos = 0, m_wpos = length dg, m_data = dg\<rparr>"
  by (simp add: holds_def bb_size_def)

theorem control_packets_round_trip_witness:
  "is_connect_ack_packet \<lparr>m_rpos = 0, m_wpos = length (ack_bytes 300), m_data = ack_bytes 300\<rparr>"
proof -
  define seg where "seg = ikcp_segment_new\<lparr>sg_conv := 300, sg_cmd := IKCP_CMD_ACK\<rparr>"
  have "wire_seg [] 300 seg" by (simp add: wire_seg_def seg_def seg_ok_def ikcp_segment_new_def)
  then have "packet_of LittleEndian [] 300 (segment_bytes LittleEndian seg)"
    unfolding packet_of_def by (intro exI [of _ "[seg]"]) simp
  from control_packets_round_trip [OF holds_plain holds_plain holds_plain this segment_bytes_ne _ holds_plain] show ?thesis by simp
qed

section \<open>Messages\<close>

text \<open>A message goes from a fresh session through the next timer to the socket.\<close>

lemma session_sends:
  assumes "hello.ready a" "holds msg datas" "length msg < 2 ^ 31"
    and "ikcp_send msg (int (length msg)) (init_kcp k) = Inr (0, a1)"
    and "ikcp_update ha (ucast (t AND 0xffffffff)) a1 = Inr (out, a2)" "\<not> isTimeout 0 now1 (create_session k epB now0)"
  shows "\<exists>sa1 sa2 a'. sendPacketKCP datas (create_session k epB now0) = Inr sa1 \<and>
    session_update ha t now1 sa1 a = Inr (True, sa2, a') \<and> ni_sent a' = ni_sent a @ map (\<lambda>p. (p, epB)) out"
proof -
  define sa where "sa = create_session k epB now0"
  have len: "take (bb_length datas) (m_data datas) = msg" "bb_length datas = length msg"
    using assms(2) holds_wf(3) [OF assms(2)] by (simp_all add: holds_def)
  then have send: "sendPacketKCP datas sa = Inr (sa\<lparr>s_kcp := a1\<rparr>)"
    using assms(3,4) by (simp add: sendPacketKCP_def kcpE_def int_cast_small sa_def create_session_def)
  have "ni_open a" using assms(1) by (simp add: hello.ready_def)
  moreover have "\<not> isTimeout 0 now1 (sa\<lparr>s_kcp := a2\<rparr>)" using assms(6) by (auto simp: isTimeout_def sa_def)
  ultimately have "session_update ha t now1 (sa\<lparr>s_kcp := a1\<rparr>) a =
      Inr (True, sa\<lparr>s_kcp := a2\<rparr>, a\<lparr>ni_sent := ni_sent a @ map (\<lambda>p. (p, s_remoteEndpoint sa)) out\<rparr>)"
    using assms(5) by (simp add: session_update_def kcpE_def hello.output_all_open Let_def)
  then show ?thesis using send by (simp add: sa_def create_session_def)
qed

text \<open>
  C12: a message of 1 to 32767 bytes that an application sends on a fresh session reaches the application
  of the peer: the next timer of the sender hands packets to the socket, and when they arrive in order at
  the peer, whose session has received nothing yet, its application gets exactly one event, with the
  message. Byte orders, clocks and the endpoint numbers are arbitrary.
\<close>

theorem session_delivers_message:
  assumes "net_reachable hb netEventCallback b" "findSession k b = Some s" "s_remoteEndpoint s = epA"
    and "rcv_view (s_kcp s) = rcv_view (init_kcp k)"
    and "holds msg datas" "0 < length msg" "length msg < UDP_BUFFER_SIZE"
    and "net_reachable ha netEventCallback a" "\<not> isTimeout 0 now1 (create_session k epB now0)"
  shows "\<exists>sa1 sa2 out a' b'. sendPacketKCP datas (create_session k epB now0) = Inr sa1 \<and>
    session_update ha t now1 sa1 a = Inr (True, sa2, a') \<and> ni_sent a' = ni_sent a @ map (\<lambda>p. (p, epB)) out \<and>
    receive_all hb now out epA b = Inr b' \<and> ni_events b' = ni_events b @ [(k, NetRcvMsg, Some msg)]"
proof -
  have r: "hello.ready a" "hello.ready b" using hello.reachable_ready assms(1,8) by blast+
  obtain a1 out a2 b' where m: "ikcp_send msg (int (length msg)) (init_kcp k) = Inr (0, a1)"
    "ikcp_update ha (ucast (t AND 0xffffffff)) a1 = Inr (out, a2)"
    "receive_all hb now out epA b = Inr b'" "ni_events b' = ni_events b @ [(k, NetRcvMsg, Some msg)]"
    using hello.message_event [OF r(2) assms(2-4,6,7), of ha "ucast (t AND 0xffffffff)" hb now] by blast
  have "length msg < 2 ^ 31" using assms(7) by (simp add: UDP_BUFFER_SIZE_def)
  then show ?thesis using session_sends [OF r(1) assms(5) _ m(1,2) assms(9)] m(3,4) by blast
qed

theorem session_delivers_message_witness:
  "\<exists>b b' out. net_reachable LittleEndian netEventCallback b \<and> receive_all LittleEndian 30 out (7 :: nat) b = Inr b' \<and>
     ni_events b' = [(1, NetConnect, None), (1, NetRcvMsg, Some [104, 105])]"
proof -
  obtain b s where b: "net_reachable LittleEndian netEventCallback b" "findSession 1 b = Some s" "s_remoteEndpoint s = (7 :: nat)"
    "rcv_view (s_kcp s) = rcv_view (init_kcp 1)" "ni_events b = [(1, NetConnect, None)]" using first_client by blast
  have "\<not> isTimeout 0 20 (create_session 1 (8 :: nat) 10)"
    by (simp add: isTimeout_def create_session_def P2PCLOUDS_CONNECTION_TIMEOUT_TIME_def)
  from session_delivers_message [OF b(1-4) holds_plain _ _ server_facts(1) this, of "[104, 105]" LittleEndian 20 30]
  show ?thesis using b(1,5) by (auto simp: UDP_BUFFER_SIZE_def)
qed

section \<open>Messages that are too long\<close>

text \<open>
  C17: a message of 32769 to 44032 bytes that an application sends on a fresh session arrives complete: when
  the packets of the next timer have arrived in order, the receive queue of the peer's session holds it.
  But it is longer than the buffer with which a session reads: no message is given to the application of
  the peer while the packets arrive, and none ever after, whatever datagrams follow, the timer and the
  application do, as long as the session lives. The message stays at the head of the queue.
\<close>

theorem long_message_blocks_session:
  assumes "net_reachable hb netEventCallback b" "findSession k b = Some s" "s_remoteEndpoint s = epA"
    and "rcv_view (s_kcp s) = rcv_view (init_kcp k)"
    and "holds msg datas" "UDP_BUFFER_SIZE < length msg" "length msg \<le> 32 * 1376"
    and "net_reachable ha netEventCallback a" "\<not> isTimeout 0 now1 (create_session k epB now0)"
  shows "\<exists>sa1 sa2 out a' b' s'. sendPacketKCP datas (create_session k epB now0) = Inr sa1 \<and>
    session_update ha t now1 sa1 a = Inr (True, sa2, a') \<and> ni_sent a' = ni_sent a @ map (\<lambda>p. (p, epB)) out \<and>
    receive_all hb now out epA b = Inr b' \<and> ni_events b' = ni_events b \<and>
    findSession k b' = Some s' \<and> concat (map sg_data (kc_rcv_queue (s_kcp s'))) = msg \<and>
    (\<forall>b''. lives hb k b' b'' \<longrightarrow> messages k (ni_events b'') = messages k (ni_events b) \<and>
       (\<exists>s''. findSession k b'' = Some s'' \<and> ikcp_recv (int UDP_BUFFER_SIZE) (s_kcp s'') = Inr (- 3, [], s_kcp s'')))"
proof -
  have r: "hello.ready a" "hello.ready b" using hello.reachable_ready assms(1,8) by blast+
  obtain a1 out a2 b' s' where m: "ikcp_send msg (int (length msg)) (init_kcp k) = Inr (0, a1)"
    "ikcp_update ha (ucast (t AND 0xffffffff)) a1 = Inr (out, a2)"
    "receive_all hb now out epA b = Inr b'" "ni_events b' = ni_events b" "hello.stuck k b'"
    "findSession k b' = Some s'" "concat (map sg_data (kc_rcv_queue (s_kcp s'))) = msg"
    using hello.long_message_arrives [OF r(2) assms(2-4,6,7), of ha "ucast (t AND 0xffffffff)" hb now] by blast
  have "messages k (ni_events b'') = messages k (ni_events b) \<and>
      (\<exists>s''. findSession k b'' = Some s'' \<and> ikcp_recv (int UDP_BUFFER_SIZE) (s_kcp s'') = Inr (- 3, [], s_kcp s''))"
    if "lives hb k b' b''" for b''
    using hello.stuck_forever [OF that m(5)] m(4) blocked_recv by (auto simp: hello.stuck_def)
  moreover have "length msg < 2 ^ 31" using assms(7) by simp
  note session_sends [OF r(1) assms(5) this m(1,2) assms(9)]
  ultimately show ?thesis using m(3,4,6,7) by blast
qed

theorem long_message_blocks_session_witness:
  "\<exists>b b' s' out. net_reachable LittleEndian netEventCallback b \<and> receive_all LittleEndian 30 out (7 :: nat) b = Inr b' \<and>
     findSession 1 b' = Some s' \<and> concat (map sg_data (kc_rcv_queue (s_kcp s'))) = replicate 40000 0 \<and> messages 1 (ni_events b') = []"
proof -
  obtain b s where b: "net_reachable LittleEndian netEventCallback b" "findSession 1 b = Some s" "s_remoteEndpoint s = (7 :: nat)"
    "rcv_view (s_kcp s) = rcv_view (init_kcp 1)" "ni_events b = [(1, NetConnect, None)]" using first_client by blast
  have t: "\<not> isTimeout 0 20 (create_session 1 (8 :: nat) 10)"
    by (simp add: isTimeout_def create_session_def P2PCLOUDS_CONNECTION_TIMEOUT_TIME_def)
  have len: "UDP_BUFFER_SIZE < length (replicate 40000 (0 :: uint8))" "length (replicate 40000 (0 :: uint8)) \<le> 32 * 1376"
    by (simp_all only: length_replicate UDP_BUFFER_SIZE_def)
  obtain out b' s' where r: "receive_all LittleEndian 30 out 7 b = Inr b'" "findSession 1 b' = Some s'"
    "concat (map sg_data (kc_rcv_queue (s_kcp s'))) = replicate 40000 0"
    "\<forall>b''. lives LittleEndian 1 b' b'' \<longrightarrow> messages 1 (ni_events b'') = messages 1 (ni_events b)"
    using long_message_blocks_session [OF b(1-4) holds_plain len server_facts(1) t, of LittleEndian 20 30] by blast
  have "messages 1 (ni_events b') = []" using r(4) lives_now [of LittleEndian 1 b'] b(5) by (simp add: messages_def)
  then show ?thesis using b(1) r(1-3) by blast
qed

section \<open>Shutdown\<close>

text \<open>
  \<open>stopAll\<close>, which the signal handler, \<open>finalise\<close> and the destructor of the interface call, closes the
  socket before it destroys the sessions; their destructors send a disconnect packet, and the exception of
  the closed socket leaves a destructor. The program is terminated exactly when there is a session.
\<close>

theorem stop_all_terminates:
  "stopAll ni = (if ni_sessions ni = [] then Inr (ni\<lparr>ni_stopped := True, ni_open := False, ni_sessions := []\<rparr>) else Inl Terminated)"
  by (rule stopAll_eq)

end
