(* ===== verification/ThreadPool.thy ===== *)
theory ThreadPool
  imports Prelude "HOL-Library.Multiset"
begin

text \<open>
  The pool of threads that runs the search for blocks: class \<open>ThreadPool\<close> of \<open>libs/common/threadpool.h\<close>.

  A worker is at the lock in front of the loop's test, asleep in \<open>condition.wait\<close>, running a task, or has
  returned. Each critical section of the mutex is one step; what follows it outside of the mutex is a step
  of its own: the notification of \<open>enqueue\<close> (\<open>tp_pending\<close> of them are outstanding), the notification of the
  destructor and its \<open>join\<close>. The members \<open>tp_accepted\<close>, \<open>tp_started\<close> and \<open>tp_finished\<close> record the history of the
  tasks. A waiting worker may also wake up for no reason, as the standard allows.

  Tasks are values of any type; a task that throws ends like any other, because \<open>packaged_task\<close> stores the
  exception. A task may run forever: nothing is assumed about the steps that finish tasks, except where a
  theorem counts them.
\<close>

section \<open>Definitions\<close>

datatype 'task worker = AtLock | Sleeping | Running 'task | Exited

record 'task ThreadPool =
  tp_workers :: "'task worker list"
  tp_tasks :: "'task list"
  tp_stop :: bool
  tp_pending :: nat
  tp_notify_all :: bool
  tp_accepted :: "'task list"
  tp_started :: "'task list"
  tp_finished :: "'task list"

datatype pool_error = EnqueueOnStopped

definition new_ThreadPool :: "nat \<Rightarrow> 'task ThreadPool" where
  "new_ThreadPool threads =
     \<lparr>tp_workers = replicate threads AtLock, tp_tasks = [], tp_stop = False, tp_pending = 0, tp_notify_all = False,
      tp_accepted = [], tp_started = [], tp_finished = []\<rparr>"

definition enqueue :: "'task \<Rightarrow> 'task ThreadPool \<Rightarrow> (pool_error, 'task ThreadPool) result" where
  "enqueue task p =
     (if tp_stop p then Inl EnqueueOnStopped
      else Inr (p\<lparr>tp_tasks := tp_tasks p @ [task], tp_pending := tp_pending p + 1, tp_accepted := tp_accepted p @ [task]\<rparr>))"

text \<open>\<open>notify_one\<close> wakes the worker \<open>i\<close> if one is asleep; the choice is that of the library.\<close>

definition notify_one :: "nat \<Rightarrow> 'task ThreadPool \<Rightarrow> 'task ThreadPool" where
  "notify_one i p =
     (let p = p\<lparr>tp_pending := tp_pending p - 1\<rparr>
      in if i < length (tp_workers p) \<and> tp_workers p ! i = Sleeping then p\<lparr>tp_workers := (tp_workers p)[i := AtLock]\<rparr> else p)"

text \<open>The critical section of a worker: the wait, the test of \<open>stop\<close> and the first task of the queue.\<close>

definition worker_lock :: "nat \<Rightarrow> 'task ThreadPool \<Rightarrow> 'task ThreadPool" where
  "worker_lock i p =
     (if \<not> (tp_stop p \<or> tp_tasks p \<noteq> []) then p\<lparr>tp_workers := (tp_workers p)[i := Sleeping]\<rparr>
      else if tp_stop p \<and> tp_tasks p = [] then p\<lparr>tp_workers := (tp_workers p)[i := Exited]\<rparr>
      else let task = hd (tp_tasks p)
           in p\<lparr>tp_tasks := tl (tp_tasks p), tp_workers := (tp_workers p)[i := Running task], tp_started := tp_started p @ [task]\<rparr>)"

definition worker_finish :: "nat \<Rightarrow> 'task \<Rightarrow> 'task ThreadPool \<Rightarrow> 'task ThreadPool" where
  "worker_finish i task p = p\<lparr>tp_workers := (tp_workers p)[i := AtLock], tp_finished := tp_finished p @ [task]\<rparr>"

definition stop_pool :: "'task ThreadPool \<Rightarrow> 'task ThreadPool" where
  "stop_pool p = p\<lparr>tp_stop := True, tp_notify_all := True\<rparr>"

definition notify_all :: "'task ThreadPool \<Rightarrow> 'task ThreadPool" where
  "notify_all p = p\<lparr>tp_notify_all := False, tp_workers := map (\<lambda>w. if w = Sleeping then AtLock else w) (tp_workers p)\<rparr>"

definition joined :: "'task ThreadPool \<Rightarrow> bool" where
  "joined p = (\<not> tp_notify_all p \<and> list_all (\<lambda>w. w = Exited) (tp_workers p))"

text \<open>
  \<open>Blockchain::start\<close>: as many threads as asked for, or as the hardware has, and one task for each of them.
  The task, which mines forever, has the value \<open>()\<close>.
\<close>

definition start :: "nat \<Rightarrow> nat \<Rightarrow> (pool_error, unit ThreadPool) result" where
  "start hardware_concurrency numThreads =
     (let numThreads = (if numThreads = 0 then hardware_concurrency else numThreads)
      in foldl (\<lambda>r i. bindE r (enqueue ())) (Inr (new_ThreadPool numThreads)) [0..<numThreads])"

section \<open>Steps\<close>

text \<open>
  \<open>work\<close> are the steps of the pool itself; \<open>pool_step\<close> adds those of its users, and wake-ups without a reason.
  The destructor is called once.
\<close>

inductive work :: "'task ThreadPool \<Rightarrow> 'task ThreadPool \<Rightarrow> bool" where
  notify: "tp_pending p > 0 \<Longrightarrow> i < length (tp_workers p) \<and> tp_workers p ! i = Sleeping \<or> Sleeping \<notin> set (tp_workers p) \<Longrightarrow>
    work p (notify_one i p)"
| lock: "i < length (tp_workers p) \<Longrightarrow> tp_workers p ! i = AtLock \<Longrightarrow> work p (worker_lock i p)"
| finish: "i < length (tp_workers p) \<Longrightarrow> tp_workers p ! i = Running task \<Longrightarrow> work p (worker_finish i task p)"
| wake_all: "tp_notify_all p \<Longrightarrow> work p (notify_all p)"

inductive_cases workE: "work p p'"

inductive pool_step :: "'task ThreadPool \<Rightarrow> 'task ThreadPool \<Rightarrow> bool" where
  working: "work p p' \<Longrightarrow> pool_step p p'"
| enqueued: "enqueue task p = Inr p' \<Longrightarrow> pool_step p p'"
| stopping: "\<not> tp_stop p \<Longrightarrow> pool_step p (stop_pool p)"
| spurious: "i < length (tp_workers p) \<Longrightarrow> tp_workers p ! i = Sleeping \<Longrightarrow> pool_step p (p\<lparr>tp_workers := (tp_workers p)[i := AtLock]\<rparr>)"

inductive pool_reachable :: "nat \<Rightarrow> 'task ThreadPool \<Rightarrow> bool" for n where
  created: "pool_reachable n (new_ThreadPool n)"
| stepped: "pool_reachable n p \<Longrightarrow> pool_step p p' \<Longrightarrow> pool_reachable n p'"

section \<open>Counting workers\<close>

definition workers_in :: "('task worker \<Rightarrow> bool) \<Rightarrow> 'task ThreadPool \<Rightarrow> nat" where
  "workers_in P p = length (filter P (tp_workers p))"

fun running_task :: "'task worker \<Rightarrow> 'task multiset" where
  "running_task (Running task) = {#task#}"
| "running_task _ = {#}"

definition running :: "'task ThreadPool \<Rightarrow> 'task multiset" where
  "running p = sum_list (map running_task (tp_workers p))"

lemma list_update_split: "i < length ws \<Longrightarrow> \<exists>us vs. ws = us @ ws ! i # vs \<and> (\<forall>w. ws[i := w] = us @ w # vs)"
  by (intro exI [of _ "take i ws"] exI [of _ "drop (Suc i) ws"]) (simp add: id_take_nth_drop upd_conv_take_nth_drop)

lemma count_update:
  assumes "i < length ws"
  shows "length (filter P (ws[i := w])) + (if P (ws ! i) then 1 else 0) = length (filter P ws) + (if P w then 1 else 0)"
proof -
  obtain us vs where e: "ws = us @ ws ! i # vs" "ws[i := w] = us @ w # vs" using list_update_split [OF assms] by blast
  have "length (filter P ws) = length (filter P us) + (length (filter P vs) + (if P (ws ! i) then 1 else 0))"
    by (subst e(1)) simp
  then show ?thesis by (simp add: e(2))
qed

lemma running_update:
  assumes "i < length ws"
  shows "sum_list (map running_task (ws[i := w])) + running_task (ws ! i) = sum_list (map running_task ws) + running_task w"
proof -
  obtain us vs where e: "ws = us @ ws ! i # vs" "ws[i := w] = us @ w # vs" using list_update_split [OF assms] by blast
  have "sum_list (map running_task ws) = sum_list (map running_task us) + (running_task (ws ! i) + sum_list (map running_task vs))"
    by (subst e(1)) simp
  then show ?thesis by (simp add: e(2) ac_simps)
qed

lemma count_zero: "length (filter P ws) = 0 \<longleftrightarrow> (\<forall>w \<in> set ws. \<not> P w)"
  by (simp add: filter_empty_conv)

section \<open>The invariant\<close>

abbreviation sleepers :: "'task ThreadPool \<Rightarrow> nat" where
  "sleepers p \<equiv> workers_in (\<lambda>w. w = Sleeping) p"

abbreviation lockers :: "'task ThreadPool \<Rightarrow> nat" where
  "lockers p \<equiv> workers_in (\<lambda>w. w = AtLock) p"

text \<open>
  No wake-up is lost: while a worker sleeps, every queued task has a worker on its way to the queue or a
  notification that is still to come, and once the pool is stopped, sleepers have the last one to come.
\<close>

definition awake :: "'task ThreadPool \<Rightarrow> bool" where
  "awake p \<longleftrightarrow> (sleepers p = 0 \<or> length (tp_tasks p) \<le> lockers p + tp_pending p) \<and> (tp_stop p \<longrightarrow> sleepers p = 0 \<or> tp_notify_all p)"

definition accounted :: "'task ThreadPool \<Rightarrow> bool" where
  "accounted p \<longleftrightarrow> tp_started p @ tp_tasks p = tp_accepted p \<and> mset (tp_started p) = mset (tp_finished p) + running p"

definition pool_ok :: "nat \<Rightarrow> 'task ThreadPool \<Rightarrow> bool" where
  "pool_ok n p \<longleftrightarrow> length (tp_workers p) = n \<and> awake p \<and> accounted p \<and> (tp_notify_all p \<longrightarrow> tp_stop p) \<and>
     (Exited \<in> set (tp_workers p) \<longrightarrow> tp_stop p \<and> tp_tasks p = [])"

lemma set_update_worker: "x \<in> set (ws[i := w]) \<Longrightarrow> x = w \<or> x \<in> set ws"
  using set_update_subset_insert by fastforce

lemma new_pool_ok: "pool_ok n (new_ThreadPool n)"
  by (induction n) (auto simp: pool_ok_def new_ThreadPool_def awake_def accounted_def workers_in_def running_def)

lemma wake_ok:
  assumes "pool_ok n p" "i < length (tp_workers p)" "tp_workers p ! i = Sleeping"
  shows "pool_ok n (p\<lparr>tp_workers := (tp_workers p)[i := AtLock]\<rparr>)"
    "sleepers p = Suc (sleepers (p\<lparr>tp_workers := (tp_workers p)[i := AtLock]\<rparr>))"
    "lockers (p\<lparr>tp_workers := (tp_workers p)[i := AtLock]\<rparr>) = Suc (lockers p)"
proof -
  let ?p = "p\<lparr>tp_workers := (tp_workers p)[i := AtLock]\<rparr>"
  show s: "sleepers p = Suc (sleepers ?p)" "lockers ?p = Suc (lockers p)"
    using count_update [OF assms(2), of "\<lambda>w. w = Sleeping" AtLock] count_update [OF assms(2), of "\<lambda>w. w = AtLock" AtLock] assms(3)
    by (simp_all add: workers_in_def)
  have "running ?p = running p" using running_update [OF assms(2), of AtLock] assms(3) by (simp add: running_def)
  then show "pool_ok n ?p"
    using assms(1) s by (auto simp: pool_ok_def awake_def accounted_def dest!: set_update_worker)
qed

lemma notify_ok:
  assumes "pool_ok n p" "tp_pending p > 0" "i < length (tp_workers p) \<and> tp_workers p ! i = Sleeping \<or> Sleeping \<notin> set (tp_workers p)"
  shows "pool_ok n (notify_one i p)"
proof (cases "i < length (tp_workers p) \<and> tp_workers p ! i = Sleeping")
  case True
  note w = wake_ok [OF assms(1), of i]
  have "pool_ok n (p\<lparr>tp_pending := tp_pending p - 1, tp_workers := (tp_workers p)[i := AtLock]\<rparr>)"
    using w True assms(1,2) by (auto simp: pool_ok_def awake_def accounted_def workers_in_def running_def)
  then show ?thesis using True by (simp add: notify_one_def)
next
  case False
  then have "sleepers p = 0" using assms(3) by (auto simp: workers_in_def filter_empty_conv)
  then show ?thesis
    using assms(1) False by (auto simp: notify_one_def pool_ok_def awake_def accounted_def workers_in_def running_def)
qed

lemma lock_ok:
  assumes "pool_ok n p" "i < length (tp_workers p)" "tp_workers p ! i = AtLock"
  shows "pool_ok n (worker_lock i p)"
proof -
  note c = count_update [OF assms(2), of "\<lambda>w. w = Sleeping"] count_update [OF assms(2), of "\<lambda>w. w = AtLock"]
  note r = running_update [OF assms(2)]
  consider "\<not> tp_stop p" "tp_tasks p = []" | "tp_stop p" "tp_tasks p = []" | task rest where "tp_tasks p = task # rest"
    by (cases "tp_tasks p") auto
  then show ?thesis
  proof cases
    case 1
    then show ?thesis
      using assms r [of Sleeping] by (auto simp: worker_lock_def pool_ok_def awake_def accounted_def running_def dest!: set_update_worker)
  next
    case 2
    then show ?thesis
      using assms r [of Exited] c(1) [of Exited] by (auto simp: worker_lock_def pool_ok_def awake_def accounted_def running_def workers_in_def dest!: set_update_worker)
  next
    case (3 task rest)
    let ?p = "p\<lparr>tp_tasks := rest, tp_workers := (tp_workers p)[i := Running task], tp_started := tp_started p @ [task]\<rparr>"
    have eq: "worker_lock i p = ?p" using 3 by (simp add: worker_lock_def)
    have cnt: "sleepers ?p = sleepers p" "Suc (lockers ?p) = lockers p"
      using c(1) [of "Running task"] c(2) [of "Running task"] assms(3) by (simp_all add: workers_in_def)
    have "running ?p = running p + {#task#}" using r [of "Running task"] assms(3) by (simp add: running_def)
    then have "accounted ?p" using assms(1) 3 by (simp add: pool_ok_def accounted_def)
    moreover have "awake ?p" using assms(1) 3 cnt by (auto simp: pool_ok_def awake_def)
    ultimately show ?thesis unfolding eq using assms(1) 3 by (auto simp: pool_ok_def dest!: set_update_worker)
  qed
qed

lemma finish_ok:
  assumes "pool_ok n p" "i < length (tp_workers p)" "tp_workers p ! i = Running task"
  shows "pool_ok n (worker_finish i task p)"
proof -
  let ?p = "worker_finish i task p"
  have "sleepers ?p = sleepers p" "lockers ?p = Suc (lockers p)"
    using count_update [OF assms(2), of "\<lambda>w. w = Sleeping" AtLock] count_update [OF assms(2), of "\<lambda>w. w = AtLock" AtLock] assms(3)
    by (simp_all add: workers_in_def worker_finish_def)
  moreover have "running p = running ?p + {#task#}"
    using running_update [OF assms(2), of AtLock] assms(3) by (simp add: running_def worker_finish_def)
  ultimately show ?thesis
    using assms(1) by (auto simp: pool_ok_def awake_def accounted_def worker_finish_def dest!: set_update_worker)
qed

lemma notify_all_ok:
  assumes "pool_ok n p" "tp_notify_all p"
  shows "pool_ok n (notify_all p)"
proof -
  have "sleepers (notify_all p) = 0" by (auto simp: workers_in_def notify_all_def filter_empty_conv)
  moreover have "running_task (if w = Sleeping then AtLock else w) = running_task w" for w :: "'a worker" by simp
  then have "running (notify_all p) = running p" by (simp add: running_def notify_all_def comp_def)
  moreover have "Exited \<in> set (tp_workers (notify_all p)) \<longleftrightarrow> Exited \<in> set (tp_workers p)" by (auto simp: notify_all_def split: if_splits)
  ultimately show ?thesis using assms by (auto simp: pool_ok_def awake_def accounted_def notify_all_def)
qed

lemma work_ok: "work p p' \<Longrightarrow> pool_ok n p \<Longrightarrow> pool_ok n p'"
  by (induction rule: work.induct) (auto intro: notify_ok lock_ok finish_ok notify_all_ok)

lemma pool_step_ok: "pool_step p p' \<Longrightarrow> pool_ok n p \<Longrightarrow> pool_ok n p'"
proof (induction rule: pool_step.induct)
  case (enqueued task p p')
  then show ?case
    by (auto simp: enqueue_def pool_ok_def awake_def accounted_def workers_in_def running_def split: if_splits)
next
  case (stopping p)
  then show ?case by (auto simp: stop_pool_def pool_ok_def awake_def accounted_def workers_in_def running_def)
qed (auto intro: work_ok wake_ok)

lemma pool_reachable_ok: "pool_reachable n p \<Longrightarrow> pool_ok n p"
  by (induction rule: pool_reachable.induct) (auto intro: new_pool_ok pool_step_ok)

section \<open>Shutdown\<close>

text \<open>A bound on the steps of a stopped pool: two for every queued task, one for every task that runs, every
  worker that has not returned, every sleeper and every notification.\<close>

definition shutdown_steps :: "'task ThreadPool \<Rightarrow> nat" where
  "shutdown_steps p = 2 * length (tp_tasks p) + workers_in (\<lambda>w. \<exists>task. w = Running task) p + workers_in (\<lambda>w. w \<noteq> Exited) p +
     sleepers p + tp_pending p + (if tp_notify_all p then 1 else 0)"

lemma count_map_awake:
  "(\<lambda>w. \<exists>task. w = Running task) \<circ> (\<lambda>w. if w = Sleeping then AtLock else w) = (\<lambda>w. \<exists>task. w = Running task)"
  "(\<lambda>w. w \<noteq> Exited) \<circ> (\<lambda>w. if w = Sleeping then AtLock else w) = (\<lambda>w. w \<noteq> Exited)"
  "(\<lambda>w. w = Sleeping) \<circ> (\<lambda>w. if w = Sleeping then AtLock else w) = (\<lambda>w. False)"
  by (auto simp: fun_eq_iff)

lemma work_stopped:
  assumes "work p p'" "tp_stop p"
  shows "tp_stop p' \<and> tp_accepted p' = tp_accepted p \<and> shutdown_steps p' < shutdown_steps p"
  using assms
proof (induction rule: work.induct)
  case (notify p i)
  show ?case
  proof (cases "i < length (tp_workers p) \<and> tp_workers p ! i = Sleeping")
    case True
    then show ?thesis
      using notify count_update [of i "tp_workers p" "\<lambda>w. w = Sleeping" AtLock] count_update [of i "tp_workers p" "\<lambda>w. w \<noteq> Exited" AtLock]
        count_update [of i "tp_workers p" "\<lambda>w. \<exists>task. w = Running task" AtLock]
      by (simp add: notify_one_def shutdown_steps_def workers_in_def)
  next
    case False
    then show ?thesis using notify by (auto simp: notify_one_def shutdown_steps_def workers_in_def)
  qed
next
  case (lock i p)
  note c = count_update [OF lock(1), of "\<lambda>w. w = Sleeping"] count_update [OF lock(1), of "\<lambda>w. w \<noteq> Exited"]
    count_update [OF lock(1), of "\<lambda>w. \<exists>task. w = Running task"]
  show ?case
  proof (cases "tp_tasks p")
    case Nil
    then show ?thesis using lock c(1) [of Exited] c(2) [of Exited] c(3) [of Exited]
      by (simp add: worker_lock_def shutdown_steps_def workers_in_def)
  next
    case (Cons task rest)
    then show ?thesis using lock c(1) [of "Running task"] c(2) [of "Running task"] c(3) [of "Running task"]
      by (simp add: worker_lock_def shutdown_steps_def workers_in_def)
  qed
next
  case (finish i p task)
  then show ?case
    using count_update [OF finish(1), of "\<lambda>w. w = Sleeping" AtLock] count_update [OF finish(1), of "\<lambda>w. w \<noteq> Exited" AtLock]
      count_update [OF finish(1), of "\<lambda>w. \<exists>task. w = Running task" AtLock]
    by (simp add: worker_finish_def shutdown_steps_def workers_in_def)
next
  case (wake_all p)
  then show ?case by (simp add: notify_all_def shutdown_steps_def workers_in_def filter_map count_map_awake)
qed

lemma stuck_pool:
  assumes "pool_ok n p" "0 < n" "\<nexists>p'. work p p'"
  shows "tp_tasks p = []" "running p = {#}" "tp_stop p \<Longrightarrow> joined p"
proof -
  have idle: "w = Sleeping \<or> w = Exited" if w: "w \<in> set (tp_workers p)" for w
  proof -
    obtain i where "i < length (tp_workers p)" "tp_workers p ! i = w" using w by (metis in_set_conv_nth)
    then show ?thesis using assms(3) work.lock [of i p] work.finish [of i p] by (cases w) auto
  qed
  have all: "\<not> tp_notify_all p" using assms(3) work.wake_all by blast
  have pending: "tp_pending p = 0"
  proof (rule ccontr)
    assume "tp_pending p \<noteq> 0"
    moreover obtain i where "i < length (tp_workers p) \<and> tp_workers p ! i = Sleeping \<or> Sleeping \<notin> set (tp_workers p)"
      by (auto simp: in_set_conv_nth)
    ultimately show False using assms(3) work.notify [of p i] by auto
  qed
  have lock: "lockers p = 0" using idle by (auto simp: workers_in_def filter_empty_conv)
  have exit: "set (tp_workers p) = {Exited}" if none: "sleepers p = 0"
  proof -
    have "w = Exited" if "w \<in> set (tp_workers p)" for w
      using none idle [OF that] that by (auto simp: workers_in_def filter_empty_conv)
    moreover have "tp_workers p \<noteq> []" using assms(1,2) by (auto simp: pool_ok_def)
    ultimately show ?thesis by (cases "tp_workers p") auto
  qed
  show "tp_tasks p = []"
    using assms(1) exit pending lock by (cases "sleepers p = 0") (auto simp: pool_ok_def awake_def)
  have "running_task w = {#}" if "w \<in> set (tp_workers p)" for w using idle [OF that] by auto
  then show "running p = {#}" by (simp add: running_def sum_list_0 cong: map_cong)
  show "joined p" if "tp_stop p"
    using that all exit assms(1) by (auto simp: joined_def pool_ok_def awake_def list_all_iff)
qed

lemma work_steps_bound:
  "(work ^^ k) p p' \<Longrightarrow> tp_stop p \<Longrightarrow> tp_stop p' \<and> tp_accepted p' = tp_accepted p \<and> shutdown_steps p' + k \<le> shutdown_steps p"
proof (induction k arbitrary: p')
  case (Suc k)
  then obtain q where "(work ^^ k) p q" "work q p'" by auto
  then show ?case using Suc.IH [of q] work_stopped [of q p'] Suc.prems(2) by auto
qed simp

lemma drain:
  assumes "0 < n"
  shows "pool_ok n p \<Longrightarrow> tp_stop p \<Longrightarrow> \<exists>p'. work\<^sup>*\<^sup>* p p' \<and> pool_ok n p' \<and> tp_stop p' \<and> tp_accepted p' = tp_accepted p \<and> (\<nexists>q. work p' q)"
proof (induction "shutdown_steps p" arbitrary: p rule: less_induct)
  case less
  show ?case
  proof (cases "\<exists>q. work p q")
    case False
    then show ?thesis using less.prems by blast
  next
    case True
    then obtain q where q: "work p q" by blast
    then obtain p' where "work\<^sup>*\<^sup>* q p'" "pool_ok n p'" "tp_stop p'" "tp_accepted p' = tp_accepted q" "\<nexists>q. work p' q"
      using less.hyps [of q] work_stopped [OF q less.prems(2)] work_ok [OF q less.prems(1)] by blast
    then show ?thesis using q work_stopped [OF q less.prems(2)] by (metis converse_rtranclp_into_rtranclp)
  qed
qed

section \<open>The miners\<close>

lemma start_enqueues:
  "\<exists>p. foldl (\<lambda>r i. bindE r (enqueue ())) (Inr (new_ThreadPool n)) [0..<k] = Inr p \<and> pool_reachable n p \<and> \<not> tp_stop p \<and>
    length (tp_accepted p) = k"
proof (induction k)
  case 0
  then show ?case by (auto simp: new_ThreadPool_def intro: pool_reachable.created [unfolded new_ThreadPool_def])
next
  case (Suc k)
  then obtain p where p: "foldl (\<lambda>r i. bindE r (enqueue ())) (Inr (new_ThreadPool n)) [0..<k] = Inr p" "pool_reachable n p" "\<not> tp_stop p"
    "length (tp_accepted p) = k" by blast
  then obtain p' where "enqueue () p = Inr p'" "\<not> tp_stop p'" "length (tp_accepted p') = Suc k" by (simp add: enqueue_def)
  then show ?case using p by (auto intro: pool_reachable.stepped pool_step.enqueued)
qed

lemma step_accepted: "pool_step p p' \<Longrightarrow> length (tp_accepted p) \<le> length (tp_accepted p')"
  by (induction rule: pool_step.induct)
    (auto simp: enqueue_def stop_pool_def notify_one_def worker_lock_def worker_finish_def notify_all_def Let_def elim!: workE split: if_splits)

lemma joined_finished:
  assumes "pool_ok n p" "0 < n" "joined p"
  shows "mset (tp_finished p) = mset (tp_accepted p)"
proof -
  have "tp_workers p \<noteq> []" "\<forall>w \<in> set (tp_workers p). w = Exited" using assms by (auto simp: pool_ok_def joined_def list_all_iff)
  then have "Exited \<in> set (tp_workers p)" "map running_task (tp_workers p) = map (\<lambda>_. {#}) (tp_workers p)" by (cases "tp_workers p"; auto)+
  then have "tp_tasks p = []" "running p = {#}" using assms(1) by (simp_all add: pool_ok_def running_def sum_list_0 cong: map_cong)
  then show ?thesis using assms(1) by (auto simp: pool_ok_def accounted_def)
qed

text \<open>
  The tasks of \<open>Blockchain::start\<close> never return, so that the destructor of the pool, which \<open>~Blockchain\<close> and a
  second \<open>start\<close> call, never does: as long as no task has finished, the threads cannot be joined.
\<close>

lemma miners_never_joined:
  assumes "start hw k = Inr p" "pool_step\<^sup>*\<^sup>* p p'" "tp_finished p' = []" "0 < (if k = 0 then hw else k)"
  shows "\<not> joined p'"
proof
  assume j: "joined p'"
  let ?n = "if k = 0 then hw else k"
  have p: "pool_reachable ?n p" "length (tp_accepted p) = ?n" using assms(1) start_enqueues [of ?n ?n] by (auto simp: start_def Let_def)
  from assms(2) p(1) have "pool_reachable ?n p' \<and> length (tp_accepted p) \<le> length (tp_accepted p')"
    by (induction rule: rtranclp_induct) (auto intro: pool_reachable.stepped dest: step_accepted)
  then show False using joined_finished [OF pool_reachable_ok assms(4) j] assms(3,4) p(2) by auto
qed

section \<open>Properties\<close>

text \<open>
  C21: the pool starts the tasks it has accepted in their order, each once: at every moment the started
  tasks followed by the queued ones are the accepted ones, and every started task runs in a worker or has
  finished. No more tasks run than there are threads.
\<close>

theorem pool_fifo:
  assumes "pool_reachable n p"
  shows "tp_started p @ tp_tasks p = tp_accepted p \<and> mset (tp_accepted p) = mset (tp_tasks p) + running p + mset (tp_finished p) \<and>
    size (running p) \<le> n"
proof -
  have ok: "pool_ok n p" using pool_reachable_ok [OF assms] .
  have "size (sum_list (map running_task ws)) \<le> length ws" for ws :: "'a worker list"
  proof (induction ws)
    case (Cons w ws)
    then show ?case by (cases w) auto
  qed simp
  then have "size (running p) \<le> n" using ok by (metis pool_ok_def running_def)
  moreover have "mset (tp_accepted p) = mset (tp_started p) + mset (tp_tasks p)"
    using ok by (metis accounted_def mset_append pool_ok_def)
  ultimately show ?thesis using ok by (simp add: pool_ok_def accounted_def ac_simps)
qed

theorem pool_fifo_witness:
  "\<exists>p. pool_reachable 1 p \<and> tp_started p @ tp_tasks p = [''a'', ''b''] \<and> running p = {#''a''#} \<and> tp_tasks p = [''b'']"
proof -
  define p0 :: "string ThreadPool" where "p0 = new_ThreadPool 1"
  define p1 where "p1 = p0\<lparr>tp_tasks := [''a''], tp_pending := 1, tp_accepted := [''a'']\<rparr>"
  define p2 where "p2 = p1\<lparr>tp_tasks := [''a'', ''b''], tp_pending := 2, tp_accepted := [''a'', ''b'']\<rparr>"
  have "enqueue ''a'' p0 = Inr p1" "enqueue ''b'' p1 = Inr p2" by (simp_all add: enqueue_def new_ThreadPool_def p2_def p1_def p0_def)
  then have "pool_reachable 1 p2"
    using pool_reachable.created [of 1] unfolding p0_def by (blast intro: pool_reachable.stepped pool_step.enqueued)
  moreover have "work p2 (worker_lock 0 p2)" by (rule work.lock) (simp_all add: p2_def p1_def p0_def new_ThreadPool_def)
  ultimately have r: "pool_reachable 1 (worker_lock 0 p2)" by (blast intro: pool_reachable.stepped pool_step.working)
  then show ?thesis
    using pool_fifo [OF r] by (intro exI [of _ "worker_lock 0 p2"]) (simp add: worker_lock_def p2_def p1_def p0_def new_ThreadPool_def running_def Let_def)
qed

text \<open>
  C19: no wake-up is lost. In a pool with a thread, when no worker can go on, no notification is to come
  and no task runs, the queue is empty; if the pool was stopped, all threads have returned, so that the
  destructor does too, and every accepted task has finished.
\<close>

theorem pool_never_stuck:
  assumes "pool_reachable n p" "0 < n" "\<nexists>p'. work p p'"
  shows "tp_tasks p = [] \<and> mset (tp_finished p) = mset (tp_accepted p) \<and> (tp_stop p \<longrightarrow> joined p)"
proof -
  have ok: "pool_ok n p" using pool_reachable_ok [OF assms(1)] .
  note s = stuck_pool [OF ok assms(2,3)]
  show ?thesis using s ok by (auto simp: pool_ok_def accounted_def)
qed

lemma exited_pool:
  "\<exists>p. pool_reachable 1 (p :: nat ThreadPool) \<and> (\<nexists>p'. work p p') \<and> tp_stop p"
proof -
  define p0 :: "nat ThreadPool" where "p0 = stop_pool (new_ThreadPool 1)"
  have r: "pool_reachable 1 p0"
    unfolding p0_def by (rule pool_reachable.stepped [OF pool_reachable.created]) (rule pool_step.stopping, simp add: new_ThreadPool_def)
  have "tp_stop p0" by (simp add: p0_def stop_pool_def)
  then obtain p where p: "work\<^sup>*\<^sup>* p0 p" "tp_stop p" "\<nexists>q. work p q" using drain [of 1 p0] pool_reachable_ok [OF r] by auto
  have "pool_reachable 1 p" using p(1) r by (induction rule: rtranclp_induct) (auto intro: pool_reachable.stepped pool_step.working)
  then show ?thesis using p(2,3) by blast
qed

theorem pool_never_stuck_witness: "\<exists>p. pool_reachable 1 (p :: nat ThreadPool) \<and> tp_tasks p = [] \<and> joined p"
proof -
  obtain p :: "nat ThreadPool" where p: "pool_reachable 1 p" "\<nexists>p'. work p p'" "tp_stop p" using exited_pool by blast
  then show ?thesis using pool_never_stuck [OF p(1) _ p(2)] by auto
qed

text \<open>
  C20: once the pool is stopped, its threads come to an end: every run of them, with tasks that return, has
  at most \<open>shutdown_steps\<close> steps, nothing is accepted any more, and a run exists that ends with all threads
  joined and every accepted task finished.
\<close>

theorem pool_shutdown_terminates:
  assumes "pool_reachable n p" "0 < n" "tp_stop p"
  shows "(\<forall>k p'. (work ^^ k) p p' \<longrightarrow> k \<le> shutdown_steps p) \<and> (\<forall>task. enqueue task p = Inl EnqueueOnStopped) \<and>
    (\<exists>p'. work\<^sup>*\<^sup>* p p' \<and> joined p' \<and> mset (tp_finished p') = mset (tp_accepted p))"
proof (intro conjI allI impI)
  fix k p' assume "(work ^^ k) p p'"
  then show "k \<le> shutdown_steps p" using work_steps_bound [OF _ assms(3)] by fastforce
next
  show "enqueue task p = Inl EnqueueOnStopped" for task using assms(3) by (simp add: enqueue_def)
  obtain p' where p': "work\<^sup>*\<^sup>* p p'" "pool_ok n p'" "tp_stop p'" "tp_accepted p' = tp_accepted p" "\<nexists>q. work p' q"
    using drain [OF assms(2) pool_reachable_ok [OF assms(1)] assms(3)] by blast
  note s = stuck_pool [OF p'(2) assms(2) p'(5)]
  have "mset (tp_finished p') = mset (tp_accepted p)"
    using p'(2,4) s(1,2) by (auto simp: pool_ok_def accounted_def)
  then show "\<exists>p'. work\<^sup>*\<^sup>* p p' \<and> joined p' \<and> mset (tp_finished p') = mset (tp_accepted p)" using p'(1,3) s(3) by blast
qed

theorem pool_shutdown_terminates_witness:
  "\<exists>p p' :: nat ThreadPool. pool_reachable 1 p \<and> tp_stop p \<and> work\<^sup>*\<^sup>* p p' \<and> joined p'"
proof -
  obtain p :: "nat ThreadPool" where p: "pool_reachable 1 p" "tp_stop p" using exited_pool by blast
  then show ?thesis using pool_shutdown_terminates [OF p(1) _ p(2)] by auto
qed

end
