(* ===== verification/Common.thy ===== *)
theory Common
  imports Prelude
begin

text \<open>
  Helpers of \<open>libs/common/common.h\<close>: replacing and splitting strings, and the generator of ids. Positions are
  natural numbers and \<open>npos\<close> is \<open>None\<close>. The replacement loop may run forever and is a partial function. The
  generator keeps its static variables in a record; the readings of the clock are arguments, those of its
  waiting loop as a list.

  The lemmas show that replacing is splitting and joining, that splitting loses nothing, and for how long
  the ids are different.
\<close>

section \<open>Definitions\<close>

text \<open>\<open>std::string::find\<close> and \<open>std::search\<close>: the first position of a pattern.\<close>

fun search :: "'a list \<Rightarrow> 'a list \<Rightarrow> nat option" where
  "search c [] = (if c = [] then Some 0 else None)"
| "search c (x # xs) = (if take (length c) (x # xs) = c then Some 0 else map_option Suc (search c xs))"

definition str_find :: "'a list \<Rightarrow> 'a list \<Rightarrow> nat \<Rightarrow> nat option" where
  "str_find str pattern pos = (if pos > length str then None else map_option ((+) pos) (search pattern (drop pos str)))"

partial_function (option) replace_loop :: "'a list \<Rightarrow> 'a list \<Rightarrow> 'a list \<Rightarrow> nat option \<Rightarrow> int \<Rightarrow> (int \<times> 'a list) option" where
  "replace_loop pattern newpat str pos count =
     (case pos of
        None \<Rightarrow> Some (count, str)
      | Some p \<Rightarrow>
          let str = take p str @ newpat @ drop (p + length pattern) str
          in replace_loop pattern newpat str (str_find str pattern (p + length newpat)) (count + 1))"

definition p2pclouds_replace :: "'a list \<Rightarrow> 'a list \<Rightarrow> 'a list \<Rightarrow> (int \<times> 'a list) option" where
  "p2pclouds_replace str pattern newpat = replace_loop pattern newpat str (str_find str pattern 0) 0"

lemma search_bound: "search c s = Some i \<Longrightarrow> i + length c \<le> length s"
proof (induction c s arbitrary: i rule: search.induct)
  case (2 c x xs)
  show ?case
  proof (cases "take (length c) (x # xs) = c")
    case True
    then have "min (Suc (length xs)) (length c) = length c" using length_take [of "length c" "x # xs"] by simp
    then show ?thesis using "2.prems" True by (simp add: min_def split: if_splits)
  next
    case False
    then show ?thesis using 2 by auto
  qed
qed (auto split: if_splits)

text \<open>The loop of the split by a character, on the rest of the string from the position \<open>i\<close>.\<close>

function split_char_loop :: "'a \<Rightarrow> 'a list \<Rightarrow> 'a list list \<Rightarrow> 'a list list" where
  "split_char_loop c s v =
     (case search [c] s of
        Some j \<Rightarrow>
          let buf = take j s; v = (if length buf > 0 then v @ [buf] else v)
          in split_char_loop c (drop (j + 1) s) v
      | None \<Rightarrow> (if length s > 0 then v @ [s] else v))"
  by pat_completeness auto
termination
  by (relation "measure (\<lambda>(c, s, v). length s)") (auto dest!: search_bound)

definition p2pclouds_split_char :: "'a list \<Rightarrow> 'a \<Rightarrow> 'a list list" where
  "p2pclouds_split_char s c = (if length s = 0 then [] else split_char_loop c s [])"

function split_loop :: "'a list \<Rightarrow> bool \<Rightarrow> 'a list \<Rightarrow> 'a list list \<Rightarrow> 'a list list" where
  "split_loop c keep_empty s v =
     (if c = [] then v
      else case search c s of
        Some i \<Rightarrow>
          let temp = take i s; v = (if keep_empty \<or> temp \<noteq> [] then v @ [temp] else v)
          in split_loop c keep_empty (drop (i + length c) s) v
      | None \<Rightarrow> (if keep_empty \<or> s \<noteq> [] then v @ [s] else v))"
  by pat_completeness auto
termination
  by (relation "measure (\<lambda>(c, k, s, v). length s)") (auto dest!: search_bound simp: neq_Nil_conv)

definition p2pclouds_split :: "'a list \<Rightarrow> 'a list \<Rightarrow> bool \<Rightarrow> 'a list list" where
  "p2pclouds_split s c keep_empty = (if c = [] then [s] else split_loop c keep_empty s [])"

declare split_char_loop.simps [simp del] split_loop.simps [simp del]

subsection \<open>Ids\<close>

record uuid_state =
  u_workid :: "32 word"
  u_seqid :: "32 word"
  u_last_stamp :: uint64

datatype uuid_error = ClockWentBack | StillWaiting

fun wait_later :: "uint64 \<Rightarrow> uint64 list \<Rightarrow> uint64 option" where
  "wait_later last_stamp [] = None"
| "wait_later last_stamp (nowtime # later) = (if nowtime \<le> last_stamp then wait_later last_stamp later else Some nowtime)"

definition uuid :: "uint64 \<Rightarrow> uint64 list \<Rightarrow> uuid_state \<Rightarrow> (uuid_error, uint64 \<times> uuid_state) result" where
  "uuid nowtime later st =
     (let uniqueId = push_bit 22 nowtime;
          uniqueId = uniqueId OR ucast (push_bit 12 (u_workid st AND 0x3ff))
      in if nowtime < u_last_stamp st then Inl ClockWentBack
         else
           bindE (if nowtime = u_last_stamp st
                  then let seqid = u_seqid st + 1
                       in if u_seqid st = 0x1000
                          then (case wait_later (u_last_stamp st) later of
                                  None \<Rightarrow> Inl StillWaiting
                                | Some nowtime \<Rightarrow> Inr (nowtime, 0))
                          else Inr (nowtime, seqid)
                  else Inr (nowtime, 0)) (\<lambda>(nowtime, seqid).
           Inr (uniqueId OR ucast (seqid AND 0xFFF), st\<lparr>u_seqid := seqid, u_last_stamp := nowtime\<rparr>)))"

section \<open>Strings\<close>

text \<open>The pieces of a string between the occurrences of a pattern.\<close>

definition pieces :: "'a list \<Rightarrow> 'a list \<Rightarrow> 'a list list" where
  "pieces c s = p2pclouds_split s c True"

fun join :: "'a list \<Rightarrow> 'a list list \<Rightarrow> 'a list" where
  "join c [] = []"
| "join c [x] = x"
| "join c (x # xs) = x @ c @ join c xs"

lemma split_loop_acc: "split_loop c True s v = v @ split_loop c True s []"
proof (induction "length s" arbitrary: s v rule: less_induct)
  case less
  show ?case
  proof (cases "c = [] \<or> search c s = None")
    case True
    then show ?thesis by (auto simp: split_loop.simps [of c True s])
  next
    case False
    then obtain i where i: "c \<noteq> []" "search c s = Some i" by auto
    let ?s = "drop (i + length c) s"
    have "length ?s < length s" using search_bound [OF i(2)] i(1) by (cases c) auto
    from less [OF this, of "v @ [take i s]"] less [OF this, of "[take i s]"] show ?thesis
      using i by (simp add: split_loop.simps [of c True s])
  qed
qed

lemma pieces_eq:
  assumes "c \<noteq> []"
  shows "pieces c s = (case search c s of None \<Rightarrow> [s] | Some i \<Rightarrow> take i s # pieces c (drop (i + length c) s))"
  using assms split_loop_acc [of c _ "[take _ s]"]
  by (simp add: pieces_def p2pclouds_split_def split_loop.simps [of c True s] split: option.splits)

lemma pieces_ne: "c \<noteq> [] \<Longrightarrow> pieces c s \<noteq> []"
  by (subst pieces_eq) (auto split: option.splits)

lemma join_Cons: "xs \<noteq> [] \<Longrightarrow> join c (x # xs) = x @ c @ join c xs"
  by (cases xs) auto

lemma search_found: "search c s = Some i \<Longrightarrow> take (length c) (drop i s) = c"
  by (induction c s arbitrary: i rule: search.induct) (auto split: if_splits)

text \<open>Splitting at a pattern and joining the pieces with it gives the string back.\<close>

lemma join_pieces:
  assumes "c \<noteq> []"
  shows "join c (pieces c s) = s"
proof (induction "length s" arbitrary: s rule: less_induct)
  case less
  show ?case
  proof (cases "search c s")
    case (Some i)
    let ?s = "drop (i + length c) s"
    have "length ?s < length s" using search_bound [OF Some] assms by (cases c) auto
    then have "join c (pieces c ?s) = ?s" by (rule less)
    moreover have "take i s @ take (length c) (drop i s) @ ?s = s"
      by (metis append_take_drop_id drop_drop add.commute)
    ultimately show ?thesis
      using Some assms search_found [OF Some] by (simp add: pieces_eq [of c s] join_Cons pieces_ne)
  qed (use assms in \<open>simp add: pieces_eq [of c s]\<close>)
qed

lemma replace_loop_join:
  assumes "c \<noteq> []"
  shows "replace_loop c n (d @ s) (map_option ((+) (length d)) (search c s)) count =
    Some (count + int (length (pieces c s)) - 1, d @ join n (pieces c s))"
proof (induction "length s" arbitrary: s d count rule: less_induct)
  case less
  show ?case
  proof (cases "search c s")
    case None
    then show ?thesis using assms by (simp add: pieces_eq [of c s] replace_loop.simps)
  next
    case (Some i)
    let ?s = "drop (i + length c) s" and ?d = "d @ take i s @ n"
    have b: "i + length c \<le> length s" using search_bound [OF Some] .
    then have lt: "length ?s < length s" using assms by (cases c) auto
    have len: "length ?d = length d + i + length n" using b by simp
    have f: "str_find (?d @ ?s) c (length d + i + length n) = map_option ((+) (length ?d)) (search c ?s)"
      unfolding len [symmetric] by (simp only: str_find_def append_eq_conv_conj) simp
    have "take (length d + i) (d @ s) @ n @ drop (length d + i + length c) (d @ s) = ?d @ ?s"
      using b by (simp add: add.assoc)
    then have "replace_loop c n (d @ s) (Some (length d + i)) count =
        replace_loop c n (?d @ ?s) (map_option ((+) (length ?d)) (search c ?s)) (count + 1)"
      unfolding f [symmetric] by (subst replace_loop.simps) (simp only: option.case Let_def)
    then show ?thesis
      using less [OF lt, of ?d "count + 1"] Some assms by (simp add: pieces_eq [of c s] join_Cons pieces_ne)
  qed
qed

text \<open>
  For every pattern that is not empty, the replacement ends; the result is the pieces between the
  occurrences joined with the new text, and the count is the number of occurrences.
\<close>

theorem replace_is_split_join:
  assumes "pattern \<noteq> []"
  shows "p2pclouds_replace str pattern newpat = Some (int (length (pieces pattern str)) - 1, join newpat (pieces pattern str)) \<and>
    join pattern (pieces pattern str) = str"
  using replace_loop_join [OF assms, of newpat "[]" str 0] join_pieces [OF assms]
  by (simp add: p2pclouds_replace_def str_find_def)

section \<open>Ids\<close>

text \<open>The id of the millisecond \<open>t\<close> with the number \<open>s\<close>.\<close>

definition ident :: "nat \<Rightarrow> nat \<Rightarrow> uint64" where
  "ident t s = of_nat (t * 2 ^ 22 + 2 ^ 12 + s)"

lemma id_word:
  assumes "t < 2 ^ 42"
  shows "(push_bit 22 (of_nat t :: uint64) OR 4096) OR ucast (take_bit 12 (of_nat s :: 32 word)) = ident t (s mod 2 ^ 12)"
proof -
  define a :: uint64 where "a = push_bit 22 (of_nat t)"
  define c :: uint64 where "c = ucast (take_bit 12 (of_nat s :: 32 word))"
  have b: "(4096 :: uint64) = push_bit 12 1" by simp
  have bits: "bit a n \<Longrightarrow> 22 \<le> n" "bit c n \<Longrightarrow> n < 12" for n by (auto simp: a_def c_def bit_simps)
  have bit12: "n = 12" if "bit (push_bit 12 1 :: uint64) n" for n
  proof -
    have "12 \<le> n" "n - 12 = 0" using that by (simp_all only: bit_push_bit_iff bit_1_iff)
    then show ?thesis by simp
  qed
  have 1: "a OR push_bit 12 1 = a + push_bit 12 1" using bits(1) bit12 by (intro disjunctive_add [symmetric]) fastforce
  have "\<not> bit (a OR push_bit 12 1) n \<or> \<not> bit c n" for n
    using bits(1) [of n] bit12 [of n] bits(2) [of n] unfolding bit_or_iff by linarith
  then have 2: "(a OR push_bit 12 1) OR c = (a OR push_bit 12 1) + c" by (intro disjunctive_add [symmetric]) simp
  have "unat c = take_bit 64 (take_bit 12 (take_bit 32 s))"
    by (simp only: c_def unsigned_ucast_eq unsigned_take_bit_eq unsigned_of_nat len_bit0 len_num1) simp
  then have "unat c = s mod 2 ^ 12" by (simp only: take_bit_take_bit) (simp add: take_bit_eq_mod)
  then have "of_nat (unat c) = (of_nat (s mod 2 ^ 12) :: uint64)" by (simp only:)
  then have c: "c = of_nat (s mod 2 ^ 12)" by (simp only: of_nat_unat ucast_id)
  have a: "a = of_nat (t * 2 ^ 22)" by (simp add: a_def push_bit_eq_mult mult.commute)
  have "(a OR push_bit 12 1) OR c = a + push_bit 12 1 + c" using 2 unfolding 1 .
  also have "\<dots> = ident t (s mod 2 ^ 12)" by (simp add: a c ident_def)
  finally show ?thesis unfolding a_def c_def b .
qed

lemma unat_ident:
  assumes "t < 2 ^ 42" "s < 2 ^ 12"
  shows "unat (ident t s) = t * 2 ^ 22 + 2 ^ 12 + s"
proof -
  have "t * 2 ^ 22 \<le> (2 ^ 42 - 1) * 2 ^ 22" using assms(1) by (intro mult_right_mono) simp_all
  then have "t * 2 ^ 22 + 2 ^ 12 + s < 2 ^ 64" using assms(2) by simp
  then show ?thesis by (simp only: ident_def unsigned_of_nat) (simp add: take_bit_nat_eq_self_iff)
qed

lemma uuid_word:
  assumes "u_workid st = 1" "nowtime = of_nat t" "t < 2 ^ 42"
  shows "(push_bit 22 nowtime OR ucast (push_bit 12 (u_workid st AND 0x3ff))) OR ucast ((of_nat s :: 32 word) AND 0xFFF) = ident t (s mod 2 ^ 12)"
proof -
  have "(of_nat s :: 32 word) AND 0xFFF = take_bit 12 (of_nat s)" by (simp only: take_bit_eq_mask) (simp add: mask_eq_exp_minus_1)
  moreover have "(ucast (push_bit 12 (u_workid st AND 0x3ff)) :: uint64) = 4096" by (simp add: assms(1))
  ultimately show ?thesis using id_word [OF assms(3), of s] by (simp only: assms(2))
qed

text \<open>The time and the number with which a call ends.\<close>

definition uuid_next :: "uint64 \<Rightarrow> uint64 list \<Rightarrow> uuid_state \<Rightarrow> (uuid_error, uint64 \<times> 32 word) result" where
  "uuid_next nowtime later st =
     (if nowtime = u_last_stamp st
      then if u_seqid st = 0x1000
           then (case wait_later (u_last_stamp st) later of None \<Rightarrow> Inl StillWaiting | Some nowtime \<Rightarrow> Inr (nowtime, 0))
           else Inr (nowtime, u_seqid st + 1)
      else Inr (nowtime, 0))"

lemma uuid_eq:
  assumes "u_workid st = 1" "nowtime = of_nat t" "t < 2 ^ 42" "\<not> nowtime < u_last_stamp st" "uuid_next nowtime later st = Inr (t', of_nat q)"
  shows "uuid nowtime later st = Inr (ident t (q mod 2 ^ 12), st\<lparr>u_seqid := of_nat q, u_last_stamp := t'\<rparr>)"
  unfolding uuid_def Let_def uuid_next_def [symmetric] assms(5) bindE_simps prod.case uuid_word [OF assms(1-3), of q] if_not_P [OF assms(4)] ..

text \<open>
  C22: the ids grow as long as fewer than 4096 of them are made in a millisecond. The next one repeats the
  first id of the millisecond: the number has reached 4096, of which the mask keeps 0; and so does the one
  after it, which waits for the next millisecond but keeps the old time in the id.
\<close>

theorem uuid_ids:
  assumes "t < 2 ^ 42" "t < t'" "t' < 2 ^ 42" "s < 2 ^ 12" "s' < 2 ^ 12"
  defines "st \<equiv> \<lambda>n. \<lparr>u_workid = 1, u_seqid = of_nat n, u_last_stamp = of_nat t\<rparr>"
  shows "uuid (of_nat t') later (st s) = Inr (ident t' 0, (st 0)\<lparr>u_last_stamp := of_nat t'\<rparr>) \<and>
    (s < 4095 \<longrightarrow> uuid (of_nat t) later (st s) = Inr (ident t (s + 1), st (s + 1))) \<and>
    uuid (of_nat t) later (st 4095) = Inr (ident t 0, st 4096) \<and>
    uuid (of_nat t) [of_nat t, of_nat t'] (st 4096) = Inr (ident t 0, (st 0)\<lparr>u_last_stamp := of_nat t'\<rparr>) \<and>
    ident t s < ident t' s' \<and> (s < s' \<longrightarrow> ident t s < ident t s')"
proof -
  have lt: "(of_nat t :: uint64) < of_nat t'" "(of_nat t :: uint64) \<noteq> of_nat t'" "\<not> (of_nat t' :: uint64) < of_nat t" "\<not> (of_nat t' :: uint64) \<le> of_nat t"
    using assms(1-3) by (simp_all add: word_less_nat_alt word_le_nat_alt word_unat_eq_iff unsigned_of_nat take_bit_nat_eq_self)
  have w: "u_workid (st n) = 1" for n by (simp add: st_def)
  have n: "uuid_next (of_nat t') later (st s) = Inr (of_nat t', of_nat 0)" using lt by (simp add: uuid_next_def st_def)
  have 1: "uuid (of_nat t') later (st s) = Inr (ident t' 0, (st 0)\<lparr>u_last_stamp := of_nat t'\<rparr>)"
    using uuid_eq [OF w refl assms(3) _ n] lt by (simp add: st_def)
  have next_seq: "uuid (of_nat t) later (st n) = Inr (ident t (Suc n mod 2 ^ 12), st (Suc n))" if "n < 4096" for n
  proof -
    have "unat (of_nat n :: 32 word) \<noteq> 4096" using that by (simp add: unsigned_of_nat take_bit_nat_eq_self)
    then have "(of_nat n :: 32 word) \<noteq> 0x1000" by auto
    then have "uuid_next (of_nat t) later (st n) = Inr (of_nat t, of_nat (Suc n))" by (simp add: uuid_next_def st_def)
    from uuid_eq [OF w refl assms(1) _ this] show ?thesis by (simp add: st_def)
  qed
  have "uuid_next (of_nat t) [of_nat t, of_nat t'] (st 4096) = Inr (of_nat t', of_nat 0)" using lt by (simp add: uuid_next_def st_def)
  from uuid_eq [OF w refl assms(1) _ this] have
    4: "uuid (of_nat t) [of_nat t, of_nat t'] (st 4096) = Inr (ident t 0, (st 0)\<lparr>u_last_stamp := of_nat t'\<rparr>)" by (simp add: st_def)
  have "(t + 1) * 2 ^ 22 \<le> t' * 2 ^ 22" using assms(2) by (intro mult_right_mono) simp_all
  then have "t * 2 ^ 22 + 2 ^ 12 + s < t' * 2 ^ 22 + 2 ^ 12 + s'" using assms(4,5) by simp
  then have 5: "ident t s < ident t' s'" "s < s' \<Longrightarrow> ident t s < ident t s'"
    by (simp_all only: add_less_cancel_left word_less_nat_alt unat_ident [OF assms(1,4)] unat_ident [OF assms(3,5)] unat_ident [OF assms(1,5)])
  have 2: "s < 4095 \<Longrightarrow> uuid (of_nat t) later (st s) = Inr (ident t (s + 1), st (s + 1))" using next_seq [of s] by simp
  have 3: "uuid (of_nat t) later (st 4095) = Inr (ident t 0, st 4096)" using next_seq [of 4095] by simp
  show ?thesis using 1 2 3 4 5 by blast
qed

theorem uuid_ids_witness:
  "uuid 1000 [] \<lparr>u_workid = 1, u_seqid = 4095, u_last_stamp = 1000\<rparr> =
     Inr (ident 1000 0, \<lparr>u_workid = 1, u_seqid = 4096, u_last_stamp = 1000\<rparr>)"
  using uuid_ids [of 1000 1001 0 1 "[]"] by simp

end
