(* ===== verification/Spec2Isabelle.thy ===== *)
theory Spec2Isabelle
  imports Prelude Arith_Uint256 Compact Endian Uint256 ByteBuffer Block Merkle BlockIndex Chain Consensus
    ChainManager BestChain AcceptBlock Blockchain Kcp KcpStream KcpReceive KcpSend KcpLink KcpDelivery KcpControl
    KcpBounds ConnectPacket Network NetworkInvariant NetworkSafety NetworkDelivery NetworkBlocking NetworkProperties
    ThreadPool Common
begin

text \<open>
  Verification of p2pclouds, a peer-to-peer node in C++ with a proof-of-work block chain and a reliable
  datagram transport. The paths below are under \<open>src/src\<close>.

  \<^bold>\<open>The program and its parts.\<close> An application (\<open>apps/\<close>, \<open>libs/app\<close>) opens a network interface (\<open>libs/network\<close>)
  on a UDP socket and may start a block chain (\<open>libs/blockchain\<close>). The network interface recognises control
  packets, keeps a table of sessions and gives every other datagram to the session it belongs to. A
  session is a KCP control block (\<open>deps/kcp/ikcp.c\<close>) that turns datagrams into ordered messages; the
  interface hands them to the callback of the application and runs a timer for retransmissions and
  timeouts. The block chain keeps a tree of block indexes and an active chain, adopts the branch with the
  most work, and mines: the threads of a pool (\<open>libs/common/threadpool.h\<close>) assemble blocks and search for a
  nonce. Below both lie 256-bit integers, opaque blobs, byte buffers and hash objects (\<open>libs/common\<close>).

  \<^bold>\<open>Theories and sources.\<close>
  \<^item> \<open>Prelude\<close>: machine integers, the result type \<open>('e, 'a) result\<close> with \<open>bindE\<close>, folds over index ranges.
  \<^item> \<open>Arith_Uint256\<close>, \<open>Compact\<close>: \<open>libs/common/arith_uint256.h\<close> and \<open>.cpp\<close>. A number is the list of its eight 32-bit
    limbs, every loop over limbs is a fold with the carries of the code; \<open>val\<close> is the abstraction to
    naturals. The locale \<open>wrapping_uint\<close> states the interface of wrapping integers.
  \<^item> \<open>Endian\<close>, \<open>Uint256\<close>: \<open>endian.h\<close>, \<open>uint256.h\<close> and \<open>.cpp\<close>: byte order on both kinds of host, blobs, hexadecimal text.
  \<^item> \<open>ByteBuffer\<close>: \<open>byte_buffer.h\<close>. A record of the two positions and the vector; \<open>unread\<close> abstracts it to a queue
    of bytes. The locale \<open>codec\<close> is the contract of the stream operators of a type, interpreted for every type
    that the program serialises; \<open>codec_pair\<close> extends it to maps.
  \<^item> \<open>Common\<close>, \<open>ThreadPool\<close>: string helpers and ids of \<open>common.h\<close>; \<open>threadpool.h\<close> and \<open>Blockchain::start\<close> as an
    interleaving of critical sections and notifications.
  \<^item> \<open>Block\<close>, \<open>Merkle\<close>: \<open>hash.h\<close>, \<open>transaction.h\<close>, \<open>block.h\<close>, \<open>merkle.cpp\<close>. The digest SHA-256 is a parameter.
  \<^item> \<open>BlockIndex\<close>, \<open>Chain\<close>, \<open>ChainManager\<close>: \<open>block_index.h\<close>, \<open>chain.h\<close> and \<open>.cpp\<close>. Block indexes live in an explicit heap, a
    map from addresses to records, because predecessor, skip and chain pointers share them. The candidate
    set is ordered by the comparator of the code; the locale \<open>set_order\<close> states what \<open>std::set\<close> needs of it.
    \<open>BestChain\<close> and \<open>AcceptBlock\<close> hold the correctness of the manager.
  \<^item> \<open>Consensus\<close>, \<open>Blockchain\<close>: \<open>consensus.cpp\<close>, \<open>blockchain.cpp\<close>: proof of work, retargeting, subsidy, mining, genesis block,
    and the node as the reachable states of its operations.
  \<^item> \<open>Kcp\<close>: every function of \<open>ikcp.c\<close> that changes the protocol state, on a record with the members of
    \<open>IKCPCB\<close>; \<open>KcpStream\<close>, \<open>KcpReceive\<close>, \<open>KcpSend\<close>, \<open>KcpLink\<close>, \<open>KcpDelivery\<close>, \<open>KcpControl\<close>, \<open>KcpBounds\<close>: its correctness.
  \<^item> \<open>ConnectPacket\<close>, \<open>Network\<close>: \<open>connect_packet.cpp\<close>, \<open>session.cpp\<close>, \<open>network_interface.cpp\<close>, \<open>app.cpp\<close> and the callbacks of the
    applications. \<open>NetworkInvariant\<close>, \<open>NetworkSafety\<close>, \<open>NetworkDelivery\<close>, \<open>NetworkBlocking\<close>, \<open>NetworkProperties\<close>: their
    correctness. The locale \<open>ordered_map\<close> is the table of sessions, \<open>event_handler\<close> the contract of an event callback,
    interpreted on the callbacks of the applications.

  \<^bold>\<open>Conventions.\<close> Definitions keep the names of the code where Isabelle allows it. A thrown exception, a
  failed assertion and an access outside of a buffer are values of an error type, so that the theorems
  say when they happen. Integers keep their width where overflow matters. Loops are recursive functions
  with a termination proof; \<open>p2pclouds_replace\<close>, which may run forever, is a partial function.

  \<^bold>\<open>What is shown.\<close>
  \<^item> Arithmetic: the operators compute modulo \<open>2 ^ 256\<close>, division is exact and fails on zero only, the compact
    form round-trips.
  \<^item> Buffers: memory safety in every state that the reading and writing operations reach, and exactly which
    arguments of the unchecked setters break it; refinement of a queue with its errors; round trips of all
    stream operators.
  \<^item> Merkle trees: the constant-space computation returns the root of the reference tree, branches verify,
    and without a collision the root of a tree that is not flagged binds its leaves.
  \<^item> Block tree: \<open>acceptBlock\<close> returns on every \<open>acceptable\<close> block and keeps the invariant \<open>manager_ok\<close>. A block need not be
    valid for that: its hash fields have 32 bytes, its hash and Merkle root can be computed, counters and
    work do not overflow, and a block with the genesis hash, for which the code skips all checks, is in the
    tree already and has a transaction. The tip never loses work; activation ends with the best candidate; skip pointers and forks agree with the walk along
    predecessors.
  \<^item> Consensus: targets, proofs of work, block times and the supply; a mined block carries a valid proof and
    is acceptable; the node keeps its invariant from the genesis block on, through transactions, blocks of
    the network and mining, when the hash of its genesis block is not the null hash.
  \<^item> KCP: over a network that loses, repeats and reorders packets the application reads a prefix of what
    was sent; a message over a loss-free connection arrives with the first flush; flushing stays inside of
    the packet buffer.
  \<^item> Network: whatever datagrams arrive, the table of sessions keeps its invariant and the event loop its
    outstanding operations; the datagrams that make it fail are named exactly; a connection is
    established when its id is free on both sides, a message that fits the receive buffer reaches the
    application of the peer, a longer one arrives and blocks the session for the rest of its life, sessions
    expire.
  \<^item> Thread pool: tasks start in order, no wake-up is lost, a stopped pool ends.
  Some theorems prove faults of the code: the overflow of retargeting, the rejection of blocks with two
  transactions, messages that block a session, colliding session ids, datagrams that stop the event
  loop, repeated ids.

  \<^bold>\<open>Bounds and fuel.\<close> The search for a nonce ends at the code's limit \<open>maxTries\<close> of tries, which is
  also the fuel of the outer loop of \<open>build\<close>, and the theorem shows that it suffices; walks along predecessors
  take fuel above the height they start at; the activation loop is given the largest height among the
  candidates and two more rounds, since each round moves the tip up towards the best candidate, and the
  theorem shows that they suffice. Merkle trees have at most \<open>2 ^ 31\<close> leaves, above which the code's counter wraps.
  Streams of KCP have at most \<open>2 ^ 30\<close> segments and windows of that size, so that 32-bit serial numbers
  compare as the numbers they stand for. A session has the window of 32 segments with which the code
  creates it, and datagrams are shorter than the receive buffer of 32768 bytes, or fail.

  \<^bold>\<open>Not modelled.\<close> Third-party code: asio (the socket is the sequence of its datagrams), gflags, spdlog,
  OpenSSL (the digest is a parameter) and utf8cpp. Logging, printing and the text for it; \<open>libs/log\<close>. Floating
  point: \<open>getdouble\<close> of the integers and the statistics of \<open>build\<close>. Files, environment and wide characters of
  \<open>common.h\<close>. \<open>libs/kademlia\<close> is an empty class and \<open>singleton.h\<close> a static instance. Locks of the block chain: its
  operations are atomic in the model, and the races of several mining threads are not described. Errors
  of the operating system on an open socket, failing allocations, and callbacks that call the interface
  again or keep a session are outside of the model, as is the part of \<open>checkAllBlockIndexs\<close> behind its
  unconditional return. The allocator hooks and the release of a control block of \<open>ikcp.c\<close> only manage memory.
\<close>

end
